(* ===== verification/TF_Prelude.thy ===== *)
theory TF_Prelude
  imports Complex_Main "HOL-Library.AList" "HOL-Library.Char_ord" "HOL-Library.List_Lexorder"
    "HOL-Library.Word" "HOL-Library.Multiset"
begin

text \<open>
  What every component of the development shares.

  \<^item> Collections of facts: \<open>umap_simps\<close> for the hash maps, \<open>err_simps\<close> for the
    error values.
  \<^item> Errors (\<open>include/topology_fabric/result.hpp\<close>): a C++ function that may throw
    \<open>TopologyError\<close> returns \<open>terror + 'a\<close>; \<open>Inl\<close> is the exception.
  \<^item> \<open>std::unordered_map\<close>: an association list with distinct keys, its entries in the order
    in which the hash map happens to enumerate them. The C++ standard leaves that order open, so
    whatever depends on it is stated for a list in any order.
  \<^item> \<open>std::map<std::string, V>\<close>: an association list sorted by key.
  \<^item> The locale \<open>keyed_store\<close>: what the snapshot builder and the property maps rely on when
    they call \<open>find\<close>, \<open>emplace\<close> and \<open>size\<close>.
  \<^item> \<open>std::sort\<close> with a strict weak order, as insertion sort.
\<close>

named_theorems umap_simps
named_theorems err_simps

section \<open>Errors\<close>

datatype error_code =
    EC_OK
  | EC_INVALID_ARGUMENT
  | EC_NOT_FOUND
  | EC_STALE_HANDLE
  | EC_INVALID_GRAPH
  | EC_MALFORMED_DATA
  | EC_OVERSIZED
  | EC_UNSUPPORTED
  | EC_PROVIDER_FAILED
  | EC_INTERNAL
  | EC_VALIDATION_FAILED

text \<open>A thrown \<open>TopologyError\<close>: its code and its message.\<close>

datatype terror = TopologyError (te_code: error_code) (te_message: string)

type_synonym 'a tresult = "terror + 'a"

text \<open>Sequencing: an exception leaves the caller at once.\<close>

fun tbind :: "'a tresult \<Rightarrow> ('a \<Rightarrow> 'b tresult) \<Rightarrow> 'b tresult" where
  "tbind (Inl e) f = Inl e"
| "tbind (Inr x) f = f x"

fun tmap :: "('a \<Rightarrow> 'b tresult) \<Rightarrow> 'a list \<Rightarrow> 'b list tresult" where
  "tmap f [] = Inr []"
| "tmap f (x # xs) = tbind (f x) (\<lambda>y. tbind (tmap f xs) (\<lambda>ys. Inr (y # ys)))"

lemma tbind_Inr_iff [err_simps]:
  "tbind m f = Inr y \<longleftrightarrow> (\<exists>x. m = Inr x \<and> f x = Inr y)"
  by (cases m) auto

lemma tbind_cong [fundef_cong]:
  "m = m' \<Longrightarrow> (\<And>x. m' = Inr x \<Longrightarrow> f x = g x) \<Longrightarrow> tbind m f = tbind m' g"
  by (cases m') auto

lemma tmap_all_Inr:
  "(\<And>x. x \<in> set xs \<Longrightarrow> f x = Inr (g x)) \<Longrightarrow> tmap f xs = Inr (map g xs)"
  by (induction xs) auto

section \<open>Hash maps\<close>

type_synonym ('k, 'v) umap = "('k \<times> 'v) list"

definition um_keys :: "('k, 'v) umap \<Rightarrow> 'k list" where
  "um_keys m = map fst m"

definition um_find :: "('k, 'v) umap \<Rightarrow> 'k \<Rightarrow> 'v option" where
  "um_find m k = map_of m k"

definition um_count :: "('k, 'v) umap \<Rightarrow> 'k \<Rightarrow> bool" where
  "um_count m k \<longleftrightarrow> um_find m k \<noteq> None"

text \<open>\<open>emplace\<close> and \<open>try_emplace\<close>: insert only if the key is absent; the flag says
  whether it inserted.\<close>

definition um_emplace :: "'k \<Rightarrow> 'v \<Rightarrow> ('k, 'v) umap \<Rightarrow> ('k, 'v) umap \<times> bool" where
  "um_emplace k v m = (if um_count m k then (m, False) else (m @ [(k, v)], True))"

text \<open>Assignment through \<open>operator[]\<close>, and its read with the default value inserted.\<close>

definition um_put :: "'k \<Rightarrow> 'v \<Rightarrow> ('k, 'v) umap \<Rightarrow> ('k, 'v) umap" where
  "um_put k v m = AList.update k v m"

definition um_get :: "'v \<Rightarrow> ('k, 'v) umap \<Rightarrow> 'k \<Rightarrow> 'v" where
  "um_get d m k = (case um_find m k of None \<Rightarrow> d | Some v \<Rightarrow> v)"

definition um_ok :: "('k, 'v) umap \<Rightarrow> bool" where
  "um_ok m \<longleftrightarrow> distinct (um_keys m)"

lemma um_find_Nil [umap_simps, simp]: "um_find [] k = None"
  by (simp add: um_find_def)

lemma um_ok_Nil [umap_simps, simp]: "um_ok []"
  by (simp add: um_ok_def um_keys_def)

lemma um_keys_Nil [simp]: "um_keys [] = []"
  by (simp add: um_keys_def)

lemma um_count_iff [umap_simps]: "um_count m k \<longleftrightarrow> k \<in> set (um_keys m)"
  by (auto simp: um_count_def um_find_def um_keys_def map_of_eq_None_iff)

lemma um_find_None_iff [umap_simps]: "um_find m k = None \<longleftrightarrow> k \<notin> set (um_keys m)"
  by (auto simp: um_find_def um_keys_def map_of_eq_None_iff)

lemma um_find_put [umap_simps]:
  "um_find (um_put k v m) k' = (if k' = k then Some v else um_find m k')"
  by (simp add: um_find_def um_put_def update_conv')

lemma um_keys_put [umap_simps]: "set (um_keys (um_put k v m)) = insert k (set (um_keys m))"
  by (simp add: um_keys_def um_put_def dom_update)

lemma um_ok_put [umap_simps]: "um_ok m \<Longrightarrow> um_ok (um_put k v m)"
  by (simp add: um_ok_def um_keys_def um_put_def distinct_update)

lemma um_get_put [umap_simps]:
  "um_get d (um_put k v m) k' = (if k' = k then v else um_get d m k')"
  by (simp add: um_get_def um_find_put)

lemma um_find_emplace [umap_simps]:
  "um_find (fst (um_emplace k v m)) k' =
     (case um_find m k' of Some w \<Rightarrow> Some w | None \<Rightarrow> if k' = k then Some v else None)"
  by (auto simp: um_emplace_def um_count_def um_find_def map_add_def split: option.splits)

lemma um_emplace_flag [umap_simps]: "snd (um_emplace k v m) \<longleftrightarrow> um_find m k = None"
  by (simp add: um_emplace_def um_count_def)

lemma um_ok_emplace [umap_simps]: "um_ok m \<Longrightarrow> um_ok (fst (um_emplace k v m))"
  by (auto simp: um_emplace_def um_ok_def um_count_iff um_keys_def)

lemma um_length_emplace [umap_simps]:
  "length (fst (um_emplace k v m)) = (if um_find m k = None then Suc (length m) else length m)"
  by (simp add: um_emplace_def um_count_def)

lemma um_find_mem: "um_ok m \<Longrightarrow> um_find m k = Some v \<longleftrightarrow> (k, v) \<in> set m"
  by (simp add: um_find_def um_ok_def um_keys_def)

lemma um_find_perm:
  assumes "um_ok m" and "mset m = mset m'"
  shows "um_find m = um_find m'"
proof
  fix k
  have "um_ok m'"
    using assms by (metis mset_map mset_eq_imp_distinct_iff um_keys_def um_ok_def)
  moreover have "set m = set m'" using assms(2) by (rule mset_eq_setD)
  ultimately show "um_find m k = um_find m' k"
    using assms(1) by (metis not_None_eq um_find_mem)
qed

section \<open>Ordered maps\<close>

text \<open>\<open>std::map<std::string, V>\<close>: iteration is by key, \<open>emplace\<close> keeps the entry
  that is there, \<open>operator[]\<close> assignment overwrites it.\<close>

type_synonym 'v omap = "(string \<times> 'v) list"

definition om_find :: "'v omap \<Rightarrow> string \<Rightarrow> 'v option" where
  "om_find m k = map_of m k"

fun om_emplace :: "string \<Rightarrow> 'v \<Rightarrow> 'v omap \<Rightarrow> 'v omap \<times> bool" where
  "om_emplace k v [] = ([(k, v)], True)"
| "om_emplace k v ((k', v') # m) =
     (if k < k' then ((k, v) # (k', v') # m, True)
      else if k = k' then ((k', v') # m, False)
      else (let (m', b) = om_emplace k v m in ((k', v') # m', b)))"

fun om_put :: "string \<Rightarrow> 'v \<Rightarrow> 'v omap \<Rightarrow> 'v omap" where
  "om_put k v [] = [(k, v)]"
| "om_put k v ((k', v') # m) =
     (if k < k' then (k, v) # (k', v') # m
      else if k = k' then (k, v) # m
      else (k', v') # om_put k v m)"

definition om_ok :: "'v omap \<Rightarrow> bool" where
  "om_ok m \<longleftrightarrow> sorted_wrt (<) (map fst m)"

lemma om_keys_emplace: "fst ` set (fst (om_emplace k v m)) = insert k (fst ` set m)"
  by (induction k v m rule: om_emplace.induct)
    (auto simp: Let_def case_prod_beta)

lemma om_keys_put: "fst ` set (om_put k v m) = insert k (fst ` set m)"
  by (induction k v m rule: om_put.induct) auto

lemma om_ok_emplace: "om_ok m \<Longrightarrow> om_ok (fst (om_emplace k v m))"
proof (induction k v m rule: om_emplace.induct)
  case (2 k v k' v' m)
  have "set (map fst (fst (om_emplace k v m))) = insert k (set (map fst m))"
    using om_keys_emplace [of k v m] by simp
  with 2 show ?case
    by (auto simp: om_ok_def Let_def case_prod_beta simp del: set_map)
qed (simp add: om_ok_def)

lemma om_ok_put: "om_ok m \<Longrightarrow> om_ok (om_put k v m)"
proof (induction k v m rule: om_put.induct)
  case (2 k v k' v' m)
  have "set (map fst (om_put k v m)) = insert k (set (map fst m))"
    using om_keys_put [of k v m] by simp
  with 2 show ?case
    by (auto simp: om_ok_def simp del: set_map)
qed (simp add: om_ok_def)

lemma om_find_less: "om_ok ((k', v') # m) \<Longrightarrow> k < k' \<Longrightarrow> om_find m k = None"
  by (force simp: om_ok_def om_find_def map_of_eq_None_iff)

lemma om_find_emplace:
  "om_ok m \<Longrightarrow> om_find (fst (om_emplace k v m)) j =
     (case om_find m j of Some w \<Rightarrow> Some w | None \<Rightarrow> if j = k then Some v else None)"
proof (induction k v m rule: om_emplace.induct)
  case (2 k v k' v' m)
  then have "om_ok m" by (simp add: om_ok_def)
  with 2 show ?case
    using om_find_less [of k' v' m k]
    by (cases "j = k'") (auto simp: om_find_def Let_def case_prod_beta split: option.splits)
qed (simp add: om_find_def)

lemma om_find_put:
  "om_ok m \<Longrightarrow> om_find (om_put k v m) j = (if j = k then Some v else om_find m j)"
proof (induction k v m rule: om_put.induct)
  case (2 k v k' v' m)
  then have "om_ok m" by (simp add: om_ok_def)
  with 2 show ?case by (auto simp: om_find_def)
qed (simp add: om_find_def)

lemma om_emplace_flag: "om_ok m \<Longrightarrow> snd (om_emplace k v m) \<longleftrightarrow> om_find m k = None"
proof (induction k v m rule: om_emplace.induct)
  case (2 k v k' v' m)
  then have "om_ok m" by (simp add: om_ok_def)
  with 2 show ?case
    using om_find_less [of k' v' m k]
    by (auto simp: om_find_def Let_def case_prod_beta)
qed (simp add: om_find_def)

lemma om_length_emplace:
  "om_ok m \<Longrightarrow>
     length (fst (om_emplace k v m)) = (if om_find m k = None then Suc (length m) else length m)"
proof (induction k v m rule: om_emplace.induct)
  case (2 k v k' v' m)
  then have "om_ok m" by (simp add: om_ok_def)
  with 2 show ?case
    using om_find_less [of k' v' m k]
    by (auto simp: om_find_def Let_def case_prod_beta)
qed (simp add: om_find_def)

section \<open>The interface of the keyed stores\<close>

text \<open>
  \<open>SnapshotBuilder::add_node\<close>, the merge and the property maps fill a store with
  \<open>emplace\<close> and read it with \<open>find\<close> and \<open>size\<close>. The laws are those the C++ standard
  gives for associative containers with unique keys.
\<close>

locale keyed_store =
  fixes find :: "'m \<Rightarrow> 'k \<Rightarrow> 'v option"
    and emplace :: "'k \<Rightarrow> 'v \<Rightarrow> 'm \<Rightarrow> 'm \<times> bool"
    and size :: "'m \<Rightarrow> nat"
    and valid :: "'m \<Rightarrow> bool"
  assumes valid_emplace: "valid m \<Longrightarrow> valid (fst (emplace k v m))"
    and find_emplace: "valid m \<Longrightarrow> find (fst (emplace k v m)) j =
          (case find m j of Some w \<Rightarrow> Some w | None \<Rightarrow> if j = k then Some v else None)"
    and flag_emplace: "valid m \<Longrightarrow> snd (emplace k v m) \<longleftrightarrow> find m k = None"
    and size_emplace: "valid m \<Longrightarrow>
          size (fst (emplace k v m)) = (if find m k = None then Suc (size m) else size m)"
begin

lemma keep_first: "valid m \<Longrightarrow> find m k = Some w \<Longrightarrow> find (fst (emplace k v m)) k = Some w"
  by (simp add: find_emplace)

lemma keep_others: "valid m \<Longrightarrow> j \<noteq> k \<Longrightarrow> find (fst (emplace k v m)) j = find m j"
  by (simp add: find_emplace split: option.splits)

lemma valid_fold: "valid m \<Longrightarrow> valid (fold (\<lambda>(k, v) m. fst (emplace k v m)) kvs m)"
  by (induction kvs arbitrary: m) (auto simp: valid_emplace)

text \<open>Filling a store from a list: of the entries with one key the first wins.\<close>

lemma find_fold:
  "valid m \<Longrightarrow> find (fold (\<lambda>(k, v) m. fst (emplace k v m)) kvs m) j =
     (case find m j of Some w \<Rightarrow> Some w | None \<Rightarrow> map_of kvs j)"
proof (induction kvs arbitrary: m)
  case Nil
  then show ?case by (simp split: option.splits)
next
  case (Cons kv kvs)
  then show ?case
    by (cases kv) (simp add: valid_emplace find_emplace split: option.splits)
qed

end

interpretation um: keyed_store um_find um_emplace length um_ok
  by unfold_locales (simp_all add: umap_simps)

interpretation om: keyed_store om_find om_emplace length om_ok
  by unfold_locales
    (simp_all add: om_ok_emplace om_find_emplace om_emplace_flag om_length_emplace)

section \<open>Sorting\<close>

text \<open>
  \<open>std::sort\<close> and \<open>std::stable_sort\<close> with a comparison \<open>lt\<close>. Insertion from the right
  keeps the order of elements that \<open>lt\<close> does not separate, as \<open>std::stable_sort\<close> must and
  \<open>std::sort\<close> may. The locale \<open>sort_order\<close> is the requirement the standard puts on
  \<open>lt\<close> (a strict weak order), on the elements that satisfy \<open>ok\<close>; \<open>sort_by_unique\<close> says
  when the result does not depend on the freedom \<open>std::sort\<close> has.
\<close>

fun ins_by :: "('a \<Rightarrow> 'a \<Rightarrow> bool) \<Rightarrow> 'a \<Rightarrow> 'a list \<Rightarrow> 'a list" where
  "ins_by lt x [] = [x]"
| "ins_by lt x (y # ys) = (if lt y x then y # ins_by lt x ys else x # y # ys)"

fun sort_by :: "('a \<Rightarrow> 'a \<Rightarrow> bool) \<Rightarrow> 'a list \<Rightarrow> 'a list" where
  "sort_by lt [] = []"
| "sort_by lt (x # xs) = ins_by lt x (sort_by lt xs)"

lemma mset_ins_by [simp]: "mset (ins_by lt x ys) = add_mset x (mset ys)"
  by (induction ys) auto

lemma mset_sort_by [simp]: "mset (sort_by lt xs) = mset xs"
  by (induction xs) auto

lemma set_sort_by [simp]: "set (sort_by lt xs) = set xs"
  by (rule mset_eq_setD) simp

lemma length_sort_by [simp]: "length (sort_by lt xs) = length xs"
  by (rule mset_eq_length) simp

locale sort_order =
  fixes lt :: "'a \<Rightarrow> 'a \<Rightarrow> bool" and ok :: "'a \<Rightarrow> bool"
  assumes asym: "ok a \<Longrightarrow> ok b \<Longrightarrow> lt a b \<Longrightarrow> \<not> lt b a"
    and neg_trans: "ok a \<Longrightarrow> ok b \<Longrightarrow> ok c \<Longrightarrow> \<not> lt a b \<Longrightarrow> \<not> lt b c \<Longrightarrow> \<not> lt a c"
begin

abbreviation sorted_lt :: "'a list \<Rightarrow> bool" where
  "sorted_lt \<equiv> sorted_wrt (\<lambda>a b. \<not> lt b a)"

lemma sorted_ins_by:
  "ok x \<Longrightarrow> \<forall>y \<in> set ys. ok y \<Longrightarrow> sorted_lt ys \<Longrightarrow> sorted_lt (ins_by lt x ys)"
proof (induction ys)
  case (Cons y ys)
  have "set (ins_by lt x ys) = insert x (set ys)"
    using mset_ins_by [of lt x ys] by (metis set_mset_add_mset_insert set_mset_mset)
  with Cons show ?case
    using asym [of y x] neg_trans [of _ y x] by auto
qed simp

lemma sorted_sort_by: "\<forall>x \<in> set xs. ok x \<Longrightarrow> sorted_lt (sort_by lt xs)"
  by (induction xs) (auto intro: sorted_ins_by)

text \<open>Two sorted arrangements of one multiset agree when \<open>lt\<close> separates any two different
  elements.\<close>

lemma sorted_unique:
  assumes "mset xs = mset ys" and "\<forall>x \<in> set xs. ok x" and "sorted_lt xs" and "sorted_lt ys"
    and sep: "\<And>a b. a \<in> set xs \<Longrightarrow> b \<in> set xs \<Longrightarrow> \<not> lt a b \<Longrightarrow> \<not> lt b a \<Longrightarrow> a = b"
  shows "xs = ys"
  using assms
proof (induction xs arbitrary: ys)
  case (Cons x xs)
  from Cons.prems(1) obtain y ys' where ys: "ys = y # ys'" by (cases ys) auto
  have sets: "set (x # xs) = set ys" using Cons.prems(1) by (rule mset_eq_setD)
  have "x = y"
  proof (rule ccontr)
    assume ne: "x \<noteq> y"
    with sets ys have "y \<in> set xs" and "x \<in> set ys'" by auto
    with Cons.prems(3,4) ys have "\<not> lt y x" and "\<not> lt x y" by auto
    with ne sets ys Cons.prems(5) [of x y] show False by auto
  qed
  moreover have "xs = ys'"
    using Cons.prems ys \<open>x = y\<close> by (intro Cons.IH) auto
  ultimately show ?case by (simp add: ys)
qed simp

lemma sort_by_unique:
  assumes "mset xs = mset ys" and "\<forall>x \<in> set xs. ok x"
    and "\<And>a b. a \<in> set xs \<Longrightarrow> b \<in> set xs \<Longrightarrow> \<not> lt a b \<Longrightarrow> \<not> lt b a \<Longrightarrow> a = b"
  shows "sort_by lt xs = sort_by lt ys"
proof (rule sorted_unique)
  have sets: "set xs = set ys" using assms(1) by (rule mset_eq_setD)
  show "mset (sort_by lt xs) = mset (sort_by lt ys)" using assms(1) by simp
  show "sorted_lt (sort_by lt xs)" using assms(2) by (simp add: sorted_sort_by)
  show "sorted_lt (sort_by lt ys)" using assms(2) sets by (simp add: sorted_sort_by)
  show "\<forall>x \<in> set (sort_by lt xs). ok x" using assms(2) by simp
qed (use assms(3) in auto)

end

text \<open>The usual way to meet the requirement: \<open>lt\<close> compares a key in a linear order.\<close>

lemma sort_order_key:
  fixes f :: "'a \<Rightarrow> 'b::linorder"
  shows "sort_order (\<lambda>a b. f a < f b) ok"
  by unfold_locales auto

end
