(* ===== verification/TF_Types.thy ===== *)
theory TF_Types
  imports TF_Prelude
begin

text \<open>
  The enumerations of \<open>include/topology_fabric/types.hpp\<close> and their conversions to and from
  strings (\<open>src/core/types.cpp\<close>). The constructors carry the enumeration's initials, because
  several enumerations of the code share a constant such as \<open>UNKNOWN\<close>.

  The locale \<open>enum_codec\<close> is the contract the serializer and the command line rely on: every
  constant survives the trip through its string, and a string that names no constant reads as the
  enumeration's default and nothing else. Every pair of conversion functions interprets it.
\<close>

section \<open>The contract of the conversions\<close>

locale enum_codec =
  fixes enc :: "'e \<Rightarrow> string" and dec :: "string \<Rightarrow> 'e" and dflt :: 'e
  assumes dec_enc: "dec (enc x) = x"
    and dec_known: "dec s = dflt \<or> enc (dec s) = s"
begin

lemma enc_inj: "enc x = enc y \<longleftrightarrow> x = y"
  by (metis dec_enc)

lemma dec_unknown: "s \<notin> range enc \<Longrightarrow> dec s = dflt"
  by (metis dec_known rangeI)

lemma dec_eq_iff: "dec s = x \<longleftrightarrow> s = enc x \<or> (x = dflt \<and> s \<notin> range enc)"
  by (metis dec_enc dec_known dec_unknown image_iff)

text \<open>Reading a string and writing it back gives the string, or the default's name.\<close>

lemma enc_dec: "enc (dec s) = (if s \<in> range enc then s else enc dflt)"
  by (auto simp: dec_enc dec_unknown)

end

section \<open>The enumerations\<close>

datatype node_type =
    NT_MACHINE
  | NT_CPU_PACKAGE
  | NT_CPU_CORE
  | NT_CPU_THREAD
  | NT_NUMA_NODE
  | NT_HOST_MEMORY_DOMAIN
  | NT_ACCELERATOR
  | NT_ACCELERATOR_MEMORY_DOMAIN
  | NT_PCI_ROOT
  | NT_PCI_BRIDGE
  | NT_PCI_DEVICE
  | NT_NETWORK_INTERFACE
  | NT_STORAGE_DEVICE
  | NT_SHARED_MEMORY_DOMAIN
  | NT_UNKNOWN
  | NT_EXTENSION

fun node_type_to_string :: "node_type \<Rightarrow> string" where
  "node_type_to_string NT_MACHINE = ''machine''"
| "node_type_to_string NT_CPU_PACKAGE = ''cpu_package''"
| "node_type_to_string NT_CPU_CORE = ''cpu_core''"
| "node_type_to_string NT_CPU_THREAD = ''cpu_thread''"
| "node_type_to_string NT_NUMA_NODE = ''numa_node''"
| "node_type_to_string NT_HOST_MEMORY_DOMAIN = ''host_memory_domain''"
| "node_type_to_string NT_ACCELERATOR = ''accelerator''"
| "node_type_to_string NT_ACCELERATOR_MEMORY_DOMAIN = ''accelerator_memory_domain''"
| "node_type_to_string NT_PCI_ROOT = ''pci_root''"
| "node_type_to_string NT_PCI_BRIDGE = ''pci_bridge''"
| "node_type_to_string NT_PCI_DEVICE = ''pci_device''"
| "node_type_to_string NT_NETWORK_INTERFACE = ''network_interface''"
| "node_type_to_string NT_STORAGE_DEVICE = ''storage_device''"
| "node_type_to_string NT_SHARED_MEMORY_DOMAIN = ''shared_memory_domain''"
| "node_type_to_string NT_UNKNOWN = ''unknown''"
| "node_type_to_string NT_EXTENSION = ''extension''"

definition node_type_from_string :: "string \<Rightarrow> node_type" where
  "node_type_from_string s =
    (if s = ''machine'' then NT_MACHINE
     else if s = ''cpu_package'' then NT_CPU_PACKAGE
     else if s = ''cpu_core'' then NT_CPU_CORE
     else if s = ''cpu_thread'' then NT_CPU_THREAD
     else if s = ''numa_node'' then NT_NUMA_NODE
     else if s = ''host_memory_domain'' then NT_HOST_MEMORY_DOMAIN
     else if s = ''accelerator'' then NT_ACCELERATOR
     else if s = ''accelerator_memory_domain'' then NT_ACCELERATOR_MEMORY_DOMAIN
     else if s = ''pci_root'' then NT_PCI_ROOT
     else if s = ''pci_bridge'' then NT_PCI_BRIDGE
     else if s = ''pci_device'' then NT_PCI_DEVICE
     else if s = ''network_interface'' then NT_NETWORK_INTERFACE
     else if s = ''storage_device'' then NT_STORAGE_DEVICE
     else if s = ''shared_memory_domain'' then NT_SHARED_MEMORY_DOMAIN
     else if s = ''extension'' then NT_EXTENSION
     else NT_UNKNOWN)"

interpretation node_type_codec: enum_codec node_type_to_string node_type_from_string NT_UNKNOWN
proof unfold_locales
  show "node_type_from_string (node_type_to_string x) = x" for x
    by (cases x) (simp_all add: node_type_from_string_def)
  show "node_type_from_string s = NT_UNKNOWN \<or> node_type_to_string (node_type_from_string s) = s" for s
    unfolding node_type_from_string_def by (auto split: if_splits)
qed

datatype edge_type =
    ET_CONTAINS
  | ET_ATTACHED_TO
  | ET_CONNECTED_TO
  | ET_LOCAL_TO
  | ET_PEER_TO
  | ET_SHARES_PARENT
  | ET_SHARES_NUMA
  | ET_ROUTES_THROUGH
  | ET_ACCESSIBLE_FROM
  | ET_AFFINE_TO

fun edge_type_to_string :: "edge_type \<Rightarrow> string" where
  "edge_type_to_string ET_CONTAINS = ''contains''"
| "edge_type_to_string ET_ATTACHED_TO = ''attached_to''"
| "edge_type_to_string ET_CONNECTED_TO = ''connected_to''"
| "edge_type_to_string ET_LOCAL_TO = ''local_to''"
| "edge_type_to_string ET_PEER_TO = ''peer_to''"
| "edge_type_to_string ET_SHARES_PARENT = ''shares_parent''"
| "edge_type_to_string ET_SHARES_NUMA = ''shares_numa''"
| "edge_type_to_string ET_ROUTES_THROUGH = ''routes_through''"
| "edge_type_to_string ET_ACCESSIBLE_FROM = ''accessible_from''"
| "edge_type_to_string ET_AFFINE_TO = ''affine_to''"

definition edge_type_from_string :: "string \<Rightarrow> edge_type" where
  "edge_type_from_string s =
    (if s = ''contains'' then ET_CONTAINS
     else if s = ''attached_to'' then ET_ATTACHED_TO
     else if s = ''connected_to'' then ET_CONNECTED_TO
     else if s = ''local_to'' then ET_LOCAL_TO
     else if s = ''peer_to'' then ET_PEER_TO
     else if s = ''shares_parent'' then ET_SHARES_PARENT
     else if s = ''shares_numa'' then ET_SHARES_NUMA
     else if s = ''routes_through'' then ET_ROUTES_THROUGH
     else if s = ''accessible_from'' then ET_ACCESSIBLE_FROM
     else if s = ''affine_to'' then ET_AFFINE_TO
     else ET_CONNECTED_TO)"

interpretation edge_type_codec: enum_codec edge_type_to_string edge_type_from_string ET_CONNECTED_TO
proof unfold_locales
  show "edge_type_from_string (edge_type_to_string x) = x" for x
    by (cases x) (simp_all add: edge_type_from_string_def)
  show "edge_type_from_string s = ET_CONNECTED_TO \<or> edge_type_to_string (edge_type_from_string s) = s" for s
    unfolding edge_type_from_string_def by (auto split: if_splits)
qed

datatype edge_direction =
    ED_DIRECTED
  | ED_UNDIRECTED

fun edge_direction_to_string :: "edge_direction \<Rightarrow> string" where
  "edge_direction_to_string ED_DIRECTED = ''directed''"
| "edge_direction_to_string ED_UNDIRECTED = ''undirected''"

definition edge_direction_from_string :: "string \<Rightarrow> edge_direction" where
  "edge_direction_from_string s =
    (if s = ''undirected'' then ED_UNDIRECTED
     else ED_DIRECTED)"

interpretation edge_direction_codec: enum_codec edge_direction_to_string edge_direction_from_string ED_DIRECTED
proof unfold_locales
  show "edge_direction_from_string (edge_direction_to_string x) = x" for x
    by (cases x) (simp_all add: edge_direction_from_string_def)
  show "edge_direction_from_string s = ED_DIRECTED \<or> edge_direction_to_string (edge_direction_from_string s) = s" for s
    unfolding edge_direction_from_string_def by (auto split: if_splits)
qed

datatype provenance_kind =
    PK_DISCOVERED
  | PK_INFERRED
  | PK_MEASURED
  | PK_USER_SUPPLIED
  | PK_UNKNOWN

fun provenance_kind_to_string :: "provenance_kind \<Rightarrow> string" where
  "provenance_kind_to_string PK_DISCOVERED = ''discovered''"
| "provenance_kind_to_string PK_INFERRED = ''inferred''"
| "provenance_kind_to_string PK_MEASURED = ''measured''"
| "provenance_kind_to_string PK_USER_SUPPLIED = ''user_supplied''"
| "provenance_kind_to_string PK_UNKNOWN = ''unknown''"

definition provenance_kind_from_string :: "string \<Rightarrow> provenance_kind" where
  "provenance_kind_from_string s =
    (if s = ''discovered'' then PK_DISCOVERED
     else if s = ''inferred'' then PK_INFERRED
     else if s = ''measured'' then PK_MEASURED
     else if s = ''user_supplied'' then PK_USER_SUPPLIED
     else PK_UNKNOWN)"

interpretation provenance_kind_codec: enum_codec provenance_kind_to_string provenance_kind_from_string PK_UNKNOWN
proof unfold_locales
  show "provenance_kind_from_string (provenance_kind_to_string x) = x" for x
    by (cases x) (simp_all add: provenance_kind_from_string_def)
  show "provenance_kind_from_string s = PK_UNKNOWN \<or> provenance_kind_to_string (provenance_kind_from_string s) = s" for s
    unfolding provenance_kind_from_string_def by (auto split: if_splits)
qed

datatype confidence =
    CF_AUTHORITATIVE
  | CF_HIGH
  | CF_MEDIUM
  | CF_LOW
  | CF_UNKNOWN

fun confidence_to_string :: "confidence \<Rightarrow> string" where
  "confidence_to_string CF_AUTHORITATIVE = ''authoritative''"
| "confidence_to_string CF_HIGH = ''high''"
| "confidence_to_string CF_MEDIUM = ''medium''"
| "confidence_to_string CF_LOW = ''low''"
| "confidence_to_string CF_UNKNOWN = ''unknown''"

definition confidence_from_string :: "string \<Rightarrow> confidence" where
  "confidence_from_string s =
    (if s = ''authoritative'' then CF_AUTHORITATIVE
     else if s = ''high'' then CF_HIGH
     else if s = ''medium'' then CF_MEDIUM
     else if s = ''low'' then CF_LOW
     else CF_UNKNOWN)"

interpretation confidence_codec: enum_codec confidence_to_string confidence_from_string CF_UNKNOWN
proof unfold_locales
  show "confidence_from_string (confidence_to_string x) = x" for x
    by (cases x) (simp_all add: confidence_from_string_def)
  show "confidence_from_string s = CF_UNKNOWN \<or> confidence_to_string (confidence_from_string s) = s" for s
    unfolding confidence_from_string_def by (auto split: if_splits)
qed

datatype locality_class =
    LC_EXACT
  | LC_SAME_CORE
  | LC_SAME_PACKAGE
  | LC_SAME_NUMA
  | LC_SAME_ROOT_COMPLEX
  | LC_SAME_HOST
  | LC_REMOTE
  | LC_UNKNOWN

fun locality_class_to_string :: "locality_class \<Rightarrow> string" where
  "locality_class_to_string LC_EXACT = ''exact''"
| "locality_class_to_string LC_SAME_CORE = ''same_core''"
| "locality_class_to_string LC_SAME_PACKAGE = ''same_package''"
| "locality_class_to_string LC_SAME_NUMA = ''same_numa''"
| "locality_class_to_string LC_SAME_ROOT_COMPLEX = ''same_root_complex''"
| "locality_class_to_string LC_SAME_HOST = ''same_host''"
| "locality_class_to_string LC_REMOTE = ''remote''"
| "locality_class_to_string LC_UNKNOWN = ''unknown''"

definition locality_from_string :: "string \<Rightarrow> locality_class" where
  "locality_from_string s =
    (if s = ''exact'' then LC_EXACT
     else if s = ''same_core'' then LC_SAME_CORE
     else if s = ''same_package'' then LC_SAME_PACKAGE
     else if s = ''same_numa'' then LC_SAME_NUMA
     else if s = ''same_root_complex'' then LC_SAME_ROOT_COMPLEX
     else if s = ''same_host'' then LC_SAME_HOST
     else if s = ''remote'' then LC_REMOTE
     else LC_UNKNOWN)"

interpretation locality_class_codec: enum_codec locality_class_to_string locality_from_string LC_UNKNOWN
proof unfold_locales
  show "locality_from_string (locality_class_to_string x) = x" for x
    by (cases x) (simp_all add: locality_from_string_def)
  show "locality_from_string s = LC_UNKNOWN \<or> locality_class_to_string (locality_from_string s) = s" for s
    unfolding locality_from_string_def by (auto split: if_splits)
qed

datatype path_class =
    PC_SAME_OBJECT
  | PC_SAME_PROCESSOR
  | PC_SAME_NUMA
  | PC_SAME_PCI_DEVICE
  | PC_SAME_PCI_BRIDGE
  | PC_SAME_ROOT_COMPLEX
  | PC_HOST_TO_ACCELERATOR
  | PC_ACCELERATOR_TO_ACCELERATOR
  | PC_HOST_TO_STORAGE
  | PC_HOST_TO_NETWORK
  | PC_CROSS_NUMA
  | PC_REMOTE
  | PC_EXTERNAL
  | PC_UNKNOWN

fun path_class_to_string :: "path_class \<Rightarrow> string" where
  "path_class_to_string PC_SAME_OBJECT = ''same_object''"
| "path_class_to_string PC_SAME_PROCESSOR = ''same_processor''"
| "path_class_to_string PC_SAME_NUMA = ''same_numa''"
| "path_class_to_string PC_SAME_PCI_DEVICE = ''same_pci_device''"
| "path_class_to_string PC_SAME_PCI_BRIDGE = ''same_pci_bridge''"
| "path_class_to_string PC_SAME_ROOT_COMPLEX = ''same_root_complex''"
| "path_class_to_string PC_HOST_TO_ACCELERATOR = ''host_to_accelerator''"
| "path_class_to_string PC_ACCELERATOR_TO_ACCELERATOR = ''accelerator_to_accelerator''"
| "path_class_to_string PC_HOST_TO_STORAGE = ''host_to_storage''"
| "path_class_to_string PC_HOST_TO_NETWORK = ''host_to_network''"
| "path_class_to_string PC_CROSS_NUMA = ''cross_numa''"
| "path_class_to_string PC_REMOTE = ''remote''"
| "path_class_to_string PC_EXTERNAL = ''external''"
| "path_class_to_string PC_UNKNOWN = ''unknown''"

definition path_class_from_string :: "string \<Rightarrow> path_class" where
  "path_class_from_string s =
    (if s = ''same_object'' then PC_SAME_OBJECT
     else if s = ''same_processor'' then PC_SAME_PROCESSOR
     else if s = ''same_numa'' then PC_SAME_NUMA
     else if s = ''same_pci_device'' then PC_SAME_PCI_DEVICE
     else if s = ''same_pci_bridge'' then PC_SAME_PCI_BRIDGE
     else if s = ''same_root_complex'' then PC_SAME_ROOT_COMPLEX
     else if s = ''host_to_accelerator'' then PC_HOST_TO_ACCELERATOR
     else if s = ''accelerator_to_accelerator'' then PC_ACCELERATOR_TO_ACCELERATOR
     else if s = ''host_to_storage'' then PC_HOST_TO_STORAGE
     else if s = ''host_to_network'' then PC_HOST_TO_NETWORK
     else if s = ''cross_numa'' then PC_CROSS_NUMA
     else if s = ''remote'' then PC_REMOTE
     else if s = ''external'' then PC_EXTERNAL
     else PC_UNKNOWN)"

interpretation path_class_codec: enum_codec path_class_to_string path_class_from_string PC_UNKNOWN
proof unfold_locales
  show "path_class_from_string (path_class_to_string x) = x" for x
    by (cases x) (simp_all add: path_class_from_string_def)
  show "path_class_from_string s = PC_UNKNOWN \<or> path_class_to_string (path_class_from_string s) = s" for s
    unfolding path_class_from_string_def by (auto split: if_splits)
qed

datatype fact_class =
    FC_STATIC
  | FC_SEMI_STATIC
  | FC_DYNAMIC

fun fact_class_to_string :: "fact_class \<Rightarrow> string" where
  "fact_class_to_string FC_STATIC = ''static''"
| "fact_class_to_string FC_SEMI_STATIC = ''semi_static''"
| "fact_class_to_string FC_DYNAMIC = ''dynamic''"

definition fact_class_from_string :: "string \<Rightarrow> fact_class" where
  "fact_class_from_string s =
    (if s = ''dynamic'' then FC_DYNAMIC
     else if s = ''semi_static'' then FC_SEMI_STATIC
     else FC_STATIC)"

interpretation fact_class_codec: enum_codec fact_class_to_string fact_class_from_string FC_STATIC
proof unfold_locales
  show "fact_class_from_string (fact_class_to_string x) = x" for x
    by (cases x) (simp_all add: fact_class_from_string_def)
  show "fact_class_from_string s = FC_STATIC \<or> fact_class_to_string (fact_class_from_string s) = s" for s
    unfolding fact_class_from_string_def by (auto split: if_splits)
qed

datatype diff_event_kind =
    DE_NODE_ADDED
  | DE_NODE_REMOVED
  | DE_EDGE_ADDED
  | DE_EDGE_REMOVED
  | DE_PROPERTY_CHANGED
  | DE_CAPABILITY_CHANGED
  | DE_LOCALITY_CHANGED
  | DE_PROVIDER_CHANGED

fun diff_event_kind_to_string :: "diff_event_kind \<Rightarrow> string" where
  "diff_event_kind_to_string DE_NODE_ADDED = ''node_added''"
| "diff_event_kind_to_string DE_NODE_REMOVED = ''node_removed''"
| "diff_event_kind_to_string DE_EDGE_ADDED = ''edge_added''"
| "diff_event_kind_to_string DE_EDGE_REMOVED = ''edge_removed''"
| "diff_event_kind_to_string DE_PROPERTY_CHANGED = ''property_changed''"
| "diff_event_kind_to_string DE_CAPABILITY_CHANGED = ''capability_changed''"
| "diff_event_kind_to_string DE_LOCALITY_CHANGED = ''locality_changed''"
| "diff_event_kind_to_string DE_PROVIDER_CHANGED = ''provider_changed''"

definition diff_event_kind_from_string :: "string \<Rightarrow> diff_event_kind" where
  "diff_event_kind_from_string s =
    (if s = ''node_added'' then DE_NODE_ADDED
     else if s = ''node_removed'' then DE_NODE_REMOVED
     else if s = ''edge_added'' then DE_EDGE_ADDED
     else if s = ''edge_removed'' then DE_EDGE_REMOVED
     else if s = ''property_changed'' then DE_PROPERTY_CHANGED
     else if s = ''capability_changed'' then DE_CAPABILITY_CHANGED
     else if s = ''locality_changed'' then DE_LOCALITY_CHANGED
     else if s = ''provider_changed'' then DE_PROVIDER_CHANGED
     else DE_PROPERTY_CHANGED)"

interpretation diff_event_kind_codec: enum_codec diff_event_kind_to_string diff_event_kind_from_string DE_PROPERTY_CHANGED
proof unfold_locales
  show "diff_event_kind_from_string (diff_event_kind_to_string x) = x" for x
    by (cases x) (simp_all add: diff_event_kind_from_string_def)
  show "diff_event_kind_from_string s = DE_PROPERTY_CHANGED \<or> diff_event_kind_to_string (diff_event_kind_from_string s) = s" for s
    unfolding diff_event_kind_from_string_def by (auto split: if_splits)
qed

section \<open>Numeric values\<close>

text \<open>\<open>static_cast<int>\<close> of an enumeration constant, where the code compares constants.\<close>

fun diff_event_kind_int :: "diff_event_kind \<Rightarrow> int" where
  "diff_event_kind_int DE_NODE_ADDED = 0"
| "diff_event_kind_int DE_NODE_REMOVED = 1"
| "diff_event_kind_int DE_EDGE_ADDED = 2"
| "diff_event_kind_int DE_EDGE_REMOVED = 3"
| "diff_event_kind_int DE_PROPERTY_CHANGED = 4"
| "diff_event_kind_int DE_CAPABILITY_CHANGED = 5"
| "diff_event_kind_int DE_LOCALITY_CHANGED = 6"
| "diff_event_kind_int DE_PROVIDER_CHANGED = 7"

lemma diff_event_kind_int_inj [simp]: "diff_event_kind_int a = diff_event_kind_int b \<longleftrightarrow> a = b"
  by (cases a; cases b) simp_all

section \<open>Properties\<close>

text \<open>Every enumeration constant is read back from its text, and a text is either the name of
  the constant it is read as or is read as the default of its enumeration.\<close>

theorem enums_read_back:
  "node_type_from_string (node_type_to_string a) = a \<and> edge_type_from_string (edge_type_to_string b) = b
   \<and> edge_direction_from_string (edge_direction_to_string c) = c
   \<and> provenance_kind_from_string (provenance_kind_to_string d) = d
   \<and> confidence_from_string (confidence_to_string e) = e
   \<and> locality_from_string (locality_class_to_string f) = f
   \<and> path_class_from_string (path_class_to_string g) = g
   \<and> fact_class_from_string (fact_class_to_string h) = h
   \<and> diff_event_kind_from_string (diff_event_kind_to_string k) = k
   \<and> (node_type_to_string (node_type_from_string s) =
        (if s \<in> range node_type_to_string then s else ''unknown''))
   \<and> (edge_type_to_string (edge_type_from_string s) =
        (if s \<in> range edge_type_to_string then s else ''connected_to''))
   \<and> (confidence_to_string (confidence_from_string s) =
        (if s \<in> range confidence_to_string then s else ''unknown''))"
  by (simp only: node_type_codec.dec_enc edge_type_codec.dec_enc edge_direction_codec.dec_enc
      provenance_kind_codec.dec_enc confidence_codec.dec_enc locality_class_codec.dec_enc
      path_class_codec.dec_enc fact_class_codec.dec_enc diff_event_kind_codec.dec_enc
      node_type_codec.enc_dec edge_type_codec.enc_dec confidence_codec.enc_dec
      node_type_to_string.simps edge_type_to_string.simps confidence_to_string.simps)

end
