(* ===== verification/TF_Float64.thy ===== *)
theory TF_Float64
  imports TF_Prelude "HOL-Library.Log_Nat" "HOL-Library.Product_Lexorder"
begin

text \<open>
  The C++ type \<open>double\<close> as IEEE 754 binary64. The weights, latencies, bandwidths and costs of the
  code are doubles, and its comparisons, guards and sums are modelled with the rounding and the
  special values they have: not-a-number, the two infinities, the negative zero, and the finite
  values as exact rationals. Every operation computes the exact rational result and rounds it to
  the nearest representable value, ties to even (\<open>f64_round\<close>), so closed costs evaluate.

  The facts the cost and path components use: rounding is monotone and leaves representable values
  alone; hence addition is monotone, and adding a non-negative cost never makes a sum smaller.
\<close>

datatype f64 = F_NaN | F_PInf | F_NInf | F_NZero | F_Fin rat

section \<open>Rounding\<close>

text \<open>The position of the leading bit of a positive rational.\<close>

definition lg2 :: "rat \<Rightarrow> int" where
  "lg2 q = (case quotient_of q of (n, d) \<Rightarrow>
     (let k = bitlen n - bitlen d in if 2 powi k \<le> q then k else k - 1))"

text \<open>The exponent of the last place: 53 significant bits, and subnormal numbers below.\<close>

definition f64_expo :: "rat \<Rightarrow> int" where
  "f64_expo q = max (-1074) (lg2 q - 52)"

text \<open>Rounding to an integer, ties to even.\<close>

definition round_even :: "rat \<Rightarrow> int" where
  "round_even x = (let f = \<lfloor>x\<rfloor>; r = x - of_int f in
     if r < 1/2 then f else if 1/2 < r then f + 1 else if even f then f else f + 1)"

text \<open>The least magnitude that rounds to an infinity.\<close>

definition f64_limit :: rat where
  "f64_limit = 2 ^ 1024"

definition f64_round_pos :: "rat \<Rightarrow> f64" where
  "f64_round_pos q = (let e = f64_expo q; v = of_int (round_even (q / 2 powi e)) * 2 powi e in
     if f64_limit \<le> v then F_PInf else F_Fin v)"

fun f64_neg :: "f64 \<Rightarrow> f64" where
  "f64_neg F_NaN = F_NaN"
| "f64_neg F_PInf = F_NInf"
| "f64_neg F_NInf = F_PInf"
| "f64_neg F_NZero = F_Fin 0"
| "f64_neg (F_Fin q) = (if q = 0 then F_NZero else F_Fin (- q))"

definition f64_round :: "rat \<Rightarrow> f64" where
  "f64_round q =
     (if q = 0 then F_Fin 0
      else if 0 < q then f64_round_pos q
      else f64_neg (f64_round_pos (- q)))"

text \<open>The values of the type: a finite rational must be representable.\<close>

fun is_f64 :: "f64 \<Rightarrow> bool" where
  "is_f64 (F_Fin q) \<longleftrightarrow> f64_round q = F_Fin q"
| "is_f64 _ \<longleftrightarrow> True"

section \<open>Classification and comparison\<close>

definition f64_isnan :: "f64 \<Rightarrow> bool" where
  "f64_isnan x \<longleftrightarrow> x = F_NaN"

definition f64_isinf :: "f64 \<Rightarrow> bool" where
  "f64_isinf x \<longleftrightarrow> x = F_PInf \<or> x = F_NInf"

fun f64_iszero :: "f64 \<Rightarrow> bool" where
  "f64_iszero F_NZero = True"
| "f64_iszero (F_Fin q) = (q = 0)"
| "f64_iszero _ = False"

text \<open>The sign bit (of a not-a-number it is irrelevant here).\<close>

fun f64_signbit :: "f64 \<Rightarrow> bool" where
  "f64_signbit F_NInf = True"
| "f64_signbit F_NZero = True"
| "f64_signbit (F_Fin q) = (q < 0)"
| "f64_signbit _ = False"

text \<open>The place of a value on the extended line; the two zeros share one.\<close>

fun f64_key :: "f64 \<Rightarrow> int \<times> rat" where
  "f64_key F_NInf = (-1, 0)"
| "f64_key F_NZero = (0, 0)"
| "f64_key (F_Fin q) = (0, q)"
| "f64_key F_PInf = (1, 0)"
| "f64_key F_NaN = (2, 0)"

definition f64_lt :: "f64 \<Rightarrow> f64 \<Rightarrow> bool" where
  "f64_lt x y \<longleftrightarrow> x \<noteq> F_NaN \<and> y \<noteq> F_NaN \<and> f64_key x < f64_key y"

definition f64_le :: "f64 \<Rightarrow> f64 \<Rightarrow> bool" where
  "f64_le x y \<longleftrightarrow> x \<noteq> F_NaN \<and> y \<noteq> F_NaN \<and> f64_key x \<le> f64_key y"

definition f64_eq :: "f64 \<Rightarrow> f64 \<Rightarrow> bool" where
  "f64_eq x y \<longleftrightarrow> x \<noteq> F_NaN \<and> y \<noteq> F_NaN \<and> f64_key x = f64_key y"

text \<open>\<open>std::min(a, b)\<close>.\<close>

definition f64_min :: "f64 \<Rightarrow> f64 \<Rightarrow> f64" where
  "f64_min a b = (if f64_lt b a then b else a)"

section \<open>Arithmetic\<close>

fun f64_val :: "f64 \<Rightarrow> rat" where
  "f64_val (F_Fin q) = q"
| "f64_val _ = 0"

definition f64_zero :: "bool \<Rightarrow> f64" where
  "f64_zero neg = (if neg then F_NZero else F_Fin 0)"

definition f64_inf :: "bool \<Rightarrow> f64" where
  "f64_inf neg = (if neg then F_NInf else F_PInf)"

definition f64_add :: "f64 \<Rightarrow> f64 \<Rightarrow> f64" where
  "f64_add x y =
     (if x = F_NaN \<or> y = F_NaN then F_NaN
      else if f64_isinf x then (if f64_isinf y \<and> x \<noteq> y then F_NaN else x)
      else if f64_isinf y then y
      else if x = F_NZero then y
      else if y = F_NZero then x
      else f64_round (f64_val x + f64_val y))"

definition f64_mul :: "f64 \<Rightarrow> f64 \<Rightarrow> f64" where
  "f64_mul x y = (let neg = (f64_signbit x \<noteq> f64_signbit y) in
     (if x = F_NaN \<or> y = F_NaN then F_NaN
      else if f64_isinf x \<or> f64_isinf y
        then (if f64_iszero x \<or> f64_iszero y then F_NaN else f64_inf neg)
      else if f64_iszero x \<or> f64_iszero y then f64_zero neg
      else f64_round (f64_val x * f64_val y)))"

definition f64_div :: "f64 \<Rightarrow> f64 \<Rightarrow> f64" where
  "f64_div x y = (let neg = (f64_signbit x \<noteq> f64_signbit y) in
     (if x = F_NaN \<or> y = F_NaN then F_NaN
      else if f64_isinf x then (if f64_isinf y then F_NaN else f64_inf neg)
      else if f64_isinf y then f64_zero neg
      else if f64_iszero y then (if f64_iszero x then F_NaN else f64_inf neg)
      else if f64_iszero x then f64_zero neg
      else f64_round (f64_val x / f64_val y)))"

text \<open>A floating literal, and the conversion from an integer.\<close>

definition f64_lit :: "rat \<Rightarrow> f64" where
  "f64_lit q = f64_round q"

definition f64_of_int :: "int \<Rightarrow> f64" where
  "f64_of_int i = f64_round (of_int i)"

text \<open>\<open>std::numeric_limits<double>::max()\<close>.\<close>

definition f64_max_value :: f64 where
  "f64_max_value = F_Fin ((2 ^ 53 - 1) * 2 ^ 971)"

lemma quotient_of_pos: "0 < q \<Longrightarrow> quotient_of q = (n, d) \<Longrightarrow> 0 < n \<and> 0 < d \<and> q = of_int n / of_int d"
  using quotient_of_denom_pos [of q n d] quotient_of_div [of q n d]
  by (auto simp: zero_less_divide_iff)

lemma pw_less_iff: "(2 :: rat) powi a < 2 powi b \<longleftrightarrow> a < b"
  by (metis linorder_less_linear one_less_numeral_iff order_less_asym power_int_strict_increasing
      semiring_norm(76))

lemma pw_le_iff: "(2 :: rat) powi a \<le> 2 powi b \<longleftrightarrow> a \<le> b"
  using pw_less_iff [of b a] by linarith

lemma pw_pos [simp]: "0 < (2 :: rat) powi a"
  by (rule zero_less_power_int) simp

lemma pw_add: "(2 :: rat) powi (a + b) = 2 powi a * 2 powi b"
  by (rule power_int_add) simp

lemma pw_nat: "0 \<le> k \<Longrightarrow> (2 :: rat) powi k = of_int (2 ^ nat k)"
  by (simp add: power_int_def)

lemma pw_neg: "k < 0 \<Longrightarrow> (2 :: rat) powi k = 1 / of_int (2 ^ nat (- k))"
  by (simp add: power_int_def inverse_eq_divide power_one_over)

lemma powi_le_quot:
  assumes "quotient_of q = (n, d)"
  shows "2 powi k \<le> q \<longleftrightarrow> (if 0 \<le> k then 2 ^ nat k * d \<le> n else d \<le> n * 2 ^ nat (- k))"
proof -
  have d: "0 < d" and q: "q = of_int n / of_int d"
    using assms quotient_of_denom_pos quotient_of_div by blast+
  show ?thesis
  proof (cases "0 \<le> k")
    case True
    then have "2 powi k = (of_int (2 ^ nat k) :: rat)" by (simp add: power_int_def)
    then have "2 powi k \<le> q \<longleftrightarrow> of_int (2 ^ nat k * d) \<le> (of_int n :: rat)"
      using d by (simp add: q pos_le_divide_eq)
    then show ?thesis using True by (simp only: of_int_le_iff if_True)
  next
    case False
    then have "2 powi k \<le> q \<longleftrightarrow> 1 / of_int (2 ^ nat (- k)) \<le> of_int n / (of_int d :: rat)"
      by (simp only: pw_neg q)
    also have "\<dots> \<longleftrightarrow> of_int d \<le> (of_int (n * 2 ^ nat (- k)) :: rat)"
      using d by (simp add: divide_simps)
    finally have "2 powi k \<le> q \<longleftrightarrow> of_int d \<le> (of_int (n * 2 ^ nat (- k)) :: rat)" .
    then show ?thesis using False by (simp only: of_int_le_iff if_False)
  qed
qed

lemma lg2_code [code]:
  "lg2 q = (case quotient_of q of (n, d) \<Rightarrow>
     (let k = bitlen n - bitlen d in
      if (if 0 \<le> k then 2 ^ nat k * d \<le> n else d \<le> n * 2 ^ nat (- k)) then k else k - 1))"
  by (cases "quotient_of q") (simp add: lg2_def powi_le_quot Let_def)

lemma bitlen_powi:
  assumes "0 < n"
  shows "2 powi (bitlen n - 1) \<le> (of_int n :: rat)" and "(of_int n :: rat) < 2 powi (bitlen n)"
proof -
  have lo: "2 ^ nat (bitlen n - 1) \<le> n" and hi: "n < 2 ^ nat (bitlen n)"
    using assms bitlen_bounds [of n] by auto
  have b: "0 < bitlen n" using assms by (auto simp: bitlen_def floorlog_eq_zero_iff simp flip: neq0_conv)
  have "(of_int (2 ^ nat (bitlen n - 1)) :: rat) \<le> of_int n" using lo by (simp only: of_int_le_iff)
  then show "2 powi (bitlen n - 1) \<le> (of_int n :: rat)" using b by (simp add: power_int_def)
  have "(of_int n :: rat) < of_int (2 ^ nat (bitlen n))" using hi by (simp only: of_int_less_iff)
  then show "(of_int n :: rat) < 2 powi (bitlen n)" using b by (simp add: power_int_def)
qed

lemma lg2_bounds:
  assumes "0 < q"
  shows "2 powi lg2 q \<le> q" and "q < 2 powi (lg2 q + 1)"
proof -
  obtain n d where qd: "quotient_of q = (n, d)" by fastforce
  then have n: "0 < n" and d: "0 < d" and q: "q = of_int n / of_int d"
    using assms quotient_of_pos by blast+
  define k where "k = bitlen n - bitlen d"
  have "2 powi (k - 1) \<le> q"
  proof -
    have "2 powi (k - 1) = 2 powi (bitlen n - 1) / (2 powi bitlen d :: rat)"
      by (simp add: k_def power_int_diff)
    also have "\<dots> \<le> of_int n / of_int d"
      using bitlen_powi(1) [OF n] bitlen_powi(2) [OF d] d n by (intro frac_le) auto
    finally show ?thesis by (simp add: q)
  qed
  moreover have "q < 2 powi (k + 1)"
  proof -
    have "q < 2 powi bitlen n / 2 powi (bitlen d - 1)"
      unfolding q using bitlen_powi(2) [OF n] bitlen_powi(1) [OF d] n
      by (intro frac_less) auto
    also have "\<dots> = 2 powi (k + 1)" by (simp add: k_def power_int_diff power_int_add)
    finally show ?thesis .
  qed
  moreover have "lg2 q = (if 2 powi k \<le> q then k else k - 1)"
    by (simp add: lg2_def qd k_def Let_def)
  ultimately show "2 powi lg2 q \<le> q" and "q < 2 powi (lg2 q + 1)"
    by (auto split: if_splits)
qed

lemma lg2_eqI:
  assumes "2 powi k \<le> q" and "q < 2 powi (k + 1)"
  shows "lg2 q = k"
proof -
  have "0 < q" using assms(1) by (rule order_less_le_trans [OF pw_pos])
  note b = lg2_bounds [OF this]
  have "(2 :: rat) powi k < 2 powi (lg2 q + 1)" using assms(1) b(2) by linarith
  then have "k < lg2 q + 1" by (simp only: pw_less_iff)
  moreover have "(2 :: rat) powi lg2 q < 2 powi (k + 1)" using assms(2) b(1) by linarith
  then have "lg2 q < k + 1" by (simp only: pw_less_iff)
  ultimately show ?thesis by linarith
qed

lemma lg2_mono:
  assumes "0 < q" and "q \<le> q'"
  shows "lg2 q \<le> lg2 q'"
proof -
  have "(2 :: rat) powi lg2 q < 2 powi (lg2 q' + 1)"
    using lg2_bounds(1) [OF assms(1)] lg2_bounds(2) [of q'] assms by linarith
  then have "lg2 q < lg2 q' + 1" by (simp only: pw_less_iff)
  then show ?thesis by simp
qed

lemma round_even_bounds: "of_int (round_even x) \<le> x + 1 / 2" and "x - 1 / 2 \<le> of_int (round_even x)"
  by (auto simp: round_even_def Let_def) (linarith+)

lemma round_even_int [simp]: "round_even (of_int i) = i"
  by (simp add: round_even_def)

lemma round_even_mono: "x \<le> y \<Longrightarrow> round_even x \<le> round_even y"
proof -
  assume xy: "x \<le> y"
  then have f: "\<lfloor>x\<rfloor> \<le> \<lfloor>y\<rfloor>" by (rule floor_mono)
  show ?thesis
  proof (cases "\<lfloor>x\<rfloor> = \<lfloor>y\<rfloor>")
    case True
    then show ?thesis using xy by (auto simp: round_even_def Let_def)
  next
    case False
    with f have "\<lfloor>x\<rfloor> + 1 \<le> \<lfloor>y\<rfloor>" by simp
    then show ?thesis by (auto simp: round_even_def Let_def)
  qed
qed

lemma round_even_le_int: "x \<le> of_int i \<Longrightarrow> round_even x \<le> i"
  using round_even_mono [of x "of_int i"] by simp

lemma round_even_ge_int: "of_int i \<le> x \<Longrightarrow> i \<le> round_even x"
  using round_even_mono [of "of_int i" x] by simp

text \<open>The significand before rounding lies below $2^{53}$, and at or above $2^{52}$ for a normal
  number.\<close>

lemma expo_bounds:
  assumes "0 < q"
  shows "q / 2 powi f64_expo q < 2 ^ 53"
    and "f64_expo q = -1074 \<or> 2 ^ 52 \<le> q / 2 powi f64_expo q"
proof -
  have "q < 2 powi (f64_expo q + 53)"
    using lg2_bounds(2) [OF assms] by (rule order_less_le_trans) (simp add: pw_le_iff f64_expo_def)
  then show "q / 2 powi f64_expo q < 2 ^ 53"
    by (simp add: pw_add divide_less_eq mult.commute)
  show "f64_expo q = -1074 \<or> 2 ^ 52 \<le> q / 2 powi f64_expo q"
  proof (cases "f64_expo q = -1074")
    case False
    then have e: "f64_expo q = lg2 q - 52" by (auto simp: f64_expo_def max_def split: if_splits)
    have "2 powi (f64_expo q + 52) \<le> q" using lg2_bounds(1) [OF assms] by (simp add: e)
    then show ?thesis by (simp add: pw_add le_divide_eq mult.commute)
  qed simp
qed

definition rnd_sig :: "rat \<Rightarrow> int" where
  "rnd_sig q = round_even (q / 2 powi f64_expo q)"

definition rnd_val :: "rat \<Rightarrow> rat" where
  "rnd_val q = of_int (rnd_sig q) * 2 powi f64_expo q"

lemma round_pos_val: "f64_round_pos q = (if f64_limit \<le> rnd_val q then F_PInf else F_Fin (rnd_val q))"
  by (simp add: f64_round_pos_def rnd_val_def rnd_sig_def Let_def)

lemma rnd_sig_bounds:
  assumes "0 < q"
  shows "0 \<le> rnd_sig q" and "rnd_sig q \<le> 2 ^ 53"
    and "f64_expo q = -1074 \<or> 2 ^ 52 \<le> rnd_sig q"
proof -
  show "0 \<le> rnd_sig q"
    unfolding rnd_sig_def using assms by (intro round_even_ge_int) simp
  show "rnd_sig q \<le> 2 ^ 53"
    unfolding rnd_sig_def using expo_bounds(1) [OF assms] by (intro round_even_le_int) simp
  show "f64_expo q = -1074 \<or> 2 ^ 52 \<le> rnd_sig q"
    unfolding rnd_sig_def using expo_bounds(2) [OF assms] by (auto intro: round_even_ge_int)
qed

lemma rnd_val_nonneg: "0 < q \<Longrightarrow> 0 \<le> rnd_val q"
  using rnd_sig_bounds(1) [of q] by (simp add: rnd_val_def less_imp_le)

lemma rnd_val_mono:
  assumes "0 < q" and "q \<le> q'"
  shows "rnd_val q \<le> rnd_val q'"
proof -
  have q': "0 < q'" using assms by simp
  have le: "f64_expo q \<le> f64_expo q'"
    using lg2_mono [OF assms] by (simp add: f64_expo_def)
  show ?thesis
  proof (cases "f64_expo q = f64_expo q'")
    case True
    have "rnd_sig q \<le> rnd_sig q'"
      unfolding rnd_sig_def True using assms(2) by (intro round_even_mono divide_right_mono) (simp_all add: less_imp_le)
    then show ?thesis by (simp add: rnd_val_def True)
  next
    case False
    then have lt: "f64_expo q + 1 \<le> f64_expo q'" and "f64_expo q' \<noteq> -1074"
      using le by (auto simp: f64_expo_def)
    then have s': "(2 :: int) ^ 52 \<le> rnd_sig q'" using rnd_sig_bounds(3) [OF q'] by simp
    have "rnd_val q \<le> of_int (2 ^ 53) * 2 powi f64_expo q"
      unfolding rnd_val_def using rnd_sig_bounds(2) [OF assms(1)]
      by (intro mult_right_mono) (simp_all only: of_int_le_iff less_imp_le [OF pw_pos])
    also have "\<dots> = 2 ^ 52 * 2 powi (f64_expo q + 1)" by (simp add: pw_add)
    also have "\<dots> \<le> 2 ^ 52 * 2 powi f64_expo q'"
      using lt by (simp only: mult_le_cancel_left_pos zero_less_power zero_less_numeral pw_le_iff)
    also have "\<dots> \<le> rnd_val q'"
    proof -
      have "(of_int (2 ^ 52) :: rat) \<le> of_int (rnd_sig q')" using s' by (simp only: of_int_le_iff)
      then show ?thesis
        unfolding rnd_val_def by (intro mult_right_mono) (simp_all add: less_imp_le)
    qed
    finally show ?thesis .
  qed
qed

text \<open>A number with at most 53 significant bits is left alone.\<close>

lemma rnd_val_exact_aux:
  assumes "q = of_int m * 2 powi e" and "0 < m" and "f64_expo q \<le> e"
  shows "rnd_val q = q"
proof -
  let ?x = "f64_expo q"
  have "q = of_int m * (2 powi (e - ?x) * 2 powi ?x)"
    by (simp add: assms(1) flip: pw_add)
  also have "2 powi (e - ?x) = (of_int (2 ^ nat (e - ?x)) :: rat)"
    using assms(3) by (intro pw_nat) simp
  finally have "q / 2 powi ?x = of_int (m * 2 ^ nat (e - ?x))"
    by (simp add: divide_eq_eq)
  then have "rnd_sig q = m * 2 ^ nat (e - ?x)"
    unfolding rnd_sig_def by (simp only: round_even_int)
  with \<open>q / 2 powi ?x = of_int (m * 2 ^ nat (e - ?x))\<close>
  have "rnd_val q = (q / 2 powi ?x) * 2 powi ?x" by (simp only: rnd_val_def)
  then show ?thesis by simp
qed

lemma expo_le:
  assumes "q = of_int m * 2 powi e" and "0 < m" and "m < 2 ^ 53" and "-1074 \<le> e"
  shows "f64_expo q \<le> e"
proof -
  have "0 < q" using assms by simp
  have "(of_int m :: rat) < of_int (2 ^ 53)" using assms(3) by (simp only: of_int_less_iff)
  then have "q < 2 powi (e + 53)" by (simp add: assms(1) pw_add)
  with lg2_bounds(1) [OF \<open>0 < q\<close>] have "(2 :: rat) powi lg2 q < 2 powi (e + 53)" by linarith
  then have "lg2 q < e + 53" by (simp only: pw_less_iff)
  then show ?thesis using assms(4) by (simp add: f64_expo_def)
qed

lemma rnd_val_exact:
  assumes "q = of_int m * 2 powi e" and "0 < m" and "m \<le> 2 ^ 53" and "-1074 \<le> e"
  shows "rnd_val q = q"
proof (cases "m = 2 ^ 53")
  case False
  with assms show ?thesis by (intro rnd_val_exact_aux [OF assms(1,2)] expo_le) auto
next
  case True
  then have "q = of_int (2 ^ 52) * 2 powi (e + 1)" by (simp add: assms(1) pw_add)
  then show ?thesis
    using assms(4) by (intro rnd_val_exact_aux [of q "2 ^ 52" "e + 1"] expo_le) auto
qed

lemma rnd_val_idem: "0 < q \<Longrightarrow> 0 < rnd_val q \<Longrightarrow> rnd_val (rnd_val q) = rnd_val q"
proof -
  assume "0 < q" and "0 < rnd_val q"
  then have "0 < rnd_sig q"
    using pw_pos [of "f64_expo q"]
    by (auto simp: rnd_val_def zero_less_mult_iff dest: order_less_asym)
  then show ?thesis
    using rnd_sig_bounds [OF \<open>0 < q\<close>]
    by (intro rnd_val_exact [of _ "rnd_sig q" "f64_expo q"]) (auto simp: rnd_val_def f64_expo_def)
qed


section \<open>The order and the arithmetic\<close>

lemma key_round:
  "f64_key (f64_round q) =
     (if q = 0 then (0, 0)
      else if 0 < q then (if f64_limit \<le> rnd_val q then (1, 0) else (0, rnd_val q))
      else (if f64_limit \<le> rnd_val (- q) then (-1, 0) else (0, - rnd_val (- q))))"
  by (simp add: f64_round_def round_pos_val)

lemma round_not_NaN [simp]: "f64_round q \<noteq> F_NaN"
  by (simp add: f64_round_def round_pos_val)

theorem f64_round_mono:
  assumes "q \<le> q'"
  shows "f64_le (f64_round q) (f64_round q')"
proof -
  have pos: "0 < q \<Longrightarrow> rnd_val q \<le> rnd_val q'" using assms by (rule rnd_val_mono [rotated])
  have neg: "q' < 0 \<Longrightarrow> rnd_val (- q') \<le> rnd_val (- q)" using assms by (intro rnd_val_mono) auto
  have "f64_key (f64_round q) \<le> f64_key (f64_round q')"
  proof (cases "0 < q")
    case True
    with assms have "0 < q'" by simp
    with True pos show ?thesis by (auto simp: key_round)
  next
    case False
    show ?thesis
    proof (cases "0 \<le> q'")
      case True
      with False show ?thesis
        using rnd_val_nonneg [of q'] rnd_val_nonneg [of "- q"] by (auto simp: key_round)
    next
      case q': False
      with False assms have "q < 0" by simp
      with q' neg show ?thesis by (auto simp: key_round)
    qed
  qed
  then show ?thesis by (simp add: f64_le_def)
qed

lemma f64_round_0 [simp]: "f64_round 0 = F_Fin 0"
  by (simp add: f64_round_def)

lemma f64_neg_neg [simp]: "f64_neg (f64_neg x) = x"
  by (cases x) auto

lemma f64_round_neg: "q \<noteq> 0 \<Longrightarrow> f64_round (- q) = f64_neg (f64_round q)"
  by (simp add: f64_round_def)

lemma is_f64_neg [simp]: "is_f64 x \<Longrightarrow> is_f64 (f64_neg x)"
  by (cases x) (simp_all add: f64_round_neg)

lemma is_f64_round [simp]: "is_f64 (f64_round q)"
proof -
  have pos: "is_f64 (f64_round_pos q)" if "0 < q" for q
  proof (cases "f64_limit \<le> rnd_val q \<or> rnd_val q = 0")
    case True
    then show ?thesis by (auto simp: round_pos_val f64_round_def)
  next
    case False
    then have "0 < rnd_val q" using rnd_val_nonneg [OF that] by linarith
    with False show ?thesis
      using rnd_val_idem [OF that] by (simp add: round_pos_val f64_round_def)
  qed
  show ?thesis
    using pos [of q] pos [of "- q"] by (auto simp: f64_round_def)
qed

text \<open>Integers of up to 53 bits, and their scalings, are represented exactly.\<close>

lemma f64_round_exact:
  assumes "q = of_int m * 2 powi e" and "\<bar>m\<bar> \<le> 2 ^ 53" and "-1074 \<le> e" and "e \<le> 970"
  shows "f64_round q = F_Fin q"
proof -
  have pos: "f64_round_pos r = F_Fin r" if r: "r = of_int n * 2 powi e" "0 < n" "n \<le> 2 ^ 53" for r n
  proof -
    have "(of_int n :: rat) \<le> of_int (2 ^ 53)" using r(3) by (simp only: of_int_le_iff)
    moreover have "(2 :: rat) powi e \<le> 2 powi 970" using assms(4) by (simp only: pw_le_iff)
    ultimately have "r \<le> of_int (2 ^ 53) * 2 powi 970"
      unfolding r(1) using r(2) by (intro mult_mono) (simp_all add: less_imp_le)
    also have "\<dots> < 2 ^ 1024" by (simp add: power_add [symmetric])
    finally have "r < f64_limit" by (simp only: f64_limit_def)
    then show ?thesis
      using rnd_val_exact [OF r assms(3)] by (simp add: round_pos_val)
  qed
  consider "m = 0" | "0 < m" | "m < 0" by linarith
  then show ?thesis
  proof cases
    case 1
    then show ?thesis by (simp add: assms(1) f64_round_def)
  next
    case 2
    then have "0 < q" by (simp add: assms(1))
    then show ?thesis using pos [OF assms(1) 2] assms(2) by (simp add: f64_round_def)
  next
    case 3
    have "- q = of_int (- m) * 2 powi e" by (simp add: assms(1))
    then have "f64_round_pos (- q) = F_Fin (- q)" using 3 assms(2) by (intro pos) auto
    moreover have "q < 0" using 3 by (simp add: assms(1) mult_neg_pos)
    ultimately show ?thesis by (simp add: f64_round_def)
  qed
qed

lemma f64_round_int: "\<bar>i\<bar> \<le> 2 ^ 53 \<Longrightarrow> f64_round (of_int i) = F_Fin (of_int i)"
  by (rule f64_round_exact [of _ i 0]) auto


lemma is_f64_zero [simp]: "is_f64 (f64_zero b)"
  by (simp add: f64_zero_def)

lemma is_f64_inf [simp]: "is_f64 (f64_inf b)"
  by (simp add: f64_inf_def)

lemma is_f64_add [simp]: "is_f64 x \<Longrightarrow> is_f64 y \<Longrightarrow> is_f64 (f64_add x y)"
  by (simp add: f64_add_def)

lemma is_f64_mul [simp]: "is_f64 (f64_mul x y)"
  by (simp add: f64_mul_def Let_def)

lemma is_f64_div [simp]: "is_f64 (f64_div x y)"
  by (simp add: f64_div_def Let_def)

lemma is_f64_lit [simp]: "is_f64 (f64_lit q)"
  by (simp add: f64_lit_def)

lemma f64_le_refl: "x \<noteq> F_NaN \<Longrightarrow> f64_le x x"
  by (simp add: f64_le_def)

lemma f64_le_trans: "f64_le x y \<Longrightarrow> f64_le y z \<Longrightarrow> f64_le x z"
  by (auto simp: f64_le_def)

lemma f64_le_total: "x \<noteq> F_NaN \<Longrightarrow> y \<noteq> F_NaN \<Longrightarrow> f64_le x y \<or> f64_le y x"
  by (auto simp: f64_le_def)

lemma f64_lt_iff: "x \<noteq> F_NaN \<Longrightarrow> y \<noteq> F_NaN \<Longrightarrow> f64_lt x y \<longleftrightarrow> \<not> f64_le y x"
  by (auto simp: f64_lt_def f64_le_def)

text \<open>Adding two finite values rounds their exact sum, the zeros included.\<close>

definition f64_finite :: "f64 \<Rightarrow> bool" where
  "f64_finite x \<longleftrightarrow> x \<noteq> F_NaN \<and> \<not> f64_isinf x"

lemma f64_finite_cases:
  assumes "f64_finite x"
  obtains "x = F_NZero" | q where "x = F_Fin q"
  using assms by (cases x) (auto simp: f64_finite_def f64_isinf_def)

lemma key_finite: "f64_finite x \<Longrightarrow> f64_key x = (0, f64_val x)"
  by (erule f64_finite_cases) auto

lemma key_add:
  assumes "f64_finite x" and "f64_finite y" and "is_f64 x" and "is_f64 y"
  shows "f64_key (f64_add x y) = f64_key (f64_round (f64_val x + f64_val y))"
  using assms
  by (elim f64_finite_cases) (auto simp: f64_add_def f64_isinf_def)

lemma f64_add_mono:
  assumes "is_f64 a" and "is_f64 b" and "is_f64 c" and ab: "f64_le a b"
    and nn: "f64_add a c \<noteq> F_NaN" "f64_add b c \<noteq> F_NaN"
  shows "f64_le (f64_add a c) (f64_add b c)"
proof (cases "f64_finite a \<and> f64_finite b \<and> f64_finite c")
  case True
  then have "f64_val a + f64_val c \<le> f64_val b + f64_val c"
    using ab by (simp add: f64_le_def key_finite)
  then have "f64_le (f64_round (f64_val a + f64_val c)) (f64_round (f64_val b + f64_val c))"
    by (rule f64_round_mono)
  then show ?thesis
    using True assms(1-3) nn by (simp add: f64_le_def key_add)
next
  case False
  have "f64_key x \<ge> (-1, 0) \<and> (x \<noteq> F_NaN \<longrightarrow> f64_key x \<le> (1, 0))" for x
    by (cases x) auto
  then show ?thesis
    using False ab nn
    by (cases a; cases b; cases c) (auto simp: f64_le_def f64_add_def f64_isinf_def f64_finite_def)
qed

section \<open>Costs\<close>

text \<open>
  A cost is a non-negative value: the sums of a path search start at zero and add costs. The
  locale \<open>cost_order\<close> states what a path search needs of its costs, in the order in which the
  code adds them up (from the source, one edge after the other): a total order, a sum that is
  monotone in the part already added, and an addend that never makes the sum smaller. Addition of
  doubles has these properties although it is not associative.
\<close>

definition is_cost :: "f64 \<Rightarrow> bool" where
  "is_cost x \<longleftrightarrow> is_f64 x \<and> f64_le (F_Fin 0) x"

definition is_cost_or_nan :: "f64 \<Rightarrow> bool" where
  "is_cost_or_nan x \<longleftrightarrow> x = F_NaN \<or> is_cost x"

lemma is_cost_not_NaN: "is_cost x \<Longrightarrow> x \<noteq> F_NaN"
  by (auto simp: is_cost_def f64_le_def)

lemma is_cost_0 [simp]: "is_cost (F_Fin 0)"
  by (simp add: is_cost_def f64_le_def)

lemma is_cost_cases:
  assumes "is_cost x"
  obtains "x = F_PInf" | "x = F_NZero" | q where "x = F_Fin q" "0 \<le> q" "f64_round q = F_Fin q"
  using assms by (cases x) (auto simp: is_cost_def f64_le_def)

lemma is_cost_round: "0 \<le> q \<Longrightarrow> is_cost (f64_round q)"
  using f64_round_mono [of 0 q] by (simp add: is_cost_def)

lemma key_round_nonneg: "0 \<le> q \<Longrightarrow> (0, 0) \<le> f64_key (f64_round q)"
  using f64_round_mono [of 0 q] by (simp add: f64_le_def)

lemma is_cost_add:
  assumes "is_cost x" and "is_cost y"
  shows "is_cost (f64_add x y)"
  using assms
  by (elim is_cost_cases)
    (auto simp: f64_add_def f64_isinf_def is_cost_def f64_le_def key_round_nonneg)

lemma f64_add_infl:
  assumes "is_cost a" and "is_cost c"
  shows "f64_le a (f64_add a c)"
proof -
  consider "a = F_PInf" | "c = F_PInf" | "f64_finite a" "f64_finite c"
    using assms by (elim is_cost_cases) (auto simp: f64_finite_def f64_isinf_def)
  then show ?thesis
  proof cases
    case 3
    have "f64_val a \<le> f64_val a + f64_val c" using assms by (elim is_cost_cases) auto
    then have "f64_le (f64_round (f64_val a)) (f64_round (f64_val a + f64_val c))"
      by (rule f64_round_mono)
    moreover have "f64_key (f64_round (f64_val a)) = f64_key a"
      using assms(1) 3(1) by (elim is_cost_cases) (auto simp: f64_finite_def f64_isinf_def)
    moreover have "f64_add a c \<noteq> F_NaN" using assms by (intro is_cost_not_NaN is_cost_add)
    ultimately show ?thesis
      using 3 assms is_cost_not_NaN [OF assms(1)] by (simp add: f64_le_def key_add is_cost_def)
  qed (use assms in \<open>auto elim!: is_cost_cases simp: f64_add_def f64_isinf_def f64_le_def\<close>)
qed


locale cost_order =
  fixes le :: "'c \<Rightarrow> 'c \<Rightarrow> bool" and add :: "'c \<Rightarrow> 'c \<Rightarrow> 'c"
    and cost :: "'c \<Rightarrow> bool" and zero :: 'c
  assumes cost_zero: "cost zero"
    and zero_le: "cost a \<Longrightarrow> le zero a"
    and cost_add: "cost a \<Longrightarrow> cost b \<Longrightarrow> cost (add a b)"
    and le_refl: "cost a \<Longrightarrow> le a a"
    and le_trans: "le a b \<Longrightarrow> le b c \<Longrightarrow> le a c"
    and le_total: "cost a \<Longrightarrow> cost b \<Longrightarrow> le a b \<or> le b a"
    and add_mono: "cost a \<Longrightarrow> cost b \<Longrightarrow> cost c \<Longrightarrow> le a b \<Longrightarrow> le (add a c) (add b c)"
    and add_infl: "cost a \<Longrightarrow> cost c \<Longrightarrow> le a (add a c)"
begin

text \<open>The cost of a walk: its edge costs added from the left.\<close>

lemma cost_foldl: "cost a \<Longrightarrow> (\<forall>c \<in> set cs. cost c) \<Longrightarrow> cost (foldl add a cs)"
  by (induction cs arbitrary: a) (auto intro: cost_add)

lemma foldl_mono:
  "cost a \<Longrightarrow> cost b \<Longrightarrow> (\<forall>c \<in> set cs. cost c) \<Longrightarrow> le a b \<Longrightarrow> le (foldl add a cs) (foldl add b cs)"
  by (induction cs arbitrary: a b) (auto intro: cost_add add_mono)

lemma foldl_infl: "cost a \<Longrightarrow> (\<forall>c \<in> set cs. cost c) \<Longrightarrow> le a (foldl add a cs)"
proof (induction cs arbitrary: a)
  case Nil
  then show ?case by (simp add: le_refl)
next
  case (Cons c cs)
  then have "le a (add a c)" and "le (add a c) (foldl add (add a c) cs)"
    by (auto intro: cost_add add_infl)
  then show ?case by (auto intro: le_trans)
qed

text \<open>A prefix of a walk costs no more than the walk.\<close>

lemma foldl_prefix:
  "cost a \<Longrightarrow> (\<forall>c \<in> set (cs @ ds). cost c) \<Longrightarrow> le (foldl add a cs) (foldl add a (cs @ ds))"
  by (simp add: foldl_infl cost_foldl)

lemma not_le_le: "cost a \<Longrightarrow> cost b \<Longrightarrow> \<not> le a b \<Longrightarrow> le b a"
  using le_total by blast

end

interpretation f64_cost: cost_order f64_le f64_add is_cost "F_Fin 0"
proof unfold_locales
  show "f64_le (f64_add a c) (f64_add b c)"
    if "is_cost a" "is_cost b" "is_cost c" "f64_le a b" for a b c
    using that is_cost_not_NaN [OF is_cost_add] by (intro f64_add_mono) (auto simp: is_cost_def)
next
  show "f64_le a a" if "is_cost a" for a
    using that by (intro f64_le_refl is_cost_not_NaN)
  show "f64_le a b \<or> f64_le b a" if "is_cost a" "is_cost b" for a b
    using that by (intro f64_le_total is_cost_not_NaN)
  show "f64_le (F_Fin 0) a" if "is_cost a" for a
    using that by (simp add: is_cost_def)
qed (auto simp: is_cost_add f64_add_infl intro: f64_le_trans)

text \<open>Products and quotients of costs are costs, or not numbers (zero times infinity).\<close>

lemma is_cost_or_nan_add: "is_cost_or_nan x \<Longrightarrow> is_cost_or_nan y \<Longrightarrow> is_cost_or_nan (f64_add x y)"
  by (auto simp: is_cost_or_nan_def is_cost_add) (simp_all add: f64_add_def)

lemma is_cost_or_nan_mul: "is_cost_or_nan x \<Longrightarrow> is_cost_or_nan y \<Longrightarrow> is_cost_or_nan (f64_mul x y)"
  unfolding is_cost_or_nan_def
  by (elim disjE is_cost_cases)
    (auto simp: f64_mul_def f64_isinf_def f64_zero_def f64_inf_def is_cost_def f64_le_def
      key_round_nonneg)

lemma is_cost_or_nan_div:
  "is_cost_or_nan x \<Longrightarrow> y = F_NaN \<or> is_f64 y \<and> f64_lt (F_Fin 0) y \<Longrightarrow> is_cost_or_nan (f64_div x y)"
  unfolding is_cost_or_nan_def
  by (cases y; elim disjE is_cost_cases)
    (auto simp: f64_div_def f64_isinf_def f64_zero_def f64_inf_def is_cost_def f64_le_def f64_lt_def
      key_round_nonneg)

section \<open>Evaluation\<close>

definition scale_num :: "int \<Rightarrow> int \<Rightarrow> int" where
  "scale_num n e = (if 0 \<le> e then n else n * 2 ^ nat (- e))"

definition scale_den :: "int \<Rightarrow> int \<Rightarrow> int" where
  "scale_den d e = (if 0 \<le> e then d * 2 ^ nat e else d)"

lemma scale_quot:
  assumes "0 < d"
  shows "of_int n / of_int d / 2 powi e = (of_int (scale_num n e) / of_int (scale_den d e) :: rat)"
    and "0 < scale_den d e"
  using assms
  by (simp_all add: scale_num_def scale_den_def pw_nat pw_neg divide_simps)

lemma round_even_quot:
  assumes "0 < (D :: int)"
  shows "round_even (of_int N / of_int D) =
     (let f = N div D; r = 2 * (N mod D) in
      if r < D then f else if D < r then f + 1 else if even f then f else f + 1)"
proof -
  have f: "\<lfloor>of_int N / of_int D :: rat\<rfloor> = N div D" by (rule floor_divide_of_int_eq)
  have "of_int N = (of_int (N div D) * of_int D + of_int (N mod D) :: rat)"
    by (simp flip: of_int_mult of_int_add)
  then have r: "of_int N / of_int D - of_int (N div D) = (of_int (N mod D) / of_int D :: rat)"
    using assms by (simp add: field_simps)
  have "of_int (N mod D) / of_int D < (1 / 2 :: rat) \<longleftrightarrow> of_int (2 * (N mod D)) < (of_int D :: rat)"
    using assms by (simp add: field_simps)
  moreover have "(1 / 2 :: rat) < of_int (N mod D) / of_int D \<longleftrightarrow> (of_int D :: rat) < of_int (2 * (N mod D))"
    using assms by (simp add: field_simps)
  ultimately show ?thesis
    by (simp only: round_even_def f r Let_def of_int_less_iff)
qed

lemma rnd_sig_code:
  assumes "quotient_of q = (n, d)"
  shows "rnd_sig q = (let e = f64_expo q; N = scale_num n e; D = scale_den d e;
           f = N div D; r = 2 * (N mod D) in
           if r < D then f else if D < r then f + 1 else if even f then f else f + 1)"
proof -
  have "0 < d" and q: "q = of_int n / of_int d"
    using assms quotient_of_denom_pos quotient_of_div by blast+
  then show ?thesis
    using round_even_quot [OF scale_quot(2) [OF \<open>0 < d\<close>, of "f64_expo q"], of "scale_num n (f64_expo q)"]
    by (simp only: rnd_sig_def scale_quot(1) Let_def)
qed

lemma limit_sig:
  assumes "0 \<le> m" and "m \<le> 2 ^ 53" and "e = -1074 \<or> 2 ^ 52 \<le> m" and "-1074 \<le> e"
  shows "f64_limit \<le> of_int m * 2 powi e \<longleftrightarrow> 971 < e \<or> e = 971 \<and> m = 2 ^ 53"
proof -
  have lim: "f64_limit = of_int (2 ^ 53) * 2 powi 971"
    by (simp add: f64_limit_def flip: power_add)
  consider "971 < e" | "e = 971" | "e < 971" by linarith
  then show ?thesis
  proof cases
    case 1
    then have m: "(of_int (2 ^ 52) :: rat) \<le> of_int m" using assms(3) by (simp only: of_int_le_iff) auto
    have "f64_limit = of_int (2 ^ 52) * 2 powi (971 + 1)" by (simp only: lim pw_add) simp
    also have "\<dots> \<le> of_int m * 2 powi e"
      using m 1 by (intro mult_mono) (simp_all only: pw_le_iff, auto)
    finally show ?thesis using 1 by simp
  next
    case 2
    have "f64_limit \<le> of_int m * 2 powi e \<longleftrightarrow> (of_int (2 ^ 53) :: rat) \<le> of_int m"
      unfolding lim 2 by (rule mult_le_cancel_right_pos) (rule pw_pos)
    then show ?thesis using 2 assms(2) by (simp only: of_int_le_iff) auto
  next
    case 3
    have "(of_int m :: rat) \<le> of_int (2 ^ 53)" using assms(2) by (simp only: of_int_le_iff)
    then have "of_int m * 2 powi e \<le> (of_int (2 ^ 53) :: rat) * 2 powi e"
      by (rule mult_right_mono) (simp add: less_imp_le)
    also have "\<dots> < f64_limit"
      unfolding lim using 3 by (intro mult_strict_left_mono) (simp_all only: pw_less_iff, simp_all)
    finally show ?thesis using 3 by simp
  qed
qed

definition f64_round_quot :: "int \<Rightarrow> int \<Rightarrow> int \<Rightarrow> f64" where
  "f64_round_quot n d e =
     (let N = scale_num n e; D = scale_den d e; f = N div D; r = 2 * (N mod D);
          m = (if r < D then f else if D < r then f + 1 else if even f then f else f + 1)
      in if 971 < e \<or> e = 971 \<and> m = 2 ^ 53 then F_PInf
         else if 0 \<le> e then F_Fin (of_int (m * 2 ^ nat e))
         else F_Fin (Fract m (2 ^ nat (- e))))"

lemma f64_round_pos_code:
  assumes "0 < q" and "quotient_of q = (n, d)"
  shows "f64_round_pos q = f64_round_quot n d (f64_expo q)"
proof -
  let ?e = "f64_expo q"
  have "f64_limit \<le> rnd_val q \<longleftrightarrow> 971 < ?e \<or> ?e = 971 \<and> rnd_sig q = 2 ^ 53"
    unfolding rnd_val_def
    using rnd_sig_bounds [OF assms(1)] by (intro limit_sig) (auto simp: f64_expo_def)
  moreover have "rnd_val q = of_int (rnd_sig q * 2 ^ nat ?e)" if "0 \<le> ?e"
    using that by (simp add: rnd_val_def pw_nat)
  moreover have "rnd_val q = Fract (rnd_sig q) (2 ^ nat (- ?e))" if "\<not> 0 \<le> ?e"
    using that by (simp add: rnd_val_def pw_neg Fract_of_int_quotient)
  moreover note round_pos_val [of q]
  ultimately have "f64_round_pos q =
      (if 971 < ?e \<or> ?e = 971 \<and> rnd_sig q = 2 ^ 53 then F_PInf
       else if 0 \<le> ?e then F_Fin (of_int (rnd_sig q * 2 ^ nat ?e))
       else F_Fin (Fract (rnd_sig q) (2 ^ nat (- ?e))))"
    by presburger
  then show ?thesis
    by (simp only: f64_round_quot_def Let_def rnd_sig_code [OF assms(2)])
qed

lemma f64_round_code [code]:
  "f64_round q =
     (case quotient_of q of (n, d) \<Rightarrow>
        if n = 0 then F_Fin 0
        else if 0 < n then f64_round_quot n d (f64_expo q)
        else f64_neg (f64_round_quot (- n) d (f64_expo (- q))))"
proof -
  obtain n d where qd: "quotient_of q = (n, d)" by fastforce
  then have d: "0 < d" and q: "q = of_int n / of_int d"
    using quotient_of_denom_pos quotient_of_div by blast+
  have "quotient_of (- q) = (- n, d)" by (simp add: rat_uminus_code qd)
  then show ?thesis
    using f64_round_pos_code [of q n d] f64_round_pos_code [of "- q" "- n" d] d
    by (simp add: f64_round_def qd) (simp add: q zero_less_divide_iff divide_eq_0_iff)
qed

end
