(* ===== verification/TF_NodeId.thy ===== *)
theory TF_NodeId
  imports TF_Prelude
begin

unbundle bit_operations_syntax

text \<open>
  Node identifiers (\<open>node_id.hpp\<close>, \<open>node_id.cpp\<close>): the 128-bit id with its
  lexicographic order, its derivation from namespace, category and native identity, and its
  hexadecimal form.

  The lemmas show that the order is linear and is the order of the 128-bit number; that the
  finishing mix of the hash is a bijection of the two lanes, so two texts that differ in one byte
  never collide; and that the hexadecimal form is read back to the same id, and only hexadecimal
  texts of 32 characters are read at all.
\<close>

section \<open>Identifiers\<close>

datatype node_id = NodeId (high: "64 word") (low: "64 word")

definition kNullNodeId :: node_id where
  "kNullNodeId = NodeId 0 0"

definition is_null :: "node_id \<Rightarrow> bool" where
  "is_null i \<longleftrightarrow> high i = 0 \<and> low i = 0"

text \<open>The comparison operators.\<close>

fun node_id_less :: "node_id \<Rightarrow> node_id \<Rightarrow> bool" where
  "node_id_less (NodeId h l) (NodeId h' l') \<longleftrightarrow> h < h' \<or> (h = h' \<and> l < l')"

definition node_id_less_eq :: "node_id \<Rightarrow> node_id \<Rightarrow> bool" where
  "node_id_less_eq a b \<longleftrightarrow> \<not> node_id_less b a"

instantiation node_id :: linorder
begin

definition less_node_id :: "node_id \<Rightarrow> node_id \<Rightarrow> bool" where
  "less_node_id = node_id_less"

definition less_eq_node_id :: "node_id \<Rightarrow> node_id \<Rightarrow> bool" where
  "less_eq_node_id = node_id_less_eq"

instance
proof
  fix x y z :: node_id
  show "(x < y) = (x \<le> y \<and> \<not> y \<le> x)"
    by (cases x; cases y) (auto simp: less_node_id_def less_eq_node_id_def node_id_less_eq_def)
  show "x \<le> x" by (cases x) (auto simp: less_eq_node_id_def node_id_less_eq_def)
  show "x \<le> y \<Longrightarrow> y \<le> z \<Longrightarrow> x \<le> z"
    by (cases x; cases y; cases z) (auto simp: less_eq_node_id_def node_id_less_eq_def)
  show "x \<le> y \<Longrightarrow> y \<le> x \<Longrightarrow> x = y"
    by (cases x; cases y) (auto simp: less_eq_node_id_def node_id_less_eq_def)
  show "x \<le> y \<or> y \<le> x"
    by (cases x; cases y) (auto simp: less_eq_node_id_def node_id_less_eq_def)
qed

end

text \<open>The id as a number of 128 bits.\<close>

definition id_nat :: "node_id \<Rightarrow> nat" where
  "id_nat i = unat (high i) * 2 ^ 64 + unat (low i)"

lemma unat_lt_64: "unat (w :: 64 word) < 2 ^ 64"
  using unsigned_less [of w] by simp

lemma id_less_nat: "i < j \<longleftrightarrow> id_nat i < id_nat j"
proof -
  obtain h l h' l' where ij: "i = NodeId h l" "j = NodeId h' l'" by (metis node_id.exhaust)
  have "unat h * 2 ^ 64 + unat l < unat h' * 2 ^ 64 + unat l'
      \<longleftrightarrow> unat h < unat h' \<or> unat h = unat h' \<and> unat l < unat l'"
    using unat_lt_64 [of l] unat_lt_64 [of l'] by simp linarith
  then show ?thesis
    by (simp add: ij less_node_id_def id_nat_def word_less_nat_alt word_unat_eq_iff)
qed

section \<open>The hash\<close>

definition splitmix64 :: "64 word \<Rightarrow> 64 word" where
  "splitmix64 x0 =
     (let x = x0 + 0x9e3779b97f4a7c15;
          x = (x XOR drop_bit 30 x) * 0xbf58476d1ce4e5b9;
          x = (x XOR drop_bit 27 x) * 0x94d049bb133111eb
      in x XOR drop_bit 31 x)"

definition mix_in :: "64 word \<Rightarrow> 8 word \<Rightarrow> 64 word" where
  "mix_in state c =
     (let s = state XOR ucast c;
          s = push_bit 8 s OR drop_bit 56 s
      in s * 0x100000001b3)"

definition mix_lanes :: "64 word \<times> 64 word \<Rightarrow> char \<Rightarrow> 64 word \<times> 64 word" where
  "mix_lanes ab c = (mix_in (fst ab) (of_char c), mix_in (snd ab) (NOT (of_char c)))"

definition finish_lanes :: "64 word \<times> 64 word \<Rightarrow> node_id" where
  "finish_lanes ab =
     (let a = fst ab; b = snd ab;
          a = splitmix64 (a XOR drop_bit 32 a);
          b = splitmix64 (b XOR drop_bit 32 b XOR a);
          a = a XOR splitmix64 (b XOR drop_bit 32 b)
      in NodeId a b)"

definition stable_hash128 :: "string \<Rightarrow> 64 word \<Rightarrow> 64 word \<Rightarrow> node_id" where
  "stable_hash128 bytes seed_a seed_b =
     finish_lanes (foldl mix_lanes
       (0xcbf29ce484222325 XOR seed_a, 0x9e3779b97f4a7c15 XOR seed_b) bytes)"

definition derive_node_id :: "string \<Rightarrow> string \<Rightarrow> string \<Rightarrow> node_id" where
  "derive_node_id namespace_key category native_identity =
     stable_hash128 (namespace_key @ ''|'' @ category @ ''|'' @ native_identity)
       0x746f706f6c6f6779 0x6661627269633130"

text \<open>Each step of the hash is injective.\<close>

lemma xor_shift_inj:
  fixes x y :: "64 word"
  assumes "0 < k" and "x XOR drop_bit k x = y XOR drop_bit k y"
  shows "x = y"
proof -
  define z where "z = x XOR y"
  have "z XOR drop_bit k z = (x XOR drop_bit k x) XOR (y XOR drop_bit k y)"
    by (simp add: z_def drop_bit_xor ac_simps)
  also have "\<dots> = 0" using assms(2) by simp
  finally have "(z XOR drop_bit k z) XOR drop_bit k z = drop_bit k z" by simp
  then have "z = drop_bit k z" by (simp add: xor.assoc)
  then have "unat z = unat z div 2 ^ k" by (metis unat_drop_bit_eq drop_bit_eq_div)
  moreover have "(2 :: nat) \<le> 2 ^ k" using assms(1) by (cases k) auto
  ultimately have "unat z = 0"
    by (metis div_less_dividend gr0I linorder_not_less nat_less_le order_less_le_trans
        rel_simps(49) semiring_norm(76) numeral_less_iff one_less_numeral_iff)
  then have "x XOR y = 0" by (simp add: z_def unat_eq_zero)
  then have "(x XOR y) XOR y = y" by simp
  then show ?thesis by (simp add: xor.assoc)
qed

lemma mult_unit_inj:
  fixes x y :: "64 word"
  assumes "c * d = 1" and "x * c = y * c"
  shows "x = y"
proof -
  have "x * (c * d) = y * (c * d)" using assms(2) by (simp flip: mult.assoc)
  then show ?thesis by (simp add: assms(1))
qed

lemma splitmix64_inj: "splitmix64 x = splitmix64 y \<longleftrightarrow> x = y"
proof
  assume "splitmix64 x = splitmix64 y"
  note e = this [unfolded splitmix64_def Let_def]
  have c1: "(0xbf58476d1ce4e5b9 :: 64 word) * 10871156337175269513 = 1" by simp
  have c2: "(0x94d049bb133111eb :: 64 word) * 3573116690164977347 = 1" by simp
  from xor_shift_inj [OF _ e] have "(x + 0x9e3779b97f4a7c15 XOR drop_bit 30 (x + 0x9e3779b97f4a7c15))
    = (y + 0x9e3779b97f4a7c15 XOR drop_bit 30 (y + 0x9e3779b97f4a7c15))"
    by (auto dest!: mult_unit_inj [OF c2] xor_shift_inj [rotated] mult_unit_inj [OF c1])
  then have "x + 0x9e3779b97f4a7c15 = y + 0x9e3779b97f4a7c15"
    by (rule xor_shift_inj [rotated]) simp
  then show "x = y" by simp
qed simp

lemma rot8_inj:
  fixes x y :: "64 word"
  assumes "push_bit 8 x OR drop_bit 56 x = push_bit 8 y OR drop_bit 56 y"
  shows "x = y"
proof (rule bit_word_eqI)
  fix n
  assume n: "n < LENGTH(64)"
  have e: "bit (push_bit 8 x OR drop_bit 56 x) m = bit (push_bit 8 y OR drop_bit 56 y) m" for m
    using assms by simp
  have hi: "\<not> bit w (n + 64)" for w :: "64 word" using bit_imp_le_length [of w "n + 64"] by auto
  show "bit x n = bit y n"
  proof (cases "n < 56")
    case True
    then show ?thesis
      using e [of "n + 8"] n hi
      by (simp add: bit_or_iff bit_push_bit_iff bit_drop_bit_eq add.commute)
  next
    case False
    moreover from False n have "\<not> 8 \<le> n - 56" by simp
    ultimately show ?thesis
      using e [of "n - 56"] n
      by (simp add: bit_or_iff bit_push_bit_iff bit_drop_bit_eq)
  qed
qed

lemma mix_in_inj:
  assumes "mix_in s c = mix_in t d"
  shows "s XOR ucast c = t XOR ucast d"
proof -
  have "(0x100000001b3 :: 64 word) * 14886173955864302971 = 1" by simp
  from mult_unit_inj [OF this assms [unfolded mix_in_def Let_def]] show ?thesis
    by (rule rot8_inj)
qed

lemma xor_cancel_right: "(a :: 'a::len word) XOR c = b XOR c \<longleftrightarrow> a = b"
  by (metis xor.assoc xor.right_neutral xor_self_eq)

lemma xor_cancel_left: "(c :: 'a::len word) XOR a = c XOR b \<longleftrightarrow> a = b"
  by (metis xor.commute xor_cancel_right)

lemma mix_lanes_inj: "mix_lanes ab c = mix_lanes ab' c \<longleftrightarrow> ab = ab'"
  by (auto simp: mix_lanes_def prod_eq_iff dest!: mix_in_inj simp: xor_cancel_right)

lemma ucast_8_64_inj: "(ucast v :: 64 word) = ucast w \<longleftrightarrow> v = w" for v w :: "8 word"
proof -
  have "unat (ucast x :: 64 word) = unat x" for x :: "8 word"
    using unsigned_less [of x, where ?'a = nat]
    by (simp add: unsigned_ucast_eq take_bit_nat_eq_self_iff)
  then show ?thesis by (metis word_unat_eq_iff)
qed

lemma of_char_8_inj: "(of_char c :: 8 word) = of_char d \<longleftrightarrow> c = d"
proof -
  have "unat (of_char x :: 8 word) = of_char x" for x
  proof -
    have "(of_char x :: 8 word) = of_nat (of_char x)" by (rule of_nat_of_char [symmetric])
    then have "unat (of_char x :: 8 word) = of_char x mod 2 ^ LENGTH(8)" by (simp only: unat_of_nat)
    also have "\<dots> = of_char x" using nat_of_char_less_256 [of x] by (intro mod_less) simp
    finally show ?thesis .
  qed
  then show ?thesis by (metis of_char_eq_iff)
qed

lemma mix_lanes_char_inj: "mix_lanes ab c = mix_lanes ab d \<longleftrightarrow> c = d"
proof
  assume "mix_lanes ab c = mix_lanes ab d"
  then have "(ucast (of_char c :: 8 word) :: 64 word) = ucast (of_char d :: 8 word)"
    by (auto simp: mix_lanes_def xor_cancel_left dest!: mix_in_inj)
  then show "c = d" by (simp add: ucast_8_64_inj of_char_8_inj)
qed simp

lemma foldl_lanes_inj: "foldl mix_lanes ab cs = foldl mix_lanes ab' cs \<longleftrightarrow> ab = ab'"
  by (induction cs arbitrary: ab ab') (simp_all add: mix_lanes_inj)

lemma finish_lanes_inj: "finish_lanes ab = finish_lanes ab' \<longleftrightarrow> ab = ab'"
proof
  assume e: "finish_lanes ab = finish_lanes ab'"
  define A where "A p = splitmix64 (fst p XOR drop_bit 32 (fst p))" for p :: "64 word \<times> 64 word"
  define B where "B p = splitmix64 (snd p XOR drop_bit 32 (snd p) XOR A p)" for p :: "64 word \<times> 64 word"
  have "finish_lanes p = NodeId (A p XOR splitmix64 (B p XOR drop_bit 32 (B p))) (B p)" for p
    by (simp only: finish_lanes_def Let_def A_def B_def)
  with e have "NodeId (A ab XOR splitmix64 (B ab XOR drop_bit 32 (B ab))) (B ab)
      = NodeId (A ab' XOR splitmix64 (B ab' XOR drop_bit 32 (B ab'))) (B ab')" by (simp only:)
  then have b: "B ab = B ab'"
    and e2: "A ab XOR splitmix64 (B ab XOR drop_bit 32 (B ab))
      = A ab' XOR splitmix64 (B ab' XOR drop_bit 32 (B ab'))"
    unfolding node_id.inject by blast+
  have a: "A ab = A ab'" using e2 by (simp only: b xor_cancel_right)
  have "fst ab = fst ab'"
    using a unfolding A_def splitmix64_inj by (rule xor_shift_inj [rotated]) simp
  moreover have "snd ab = snd ab'"
    using b unfolding B_def a splitmix64_inj xor.assoc [symmetric] xor_cancel_right
    by (rule xor_shift_inj [rotated]) simp
  ultimately show "ab = ab'" by (rule prod_eqI)
qed simp

lemma stable_hash128_byte:
  "stable_hash128 (xs @ c # ys) sa sb = stable_hash128 (xs @ d # ys) sa sb \<longleftrightarrow> c = d"
  by (simp add: stable_hash128_def finish_lanes_inj foldl_lanes_inj mix_lanes_char_inj)

section \<open>The hexadecimal form\<close>

text \<open>The digits an \<open>ostream\<close> in hexadecimal mode prints, and \<open>setw\<close> with fill
  character \<open>0\<close>, which never truncates.\<close>

definition hex_char :: "nat \<Rightarrow> char" where
  "hex_char d = ''0123456789abcdef'' ! d"

fun hex_digits :: "nat \<Rightarrow> string" where
  "hex_digits n = (if n < 16 then [hex_char n] else hex_digits (n div 16) @ [hex_char (n mod 16)])"

declare hex_digits.simps [simp del]

definition setw_hex :: "nat \<Rightarrow> nat \<Rightarrow> string" where
  "setw_hex w n = replicate (w - length (hex_digits n)) CHR ''0'' @ hex_digits n"

definition to_hex :: "node_id \<Rightarrow> string" where
  "to_hex i = setw_hex 16 (unat (high i)) @ setw_hex 16 (unat (low i))"

definition hex_digit_val :: "char \<Rightarrow> nat option" where
  "hex_digit_val c = (let n = of_char c :: nat in
     if 48 \<le> n \<and> n \<le> 57 then Some (n - 48)
     else if 97 \<le> n \<and> n \<le> 102 then Some (n - 97 + 10)
     else if 65 \<le> n \<and> n \<le> 70 then Some (n - 65 + 10)
     else None)"

text \<open>The lambda \<open>parse\<close>: a bad character ends it with \<open>UINT64_MAX\<close>.\<close>

fun parse_half :: "64 word \<Rightarrow> string \<Rightarrow> 64 word" where
  "parse_half v [] = v"
| "parse_half v (c # cs) =
     (case hex_digit_val c of None \<Rightarrow> -1 | Some d \<Rightarrow> parse_half (v * 16 + of_nat d) cs)"

definition try_from_hex :: "string \<Rightarrow> node_id option" where
  "try_from_hex s =
     (if length s \<noteq> 32 then None
      else (let s1 = take 16 s; s2 = take 16 (drop 16 s); h = parse_half 0 s1; l = parse_half 0 s2 in
        if h = -1 \<and> s1 \<noteq> ''ffffffffffffffff'' then None
        else if l = -1 \<and> s2 \<noteq> ''ffffffffffffffff'' then None
        else Some (NodeId h l)))"

text \<open>\<open>from_hex\<close> throws \<open>std::invalid_argument\<close>.\<close>

definition from_hex :: "string \<Rightarrow> node_id tresult" where
  "from_hex s = (case try_from_hex s of
     None \<Rightarrow> Inl (TopologyError EC_INVALID_ARGUMENT ''TopologyNodeId: malformed 128-bit hex string'')
   | Some i \<Rightarrow> Inr i)"

text \<open>The digits at a fixed width.\<close>

fun hex_fixed :: "nat \<Rightarrow> nat \<Rightarrow> string" where
  "hex_fixed 0 n = []"
| "hex_fixed (Suc k) n = hex_fixed k (n div 16) @ [hex_char (n mod 16)]"

lemma length_hex_fixed [simp]: "length (hex_fixed k n) = k"
  by (induction k n rule: hex_fixed.induct) auto

lemma hex_fixed_0: "hex_fixed k 0 = replicate k CHR ''0''"
  by (induction k) (auto simp: hex_char_def replicate_append_same)

lemma length_hex_digits: "n < 16 ^ Suc k \<Longrightarrow> length (hex_digits n) \<le> Suc k"
proof (induction k arbitrary: n)
  case 0
  then show ?case by (simp add: hex_digits.simps)
next
  case (Suc k)
  then have "n div 16 < 16 ^ Suc k" by (simp add: div_less_iff_less_mult mult.commute)
  with Suc.IH show ?case by (subst hex_digits.simps) simp
qed

lemma hex_digits_fixed: "length (hex_digits n) \<le> k \<Longrightarrow> setw_hex k n = hex_fixed k n"
proof (induction k arbitrary: n)
  case 0
  then show ?case by (subst (asm) hex_digits.simps) (simp split: if_splits)
next
  case (Suc k)
  show ?case
  proof (cases "n < 16")
    case True
    then show ?thesis
      by (simp add: setw_hex_def hex_digits.simps hex_fixed_0 flip: replicate_append_same)
  next
    case False
    then have d: "hex_digits n = hex_digits (n div 16) @ [hex_char (n mod 16)]"
      by (subst hex_digits.simps) simp
    with Suc have "setw_hex k (n div 16) = hex_fixed k (n div 16)" by simp
    then show ?thesis by (simp add: setw_hex_def d)
  qed
qed

lemma setw_hex_16: "setw_hex 16 (unat (w :: 64 word)) = hex_fixed 16 (unat w)"
  using unat_lt_64 [of w] length_hex_digits [of "unat w" 15] by (intro hex_digits_fixed) simp

text \<open>The value of a text of hexadecimal digits.\<close>

definition hex_texts :: "string \<Rightarrow> bool" where
  "hex_texts s \<longleftrightarrow> (\<forall>c \<in> set s. hex_digit_val c \<noteq> None)"

definition hex_value :: "string \<Rightarrow> nat" where
  "hex_value s = foldl (\<lambda>v c. v * 16 + the (hex_digit_val c)) 0 s"

lemma hex_value_snoc: "hex_value (s @ [c]) = hex_value s * 16 + the (hex_digit_val c)"
  by (simp add: hex_value_def)

lemma less_16_cases: "(d :: nat) < 16 \<Longrightarrow>
    d = 0 \<or> d = 1 \<or> d = 2 \<or> d = 3 \<or> d = 4 \<or> d = 5 \<or> d = 6 \<or> d = 7 \<or> d = 8 \<or> d = 9 \<or>
    d = 10 \<or> d = 11 \<or> d = 12 \<or> d = 13 \<or> d = 14 \<or> d = 15"
  by presburger

lemma hex_digit_val_char: "d < 16 \<Longrightarrow> hex_digit_val (hex_char d) = Some d"
  by (drule less_16_cases) (auto simp: hex_digit_val_def hex_char_def)

lemma hex_digit_val_less: "hex_digit_val c = Some d \<Longrightarrow> d < 16"
  by (auto simp: hex_digit_val_def Let_def split: if_splits)

lemma hex_fixed_texts: "hex_texts (hex_fixed k n)"
  by (induction k n rule: hex_fixed.induct) (auto simp: hex_texts_def hex_digit_val_char)

lemma hex_fixed_value: "n < 16 ^ k \<Longrightarrow> hex_value (hex_fixed k n) = n"
proof (induction k arbitrary: n)
  case 0
  then show ?case by (simp add: hex_value_def)
next
  case (Suc k)
  then have "n div 16 < 16 ^ k" by (simp add: div_less_iff_less_mult mult.commute)
  with Suc.IH show ?case by (simp add: hex_value_snoc hex_digit_val_char)
qed

lemma hex_value_less: "hex_texts s \<Longrightarrow> hex_value s < 16 ^ length s"
proof (induction s rule: rev_induct)
  case (snoc c s)
  then obtain d where "hex_digit_val c = Some d" "d < 16" "hex_value s < 16 ^ length s"
    by (auto simp: hex_texts_def dest: hex_digit_val_less)
  then show ?case by (simp add: hex_value_snoc)
qed (simp add: hex_value_def)

lemma parse_half_foldl:
  "hex_texts s \<Longrightarrow> parse_half (of_nat v) s = of_nat (foldl (\<lambda>v c. v * 16 + the (hex_digit_val c)) v s)"
proof (induction s arbitrary: v)
  case (Cons c s)
  then obtain d where "hex_digit_val c = Some d" and "hex_texts s" by (auto simp: hex_texts_def)
  with Cons.IH [of "v * 16 + d"] show ?case by simp
qed simp

lemma parse_half_value: "hex_texts s \<Longrightarrow> parse_half 0 s = of_nat (hex_value s)"
  using parse_half_foldl [of s 0] by (simp add: hex_value_def)

lemma parse_half_bad: "\<not> hex_texts s \<Longrightarrow> parse_half v s = -1"
  by (induction v s rule: parse_half.induct) (auto simp: hex_texts_def split: option.splits)

text \<open>Which texts are read, and as what: 32 hexadecimal digits, except that a half with the value
  $2^{64} - 1$ must be written in lower case, because that value also signals a bad character.\<close>

definition half_ok :: "string \<Rightarrow> bool" where
  "half_ok s \<longleftrightarrow> hex_texts s \<and> (hex_value s \<noteq> 2 ^ 64 - 1 \<or> s = ''ffffffffffffffff'')"

lemma half_reads:
  assumes "length s = 16"
  shows "(parse_half 0 s = -1 \<and> s \<noteq> ''ffffffffffffffff'') \<longleftrightarrow> \<not> half_ok s"
proof (cases "hex_texts s")
  case True
  have lt: "hex_value s < 2 ^ 64" using hex_value_less [OF True] assms by simp
  have "parse_half 0 s = -1 \<longleftrightarrow> hex_value s = 2 ^ 64 - 1"
  proof -
    have "unat (of_nat (hex_value s) :: 64 word) = hex_value s"
      using lt by (simp add: unat_of_nat)
    moreover have "unat (-1 :: 64 word) = 2 ^ 64 - 1"
      by (simp add: unsigned_minus_1_eq_mask mask_eq_exp_minus_1)
    ultimately show ?thesis
      unfolding parse_half_value [OF True] word_unat_eq_iff by presburger
  qed
  then show ?thesis using True by (auto simp: half_ok_def)
next
  case False
  moreover have "hex_texts ''ffffffffffffffff''" by (simp add: hex_texts_def hex_digit_val_def)
  ultimately show ?thesis by (auto simp: half_ok_def parse_half_bad)
qed

lemma try_from_hex_eq:
  "try_from_hex s =
     (if length s = 32 \<and> half_ok (take 16 s) \<and> half_ok (drop 16 s)
      then Some (NodeId (of_nat (hex_value (take 16 s))) (of_nat (hex_value (drop 16 s))))
      else None)"
proof (cases "length s = 32")
  case True
  then show ?thesis
    using half_reads [of "take 16 s"] half_reads [of "drop 16 s"]
    by (auto simp: try_from_hex_def Let_def parse_half_value half_ok_def)
qed (simp add: try_from_hex_def)

lemma hex_fixed_max_k: "hex_fixed k (16 ^ k - 1) = replicate k CHR ''f''"
proof (induction k)
  case (Suc k)
  define m :: nat where "m = 16 ^ k - 1"
  have "(16 :: nat) ^ Suc k - 1 = 16 * m + 15"
    using one_le_power [of "16 :: nat" k] by (simp add: m_def algebra_simps)
  moreover have "hex_fixed k m = replicate k CHR ''f''" using Suc by (simp only: m_def)
  ultimately show ?case
    by (simp only: hex_fixed.simps) (simp add: hex_char_def replicate_append_same)
qed simp

lemma hex_fixed_max: "hex_fixed 16 (2 ^ 64 - 1) = ''ffffffffffffffff''"
proof -
  have "replicate 16 CHR ''f'' = ''ffffffffffffffff''" by (simp add: numeral_eq_Suc)
  then show ?thesis using hex_fixed_max_k [of 16] by simp
qed

lemma hex_value_fixed_16: "hex_value (hex_fixed 16 (unat (w :: 64 word))) = unat w"
proof (rule hex_fixed_value)
  show "unat w < 16 ^ 16" using unat_lt_64 [of w] by simp
qed

lemma half_ok_hex: "half_ok (hex_fixed 16 (unat (w :: 64 word)))"
proof (cases "unat w = 2 ^ 64 - 1")
  case True
  then have "hex_fixed 16 (unat w) = ''ffffffffffffffff''" by (simp only: hex_fixed_max)
  with hex_fixed_texts [of 16 "unat w"] show ?thesis by (simp only: half_ok_def) simp
next
  case False
  with hex_value_fixed_16 [of w] hex_fixed_texts [of 16 "unat w"] show ?thesis
    by (simp only: half_ok_def) simp
qed

lemma try_from_hex_to_hex: "try_from_hex (to_hex i) = Some i"
  by (simp add: to_hex_def setw_hex_16 try_from_hex_eq half_ok_hex hex_value_fixed_16)

lemma to_hex_inj: "to_hex i = to_hex j \<longleftrightarrow> i = j"
  by (metis option.inject try_from_hex_to_hex)

lemma length_to_hex: "length (to_hex i) = 32"
  by (simp add: to_hex_def setw_hex_16)

section \<open>Properties\<close>

text \<open>An id written with \<open>to_hex\<close> is read back by \<open>try_from_hex\<close>; the text has 32 characters
  and different ids have different texts.\<close>

theorem id_text_round_trip:
  "try_from_hex (to_hex i) = Some i \<and> length (to_hex i) = 32 \<and> (to_hex i = to_hex j \<longleftrightarrow> i = j)"
  by (simp only: try_from_hex_to_hex length_to_hex to_hex_inj)

text \<open>\<open>try_from_hex\<close> accepts exactly the texts of 32 hexadecimal digits, except that a half with
  the value \<open>2 ^ 64 - 1\<close> must be written with lower-case letters; the halves are the values of the
  two groups of 16 digits.\<close>

theorem id_text_accepted:
  "try_from_hex s = Some i \<longleftrightarrow> length s = 32 \<and> half_ok (take 16 s) \<and> half_ok (drop 16 s)
     \<and> i = NodeId (of_nat (hex_value (take 16 s))) (of_nat (hex_value (drop 16 s)))"
  by (auto simp: try_from_hex_eq)

text \<open>Two native identities that differ in one byte have different node ids, whatever the
  namespace, the category and the rest of the identity are.\<close>

theorem derived_ids_differ:
  "derive_node_id ns cat (xs @ c # ys) = derive_node_id ns cat (xs @ d # ys) \<longleftrightarrow> c = d"
  using stable_hash128_byte [of "ns @ ''|'' @ cat @ ''|'' @ xs" c ys] by (simp add: derive_node_id_def)

end
