(* ===== verification/TF_Data.thy ===== *)
theory TF_Data
  imports TF_Types TF_Text TF_NodeId
begin

text \<open>
  The data of a topology: property values (\<open>value.hpp\<close>), capability masks
  (\<open>capability.hpp\<close>), confidence (\<open>confidence.hpp\<close>), provenance (\<open>provenance.hpp\<close>,
  \<open>provenance.cpp\<close>), native identity (\<open>identity.hpp\<close>, \<open>identity.cpp\<close>), nodes
  (\<open>node.hpp\<close>) and edges (\<open>edge.hpp\<close>, \<open>edge.cpp\<close>).

  The lemmas show the laws of the capability mask and of the two confidence operations, when two
  PCI identities have one canonical key, and that the key of an undirected edge does not depend on
  the order of its ends.
\<close>

section \<open>Property values\<close>

datatype property_value =
    PV_Null
  | PV_Bool bool
  | PV_Int "64 word"
  | PV_Uint "64 word"
  | PV_Double f64
  | PV_String string
  | PV_StringArray "string list"
  | PV_IntArray "64 word list"

type_synonym property_map = "property_value omap"

text \<open>Equality is that of the stored alternatives: a not-a-number differs from itself, and the
  two zeros are equal.\<close>

fun pv_eq :: "property_value \<Rightarrow> property_value \<Rightarrow> bool" where
  "pv_eq (PV_Double x) v = (case v of PV_Double y \<Rightarrow> f64_eq x y | _ \<Rightarrow> False)"
| "pv_eq u v = (u = v)"

text \<open>The accessors: \<open>None\<close> is the \<open>std::bad_variant_access\<close> of \<open>std::get\<close>.\<close>

fun pv_as_bool :: "property_value \<Rightarrow> bool option" where
  "pv_as_bool (PV_Bool b) = Some b"
| "pv_as_bool _ = None"

fun pv_as_int :: "property_value \<Rightarrow> 64 word option" where
  "pv_as_int (PV_Int i) = Some i"
| "pv_as_int _ = None"

fun pv_as_uint :: "property_value \<Rightarrow> 64 word option" where
  "pv_as_uint (PV_Uint i) = Some i"
| "pv_as_uint _ = None"

fun pv_as_double :: "property_value \<Rightarrow> f64 option" where
  "pv_as_double (PV_Double x) = Some x"
| "pv_as_double _ = None"

fun pv_as_string :: "property_value \<Rightarrow> string option" where
  "pv_as_string (PV_String s) = Some s"
| "pv_as_string _ = None"

fun pv_as_string_array :: "property_value \<Rightarrow> string list option" where
  "pv_as_string_array (PV_StringArray v) = Some v"
| "pv_as_string_array _ = None"

fun pv_as_int_array :: "property_value \<Rightarrow> 64 word list option" where
  "pv_as_int_array (PV_IntArray v) = Some v"
| "pv_as_int_array _ = None"

lemma pv_eq_refl_iff: "pv_eq v v \<longleftrightarrow> v \<noteq> PV_Double F_NaN"
  by (cases v) (auto simp: f64_eq_def)

lemma pv_eq_Double_left: "pv_eq (PV_Double x) v \<longleftrightarrow> (\<exists>y. v = PV_Double y \<and> f64_eq x y)"
  by (cases v) auto

lemma pv_eq_iff: "pv_eq u v \<longleftrightarrow> (\<exists>x y. u = PV_Double x \<and> v = PV_Double y \<and> f64_eq x y) \<or>
    (\<forall>x. u \<noteq> PV_Double x) \<and> u = v"
  by (cases u) (simp_all add: pv_eq_Double_left del: pv_eq.simps(1))

lemma pv_eq_sym: "pv_eq u v \<longleftrightarrow> pv_eq v u"
  by (auto simp: pv_eq_iff f64_eq_def)

lemma pv_eq_trans: "pv_eq u v \<Longrightarrow> pv_eq v w \<Longrightarrow> pv_eq u w"
  by (auto simp: pv_eq_iff f64_eq_def)

section \<open>Capabilities\<close>

type_synonym capability = "64 word"

definition CAP_NONE :: capability where "CAP_NONE = 0"
definition CPU_ADDRESSABLE :: capability where "CPU_ADDRESSABLE = push_bit 0 1"
definition DEVICE_ADDRESSABLE :: capability where "DEVICE_ADDRESSABLE = push_bit 1 1"
definition DMA_CAPABLE :: capability where "DMA_CAPABLE = push_bit 2 1"
definition PEER_ACCESS :: capability where "PEER_ACCESS = push_bit 3 1"
definition DIRECT_TRANSFER :: capability where "DIRECT_TRANSFER = push_bit 4 1"
definition STAGED_TRANSFER :: capability where "STAGED_TRANSFER = push_bit 5 1"
definition SHARED_MEMORY :: capability where "SHARED_MEMORY = push_bit 6 1"
definition PERSISTENT :: capability where "PERSISTENT = push_bit 7 1"
definition COHERENT :: capability where "COHERENT = push_bit 8 1"
definition NUMA_LOCAL :: capability where "NUMA_LOCAL = push_bit 9 1"
definition PCI_CONNECTED :: capability where "PCI_CONNECTED = push_bit 10 1"
definition NETWORK_CONNECTED :: capability where "NETWORK_CONNECTED = push_bit 11 1"
definition STORAGE_BACKED :: capability where "STORAGE_BACKED = push_bit 12 1"

lemmas capability_defs = CAP_NONE_def CPU_ADDRESSABLE_def DEVICE_ADDRESSABLE_def DMA_CAPABLE_def
  PEER_ACCESS_def DIRECT_TRANSFER_def STAGED_TRANSFER_def SHARED_MEMORY_def PERSISTENT_def
  COHERENT_def NUMA_LOCAL_def PCI_CONNECTED_def NETWORK_CONNECTED_def STORAGE_BACKED_def

definition cap_has :: "capability \<Rightarrow> capability \<Rightarrow> bool" where
  "cap_has flags flag \<longleftrightarrow> flags AND flag \<noteq> 0"

definition cap_add :: "capability \<Rightarrow> capability \<Rightarrow> capability" where
  "cap_add flags flag = flags OR flag"

definition cap_complement :: "capability \<Rightarrow> capability" where
  "cap_complement a = NOT a"

lemma cap_has_bit: "cap_has s (push_bit n 1) \<longleftrightarrow> bit s n" if "n < 64"
proof
  assume "cap_has s (push_bit n 1)"
  then obtain m where "bit (s AND push_bit n 1) m" by (auto simp: cap_has_def bit_eq_iff)
  then show "bit s n" by (auto simp: bit_simps)
next
  assume "bit s n"
  then have "bit (s AND push_bit n 1) n" using that by (simp add: bit_simps)
  then show "cap_has s (push_bit n 1)" by (auto simp: cap_has_def)
qed

text \<open>Adding one flag sets that flag and no other, and clearing is its inverse.\<close>

lemma cap_has_add:
  assumes "n < 64" and "m < 64"
  shows "cap_has (cap_add s (push_bit n 1)) (push_bit m 1) \<longleftrightarrow> m = n \<or> cap_has s (push_bit m 1)"
  using assms by (simp only: cap_has_bit cap_add_def) (auto simp: bit_simps)

lemma cap_has_clear:
  assumes "n < 64" and "m < 64"
  shows "cap_has (s AND cap_complement (push_bit n 1)) (push_bit m 1)
    \<longleftrightarrow> m \<noteq> n \<and> cap_has s (push_bit m 1)"
  using assms by (simp only: cap_has_bit cap_complement_def) (auto simp: bit_simps)

section \<open>Confidence\<close>

fun confidence_rank :: "confidence \<Rightarrow> nat" where
  "confidence_rank CF_AUTHORITATIVE = 5"
| "confidence_rank CF_HIGH = 4"
| "confidence_rank CF_MEDIUM = 3"
| "confidence_rank CF_LOW = 2"
| "confidence_rank CF_UNKNOWN = 1"

definition confidence_maximum :: "confidence \<Rightarrow> confidence \<Rightarrow> confidence" where
  "confidence_maximum a b = (if confidence_rank b \<le> confidence_rank a then a else b)"

definition confidence_minimum :: "confidence \<Rightarrow> confidence \<Rightarrow> confidence" where
  "confidence_minimum a b = (if confidence_rank a \<le> confidence_rank b then a else b)"

lemma confidence_rank_inj: "confidence_rank a = confidence_rank b \<longleftrightarrow> a = b"
  by (cases a; cases b) auto

lemma confidence_rank_maximum [simp]:
  "confidence_rank (confidence_maximum a b) = max (confidence_rank a) (confidence_rank b)"
  by (simp add: confidence_maximum_def)

lemma confidence_rank_minimum [simp]:
  "confidence_rank (confidence_minimum a b) = min (confidence_rank a) (confidence_rank b)"
  by (simp add: confidence_minimum_def)

text \<open>The two operations make the confidences a lattice.\<close>

locale confidence_lattice =
  fixes join meet :: "'a \<Rightarrow> 'a \<Rightarrow> 'a" and rank :: "'a \<Rightarrow> nat"
  assumes rank_inj: "rank a = rank b \<Longrightarrow> a = b"
    and rank_join: "rank (join a b) = max (rank a) (rank b)"
    and rank_meet: "rank (meet a b) = min (rank a) (rank b)"
begin

lemma join_comm: "join a b = join b a"
  by (rule rank_inj) (simp add: rank_join max.commute)

lemma join_assoc: "join (join a b) c = join a (join b c)"
  by (rule rank_inj) (simp add: rank_join max.assoc)

lemma join_idem: "join a a = a"
  by (rule rank_inj) (simp add: rank_join)

lemma absorb: "join a (meet a b) = a" "meet a (join a b) = a"
  by (rule rank_inj, simp add: rank_join rank_meet)+

text \<open>Joining a list into a start value gives the highest rank, in any order.\<close>

lemma rank_fold_join: "rank (fold join xs a) = Max (insert (rank a) (rank ` set xs))"
proof (induction xs arbitrary: a)
  case (Cons x xs)
  have "Max (insert (rank (join x a)) (rank ` set xs)) = Max (insert (rank a) (rank ` set (x # xs)))"
    by (cases "xs = []") (simp_all add: rank_join max.assoc max.commute max.left_commute)
  with Cons show ?case by simp
qed simp

lemma fold_join_perm:
  assumes "mset xs = mset ys"
  shows "fold join xs a = fold join ys a"
proof (rule rank_inj)
  have "set xs = set ys" using assms by (rule mset_eq_setD)
  then show "rank (fold join xs a) = rank (fold join ys a)" by (simp add: rank_fold_join)
qed

end

interpretation conf: confidence_lattice confidence_maximum confidence_minimum confidence_rank
  by unfold_locales (simp_all add: confidence_rank_inj)

section \<open>Provenance\<close>

record provenance =
  pr_kind :: provenance_kind
  pr_confidence :: confidence
  pr_provider :: string
  pr_api :: string
  pr_detail :: string
  pr_timestamp_ms :: "64 word"
  pr_schema_version :: string
  pr_provider_version :: string

definition provenance_unknown :: provenance where
  "provenance_unknown = \<lparr> pr_kind = PK_UNKNOWN, pr_confidence = CF_UNKNOWN, pr_provider = '''',
     pr_api = '''', pr_detail = '''', pr_timestamp_ms = 0, pr_schema_version = ''1.0'',
     pr_provider_version = '''' \<rparr>"

definition provenance_discovered ::
  "string \<Rightarrow> string \<Rightarrow> confidence \<Rightarrow> string \<Rightarrow> string \<Rightarrow> provenance" where
  "provenance_discovered provider api c provider_version detail =
     provenance_unknown \<lparr> pr_kind := PK_DISCOVERED, pr_provider := provider, pr_api := api,
       pr_confidence := c, pr_provider_version := provider_version, pr_detail := detail \<rparr>"

definition provenance_inferred ::
  "string \<Rightarrow> string \<Rightarrow> confidence \<Rightarrow> string \<Rightarrow> provenance" where
  "provenance_inferred provider api c detail =
     provenance_unknown \<lparr> pr_kind := PK_INFERRED, pr_provider := provider, pr_api := api,
       pr_confidence := c, pr_detail := detail \<rparr>"

definition provenance_measured ::
  "string \<Rightarrow> string \<Rightarrow> confidence \<Rightarrow> string \<Rightarrow> string \<Rightarrow> provenance" where
  "provenance_measured provider api c provider_version detail =
     provenance_unknown \<lparr> pr_kind := PK_MEASURED, pr_provider := provider, pr_api := api,
       pr_confidence := c, pr_provider_version := provider_version, pr_detail := detail \<rparr>"

definition provenance_user_supplied :: "confidence \<Rightarrow> string \<Rightarrow> provenance" where
  "provenance_user_supplied c detail =
     provenance_unknown \<lparr> pr_kind := PK_USER_SUPPLIED, pr_confidence := c, pr_detail := detail \<rparr>"

section \<open>Native identity\<close>

record native_identity =
  ni_pci_domain :: "16 word option"
  ni_pci_bus :: "16 word option"
  ni_pci_device :: "16 word option"
  ni_pci_function :: "16 word option"
  ni_vendor_id :: "16 word option"
  ni_device_id :: "16 word option"
  ni_subsystem_id :: "16 word option"
  ni_subsystem_vendor_id :: "16 word option"
  ni_numa_node :: "32 word option"
  ni_cpu_package :: "32 word option"
  ni_core_id :: "32 word option"
  ni_processor_group :: "32 word option"
  ni_logical_processor_index :: "32 word option"
  ni_cuda_ordinal :: "32 word option"
  ni_cuda_uuid :: string
  ni_name :: string
  ni_network_interface_name :: string
  ni_network_hardware_id :: string
  ni_storage_id :: string
  ni_storage_device_path :: string
  ni_machine_name :: string
  ni_os_version :: string

definition default_native :: native_identity where
  "default_native = \<lparr> ni_pci_domain = None, ni_pci_bus = None, ni_pci_device = None,
     ni_pci_function = None, ni_vendor_id = None, ni_device_id = None, ni_subsystem_id = None,
     ni_subsystem_vendor_id = None, ni_numa_node = None, ni_cpu_package = None, ni_core_id = None,
     ni_processor_group = None, ni_logical_processor_index = None, ni_cuda_ordinal = None,
     ni_cuda_uuid = '''', ni_name = '''', ni_network_interface_name = '''',
     ni_network_hardware_id = '''', ni_storage_id = '''', ni_storage_device_path = '''',
     ni_machine_name = '''', ni_os_version = '''' \<rparr>"

definition has_pci :: "native_identity \<Rightarrow> bool" where
  "has_pci n \<longleftrightarrow> ni_pci_bus n \<noteq> None \<and> ni_pci_device n \<noteq> None \<and> ni_pci_function n \<noteq> None"

definition value_or :: "'a option \<Rightarrow> 'a \<Rightarrow> 'a" where
  "value_or m d = (case m of None \<Rightarrow> d | Some x \<Rightarrow> x)"

definition pci_bdf_string :: "native_identity \<Rightarrow> string" where
  "pci_bdf_string n =
     (case (ni_pci_bus n, ni_pci_device n, ni_pci_function n) of
        (Some bus, Some dev, Some fn) \<Rightarrow>
          setw_hex 4 (unat (value_or (ni_pci_domain n) 0)) @ '':'' @ setw_hex 2 (unat bus) @ '':''
          @ setw_hex 2 (unat dev) @ ''.'' @ setw_hex 1 (unat fn)
      | _ \<Rightarrow> ''unknown'')"

definition canonical_key :: "native_identity \<Rightarrow> string" where
  "canonical_key n =
     (if has_pci n then ''pci:'' @ pci_bdf_string n
      else if ni_storage_id n \<noteq> '''' then ''storage:'' @ ni_storage_id n
      else if ni_storage_device_path n \<noteq> '''' then ''storage:'' @ ni_storage_device_path n
      else if ni_network_hardware_id n \<noteq> '''' then ''net:'' @ ni_network_hardware_id n
      else if ni_network_interface_name n \<noteq> '''' then ''net:'' @ ni_network_interface_name n
      else if ni_cuda_uuid n \<noteq> '''' then ''cuda:'' @ ni_cuda_uuid n
      else (case ni_cuda_ordinal n of Some k \<Rightarrow> ''cuda-ord:'' @ dec_digits (unat k)
        | None \<Rightarrow> if ni_machine_name n \<noteq> '''' then ''machine:'' @ ni_machine_name n else ''''))"

lemma hex_texts_setw: "hex_texts (setw_hex w n)"
proof -
  let ?k = "length (hex_digits n)"
  have "setw_hex ?k n = hex_fixed ?k n" by (intro hex_digits_fixed) simp
  then have "hex_digits n = hex_fixed ?k n" by (simp add: setw_hex_def)
  then have "hex_texts (hex_digits n)" using hex_fixed_texts [of ?k n] by simp
  moreover have "hex_digit_val CHR ''0'' \<noteq> None" by (simp add: hex_digit_val_def)
  ultimately show ?thesis by (auto simp: setw_hex_def hex_texts_def)
qed

text \<open>Printing a number at a minimal width loses nothing.\<close>

lemma hex_value_zeros: "hex_value (replicate k CHR ''0'' @ s) = hex_value s"
  by (induction k) (simp_all add: hex_value_def hex_digit_val_def)

lemma hex_value_digits: "hex_value (hex_digits n) = n"
proof (induction n rule: hex_digits.induct)
  case (1 n)
  then show ?case
    by (subst hex_digits.simps) (auto simp: hex_value_snoc hex_digit_val_char hex_value_def)
qed

lemma setw_hex_inj: "setw_hex w m = setw_hex w n \<longleftrightarrow> m = n"
proof
  assume "setw_hex w m = setw_hex w n"
  then have "hex_value (setw_hex w m) = hex_value (setw_hex w n)" by simp
  then show "m = n" by (simp add: setw_hex_def hex_value_zeros hex_value_digits)
qed simp

lemma split_at_unique:
  "c \<notin> set xs \<Longrightarrow> c \<notin> set xs' \<Longrightarrow> xs @ c # ys = xs' @ c # ys' \<longleftrightarrow> xs = xs' \<and> ys = ys'"
proof (induction xs arbitrary: xs')
  case Nil
  then show ?case by (cases xs') auto
next
  case (Cons x xs)
  then show ?case by (cases xs') auto
qed

lemma colon_not_hex: "CHR '':'' \<notin> set (setw_hex w n)" and dot_not_hex: "CHR ''.'' \<notin> set (setw_hex w n)"
  using hex_texts_setw [of w n] by (auto simp: hex_texts_def hex_digit_val_def)

text \<open>Two devices have one PCI key exactly when their domain (absent counts as zero), bus, device
  and function agree; an identity without them never has a PCI key.\<close>

lemma pci_key_eq_iff:
  assumes "has_pci m" and "has_pci n"
  shows "canonical_key m = canonical_key n \<longleftrightarrow>
    value_or (ni_pci_domain m) 0 = value_or (ni_pci_domain n) 0 \<and> ni_pci_bus m = ni_pci_bus n
    \<and> ni_pci_device m = ni_pci_device n \<and> ni_pci_function m = ni_pci_function n"
  using assms
  by (auto simp: canonical_key_def has_pci_def pci_bdf_string_def split_at_unique colon_not_hex
      dot_not_hex setw_hex_inj word_unat_eq_iff [symmetric])

lemma canonical_key_pci: "has_pci n \<Longrightarrow> take 4 (canonical_key n) = ''pci:''"
  by (simp add: canonical_key_def)

lemma canonical_key_not_pci: "\<not> has_pci n \<Longrightarrow> take 4 (canonical_key n) \<noteq> ''pci:''"
  by (simp add: canonical_key_def numeral_eq_Suc split: option.splits)

lemma canonical_key_pci_nonempty: "has_pci n \<Longrightarrow> canonical_key n \<noteq> ''''"
  by (simp add: canonical_key_def)

section \<open>Nodes and edges\<close>

record topology_node =
  n_id :: node_id
  n_type :: node_type
  n_category :: string
  n_name :: string
  n_display_name :: string
  n_native :: native_identity
  n_capabilities :: capability
  n_properties :: property_map
  n_provenance :: provenance
  n_confidence :: confidence
  n_synthetic :: bool

definition default_node :: topology_node where
  "default_node = \<lparr> n_id = kNullNodeId, n_type = NT_UNKNOWN, n_category = '''', n_name = '''',
     n_display_name = '''', n_native = default_native, n_capabilities = CAP_NONE,
     n_properties = [], n_provenance = provenance_unknown, n_confidence = CF_UNKNOWN,
     n_synthetic = False \<rparr>"

definition has_capability :: "topology_node \<Rightarrow> capability \<Rightarrow> bool" where
  "has_capability n c \<longleftrightarrow> cap_has (n_capabilities n) c"

text \<open>\<open>int\<close> has 32 bits on the supported platforms.\<close>

record topology_edge =
  e_source :: node_id
  e_target :: node_id
  e_type :: edge_type
  e_direction :: edge_direction
  e_provenance :: provenance
  e_confidence :: confidence
  e_width :: "32 word option"
  e_pcie_generation :: "32 word option"
  e_bandwidth_bytes_per_sec :: "f64 option"
  e_latency_ns :: "f64 option"
  e_hop_count :: "32 word"
  e_locality_score :: "f64 option"
  e_accessible :: bool
  e_peer_capability :: "64 word option"
  e_policy_version :: "32 word"
  e_properties :: property_map

definition default_edge :: topology_edge where
  "default_edge = \<lparr> e_source = kNullNodeId, e_target = kNullNodeId, e_type = ET_CONNECTED_TO,
     e_direction = ED_DIRECTED, e_provenance = provenance_unknown, e_confidence = CF_UNKNOWN,
     e_width = None, e_pcie_generation = None, e_bandwidth_bytes_per_sec = None,
     e_latency_ns = None, e_hop_count = 0, e_locality_score = None, e_accessible = True,
     e_peer_capability = None, e_policy_version = 0, e_properties = [] \<rparr>"

text \<open>\<open>TopologyEdge::Key\<close>: source, target, type.\<close>

datatype edge_key = EdgeKey (k_source: node_id) (k_target: node_id) (k_type: edge_type)

definition edge_key :: "topology_edge \<Rightarrow> edge_key" where
  "edge_key e =
     (if e_direction e = ED_UNDIRECTED
      then (if e_target e < e_source e then EdgeKey (e_target e) (e_source e) (e_type e)
            else EdgeKey (e_source e) (e_target e) (e_type e))
      else EdgeKey (e_source e) (e_target e) (e_type e))"

definition swap_ends :: "topology_edge \<Rightarrow> topology_edge" where
  "swap_ends e = e \<lparr> e_source := e_target e, e_target := e_source e \<rparr>"

lemma edge_key_type [simp]: "k_type (edge_key e) = e_type e"
  by (simp add: edge_key_def)

lemma edge_key_swap: "e_direction e = ED_UNDIRECTED \<Longrightarrow> edge_key (swap_ends e) = edge_key e"
  by (auto simp: edge_key_def swap_ends_def)

lemma edge_key_ends: "{k_source (edge_key e), k_target (edge_key e)} = {e_source e, e_target e}"
  by (auto simp: edge_key_def)

section \<open>Properties\<close>

text \<open>Adding a capability flag sets that flag and no other, and masking with its complement clears
  that flag and no other.\<close>

theorem capability_flags:
  assumes "n < 64" and "m < 64"
  shows "(cap_has (cap_add s (push_bit n 1)) (push_bit m 1) \<longleftrightarrow> m = n \<or> cap_has s (push_bit m 1))
    \<and> (cap_has (s AND cap_complement (push_bit n 1)) (push_bit m 1) \<longleftrightarrow> m \<noteq> n \<and> cap_has s (push_bit m 1))"
  using cap_has_add [OF assms] cap_has_clear [OF assms] by blast

theorem capability_flags_witness:
  "cap_has (cap_add CPU_ADDRESSABLE (push_bit 3 1)) PEER_ACCESS
   \<and> \<not> cap_has (CPU_ADDRESSABLE AND cap_complement (push_bit 3 1)) PEER_ACCESS"
  using capability_flags [of 3 3 CPU_ADDRESSABLE] by (simp add: PEER_ACCESS_def)

text \<open>Two devices with a PCI address have one canonical key exactly when their domain (an absent
  one counts as 0), bus, device and function agree; a device without a PCI address never has the key
  of one with.\<close>

theorem canonical_key_of_pci:
  assumes "has_pci n"
  shows "canonical_key m = canonical_key n \<longleftrightarrow> has_pci m
    \<and> value_or (ni_pci_domain m) 0 = value_or (ni_pci_domain n) 0 \<and> ni_pci_bus m = ni_pci_bus n
    \<and> ni_pci_device m = ni_pci_device n \<and> ni_pci_function m = ni_pci_function n"
  using pci_key_eq_iff [OF _ assms, of m] canonical_key_pci [OF assms] canonical_key_not_pci [of m]
  by (cases "has_pci m") auto

theorem canonical_key_of_pci_witness:
  "canonical_key (default_native \<lparr> ni_pci_bus := Some 3, ni_pci_device := Some 0, ni_pci_function := Some 0 \<rparr>)
   \<noteq> canonical_key (default_native \<lparr> ni_pci_bus := Some 3, ni_pci_device := Some 0, ni_pci_function := Some 1 \<rparr>)"
  by (subst canonical_key_of_pci) (simp_all add: has_pci_def)

text \<open>Of two edges with one direction kind, undirected ones have one key exactly when they have one
  type and join the same two nodes, directed ones exactly when type, source and target agree.\<close>

theorem edge_key_identifies:
  assumes "e_direction a = e_direction b"
  shows "edge_key a = edge_key b \<longleftrightarrow> e_type a = e_type b \<and>
    (if e_direction a = ED_UNDIRECTED then {e_source a, e_target a} = {e_source b, e_target b}
     else e_source a = e_source b \<and> e_target a = e_target b)"
  using assms by (auto simp: edge_key_def doubleton_eq_iff)

theorem edge_key_identifies_witness:
  "edge_key (default_edge \<lparr> e_source := NodeId 0 1, e_target := NodeId 0 2, e_direction := ED_UNDIRECTED \<rparr>)
   = edge_key (default_edge \<lparr> e_source := NodeId 0 2, e_target := NodeId 0 1, e_direction := ED_UNDIRECTED \<rparr>)"
  by (subst edge_key_identifies) auto

end
