(* ===== verification/TF_Snapshot.thy ===== *)
theory TF_Snapshot
  imports TF_Data
begin

text \<open>
  Snapshots (\<open>snapshot.hpp\<close>, \<open>snapshot.cpp\<close>): the immutable graph with its lookups and
  adjacency lists, the builder that fills it once, and the validation of the graph invariants.

  The lemmas show that the topological sort in \<open>validate\<close> decides whether containment is
  acyclic, that a snapshot validates exactly when it has no dangling edge, no shared native
  identity and no containment cycle (in whatever order the hash maps are enumerated), that the
  builder keeps the first node of an id, respects its bounds and is spent after \<open>take\<close>, and what
  the adjacency lists of the result contain.
\<close>

section \<open>State\<close>

record validation_result =
  v_ok :: bool
  v_errors :: "string list"
  v_warnings :: "string list"

definition default_validation :: validation_result where
  "default_validation = \<lparr> v_ok = True, v_errors = [], v_warnings = [] \<rparr>"

definition add_error :: "string \<Rightarrow> validation_result \<Rightarrow> validation_result" where
  "add_error e v = v \<lparr> v_ok := False, v_errors := v_errors v @ [e] \<rparr>"

definition add_warning :: "string \<Rightarrow> validation_result \<Rightarrow> validation_result" where
  "add_warning w v = v \<lparr> v_warnings := v_warnings v @ [w] \<rparr>"

record snapshot_metadata =
  m_snapshot_id :: string
  m_generation :: "64 word"
  m_created_ms :: "64 word"
  m_machine_identity :: string
  m_schema_version :: string
  m_provider_versions :: string
  m_partial_discovery :: bool
  m_synthetic :: bool
  m_warnings :: "string list"

definition default_metadata :: snapshot_metadata where
  "default_metadata = \<lparr> m_snapshot_id = '''', m_generation = 0, m_created_ms = 0,
     m_machine_identity = '''', m_schema_version = ''1.0'', m_provider_versions = '''',
     m_partial_discovery = False, m_synthetic = False, m_warnings = [] \<rparr>"

record edge_ref =
  r_neighbor :: node_id
  r_edge_index :: nat

record bounds =
  b_max_nodes :: nat
  b_max_edges :: nat
  b_max_string_bytes :: nat
  b_max_snapshot_bytes :: nat
  b_max_path_length :: nat

definition default_bounds :: bounds where
  "default_bounds = \<lparr> b_max_nodes = 1000000, b_max_edges = 4000000,
     b_max_string_bytes = 2 ^ 22, b_max_snapshot_bytes = 512 * 2 ^ 20,
     b_max_path_length = 16384 \<rparr>"

record topology_snapshot =
  s_nodes :: "(node_id, topology_node) umap"
  s_edges :: "topology_edge list"
  s_adjacency :: "(node_id, edge_ref list) umap"
  s_metadata :: snapshot_metadata
  s_validation :: validation_result
  s_bounds :: bounds
  s_adjacency_built :: bool

record snapshot_builder =
  bd_bounds :: bounds
  bd_nodes :: "(node_id, topology_node) umap"
  bd_edges :: "topology_edge list"
  bd_metadata :: snapshot_metadata
  bd_validation :: validation_result
  bd_taken :: bool

definition new_builder :: "bounds \<Rightarrow> snapshot_builder" where
  "new_builder b = \<lparr> bd_bounds = b, bd_nodes = [], bd_edges = [], bd_metadata = default_metadata,
     bd_validation = default_validation, bd_taken = False \<rparr>"

section \<open>Lookups\<close>

definition snap_node :: "topology_snapshot \<Rightarrow> node_id \<Rightarrow> topology_node tresult" where
  "snap_node s i = (case um_find (s_nodes s) i of
     None \<Rightarrow> Inl (TopologyError EC_NOT_FOUND (''unknown node id '' @ to_hex i))
   | Some n \<Rightarrow> Inr n)"

definition find_node :: "topology_snapshot \<Rightarrow> node_id \<Rightarrow> topology_node option" where
  "find_node s i = um_find (s_nodes s) i"

definition snap_edge :: "topology_snapshot \<Rightarrow> nat \<Rightarrow> topology_edge tresult" where
  "snap_edge s i =
     (if length (s_edges s) \<le> i then Inl (TopologyError EC_NOT_FOUND ''edge index out of range'')
      else Inr (s_edges s ! i))"

definition adjacency :: "topology_snapshot \<Rightarrow> node_id \<Rightarrow> edge_ref list" where
  "adjacency s i = (case um_find (s_adjacency s) i of None \<Rightarrow> [] | Some rs \<Rightarrow> rs)"

section \<open>Validation\<close>

text \<open>Step 1: dangling edges.\<close>

definition check_ends ::
  "(node_id, topology_node) umap \<Rightarrow> topology_edge \<Rightarrow> validation_result \<Rightarrow> validation_result" where
  "check_ends nodes e v =
     (let v = (if um_find nodes (e_source e) = None
               then add_error (''edge references unknown source node '' @ to_hex (e_source e)) v
               else v)
      in if um_find nodes (e_target e) = None
         then add_error (''edge references unknown target node '' @ to_hex (e_target e)) v
         else v)"

text \<open>Step 2: unknown types and duplicate native identities; \<open>seen_key\<close> holds the first node of
  each key.\<close>

definition check_identity ::
  "node_id \<times> topology_node \<Rightarrow> validation_result \<times> (string, node_id) umap
    \<Rightarrow> validation_result \<times> (string, node_id) umap" where
  "check_identity p vs =
     (let i = fst p; n = snd p; v = fst vs; seen_key = snd vs;
          v = (if n_type n = NT_UNKNOWN \<and> n_category n = ''''
               then add_warning (''node '' @ to_hex i
                 @ '' has unknown type and no extension category'') v
               else v);
          key = canonical_key (n_native n)
      in if key = '''' then (v, seen_key)
         else (case um_find seen_key key of
             Some j \<Rightarrow>
               (if j \<noteq> i
                then (add_error (''duplicate native identity '' @ [CHR 0x27] @ key @ [CHR 0x27]
                        @ '' for nodes '' @ to_hex j @ '' and '' @ to_hex i) v, seen_key)
                else (v, seen_key))
           | None \<Rightarrow> (v, fst (um_emplace key i seen_key))))"

definition check_self :: "topology_edge \<Rightarrow> validation_result \<Rightarrow> validation_result" where
  "check_self e v =
     (if e_type e = ET_CONTAINS \<and> e_source e = e_target e
      then add_error (''self-containment edge on node '' @ to_hex (e_source e)) v else v)"

text \<open>Step 3: containment cycles, by Kahn's topological sort. \<open>child_of[e.source].push_back\<close>.\<close>

definition um_push :: "'k \<Rightarrow> 'v \<Rightarrow> ('k, 'v list) umap \<Rightarrow> ('k, 'v list) umap" where
  "um_push k x m = um_put k (um_get [] m k @ [x]) m"

definition children_map :: "topology_edge list \<Rightarrow> (node_id, node_id list) umap" where
  "children_map edges =
     fold (\<lambda>e m. if e_type e = ET_CONTAINS then um_push (e_source e) (e_target e) m else m) edges []"

definition indeg_add :: "int \<Rightarrow> 'k \<Rightarrow> ('k, int) umap \<Rightarrow> ('k, int) umap" where
  "indeg_add d k m = um_put k (um_get 0 m k + d) m"

definition in_degrees :: "('k, 'k list) umap \<Rightarrow> ('k, int) umap" where
  "in_degrees child_of =
     fold (\<lambda>(k, kids) m. fold (indeg_add 1) kids m) child_of
       (fold (\<lambda>(k, kids) m. indeg_add 0 k m) child_of [])"

text \<open>The stack is kept with its top first. A kid is pushed when its count reaches zero.\<close>

definition release_kid :: "'k \<Rightarrow> 'k list \<times> ('k, int) umap \<Rightarrow> 'k list \<times> ('k, int) umap" where
  "release_kid kid si =
     (let indeg = indeg_add (-1) kid (snd si)
      in if um_get 0 indeg kid = 0 then (kid # fst si, indeg) else (fst si, indeg))"

text \<open>The loop ends: every round pops the stack, and a push uses up a positive count.\<close>

definition positive_counts :: "('k, int) umap \<Rightarrow> nat" where
  "positive_counts m = length (filter (\<lambda>p. 0 < snd p) m)"

lemma positive_counts_dec:
  "positive_counts (indeg_add (-1) k m) + (if um_get 0 m k = 1 then 1 else 0) \<le> positive_counts m"
proof (induction m)
  case Nil
  then show ?case
    by (simp add: positive_counts_def indeg_add_def um_put_def um_get_def um_find_def)
next
  case (Cons p m)
  then show ?case
    by (cases p)
      (auto simp: positive_counts_def indeg_add_def um_put_def um_get_def um_find_def)
qed

lemma release_kid_measure:
  "length (fst (release_kid k si)) + positive_counts (snd (release_kid k si))
    \<le> length (fst si) + positive_counts (snd si)"
  using positive_counts_dec [of k "snd si"]
  by (auto simp: release_kid_def Let_def indeg_add_def um_get_put split: if_splits)

lemma release_kids_measure:
  "length (fst (fold release_kid kids si)) + positive_counts (snd (fold release_kid kids si))
    \<le> length (fst si) + positive_counts (snd si)"
proof (induction kids arbitrary: si)
  case (Cons k kids)
  show ?case
    using Cons [of "release_kid k si"] release_kid_measure [of k si] by simp
qed simp

function kahn_loop ::
  "('k, 'k list) umap \<Rightarrow> 'k list \<Rightarrow> ('k, int) umap \<Rightarrow> nat \<Rightarrow> nat" where
  "kahn_loop child_of [] indeg visited = visited"
| "kahn_loop child_of (cur # stack) indeg visited =
     (let si = fold release_kid (um_get [] child_of cur) (stack, indeg)
      in kahn_loop child_of (fst si) (snd si) (Suc visited))"
  by pat_completeness auto
termination
proof (relation "measure (\<lambda>(c, stack, indeg, v). length stack + positive_counts indeg)")
  fix child_of :: "('k, 'k list) umap" and cur stack indeg visited si
  assume "si = fold release_kid (um_get [] child_of cur) (stack, indeg :: ('k, int) umap)"
  then show "((child_of, fst si, snd si, Suc visited), child_of, cur # stack, indeg, visited)
      \<in> measure (\<lambda>(c, stack, indeg, v). length stack + positive_counts indeg)"
    using release_kids_measure [of "um_get [] child_of cur" "(stack, indeg)"] by simp
qed simp

definition has_cycle :: "('k, 'k list) umap \<Rightarrow> bool" where
  "has_cycle child_of =
     (let indeg = in_degrees child_of;
          stack = rev (map fst (filter (\<lambda>p. snd p = 0) indeg))
      in kahn_loop child_of stack indeg 0 \<noteq> length indeg)"

text \<open>Step 4: a directed peer edge needs its counterpart. Step 5: accelerators with a PCI
  identity.\<close>

definition peer_keys :: "topology_edge list \<Rightarrow> (edge_key, bool) umap" where
  "peer_keys edges =
     fold (\<lambda>e m. if e_type e = ET_PEER_TO then um_put (edge_key e) True m else m) edges []"

definition check_peer ::
  "(edge_key, bool) umap \<Rightarrow> topology_edge \<Rightarrow> validation_result \<Rightarrow> validation_result" where
  "check_peer peer_present e v =
     (if e_type e = ET_PEER_TO \<and> e_direction e = ED_DIRECTED
         \<and> \<not> um_count peer_present (EdgeKey (e_target e) (e_source e) ET_PEER_TO)
      then add_warning (''PEER_TO edge '' @ to_hex (e_source e) @ ''->'' @ to_hex (e_target e)
             @ '' is directed without a symmetric counterpart'') v
      else v)"

definition check_accelerator ::
  "(string, node_id) umap \<Rightarrow> node_id \<times> topology_node \<Rightarrow> validation_result \<Rightarrow> validation_result" where
  "check_accelerator seen_key p v =
     (if n_type (snd p) = NT_ACCELERATOR \<and> has_pci (n_native (snd p))
         \<and> um_find seen_key (canonical_key (n_native (snd p))) = None
      then add_warning (''accelerator '' @ to_hex (fst p)
             @ '' claims PCI identity but no matching node exists'') v
      else v)"

definition validate ::
  "(node_id, topology_node) umap \<Rightarrow> topology_edge list \<Rightarrow> validation_result" where
  "validate nodes edges =
     (let v = fold (check_ends nodes) edges default_validation;
          vs = fold check_identity nodes (v, []);
          seen_key = snd vs;
          v = fold check_self edges (fst vs);
          v = (if has_cycle (children_map edges)
               then add_error ''containment cycle detected among CONTAINS edges'' v else v);
          v = fold (check_peer (peer_keys edges)) edges v
      in fold (check_accelerator seen_key) nodes v)"

section \<open>The builder\<close>

definition add_node :: "topology_node \<Rightarrow> snapshot_builder \<Rightarrow> snapshot_builder \<times> bool" where
  "add_node node bd =
     (if bd_taken bd then (bd, False)
      else if b_max_nodes (bd_bounds bd) \<le> length (bd_nodes bd)
      then (bd \<lparr> bd_validation := add_warning ''max_nodes exceeded; node dropped'' (bd_validation bd) \<rparr>,
            False)
      else (let (nodes, inserted) = um_emplace (n_id node) node (bd_nodes bd) in
        if \<not> inserted
        then (bd \<lparr> bd_nodes := nodes,
                   bd_validation := add_warning (''duplicate node id '' @ to_hex (n_id node)
                     @ ''; keeping first'') (bd_validation bd) \<rparr>, False)
        else (bd \<lparr> bd_nodes := nodes \<rparr>, True)))"

definition add_edge :: "topology_edge \<Rightarrow> snapshot_builder \<Rightarrow> snapshot_builder \<times> bool" where
  "add_edge edge bd =
     (if bd_taken bd then (bd, False)
      else if b_max_edges (bd_bounds bd) \<le> length (bd_edges bd)
      then (bd \<lparr> bd_validation := add_warning ''max_edges exceeded; edge dropped'' (bd_validation bd) \<rparr>,
            False)
      else (bd \<lparr> bd_edges := bd_edges bd @ [edge] \<rparr>, True))"

definition set_metadata :: "snapshot_metadata \<Rightarrow> snapshot_builder \<Rightarrow> snapshot_builder" where
  "set_metadata meta bd = bd \<lparr> bd_metadata := meta \<rparr>"

definition set_validation :: "validation_result \<Rightarrow> snapshot_builder \<Rightarrow> snapshot_builder" where
  "set_validation val bd = bd \<lparr> bd_validation := val \<rparr>"

definition set_bounds :: "bounds \<Rightarrow> snapshot_builder \<Rightarrow> snapshot_builder" where
  "set_bounds b bd = bd \<lparr> bd_bounds := b \<rparr>"

text \<open>The adjacency lists: both ends of every edge, in the order of the edges.\<close>

definition link_edge ::
  "nat \<Rightarrow> topology_edge \<Rightarrow> (node_id, edge_ref list) umap \<Rightarrow> (node_id, edge_ref list) umap" where
  "link_edge i e adj =
     (let adj = um_push (e_source e) \<lparr> r_neighbor = e_target e, r_edge_index = i \<rparr> adj
      in um_push (e_target e) \<lparr> r_neighbor = e_source e, r_edge_index = i \<rparr> adj)"

fun link_edges ::
  "nat \<Rightarrow> topology_edge list \<Rightarrow> (node_id, edge_ref list) umap \<Rightarrow> (node_id, edge_ref list) umap" where
  "link_edges i [] adj = adj"
| "link_edges i (e # es) adj = link_edges (Suc i) es (link_edge i e adj)"

text \<open>\<open>take\<close> moves the nodes and edges out of the builder. What is left in the moved-from
  metadata and messages is never read again: a spent builder refuses every later call.\<close>

definition take_snapshot :: "snapshot_builder \<Rightarrow> (snapshot_builder \<times> topology_snapshot) tresult" where
  "take_snapshot bd =
     (if bd_taken bd
      then Inl (TopologyError EC_INTERNAL ''SnapshotBuilder::take() called twice'')
      else (let v = validate (bd_nodes bd) (bd_edges bd);
                v = fold add_error (v_errors (bd_validation bd)) v;
                v = fold add_warning (v_warnings (bd_validation bd)) v
            in Inr (bd \<lparr> bd_taken := True, bd_nodes := [], bd_edges := [] \<rparr>,
                    \<lparr> s_nodes = bd_nodes bd, s_edges = bd_edges bd,
                      s_adjacency = link_edges 0 (bd_edges bd) [], s_metadata = bd_metadata bd,
                      s_validation = v, s_bounds = bd_bounds bd, s_adjacency_built = True \<rparr>)))"

section \<open>The topological sort decides containment cycles\<close>

definition kids_of :: "('k, 'k list) umap \<Rightarrow> 'k \<Rightarrow> 'k list" where
  "kids_of child_of u = um_get [] child_of u"

definition child_rel :: "('k, 'k list) umap \<Rightarrow> ('k \<times> 'k) set" where
  "child_rel child_of = {(u, k). k \<in> set (kids_of child_of u)}"

definition members :: "('k, 'k list) umap \<Rightarrow> 'k set" where
  "members child_of = set (um_keys child_of) \<union> (\<Union>u \<in> set (um_keys child_of). set (kids_of child_of u))"

lemma kids_of_absent: "u \<notin> set (um_keys child_of) \<Longrightarrow> kids_of child_of u = []"
  by (simp add: kids_of_def um_get_def flip: um_find_None_iff)

lemma child_rel_members: "(u, k) \<in> child_rel c \<Longrightarrow> u \<in> members c \<and> k \<in> members c"
  using kids_of_absent [of u c] by (cases "u \<in> set (um_keys c)") (auto simp: child_rel_def members_def)

lemma finite_members [simp]: "finite (members c)"
  by (simp add: members_def)

text \<open>The in-degree of \<open>k\<close>, the edges that leave a set \<open>D\<close> not counted.\<close>

definition degree_outside :: "('k, 'k list) umap \<Rightarrow> 'k set \<Rightarrow> 'k \<Rightarrow> int" where
  "degree_outside c D k = (\<Sum>u \<in> set (um_keys c) - D. int (count_list (kids_of c u) k))"

lemma degree_outside_insert:
  assumes "u \<notin> D"
  shows "degree_outside c (insert u D) k = degree_outside c D k - int (count_list (kids_of c u) k)"
proof (cases "u \<in> set (um_keys c)")
  case True
  have "set (um_keys c) - insert u D = (set (um_keys c) - D) - {u}" by auto
  then show ?thesis
    using True assms by (simp add: degree_outside_def sum_diff1)
next
  case False
  then have "set (um_keys c) - insert u D = set (um_keys c) - D" by auto
  then show ?thesis using False by (simp add: degree_outside_def kids_of_absent)
qed

lemma degree_outside_nonneg: "0 \<le> degree_outside c D k"
  by (simp add: degree_outside_def sum_nonneg)

lemma degree_outside_0_iff: "degree_outside c D k = 0 \<longleftrightarrow> (\<forall>u. (u, k) \<in> child_rel c \<longrightarrow> u \<in> D)"
proof -
  have "degree_outside c D k = 0 \<longleftrightarrow> (\<forall>u \<in> set (um_keys c) - D. count_list (kids_of c u) k = 0)"
    by (simp add: degree_outside_def sum_nonneg_eq_0_iff)
  also have "\<dots> \<longleftrightarrow> (\<forall>u. (u, k) \<in> child_rel c \<longrightarrow> u \<in> D)"
    using kids_of_absent [of _ c] by (fastforce simp: child_rel_def count_list_0_iff)
  finally show ?thesis .
qed

text \<open>Releasing the kids of a node takes their counts off, and pushes those that reach zero.\<close>

lemma release_kids:
  assumes "\<And>k. int (count_list kids k) \<le> um_get 0 indeg k"
    and "distinct stack" and "\<And>k. k \<in> set kids \<Longrightarrow> k \<notin> set stack"
    and "fold release_kid kids (stack, indeg) = (stack', indeg')"
  shows "(\<forall>k. um_get 0 indeg' k = um_get 0 indeg k - int (count_list kids k)) \<and> distinct stack'
    \<and> set stack' = set stack \<union> {k \<in> set kids. um_get 0 indeg k = int (count_list kids k)}"
  using assms
proof (induction kids arbitrary: stack indeg)
  case (Cons x kids)
  define indeg1 where "indeg1 = indeg_add (-1) x indeg"
  define stack1 where "stack1 = (if um_get 0 indeg1 x = 0 then x # stack else stack)"
  have g1: "um_get 0 indeg1 k = um_get 0 indeg k - (if k = x then 1 else 0)" for k
    by (simp add: indeg1_def indeg_add_def um_get_put)
  have cnt: "int (count_list kids k) \<le> um_get 0 indeg1 k" for k
    using Cons.prems(1) [of k] by (auto simp: g1)
  have dist: "distinct stack1" using Cons.prems(2,3) by (simp add: stack1_def)
  have zero: "x \<notin> set kids" if "um_get 0 indeg1 x = 0"
  proof -
    have "int (count_list kids x) \<le> 0" using cnt [of x] that by simp
    then have "count_list kids x = 0" by linarith
    then show ?thesis by (metis count_list_0_iff)
  qed
  have sep: "k \<in> set kids \<Longrightarrow> k \<notin> set stack1" for k
    using Cons.prems(3) zero by (auto simp: stack1_def)
  have step: "fold release_kid kids (stack1, indeg1) = (stack', indeg')"
  proof -
    have "release_kid x (stack, indeg) = (stack1, indeg1)"
      by (simp add: release_kid_def Let_def stack1_def indeg1_def)
    then show ?thesis using Cons.prems(4) by simp
  qed
  note IH = Cons.IH [OF cnt dist sep step]
  have "set stack' = set stack1 \<union> {k \<in> set kids. um_get 0 indeg1 k = int (count_list kids k)}"
    using IH by blast
  also have "\<dots> = set stack \<union> {k \<in> set (x # kids). um_get 0 indeg k = int (count_list (x # kids) k)}"
  proof (cases "x \<in> set kids")
    case True
    then have "um_get 0 indeg1 x \<noteq> 0" using zero by blast
    with True show ?thesis by (auto simp: g1 stack1_def)
  next
    case False
    then have "count_list kids x = 0" by (metis count_list_0_iff)
    with False show ?thesis by (auto simp: g1 stack1_def)
  qed
  finally show ?case using IH by (simp add: g1)
qed auto

text \<open>A set in which every element has a parent in the set: a cycle feeds it, and the sort never
  reaches it.\<close>

definition unreleasable :: "('k, 'k list) umap \<Rightarrow> 'k set \<Rightarrow> bool" where
  "unreleasable c C \<longleftrightarrow> (\<forall>k \<in> C. \<exists>u \<in> C. (u, k) \<in> child_rel c)"

text \<open>The invariant of the loop, with the nodes \<open>D\<close> taken off the stack so far.\<close>

definition kahn_inv ::
  "('k, 'k list) umap \<Rightarrow> 'k set \<Rightarrow> 'k list \<Rightarrow> ('k, int) umap \<Rightarrow> nat \<Rightarrow> bool" where
  "kahn_inv c D stack indeg visited \<longleftrightarrow>
     D \<union> set stack \<subseteq> members c \<and> D \<inter> set stack = {} \<and> distinct stack \<and> visited = card D
     \<and> (\<forall>k. um_get 0 indeg k = degree_outside c D k)
     \<and> (\<forall>k \<in> members c. degree_outside c D k = 0 \<longleftrightarrow> k \<in> D \<union> set stack)
     \<and> (\<forall>C. unreleasable c C \<longrightarrow> C \<inter> (D \<union> set stack) = {})"

lemma kahn_inv_step:
  assumes inv: "kahn_inv c D (cur # stack) indeg visited"
    and step: "fold release_kid (kids_of c cur) (stack, indeg) = (stack', indeg')"
  shows "kahn_inv c (insert cur D) stack' indeg' (Suc visited)"
proof -
  from inv have sub: "D \<union> set (cur # stack) \<subseteq> members c" and cur: "cur \<notin> D" "cur \<notin> set stack"
    and disj: "D \<inter> set stack = {}" and dist: "distinct stack" and vis: "visited = card D"
    and deg: "\<And>k. um_get 0 indeg k = degree_outside c D k"
    and zero: "\<And>k. k \<in> members c \<Longrightarrow> degree_outside c D k = 0 \<longleftrightarrow> k \<in> D \<union> set (cur # stack)"
    and cyc: "\<And>C. unreleasable c C \<Longrightarrow> C \<inter> (D \<union> set (cur # stack)) = {}"
    by (auto simp: kahn_inv_def)
  let ?kids = "kids_of c cur"
  note ins = degree_outside_insert [OF cur(1)]
  have cnt: "int (count_list ?kids k) \<le> um_get 0 indeg k" for k
    using degree_outside_nonneg [of c "insert cur D" k] by (simp add: deg ins)
  have kid: "k \<in> members c \<and> k \<notin> D \<union> set (cur # stack)" if "k \<in> set ?kids" for k
  proof -
    have rel: "(cur, k) \<in> child_rel c" using that by (simp add: child_rel_def)
    then have "degree_outside c D k \<noteq> 0" using cur(1) by (auto simp: degree_outside_0_iff)
    with child_rel_members [OF rel] zero [of k] show ?thesis by blast
  qed
  have rk: "(\<forall>k. um_get 0 indeg' k = um_get 0 indeg k - int (count_list ?kids k)) \<and> distinct stack'
      \<and> set stack' = set stack \<union> {k \<in> set ?kids. um_get 0 indeg k = int (count_list ?kids k)}"
    by (rule release_kids [OF cnt dist _ step]) (use kid in auto)
  then have st: "set stack' = set stack \<union> {k \<in> set ?kids. degree_outside c (insert cur D) k = 0}"
    by (simp add: deg ins)
  have deg': "um_get 0 indeg' k = degree_outside c (insert cur D) k" for k
    using rk by (simp add: deg ins)
  have zero': "degree_outside c (insert cur D) k = 0 \<longleftrightarrow> k \<in> insert cur D \<union> set stack'"
    if "k \<in> members c" for k
    using zero [OF that] kid [of k] cnt [of k] count_list_0_iff [of ?kids k]
    by (cases "k \<in> set ?kids") (auto simp: st ins deg)
  have cyc': "C \<inter> (insert cur D \<union> set stack') = {}" if C: "unreleasable c C" for C
  proof -
    have "k \<notin> C" if k: "degree_outside c (insert cur D) k = 0" for k
    proof
      assume "k \<in> C"
      then obtain u where "u \<in> C" "(u, k) \<in> child_rel c" using C by (auto simp: unreleasable_def)
      then have "u \<in> C \<inter> insert cur D" using k by (auto simp: degree_outside_0_iff)
      then show False using cyc [OF C] by auto
    qed
    then show ?thesis using cyc [OF C] by (auto simp: st)
  qed
  have "finite D" using sub finite_members by (meson finite_subset le_sup_iff)
  then have "Suc visited = card (insert cur D)" using cur(1) vis by simp
  then show ?thesis
    using sub cur disj rk kid deg' zero' cyc' by (auto simp: kahn_inv_def st)
qed

text \<open>The loop visits every member exactly when the parent relation is well-founded.\<close>

lemma kahn_loop_all:
  assumes "kahn_inv c D stack indeg visited"
  shows "kahn_loop c stack indeg visited = card (members c) \<longleftrightarrow> wf (child_rel c)"
  using assms
proof (induction c stack indeg visited arbitrary: D rule: kahn_loop.induct)
  case (1 c indeg visited)
  let ?R = "members c - D"
  from 1 have sub: "D \<subseteq> members c" and vis: "visited = card D"
    and zero: "\<And>k. k \<in> members c \<Longrightarrow> degree_outside c D k = 0 \<longleftrightarrow> k \<in> D"
    and cyc: "\<And>C. unreleasable c C \<Longrightarrow> C \<inter> D = {}"
    by (auto simp: kahn_inv_def)
  have R: "unreleasable c ?R"
    using zero child_rel_members by (fastforce simp: unreleasable_def degree_outside_0_iff)
  have "card D = card (members c) \<longleftrightarrow> ?R = {}"
    using sub card_subset_eq [OF finite_members sub] by auto
  also have "\<dots> \<longleftrightarrow> wf (child_rel c)"
  proof
    assume full: "?R = {}"
    show "wf (child_rel c)"
    proof (rule wfI_min)
      fix x and Q :: "'a set"
      assume x: "x \<in> Q"
      show "\<exists>z \<in> Q. \<forall>y. (y, z) \<in> child_rel c \<longrightarrow> y \<notin> Q"
      proof (rule ccontr)
        assume "\<not> ?thesis"
        then have un: "unreleasable c Q" by (auto simp: unreleasable_def)
        then have "x \<in> members c" using x child_rel_members by (fastforce simp: unreleasable_def)
        then show False using cyc [OF un] x full by auto
      qed
    qed
  next
    assume wf: "wf (child_rel c)"
    show "?R = {}"
    proof (rule ccontr)
      assume "?R \<noteq> {}"
      then obtain x where "x \<in> ?R" by blast
      with wf obtain z where "z \<in> ?R" "\<And>y. (y, z) \<in> child_rel c \<Longrightarrow> y \<notin> ?R"
        by (rule wfE_min) blast
      then show False using R unfolding unreleasable_def by blast
    qed
  qed
  finally show ?case by (simp add: vis)
next
  case (2 c cur stack indeg visited)
  obtain stack' indeg' where step: "fold release_kid (kids_of c cur) (stack, indeg) = (stack', indeg')"
    by fastforce
  note inv = kahn_inv_step [OF 2(2) step]
  note IH = 2(1) [OF refl, of "insert cur D"]
  from IH inv step show ?case
    by (simp add: kids_of_def Let_def)
qed

text \<open>The counts the sort starts from.\<close>

lemma um_get_Nil [umap_simps, simp]: "um_get d [] k = d"
  by (simp add: um_get_def)

lemma um_keys_simps [umap_simps, simp]:
  "um_keys [] = []" "um_keys (p # m) = fst p # um_keys m"
  by (simp_all add: um_keys_def)

lemma indeg_add_simps [umap_simps]:
  "um_get 0 (indeg_add d k m) j = um_get 0 m j + (if j = k then d else 0)"
  "set (um_keys (indeg_add d k m)) = insert k (set (um_keys m))"
  "um_ok m \<Longrightarrow> um_ok (indeg_add d k m)"
  by (simp_all add: indeg_add_def umap_simps)

lemma fold_indeg_add:
  "um_get 0 (fold (indeg_add 1) kids m) j = um_get 0 m j + int (count_list kids j)"
  "set (um_keys (fold (indeg_add 1) kids m)) = set kids \<union> set (um_keys m)"
  "um_ok m \<Longrightarrow> um_ok (fold (indeg_add 1) kids m)"
  by (induction kids arbitrary: m) (auto simp: indeg_add_simps)

lemma fold_indeg_kids:
  "um_get 0 (fold (\<lambda>(k, kids) m. fold (indeg_add 1) kids m) c m) j
    = um_get 0 m j + (\<Sum>p\<leftarrow>c. int (count_list (snd p) j))"
  "set (um_keys (fold (\<lambda>(k, kids) m. fold (indeg_add 1) kids m) c m))
    = (\<Union>p \<in> set c. set (snd p)) \<union> set (um_keys m)"
  "um_ok m \<Longrightarrow> um_ok (fold (\<lambda>(k, kids) m. fold (indeg_add 1) kids m) c m)"
  by (induction c arbitrary: m) (auto simp: fold_indeg_add case_prod_beta)

lemma fold_indeg_zero:
  "um_get 0 (fold (\<lambda>(k, kids) m. indeg_add 0 k m) c m) j = um_get 0 m j"
  "set (um_keys (fold (\<lambda>(k, kids) m. indeg_add 0 k m) c m)) = set (um_keys c) \<union> set (um_keys m)"
  "um_ok m \<Longrightarrow> um_ok (fold (\<lambda>(k, kids) m. indeg_add 0 k m) c m)"
  by (induction c arbitrary: m) (auto simp: indeg_add_simps case_prod_beta)

lemma kids_of_mem: "um_ok c \<Longrightarrow> p \<in> set c \<Longrightarrow> kids_of c (fst p) = snd p"
  using um_find_mem [of c "fst p" "snd p"] by (simp add: kids_of_def um_get_def)

lemma in_degrees:
  assumes "um_ok c"
  shows "um_get 0 (in_degrees c) k = degree_outside c {} k"
    and "set (um_keys (in_degrees c)) = members c"
    and "um_ok (in_degrees c)"
proof -
  have "(\<Sum>p\<leftarrow>c. int (count_list (snd p) k)) = (\<Sum>p\<leftarrow>c. int (count_list (kids_of c (fst p)) k))"
    using kids_of_mem [OF assms] by (intro arg_cong [of _ _ sum_list] map_cong) auto
  also have "\<dots> = (\<Sum>u\<leftarrow>um_keys c. int (count_list (kids_of c u) k))"
    by (simp add: um_keys_def o_def)
  also have "\<dots> = (\<Sum>u \<in> set (um_keys c). int (count_list (kids_of c u) k))"
    using assms by (intro sum_list_distinct_conv_sum_set) (simp add: um_ok_def)
  finally show "um_get 0 (in_degrees c) k = degree_outside c {} k"
    by (simp add: in_degrees_def fold_indeg_kids fold_indeg_zero degree_outside_def)
  have "(\<Union>p \<in> set c. set (snd p)) = (\<Union>u \<in> set (um_keys c). set (kids_of c u))"
    using kids_of_mem [OF assms] by (auto simp: um_keys_def)
  then show "set (um_keys (in_degrees c)) = members c"
    by (simp add: in_degrees_def fold_indeg_kids fold_indeg_zero members_def Un_commute)
  show "um_ok (in_degrees c)"
    by (simp add: in_degrees_def fold_indeg_kids fold_indeg_zero)
qed

lemma wf_child_rel_iff: "wf (child_rel c) \<longleftrightarrow> acyclic (child_rel c)"
proof -
  have "child_rel c \<subseteq> members c \<times> members c" using child_rel_members by fast
  then have "finite (child_rel c)" by (rule finite_subset) simp
  then show ?thesis by (rule wf_iff_acyclic_if_finite)
qed

lemma has_cycle_iff:
  assumes ok: "um_ok c"
  shows "has_cycle c \<longleftrightarrow> \<not> acyclic (child_rel c)"
proof -
  note deg = in_degrees [OF ok]
  define stack where "stack = rev (map fst (filter (\<lambda>p. snd p = 0) (in_degrees c)))"
  have find: "(k, d) \<in> set (in_degrees c) \<longleftrightarrow> um_find (in_degrees c) k = Some d" for k d
    by (rule um_find_mem [OF deg(3), symmetric])
  have zero: "k \<in> set stack \<longleftrightarrow> k \<in> members c \<and> degree_outside c {} k = 0" for k
  proof -
    have "k \<in> set stack \<longleftrightarrow> um_find (in_degrees c) k = Some 0"
      by (force simp: stack_def find [symmetric])
    also have "\<dots> \<longleftrightarrow> k \<in> members c \<and> um_get 0 (in_degrees c) k = 0"
      using um_find_None_iff [of "in_degrees c" k]
      by (auto simp: um_get_def deg(2) split: option.splits)
    finally show ?thesis by (simp add: deg(1))
  qed
  have "distinct stack"
    using deg(3) by (simp add: stack_def um_ok_def um_keys_def distinct_map_filter)
  moreover have "unreleasable c C \<Longrightarrow> C \<inter> set stack = {}" for C
    by (auto simp: zero unreleasable_def degree_outside_0_iff)
  ultimately have "kahn_inv c {} stack (in_degrees c) 0"
    using zero by (auto simp: kahn_inv_def deg(1))
  then have "kahn_loop c stack (in_degrees c) 0 = card (members c) \<longleftrightarrow> wf (child_rel c)"
    by (rule kahn_loop_all)
  moreover have "length (in_degrees c) = card (members c)"
    using deg(2,3) distinct_card [of "um_keys (in_degrees c)"] by (simp add: um_ok_def um_keys_def)
  ultimately show ?thesis by (simp add: has_cycle_def Let_def stack_def wf_child_rel_iff)
qed

text \<open>The containment relation of a list of edges.\<close>

definition contains_rel :: "topology_edge list \<Rightarrow> (node_id \<times> node_id) set" where
  "contains_rel edges = {(e_source e, e_target e) | e. e \<in> set edges \<and> e_type e = ET_CONTAINS}"

lemma um_push_simps [umap_simps]:
  "um_get [] (um_push k x m) j = um_get [] m j @ (if j = k then [x] else [])"
  "um_ok m \<Longrightarrow> um_ok (um_push k x m)"
  by (simp_all add: um_push_def umap_simps)

lemma children_map:
  shows "um_ok (children_map edges)" and "child_rel (children_map edges) = contains_rel edges"
proof -
  let ?f = "\<lambda>e m. if e_type e = ET_CONTAINS then um_push (e_source e) (e_target e) m else m"
  have "um_ok m \<Longrightarrow> um_ok (fold ?f edges m)" for m
    by (induction edges arbitrary: m) (auto simp: um_push_simps)
  then show "um_ok (children_map edges)" by (simp add: children_map_def)
  have "child_rel (fold ?f edges m) = child_rel m \<union> contains_rel edges" for m
  proof (induction edges arbitrary: m)
    case (Cons e edges)
    have "child_rel (um_push (e_source e) (e_target e) m) = insert (e_source e, e_target e) (child_rel m)"
      by (auto simp: child_rel_def kids_of_def um_push_simps)
    with Cons show ?case by (auto simp: contains_rel_def)
  qed (simp add: contains_rel_def)
  then show "child_rel (children_map edges) = contains_rel edges"
    by (simp add: children_map_def) (simp add: child_rel_def kids_of_def um_get_def)
qed

text \<open>The counters of the code are \<open>int\<close>: none exceeds the number of edges.\<close>

lemma push_total: "(\<Sum>p\<leftarrow>um_push k x m. length (snd p)) = Suc (\<Sum>p\<leftarrow>m. length (snd p))"
proof (induction m)
  case (Cons p m)
  then show ?case by (cases p) (auto simp: um_push_def um_put_def um_get_def um_find_def)
qed (simp add: um_push_def um_put_def um_get_def um_find_def)

lemma in_degrees_bound: "um_get 0 (in_degrees (children_map edges)) k \<le> int (length edges)"
proof -
  have "(\<Sum>p\<leftarrow>fold (\<lambda>e m. if e_type e = ET_CONTAINS then um_push (e_source e) (e_target e) m else m) es m.
      length (snd p)) \<le> length es + (\<Sum>p\<leftarrow>m. length (snd p))" for es and m :: "(node_id, node_id list) umap"
  proof (induction es arbitrary: m)
    case (Cons e es)
    from Cons.IH [of m] Cons.IH [of "um_push (e_source e) (e_target e) m"] show ?case by (auto simp: push_total)
  qed simp
  from this [of edges "[]"] have kids: "(\<Sum>p\<leftarrow>children_map edges. length (snd p)) \<le> length edges"
    by (simp add: children_map_def)
  have "(\<Sum>p\<leftarrow>c. int (count_list (snd p) k)) \<le> int (\<Sum>p\<leftarrow>c. length (snd p))"
    for c :: "(node_id, node_id list) umap"
  proof (induction c)
    case (Cons p c)
    then show ?case using count_le_length [of "snd p" k] by simp
  qed simp
  then show ?thesis
    using kids by (fastforce simp: in_degrees_def fold_indeg_kids fold_indeg_zero intro: order_trans)
qed

lemma contains_cycle_iff: "has_cycle (children_map edges) \<longleftrightarrow> \<not> acyclic (contains_rel edges)"
  using has_cycle_iff [OF children_map(1)] by (simp only: children_map(2))

section \<open>What validation decides\<close>

lemma add_error_simps [simp]:
  "v_ok (add_error e v) = False" "v_errors (add_error e v) = v_errors v @ [e]"
  "v_warnings (add_error e v) = v_warnings v"
  by (simp_all add: add_error_def)

lemma add_warning_simps [simp]:
  "v_ok (add_warning w v) = v_ok v" "v_errors (add_warning w v) = v_errors v"
  "v_warnings (add_warning w v) = v_warnings v @ [w]"
  by (simp_all add: add_warning_def)

text \<open>A step only adds messages, and clears \<open>ok\<close> with the first error.\<close>

definition flag_ok :: "validation_result \<Rightarrow> bool" where
  "flag_ok v \<longleftrightarrow> (v_ok v \<longleftrightarrow> v_errors v = [])"

lemma flag_ok_simps [simp]:
  "flag_ok default_validation" "flag_ok (add_error e v)" "flag_ok (add_warning w v) \<longleftrightarrow> flag_ok v"
  by (simp_all add: flag_ok_def default_validation_def)

lemma fold_flag_ok:
  "(\<And>x v. flag_ok v \<Longrightarrow> flag_ok (f x v)) \<Longrightarrow> flag_ok v \<Longrightarrow> flag_ok (fold f xs v)"
  by (induction xs arbitrary: v) auto

lemma fold_v_ok:
  "(\<And>x v. v_ok (f x v) \<longleftrightarrow> v_ok v \<and> P x) \<Longrightarrow> v_ok (fold f xs v) \<longleftrightarrow> v_ok v \<and> (\<forall>x \<in> set xs. P x)"
  by (induction xs arbitrary: v) auto

definition known_ends :: "(node_id, topology_node) umap \<Rightarrow> topology_edge \<Rightarrow> bool" where
  "known_ends nodes e \<longleftrightarrow> um_find nodes (e_source e) \<noteq> None \<and> um_find nodes (e_target e) \<noteq> None"

lemma check_ends_ok: "v_ok (check_ends nodes e v) \<longleftrightarrow> v_ok v \<and> known_ends nodes e"
  by (auto simp: check_ends_def Let_def known_ends_def)

lemma check_self_ok:
  "v_ok (check_self e v) \<longleftrightarrow> v_ok v \<and> \<not> (e_type e = ET_CONTAINS \<and> e_source e = e_target e)"
  by (auto simp: check_self_def)

lemma check_warning_ok [simp]:
  "v_ok (check_peer pk e v) = v_ok v" "v_errors (check_peer pk e v) = v_errors v"
  "v_ok (check_accelerator sk p v) = v_ok v" "v_errors (check_accelerator sk p v) = v_errors v"
  by (simp_all add: check_peer_def check_accelerator_def)

lemma fold_same: "(\<And>x v. g (f x v) = g v) \<Longrightarrow> g (fold f xs v) = g v"
  by (induction xs arbitrary: v) auto

text \<open>Nodes that share a native identity.\<close>

definition native_key :: "node_id \<times> topology_node \<Rightarrow> string" where
  "native_key p = canonical_key (n_native (snd p))"

definition keys_apart :: "(node_id, topology_node) umap \<Rightarrow> bool" where
  "keys_apart nodes \<longleftrightarrow>
     (\<forall>p \<in> set nodes. \<forall>q \<in> set nodes. native_key p \<noteq> '''' \<and> native_key p = native_key q \<longrightarrow> fst p = fst q)"

definition seen_agrees :: "(string, node_id) umap \<Rightarrow> (node_id, topology_node) umap \<Rightarrow> bool" where
  "seen_agrees seen nodes \<longleftrightarrow>
     (\<forall>p \<in> set nodes. native_key p \<noteq> '''' \<longrightarrow> (\<forall>j. um_find seen (native_key p) = Some j \<longrightarrow> j = fst p))"

lemma check_identity_snd:
  "snd (check_identity p (v, seen)) =
     (if native_key p = [] then seen else fst (um_emplace (native_key p) (fst p) seen))"
  by (simp add: check_identity_def native_key_def Let_def um_emplace_def um_count_def
      split: option.splits)

lemma check_identity_seen:
  "um_find (snd (check_identity p (v, seen))) k =
     (case um_find seen k of Some j \<Rightarrow> Some j
      | None \<Rightarrow> if native_key p \<noteq> '''' \<and> k = native_key p then Some (fst p) else None)"
  by (simp add: check_identity_snd um_find_emplace split: option.splits)

lemma check_identity_ok:
  "v_ok (fst (check_identity p (v, seen))) \<longleftrightarrow> v_ok v \<and> seen_agrees seen [p]"
  by (auto simp: check_identity_def native_key_def seen_agrees_def Let_def split: option.splits)

lemma check_identity_flag: "flag_ok v \<Longrightarrow> flag_ok (fst (check_identity p (v, seen)))"
  by (auto simp: check_identity_def Let_def split: option.splits)

lemma seen_agrees_step:
  assumes "um_ok (p # nodes)"
  shows "seen_agrees seen (p # nodes) \<and> keys_apart (p # nodes) \<longleftrightarrow>
    seen_agrees seen [p] \<and> seen_agrees (snd (check_identity p (v, seen))) nodes \<and> keys_apart nodes"
proof -
  have ne: "q \<in> set nodes \<Longrightarrow> fst p \<noteq> fst q" for q
    using assms by (auto simp: um_ok_def um_keys_def)
  have A: "seen_agrees seen (p # nodes) \<longleftrightarrow> seen_agrees seen [p] \<and> seen_agrees seen nodes"
    by (auto simp: seen_agrees_def)
  have B: "keys_apart (p # nodes) \<longleftrightarrow> keys_apart nodes
      \<and> (\<forall>q \<in> set nodes. native_key p \<noteq> '''' \<longrightarrow> native_key q \<noteq> native_key p)"
    using ne by (fastforce simp: keys_apart_def)
  have C: "seen_agrees (snd (check_identity p (v, seen))) nodes \<longleftrightarrow> seen_agrees seen nodes
      \<and> (\<forall>q \<in> set nodes. native_key p \<noteq> '''' \<and> um_find seen (native_key p) = None
            \<longrightarrow> native_key q \<noteq> native_key p)"
    using ne by (fastforce simp: seen_agrees_def check_identity_seen split: option.splits)
  have D: "\<forall>q \<in> set nodes. native_key q \<noteq> native_key p"
    if "seen_agrees seen [p]" "seen_agrees seen nodes" "native_key p \<noteq> ''''"
      "um_find seen (native_key p) \<noteq> None"
    using that ne by (fastforce simp: seen_agrees_def)
  show ?thesis unfolding A B C using D
    by (cases "native_key p = []"; cases "um_find seen (native_key p)") auto
qed

lemma check_identity_fold:
  assumes "um_ok nodes"
  shows "v_ok (fst (fold check_identity nodes (v, seen)))
    \<longleftrightarrow> v_ok v \<and> seen_agrees seen nodes \<and> keys_apart nodes"
  using assms
proof (induction nodes arbitrary: v seen)
  case Nil
  then show ?case by (simp add: seen_agrees_def keys_apart_def)
next
  case (Cons p nodes)
  obtain v' seen' where step: "check_identity p (v, seen) = (v', seen')" by fastforce
  have "um_ok nodes" using Cons.prems by (simp add: um_ok_def)
  then have "v_ok (fst (fold check_identity (p # nodes) (v, seen)))
      \<longleftrightarrow> v_ok v' \<and> seen_agrees seen' nodes \<and> keys_apart nodes"
    using Cons.IH by (simp add: step)
  also have "v_ok v' \<longleftrightarrow> v_ok v \<and> seen_agrees seen [p]"
    using check_identity_ok [of p v seen] by (simp add: step)
  finally show ?case
    using seen_agrees_step [OF Cons.prems, of seen v] by (auto simp: step)
qed

lemma fold_identity_flag: "flag_ok v \<Longrightarrow> flag_ok (fst (fold check_identity nodes (v, seen)))"
proof (induction nodes arbitrary: v seen)
  case (Cons p nodes)
  obtain v' seen' where step: "check_identity p (v, seen) = (v', seen')" by fastforce
  then have "flag_ok v'" using check_identity_flag [OF Cons.prems, of p seen] by simp
  then show ?case using Cons.IH by (simp add: step)
qed simp

text \<open>Validation succeeds exactly on the graphs with known ends, separate native identities and
  acyclic containment.\<close>

definition graph_ok :: "(node_id, topology_node) umap \<Rightarrow> topology_edge list \<Rightarrow> bool" where
  "graph_ok nodes edges \<longleftrightarrow>
     (\<forall>e \<in> set edges. known_ends nodes e) \<and> keys_apart nodes \<and> acyclic (contains_rel edges)"

lemma acyclic_no_self:
  "acyclic (contains_rel edges) \<Longrightarrow> e \<in> set edges \<Longrightarrow> \<not> (e_type e = ET_CONTAINS \<and> e_source e = e_target e)"
  by (force simp: contains_rel_def acyclic_def)

lemma validate_ok:
  assumes "um_ok nodes"
  shows "v_ok (validate nodes edges) \<longleftrightarrow> graph_ok nodes edges"
proof -
  let ?v1 = "fold (check_ends nodes) edges default_validation"
  have 1: "v_ok ?v1 \<longleftrightarrow> (\<forall>e \<in> set edges. known_ends nodes e)"
    by (subst fold_v_ok [where P = "known_ends nodes"]) (simp_all add: check_ends_ok default_validation_def)
  let ?v2 = "fst (fold check_identity nodes (?v1, []))"
  have 2: "v_ok ?v2 \<longleftrightarrow> v_ok ?v1 \<and> keys_apart nodes"
    using check_identity_fold [OF assms, of ?v1 "[]"] by (simp add: seen_agrees_def)
  have 3: "v_ok (fold check_self edges v)
      \<longleftrightarrow> v_ok v \<and> (\<forall>e \<in> set edges. \<not> (e_type e = ET_CONTAINS \<and> e_source e = e_target e))" for v
    by (rule fold_v_ok) (rule check_self_ok)
  have "v_ok (validate nodes edges) \<longleftrightarrow>
      v_ok (fold check_self edges ?v2) \<and> \<not> has_cycle (children_map edges)"
    by (simp add: validate_def Let_def fold_same [where g = v_ok])
  also have "\<dots> \<longleftrightarrow> v_ok ?v2 \<and> acyclic (contains_rel edges)"
    using acyclic_no_self [of edges] by (auto simp: 3 contains_cycle_iff)
  finally show ?thesis by (auto simp: 1 2 graph_ok_def)
qed

lemma validate_flag: "flag_ok (validate nodes edges)"
proof -
  have "flag_ok (fold (check_ends nodes) edges default_validation)"
    by (rule fold_flag_ok) (auto simp: check_ends_def Let_def)
  then have "flag_ok (fst (fold check_identity nodes (fold (check_ends nodes) edges default_validation, [])))"
    by (rule fold_identity_flag)
  then have "flag_ok (fold check_self edges
      (fst (fold check_identity nodes (fold (check_ends nodes) edges default_validation, []))))"
    by (rule fold_flag_ok [rotated]) (auto simp: check_self_def)
  then show ?thesis
    by (simp add: flag_ok_def validate_def Let_def fold_same [where g = v_ok] fold_same [where g = v_errors])
qed

text \<open>The verdict does not depend on the order in which the hash map is enumerated, nor on the
  order of the edges.\<close>

lemma graph_ok_perm:
  assumes "um_ok nodes" and "mset nodes = mset nodes'" and "mset edges = mset edges'"
  shows "graph_ok nodes edges \<longleftrightarrow> graph_ok nodes' edges'"
proof -
  have "set nodes = set nodes'" and "set edges = set edges'"
    using assms(2,3) by (auto dest: mset_eq_setD)
  moreover have "um_find nodes = um_find nodes'" by (rule um_find_perm) fact+
  ultimately show ?thesis by (simp add: graph_ok_def known_ends_def keys_apart_def contains_rel_def)
qed

lemma um_ok_perm: "um_ok m \<Longrightarrow> mset m = mset m' \<Longrightarrow> um_ok m'"
  by (metis mset_map mset_eq_imp_distinct_iff um_keys_def um_ok_def)

text \<open>Step 5 never warns: step 2 has recorded the key of every node with a PCI identity.\<close>

lemma fold_identity_seen:
  assumes "p \<in> set nodes" and "native_key p \<noteq> []"
  shows "um_find (snd (fold check_identity nodes (v, seen))) (native_key p) \<noteq> None"
proof -
  have keep: "um_find seen k \<noteq> None \<Longrightarrow> um_find (snd (fold check_identity ns (v, seen))) k \<noteq> None"
    for ns k v and seen :: "(string, node_id) umap"
  proof (induction ns arbitrary: v seen)
    case (Cons q ns)
    then have "um_find (snd (check_identity q (v, seen))) k \<noteq> None"
      by (auto simp: check_identity_seen split: option.splits)
    then show ?case using Cons.IH by (metis fold_simps(2) prod.collapse)
  qed simp
  show ?thesis
    using assms
  proof (induction nodes arbitrary: v seen)
    case (Cons q nodes)
    obtain v' seen' where step: "check_identity q (v, seen) = (v', seen')" by fastforce
    show ?case
    proof (cases "p = q")
      case True
      then have "um_find seen' (native_key p) \<noteq> None"
        using check_identity_seen [of q v seen "native_key p"] Cons.prems(2)
        by (auto simp: step split: option.splits)
      then show ?thesis using keep by (simp add: step)
    next
      case False
      then show ?thesis using Cons by (simp add: step)
    qed
  qed simp
qed

lemma accelerator_check_idle:
  "fold (check_accelerator (snd (fold check_identity nodes (v, seen)))) nodes w = w"
proof -
  have "check_accelerator (snd (fold check_identity nodes (v, seen))) p w = w" if "p \<in> set nodes" for p w
  proof (cases "has_pci (n_native (snd p))")
    case True
    then have "native_key p \<noteq> []" by (simp add: native_key_def canonical_key_pci_nonempty)
    from fold_identity_seen [OF that this, of v seen] show ?thesis
      by (auto simp: check_accelerator_def native_key_def)
  qed (simp add: check_accelerator_def)
  then have "set ns \<subseteq> set nodes \<Longrightarrow>
      fold (check_accelerator (snd (fold check_identity nodes (v, seen)))) ns w = w" for ns
    by (induction ns) auto
  then show ?thesis by simp
qed

section \<open>Adjacency\<close>

text \<open>What \<open>adjacency\<close> holds for a node: for each edge at it the other end, in edge order; a
  self-loop gives two entries.\<close>

definition incident_refs :: "nat \<Rightarrow> topology_edge \<Rightarrow> node_id \<Rightarrow> edge_ref list" where
  "incident_refs i e x =
     (if e_source e = x then [\<lparr> r_neighbor = e_target e, r_edge_index = i \<rparr>] else [])
     @ (if e_target e = x then [\<lparr> r_neighbor = e_source e, r_edge_index = i \<rparr>] else [])"

lemma link_edges_get:
  "um_get [] (link_edges i es adj) x
    = um_get [] adj x @ concat (map (\<lambda>(j, e). incident_refs j e x) (enumerate i es))"
  by (induction i es adj rule: link_edges.induct)
    (auto simp: link_edge_def Let_def um_push_simps incident_refs_def)

lemma link_edges_ok: "um_ok adj \<Longrightarrow> um_ok (link_edges i es adj)"
  by (induction i es adj rule: link_edges.induct) (simp_all add: link_edge_def Let_def um_push_simps)

text \<open>The snapshots \<open>take\<close> makes.\<close>

definition snapshot_wf :: "topology_snapshot \<Rightarrow> bool" where
  "snapshot_wf s \<longleftrightarrow> um_ok (s_nodes s) \<and> (\<forall>p \<in> set (s_nodes s). n_id (snd p) = fst p)
     \<and> s_adjacency s = link_edges 0 (s_edges s) []"

definition snapshot_closed :: "topology_snapshot \<Rightarrow> bool" where
  "snapshot_closed s \<longleftrightarrow> (\<forall>e \<in> set (s_edges s). known_ends (s_nodes s) e)"

lemma adjacency_get: "adjacency s x = um_get [] (s_adjacency s) x"
  by (simp add: adjacency_def um_get_def)

lemma adjacency_eq:
  "snapshot_wf s \<Longrightarrow> adjacency s x = concat (map (\<lambda>(j, e). incident_refs j e x) (enumerate 0 (s_edges s)))"
  by (simp add: adjacency_get snapshot_wf_def link_edges_get)

lemma adjacency_mem:
  assumes "snapshot_wf s"
  shows "r \<in> set (adjacency s x) \<longleftrightarrow> r_edge_index r < length (s_edges s)
    \<and> (let e = s_edges s ! r_edge_index r in
        e_source e = x \<and> e_target e = r_neighbor r \<or> e_target e = x \<and> e_source e = r_neighbor r)"
proof -
  have "r \<in> set (incident_refs i e x) \<longleftrightarrow> r_edge_index r = i
      \<and> (e_source e = x \<and> e_target e = r_neighbor r \<or> e_target e = x \<and> e_source e = r_neighbor r)" for i e
    by (cases r) (auto simp: incident_refs_def)
  then have "r \<in> set (adjacency s x) \<longleftrightarrow> (\<exists>p \<in> set (enumerate 0 (s_edges s)). r_edge_index r = fst p
      \<and> (e_source (snd p) = x \<and> e_target (snd p) = r_neighbor r
         \<or> e_target (snd p) = x \<and> e_source (snd p) = r_neighbor r))"
    unfolding adjacency_eq [OF assms] by (simp add: case_prod_beta)
  moreover have "set (enumerate 0 (s_edges s)) = (\<lambda>i. (i, s_edges s ! i)) ` {..<length (s_edges s)}"
    by (auto simp: in_set_enumerate_eq image_iff)
  ultimately show ?thesis by (auto simp: Let_def)
qed

text \<open>Adjacency is symmetric, through one edge index.\<close>

lemma adjacency_sym:
  assumes "snapshot_wf s"
  shows "\<lparr> r_neighbor = y, r_edge_index = i \<rparr> \<in> set (adjacency s x)
    \<longleftrightarrow> \<lparr> r_neighbor = x, r_edge_index = i \<rparr> \<in> set (adjacency s y)"
  by (auto simp: adjacency_mem [OF assms] Let_def)

text \<open>In a snapshot without dangling edges every entry can be followed.\<close>

lemma adjacency_closed:
  assumes "snapshot_wf s" and "snapshot_closed s" and "r \<in> set (adjacency s x)"
  shows "snap_edge s (r_edge_index r) = Inr (s_edges s ! r_edge_index r)"
    and "find_node s (r_neighbor r) \<noteq> None" and "find_node s x \<noteq> None"
proof -
  let ?e = "s_edges s ! r_edge_index r"
  have i: "r_edge_index r < length (s_edges s)"
    and ends: "{x, r_neighbor r} = {e_source ?e, e_target ?e}"
    using assms(3) by (auto simp: adjacency_mem [OF assms(1)] Let_def)
  then have "known_ends (s_nodes s) ?e" using assms(2) by (simp add: snapshot_closed_def)
  then have "\<forall>y \<in> {x, r_neighbor r}. find_node s y \<noteq> None"
    unfolding ends by (simp add: known_ends_def find_node_def)
  then show "find_node s (r_neighbor r) \<noteq> None" and "find_node s x \<noteq> None" by auto
  show "snap_edge s (r_edge_index r) = Inr ?e" using i by (simp add: snap_edge_def)
qed

lemma snap_node_find: "find_node s x = Some n \<Longrightarrow> snap_node s x = Inr n"
  by (simp add: find_node_def snap_node_def)

section \<open>The life of a builder\<close>

text \<open>The public calls, and the states a client can bring a builder to. A second \<open>take\<close>
  throws and changes nothing.\<close>

datatype builder_op =
    Op_add_node topology_node
  | Op_add_edge topology_edge
  | Op_set_metadata snapshot_metadata
  | Op_set_validation validation_result
  | Op_set_bounds bounds
  | Op_take

fun run_op :: "builder_op \<Rightarrow> snapshot_builder \<Rightarrow> snapshot_builder" where
  "run_op (Op_add_node n) bd = fst (add_node n bd)"
| "run_op (Op_add_edge e) bd = fst (add_edge e bd)"
| "run_op (Op_set_metadata m) bd = set_metadata m bd"
| "run_op (Op_set_validation v) bd = set_validation v bd"
| "run_op (Op_set_bounds b) bd = set_bounds b bd"
| "run_op Op_take bd = (case take_snapshot bd of Inl _ \<Rightarrow> bd | Inr (bd', _) \<Rightarrow> bd')"

inductive builder_reach :: "snapshot_builder \<Rightarrow> bool" where
  fresh: "builder_reach (new_builder b)"
| step: "builder_reach bd \<Longrightarrow> builder_reach (run_op op bd)"

definition builder_wf :: "snapshot_builder \<Rightarrow> bool" where
  "builder_wf bd \<longleftrightarrow> um_ok (bd_nodes bd) \<and> (\<forall>p \<in> set (bd_nodes bd). n_id (snd p) = fst p)
     \<and> (bd_taken bd \<longrightarrow> bd_nodes bd = [] \<and> bd_edges bd = [])"

text \<open>\<open>add_node\<close>, case by case.\<close>

lemma add_node_nodes:
  "bd_nodes (fst (add_node n bd)) =
     (if bd_taken bd \<or> b_max_nodes (bd_bounds bd) \<le> length (bd_nodes bd) then bd_nodes bd
      else fst (um_emplace (n_id n) n (bd_nodes bd)))"
  by (auto simp: add_node_def case_prod_beta Let_def)

lemma add_node_flag:
  "snd (add_node n bd) \<longleftrightarrow> \<not> bd_taken bd \<and> length (bd_nodes bd) < b_max_nodes (bd_bounds bd)
     \<and> um_find (bd_nodes bd) (n_id n) = None"
  by (auto simp: add_node_def case_prod_beta Let_def umap_simps um_emplace_flag)

lemma add_node_frame [simp]:
  "bd_taken (fst (add_node n bd)) = bd_taken bd" "bd_bounds (fst (add_node n bd)) = bd_bounds bd"
  "bd_edges (fst (add_node n bd)) = bd_edges bd" "bd_metadata (fst (add_node n bd)) = bd_metadata bd"
  by (simp_all add: add_node_def case_prod_beta Let_def)

lemma add_edge_frame [simp]:
  "bd_taken (fst (add_edge e bd)) = bd_taken bd" "bd_bounds (fst (add_edge e bd)) = bd_bounds bd"
  "bd_nodes (fst (add_edge e bd)) = bd_nodes bd" "bd_metadata (fst (add_edge e bd)) = bd_metadata bd"
  by (simp_all add: add_edge_def)

lemma add_edge_edges:
  "bd_edges (fst (add_edge e bd)) =
     (if bd_taken bd \<or> b_max_edges (bd_bounds bd) \<le> length (bd_edges bd) then bd_edges bd
      else bd_edges bd @ [e])"
  by (simp add: add_edge_def)

lemma emplace_ids:
  "\<forall>p \<in> set m. n_id (snd p) = fst p \<Longrightarrow> \<forall>p \<in> set (fst (um_emplace (n_id n) n m)). n_id (snd p) = fst p"
  by (simp add: um_emplace_def)

lemma builder_wf_op:
  assumes "builder_wf bd"
  shows "builder_wf (run_op op bd)"
proof (cases op)
  case (Op_add_node n)
  then show ?thesis
    using assms emplace_ids [of "bd_nodes bd" n]
    by (auto simp: builder_wf_def add_node_nodes um_ok_emplace)
next
  case (Op_add_edge e)
  then show ?thesis using assms by (auto simp: builder_wf_def add_edge_edges)
next
  case Op_take
  then show ?thesis using assms by (auto simp: builder_wf_def take_snapshot_def Let_def)
qed (use assms in \<open>simp_all add: builder_wf_def set_metadata_def set_validation_def set_bounds_def\<close>)

lemma builder_reach_wf: "builder_reach bd \<Longrightarrow> builder_wf bd"
proof (induction rule: builder_reach.induct)
  case (fresh b)
  then show ?case by (simp add: builder_wf_def new_builder_def)
qed (rule builder_wf_op)

text \<open>The bounds in force are respected by every later call.\<close>

definition within_bounds :: "snapshot_builder \<Rightarrow> bool" where
  "within_bounds bd \<longleftrightarrow> length (bd_nodes bd) \<le> b_max_nodes (bd_bounds bd)
     \<and> length (bd_edges bd) \<le> b_max_edges (bd_bounds bd)"

lemma within_bounds_op:
  assumes "within_bounds bd" and "\<forall>b. op \<noteq> Op_set_bounds b"
  shows "within_bounds (run_op op bd)"
  using assms
  by (cases op)
    (auto simp: within_bounds_def add_node_nodes add_edge_edges um_length_emplace set_metadata_def
      set_validation_def take_snapshot_def Let_def)

lemma within_bounds_ops:
  "within_bounds bd \<Longrightarrow> \<forall>op \<in> set ops. \<forall>b. op \<noteq> Op_set_bounds b \<Longrightarrow> within_bounds (fold run_op ops bd)"
  by (induction ops arbitrary: bd) (auto intro: within_bounds_op)

text \<open>The bounds that were in force while the calls were made. Contents stay under every number that no bound
  exceeds.\<close>

definition bounds_used :: "bounds \<Rightarrow> builder_op list \<Rightarrow> bounds list" where
  "bounds_used b ops = b # concat (map (\<lambda>op. case op of Op_set_bounds b' \<Rightarrow> [b'] | _ \<Rightarrow> []) ops)"

definition under :: "nat \<Rightarrow> nat \<Rightarrow> snapshot_builder \<Rightarrow> bool" where
  "under m k bd \<longleftrightarrow> length (bd_nodes bd) \<le> m \<and> length (bd_edges bd) \<le> k
     \<and> b_max_nodes (bd_bounds bd) \<le> m \<and> b_max_edges (bd_bounds bd) \<le> k"

lemma under_op:
  assumes "under m k bd" and "\<And>b. op = Op_set_bounds b \<Longrightarrow> b_max_nodes b \<le> m \<and> b_max_edges b \<le> k"
  shows "under m k (run_op op bd)"
  using assms
  by (cases op)
    (auto simp: under_def add_node_nodes add_edge_edges um_length_emplace set_metadata_def set_bounds_def
      set_validation_def take_snapshot_def Let_def)

lemma under_ops:
  "under m k bd \<Longrightarrow> \<forall>b' \<in> set (bounds_used b ops). b_max_nodes b' \<le> m \<and> b_max_edges b' \<le> k
    \<Longrightarrow> under m k (fold run_op ops bd)"
proof (induction ops arbitrary: bd)
  case (Cons op ops)
  have "under m k (run_op op bd)" by (rule under_op [OF Cons.prems(1)]) (use Cons.prems(2) in \<open>simp add: bounds_used_def\<close>)
  then show ?case using Cons.IH Cons.prems(2) by (simp add: bounds_used_def)
qed simp

text \<open>The result of \<open>take\<close>.\<close>

lemma fold_add_error:
  "v_errors (fold add_error es v) = v_errors v @ es"
  "v_ok (fold add_error es v) \<longleftrightarrow> v_ok v \<and> es = []"
  "v_warnings (fold add_error es v) = v_warnings v"
  by (induction es arbitrary: v) auto

lemma fold_add_warning:
  "v_errors (fold add_warning ws v) = v_errors v"
  "v_ok (fold add_warning ws v) = v_ok v"
  "v_warnings (fold add_warning ws v) = v_warnings v @ ws"
  by (induction ws arbitrary: v) auto

lemma take_snapshot_ok:
  assumes "builder_wf bd" and "take_snapshot bd = Inr (bd', s)"
  shows "snapshot_wf s" and "s_nodes s = bd_nodes bd" and "s_edges s = bd_edges bd"
    and "v_ok (s_validation s) \<longleftrightarrow> graph_ok (bd_nodes bd) (bd_edges bd) \<and> v_errors (bd_validation bd) = []"
    and "bd_taken bd'"
  using assms
  by (auto simp: take_snapshot_def Let_def snapshot_wf_def builder_wf_def fold_add_error fold_add_warning
      validate_ok split: if_splits)

lemma valid_snapshot_closed:
  assumes "builder_wf bd" and "take_snapshot bd = Inr (bd', s)" and "v_ok (s_validation s)"
  shows "snapshot_closed s" and "acyclic (contains_rel (s_edges s))"
  using take_snapshot_ok [OF assms(1,2)] assms(3)
  by (auto simp: graph_ok_def snapshot_closed_def)

lemma taken_spent:
  assumes "bd_taken bd"
  shows "add_node n bd = (bd, False)" and "add_edge e bd = (bd, False)"
    and "take_snapshot bd = Inl (TopologyError EC_INTERNAL ''SnapshotBuilder::take() called twice'')"
  using assms by (simp_all add: add_node_def add_edge_def take_snapshot_def)

lemma taken_stays: "bd_taken bd \<Longrightarrow> bd_taken (run_op op bd)"
  by (cases op)
    (auto simp: set_metadata_def set_validation_def set_bounds_def take_snapshot_def)

text \<open>Nodes added within the bound: of those with one id the first stays.\<close>

lemma add_nodes:
  assumes "\<not> bd_taken bd" and "length (bd_nodes bd) + length ns \<le> b_max_nodes (bd_bounds bd)"
  shows "bd_nodes (fold (\<lambda>n bd. fst (add_node n bd)) ns bd)
    = fold (\<lambda>(i, n) m. fst (um_emplace i n m)) (map (\<lambda>n. (n_id n, n)) ns) (bd_nodes bd)"
  using assms
proof (induction ns arbitrary: bd)
  case (Cons n ns)
  have "length (fst (um_emplace (n_id n) n (bd_nodes bd))) \<le> Suc (length (bd_nodes bd))"
    by (simp add: um_length_emplace)
  with Cons show ?case by (simp add: add_node_nodes)
qed simp

lemma map_of_keyed: "map_of (map (\<lambda>n. (f n, n)) ns) k = find (\<lambda>n. f n = k) ns"
  by (induction ns) auto

text \<open>A spent builder stays empty.\<close>

lemma spent_op:
  assumes "bd_taken bd" "bd_nodes bd = []" "bd_edges bd = []"
  shows "bd_taken (run_op op bd) \<and> bd_nodes (run_op op bd) = [] \<and> bd_edges (run_op op bd) = []"
proof (cases op)
  case (Op_add_node x1)
  then show ?thesis using assms by (simp add: taken_spent)
next
  case (Op_add_edge x2)
  then show ?thesis using assms by (simp add: taken_spent)
next
  case (Op_set_metadata x3)
  then show ?thesis using assms by (simp add: set_metadata_def)
next
  case (Op_set_validation x4)
  then show ?thesis using assms by (simp add: set_validation_def)
next
  case (Op_set_bounds x5)
  then show ?thesis using assms by (simp add: set_bounds_def)
next
  case Op_take
  then show ?thesis using assms by (simp add: taken_spent)
qed

lemma spent_ops:
  "bd_taken bd \<Longrightarrow> bd_nodes bd = [] \<Longrightarrow> bd_edges bd = [] \<Longrightarrow>
     bd_taken (fold run_op ops bd) \<and> bd_nodes (fold run_op ops bd) = [] \<and> bd_edges (fold run_op ops bd) = []"
  by (induction ops arbitrary: bd) (simp_all add: spent_op)

section \<open>Snapshots as clients get them\<close>

text \<open>A snapshot is made by \<open>take\<close> from a builder in a state its public calls can bring it to; it
  is valid when its own validation result says so.\<close>

definition made_snapshot :: "topology_snapshot \<Rightarrow> bool" where
  "made_snapshot s \<longleftrightarrow> (\<exists>bd bd'. builder_reach bd \<and> take_snapshot bd = Inr (bd', s))"

definition valid_snapshot :: "topology_snapshot \<Rightarrow> bool" where
  "valid_snapshot s \<longleftrightarrow> made_snapshot s \<and> v_ok (s_validation s)"

lemma made_wf: "made_snapshot s \<Longrightarrow> snapshot_wf s"
  using take_snapshot_ok(1) builder_reach_wf by (auto simp: made_snapshot_def)

lemma valid_wf: "valid_snapshot s \<Longrightarrow> snapshot_wf s"
  by (simp add: valid_snapshot_def made_wf)

lemma valid_closed: "valid_snapshot s \<Longrightarrow> snapshot_closed s"
  using valid_snapshot_closed(1) builder_reach_wf by (auto simp: valid_snapshot_def made_snapshot_def)

lemma valid_acyclic: "valid_snapshot s \<Longrightarrow> acyclic (contains_rel (s_edges s))"
  using valid_snapshot_closed(2) builder_reach_wf by (auto simp: valid_snapshot_def made_snapshot_def)

lemma wf_ok: "snapshot_wf s \<Longrightarrow> um_ok (s_nodes s)"
  by (simp add: snapshot_wf_def)

lemma builder_reach_ops: "builder_reach bd \<Longrightarrow> builder_reach (fold run_op ops bd)"
  by (induction ops arbitrary: bd) (auto intro: builder_reach.step)

section \<open>Properties\<close>

text \<open>C7: validation accepts a graph exactly when every edge joins known nodes, no two nodes have one
  non-empty native identity key, and the containment edges have no cycle.\<close>

theorem validation_decides:
  assumes "um_ok nodes"
  shows "v_ok (validate nodes edges) \<longleftrightarrow>
    (\<forall>e \<in> set edges. um_find nodes (e_source e) \<noteq> None \<and> um_find nodes (e_target e) \<noteq> None)
    \<and> (\<forall>p \<in> set nodes. \<forall>q \<in> set nodes. canonical_key (n_native (snd p)) \<noteq> []
          \<and> canonical_key (n_native (snd p)) = canonical_key (n_native (snd q)) \<longrightarrow> fst p = fst q)
    \<and> acyclic {(e_source e, e_target e) | e. e \<in> set edges \<and> e_type e = ET_CONTAINS}"
  by (simp add: validate_ok [OF assms] graph_ok_def known_ends_def keys_apart_def native_key_def contains_rel_def)

theorem validation_decides_witness:
  "\<not> v_ok (validate [(NodeId 0 1, default_node \<lparr> n_id := NodeId 0 1 \<rparr>)]
      [default_edge \<lparr> e_source := NodeId 0 1, e_target := NodeId 0 2 \<rparr>])"
  by (subst validation_decides) (simp_all add: um_ok_def um_keys_def um_find_def)

text \<open>The verdict of validation does not depend on the order in which the nodes and the edges
  are enumerated.\<close>

theorem validation_order:
  assumes "um_ok nodes" and "mset nodes = mset nodes'" and "mset edges = mset edges'"
  shows "v_ok (validate nodes edges) \<longleftrightarrow> v_ok (validate nodes' edges')"
  using assms by (simp add: validate_ok um_ok_perm [OF assms(1,2)] graph_ok_perm [OF assms])

theorem validation_order_witness:
  "v_ok (validate [(NodeId 0 1, default_node), (NodeId 0 2, default_node)] [default_edge])
   \<longleftrightarrow> v_ok (validate [(NodeId 0 2, default_node), (NodeId 0 1, default_node)] [default_edge])"
  by (rule validation_order) (simp_all add: um_ok_def um_keys_def add_mset_commute)

text \<open>C32: whatever calls are made on a new builder, it never holds more nodes or edges than the largest bound that
  was ever in force, and its node ids are unique; as long as \<open>set_bounds\<close> is not called it is within its bounds.
  (\<open>set_bounds\<close> drops nothing: with smaller bounds the builder keeps what it has.)\<close>

theorem builder_bounded:
  assumes bd: "bd = fold run_op ops (new_builder b)"
  shows "length (bd_nodes bd) \<le> Max (b_max_nodes ` set (bounds_used b ops))
    \<and> length (bd_edges bd) \<le> Max (b_max_edges ` set (bounds_used b ops))
    \<and> distinct (map fst (bd_nodes bd))
    \<and> ((\<forall>op \<in> set ops. \<forall>b. op \<noteq> Op_set_bounds b)
        \<longrightarrow> length (bd_nodes bd) \<le> b_max_nodes (bd_bounds bd) \<and> length (bd_edges bd) \<le> b_max_edges (bd_bounds bd))"
proof -
  have "builder_reach bd" unfolding bd by (intro builder_reach_ops builder_reach.fresh)
  from builder_reach_wf [OF this] have "distinct (map fst (bd_nodes bd))"
    by (simp add: builder_wf_def um_ok_def um_keys_def)
  moreover have "(\<forall>op \<in> set ops. \<forall>b. op \<noteq> Op_set_bounds b) \<Longrightarrow> within_bounds bd"
    unfolding bd by (rule within_bounds_ops) (simp_all add: within_bounds_def new_builder_def)
  moreover have "under (Max (b_max_nodes ` set (bounds_used b ops))) (Max (b_max_edges ` set (bounds_used b ops))) bd"
  proof -
    have "b_max_nodes b' \<le> Max (b_max_nodes ` set (bounds_used b ops)) \<and> b_max_edges b' \<le> Max (b_max_edges ` set (bounds_used b ops))"
      if "b' \<in> set (bounds_used b ops)" for b'
      using that by (intro conjI Max_ge) (simp_all del: set_concat)
    moreover have "b \<in> set (bounds_used b ops)" by (simp add: bounds_used_def)
    ultimately show ?thesis unfolding bd by (intro under_ops [where b = b]) (simp_all add: under_def new_builder_def)
  qed
  ultimately show ?thesis by (auto simp: within_bounds_def under_def)
qed

theorem builder_bounded_witness:
  "length (bd_nodes (fold run_op [Op_add_node default_node, Op_add_node (default_node \<lparr> n_id := NodeId 0 1 \<rparr>)]
     (new_builder (default_bounds \<lparr> b_max_nodes := 1 \<rparr>)))) \<le> 1"
  using builder_bounded [OF refl, of "[Op_add_node default_node, Op_add_node (default_node \<lparr> n_id := NodeId 0 1 \<rparr>)]"
      "default_bounds \<lparr> b_max_nodes := 1 \<rparr>"]
  by (simp add: new_builder_def bounds_used_def)

text \<open>A builder with two nodes whose bound is then set to one is above it.\<close>

lemma set_bounds_keeps:
  "length (bd_nodes (fold run_op [Op_add_node default_node, Op_add_node (default_node \<lparr> n_id := NodeId 0 1 \<rparr>),
      Op_set_bounds (default_bounds \<lparr> b_max_nodes := 1 \<rparr>)] (new_builder default_bounds))) = 2"
  by (simp add: new_builder_def add_node_def set_bounds_def default_bounds_def default_node_def um_emplace_def um_find_def
      um_count_def kNullNodeId_def)

text \<open>When nodes are added to a new builder within its bound, a lookup finds the first one added
  with the id.\<close>

theorem first_node_stays:
  assumes "length ns \<le> b_max_nodes b"
  shows "um_find (bd_nodes (fold (\<lambda>n bd. fst (add_node n bd)) ns (new_builder b))) i
    = find (\<lambda>n. n_id n = i) ns"
  using add_nodes [of "new_builder b" ns] assms
    um.find_fold [of "[]" "map (\<lambda>n. (n_id n, n)) ns" i]
  by (simp add: new_builder_def map_of_keyed)

theorem first_node_stays_witness:
  "um_find (bd_nodes (fold (\<lambda>n bd. fst (add_node n bd))
      [default_node \<lparr> n_name := ''a'' \<rparr>, default_node \<lparr> n_name := ''b'' \<rparr>] (new_builder (default_bounds \<lparr> b_max_nodes := 2 \<rparr>))))
     kNullNodeId = Some (default_node \<lparr> n_name := ''a'' \<rparr>)"
  by (subst first_node_stays) (simp_all add: default_node_def)

text \<open>Once a snapshot was taken, no sequence of calls puts a node or an edge into the builder
  again, and every further \<open>take\<close> throws.\<close>

theorem builder_spent:
  assumes "take_snapshot bd = Inr (bd', s)"
  shows "bd_nodes (fold run_op ops bd') = [] \<and> bd_edges (fold run_op ops bd') = []
    \<and> take_snapshot (fold run_op ops bd')
        = Inl (TopologyError EC_INTERNAL ''SnapshotBuilder::take() called twice'')"
proof -
  have "bd_taken bd'" "bd_nodes bd' = []" "bd_edges bd' = []"
    using assms by (auto simp: take_snapshot_def Let_def split: if_splits)
  from spent_ops [OF this, of ops] show ?thesis by (simp add: taken_spent)
qed

theorem builder_spent_witness:
  "take_snapshot (run_op (Op_add_node default_node) (run_op Op_take (new_builder default_bounds)))
     = Inl (TopologyError EC_INTERNAL ''SnapshotBuilder::take() called twice'')"
proof -
  obtain bd' s where t: "take_snapshot (new_builder default_bounds) = Inr (bd', s)"
    by (cases "take_snapshot (new_builder default_bounds)") (auto simp: take_snapshot_def new_builder_def Let_def)
  show ?thesis using builder_spent [OF t, of "[Op_add_node default_node]"] by (simp add: t)
qed

text \<open>C31: in every snapshot a client can get, the adjacency of a node lists exactly the other ends of
  the edges at it, and it is symmetric through one edge index; this needs no valid graph.\<close>

theorem adjacency_lists_edges:
  assumes "made_snapshot s"
  shows "(r \<in> set (adjacency s x) \<longleftrightarrow> r_edge_index r < length (s_edges s) \<and>
      (e_source (s_edges s ! r_edge_index r) = x \<and> e_target (s_edges s ! r_edge_index r) = r_neighbor r
       \<or> e_target (s_edges s ! r_edge_index r) = x \<and> e_source (s_edges s ! r_edge_index r) = r_neighbor r))
    \<and> (\<lparr> r_neighbor = y, r_edge_index = i \<rparr> \<in> set (adjacency s x)
        \<longleftrightarrow> \<lparr> r_neighbor = x, r_edge_index = i \<rparr> \<in> set (adjacency s y))"
  using adjacency_mem [OF made_wf [OF assms], of r x] adjacency_sym [OF made_wf [OF assms], of y i x]
  by (auto simp: Let_def)

theorem adjacency_lists_edges_witness:
  "\<exists>bd' s. take_snapshot (run_op (Op_add_edge (default_edge \<lparr> e_target := NodeId 0 1 \<rparr>)) (new_builder default_bounds)) = Inr (bd', s)
     \<and> \<lparr> r_neighbor = kNullNodeId, r_edge_index = 0 \<rparr> \<in> set (adjacency s (NodeId 0 1))"
proof -
  let ?bd = "run_op (Op_add_edge (default_edge \<lparr> e_target := NodeId 0 1 \<rparr>)) (new_builder default_bounds)"
  obtain bd' s where t: "take_snapshot ?bd = Inr (bd', s)"
    and e: "s_edges s = [default_edge \<lparr> e_target := NodeId 0 1 \<rparr>]"
    by (auto simp: take_snapshot_def new_builder_def add_edge_def default_bounds_def Let_def)
  have "made_snapshot s"
    unfolding made_snapshot_def using t builder_reach.step [OF builder_reach.fresh] by blast
  from adjacency_lists_edges [OF this, of "\<lparr> r_neighbor = kNullNodeId, r_edge_index = 0 \<rparr>" "NodeId 0 1"]
  show ?thesis using t e by (auto simp: default_edge_def)
qed

end
