(* ===== verification/TF_Graph.thy ===== *)
theory TF_Graph
  imports TF_Snapshot
begin

text \<open>
  Traversal of the graph (\<open>graph.cpp\<close>): parents, children, ancestors, descendants, siblings,
  neighbours and the nearest ancestor of a type.

  The lemmas show that ancestors and descendants are exactly the nodes reachable over one or more
  edges of the type, each listed once; that the two are converse; and that \<open>root_ancestor\<close>
  returns the first node of the type on the chain of first parents, its cycle guard losing nothing.
\<close>

section \<open>One step\<close>

definition parents :: "topology_snapshot \<Rightarrow> node_id \<Rightarrow> edge_type \<Rightarrow> node_id list" where
  "parents s i t = map e_source (filter (\<lambda>e. t = e_type e \<and> e_target e = i) (s_edges s))"

definition children :: "topology_snapshot \<Rightarrow> node_id \<Rightarrow> edge_type \<Rightarrow> node_id list" where
  "children s i t = map e_target (filter (\<lambda>e. t = e_type e \<and> e_source e = i) (s_edges s))"

definition neighbors :: "topology_snapshot \<Rightarrow> node_id \<Rightarrow> node_id list" where
  "neighbors s i = map r_neighbor (adjacency s i)"

text \<open>The relation an edge type induces, and the ids that edges mention.\<close>

definition edge_rel :: "topology_snapshot \<Rightarrow> edge_type \<Rightarrow> (node_id \<times> node_id) set" where
  "edge_rel s t = {(e_source e, e_target e) | e. e \<in> set (s_edges s) \<and> e_type e = t}"

definition end_ids :: "topology_snapshot \<Rightarrow> node_id set" where
  "end_ids s = set (map e_source (s_edges s)) \<union> set (map e_target (s_edges s))"

lemma set_parents: "p \<in> set (parents s i t) \<longleftrightarrow> (p, i) \<in> edge_rel s t"
  by (auto simp: parents_def edge_rel_def)

lemma set_children: "c \<in> set (children s i t) \<longleftrightarrow> (i, c) \<in> edge_rel s t"
  by (auto simp: children_def edge_rel_def)

lemma parents_ends: "set (parents s i t) \<subseteq> end_ids s"
  and children_ends: "set (children s i t) \<subseteq> end_ids s"
  by (auto simp: parents_def children_def end_ids_def)

lemma finite_end_ids [simp]: "finite (end_ids s)"
  by (simp add: end_ids_def)

section \<open>Breadth-first closure\<close>

text \<open>The loop body of \<open>ancestors\<close> and \<open>descendants\<close>: \<open>visited.insert(p).second\<close>
  guards the push to the queue and to the output.\<close>

type_synonym 'a work = "'a list \<times> 'a set \<times> 'a list"

fun visit :: "'a \<Rightarrow> 'a work \<Rightarrow> 'a work" where
  "visit p (queue, visited, out) =
     (if p \<in> visited then (queue, visited, out)
      else (queue @ [p], insert p visited, out @ [p]))"

definition work_left :: "'a set \<Rightarrow> 'a work \<Rightarrow> nat" where
  "work_left U w = card (U - fst (snd w)) + length (fst w)"

lemma visit_work:
  assumes "finite U" and "p \<in> U"
  shows "work_left U (visit p w) \<le> work_left U w"
proof (cases w)
  case (fields q vis out)
  show ?thesis
  proof (cases "p \<in> vis")
    case False
    have "card (U - insert p vis) < card (U - vis)"
      using assms False by (intro psubset_card_mono) auto
    then show ?thesis using False by (simp add: fields work_left_def)
  qed (simp add: fields)
qed

lemma visits_work:
  assumes "finite U" and "set ps \<subseteq> U"
  shows "work_left U (fold visit ps w) \<le> work_left U w"
  using assms(2)
proof (induction ps arbitrary: w)
  case (Cons p ps)
  then have "work_left U (fold visit ps (visit p w)) \<le> work_left U (visit p w)"
    by (intro Cons.IH) simp
  also have "\<dots> \<le> work_left U w" using Cons.prems by (intro visit_work [OF assms(1)]) simp
  finally show ?case by simp
qed simp

function ancestors_loop :: "topology_snapshot \<Rightarrow> edge_type \<Rightarrow> node_id work \<Rightarrow> node_id list" where
  "ancestors_loop s t ([], visited, out) = out"
| "ancestors_loop s t (cur # queue, visited, out) =
     ancestors_loop s t (fold visit (parents s cur t) (queue, visited, out))"
  by pat_completeness auto
termination
proof (relation "measure (\<lambda>(s, t, w). work_left (end_ids s) w)")
  fix s t cur queue visited out
  show "((s, t, fold visit (parents s cur t) (queue, visited, out)), s, t, cur # queue, visited, out)
      \<in> measure (\<lambda>(s, t, w). work_left (end_ids s) w)"
    using visits_work [OF finite_end_ids parents_ends, of s cur t "(queue, visited, out)"]
    by (simp add: work_left_def)
qed simp

function descendants_loop :: "topology_snapshot \<Rightarrow> edge_type \<Rightarrow> node_id work \<Rightarrow> node_id list" where
  "descendants_loop s t ([], visited, out) = out"
| "descendants_loop s t (cur # queue, visited, out) =
     descendants_loop s t (fold visit (children s cur t) (queue, visited, out))"
  by pat_completeness auto
termination
proof (relation "measure (\<lambda>(s, t, w). work_left (end_ids s) w)")
  fix s t cur queue visited out
  show "((s, t, fold visit (children s cur t) (queue, visited, out)), s, t, cur # queue, visited, out)
      \<in> measure (\<lambda>(s, t, w). work_left (end_ids s) w)"
    using visits_work [OF finite_end_ids children_ends, of s cur t "(queue, visited, out)"]
    by (simp add: work_left_def)
qed simp

definition ancestors :: "topology_snapshot \<Rightarrow> node_id \<Rightarrow> edge_type \<Rightarrow> node_id list" where
  "ancestors s i t = ancestors_loop s t ([i], {}, [])"

definition descendants :: "topology_snapshot \<Rightarrow> node_id \<Rightarrow> edge_type \<Rightarrow> node_id list" where
  "descendants s i t = descendants_loop s t ([i], {}, [])"

text \<open>What both loops have in common: a successor function with values in a finite set, and the
  two equations of the loop.\<close>

locale worklist =
  fixes next_of :: "'a \<Rightarrow> 'a list" and universe :: "'a set" and loop :: "'a work \<Rightarrow> 'a list"
  assumes finite_universe: "finite universe"
    and next_universe: "set (next_of x) \<subseteq> universe"
    and loop_done: "loop ([], visited, out) = out"
    and loop_step: "loop (cur # queue, visited, out) = loop (fold visit (next_of cur) (queue, visited, out))"
begin

definition rel :: "('a \<times> 'a) set" where
  "rel = {(x, y). y \<in> set (next_of x)}"

text \<open>The invariant: what is listed was reached, and what was reached and is off the queue has had
  its successors listed.\<close>

definition inv :: "'a \<Rightarrow> 'a work \<Rightarrow> bool" where
  "inv x w \<longleftrightarrow> (case w of (queue, visited, out) \<Rightarrow>
     visited = set out \<and> distinct out \<and> set out \<subseteq> {y. (x, y) \<in> rel\<^sup>+} \<and> set queue \<subseteq> insert x (set out)
     \<and> (\<forall>y \<in> insert x (set out) - set queue. set (next_of y) \<subseteq> set out))"

lemma visits:
  assumes "fold visit ps (queue, visited, out) = (queue', visited', out')"
    and "visited = set out" and "distinct out"
  shows "visited' = set out' \<and> distinct out' \<and> set out' = set out \<union> set ps
    \<and> set queue' = set queue \<union> (set ps - set out)"
  using assms
proof (induction ps arbitrary: queue visited out)
  case (Cons p ps)
  show ?case
  proof (cases "p \<in> visited")
    case True
    then show ?thesis using Cons by auto
  next
    case False
    then show ?thesis using Cons.IH [of "queue @ [p]" "insert p visited" "out @ [p]"] Cons.prems by auto
  qed
qed simp

lemma inv_step:
  assumes "inv x (cur # queue, visited, out)"
  shows "inv x (fold visit (next_of cur) (queue, visited, out))"
proof -
  obtain queue' visited' out' where
    step: "fold visit (next_of cur) (queue, visited, out) = (queue', visited', out')"
    by (metis surj_pair)
  from assms have pre: "visited = set out" "distinct out" by (auto simp: inv_def)
  note v = visits [OF step pre]
  have cur: "cur \<in> insert x (set out)" using assms by (auto simp: inv_def)
  have "(x, y) \<in> rel\<^sup>+" if "y \<in> set (next_of cur)" for y
  proof -
    have "(cur, y) \<in> rel" using that by (simp add: rel_def)
    then show ?thesis using cur assms by (auto simp: inv_def intro: trancl.trancl_into_trancl)
  qed
  then have "set out' \<subseteq> {y. (x, y) \<in> rel\<^sup>+}"
    using assms v by (auto simp: inv_def)
  moreover have "set (next_of y) \<subseteq> set out'" if "y \<in> insert x (set out') - set queue'" for y
  proof (cases "y = cur")
    case False
    with that v have "y \<in> insert x (set out) - set (cur # queue)" by auto
    then have "set (next_of y) \<subseteq> set out" using assms by (auto simp: inv_def)
    then show ?thesis using v by blast
  qed (use v in blast)
  moreover have "set queue' \<subseteq> insert x (set out')"
    using assms v by (auto simp: inv_def)
  ultimately show ?thesis
    using v by (simp only: step inv_def prod.case) blast
qed

lemma inv_loop:
  assumes "inv x w"
  shows "distinct (loop w) \<and> set (loop w) = {y. (x, y) \<in> rel\<^sup>+}"
  using assms
proof (induction "work_left universe w" arbitrary: w rule: less_induct)
  case less
  obtain queue visited out where w: "w = (queue, visited, out)" by (metis surj_pair)
  show ?case
  proof (cases queue)
    case Nil
    have closed: "set (next_of y) \<subseteq> set out" if "y \<in> insert x (set out)" for y
      using less.prems that by (auto simp: w Nil inv_def)
    have "y \<in> set out" if "(x, y) \<in> rel\<^sup>+" for y
      using that
    proof induction
      case (base y)
      then show ?case using closed [of x] by (auto simp: rel_def)
    next
      case (step y z)
      then show ?case using closed [of y] by (auto simp: rel_def)
    qed
    then show ?thesis using less.prems by (auto simp: w Nil inv_def loop_done)
  next
    case (Cons cur q)
    let ?w = "fold visit (next_of cur) (q, visited, out)"
    have "work_left universe ?w < work_left universe w"
      using visits_work [OF finite_universe next_universe, of cur "(q, visited, out)"]
      by (simp add: w Cons work_left_def)
    then have "distinct (loop ?w) \<and> set (loop ?w) = {y. (x, y) \<in> rel\<^sup>+}"
      using less.prems inv_step by (intro less.hyps) (auto simp: w Cons)
    then show ?thesis by (simp only: w Cons loop_step)
  qed
qed

theorem closure: "distinct (loop ([x], {}, []))" "set (loop ([x], {}, [])) = {y. (x, y) \<in> rel\<^sup>+}"
  using inv_loop [of x "([x], {}, [])"] by (simp_all add: inv_def)

end

interpretation up: worklist "\<lambda>i. parents s i t" "end_ids s" "ancestors_loop s t" for s t
  by unfold_locales (simp_all add: parents_ends)

interpretation down: worklist "\<lambda>i. children s i t" "end_ids s" "descendants_loop s t" for s t
  by unfold_locales (simp_all add: children_ends)

lemma ancestors:
  shows "distinct (ancestors s i t)" and "set (ancestors s i t) = {a. (a, i) \<in> (edge_rel s t)\<^sup>+}"
proof -
  have "up.rel s t = (edge_rel s t)\<inverse>" by (auto simp: up.rel_def set_parents)
  then show "distinct (ancestors s i t)" and "set (ancestors s i t) = {a. (a, i) \<in> (edge_rel s t)\<^sup>+}"
    using up.closure [where s = s and t = t and x = i] by (simp_all add: ancestors_def trancl_converse)
qed

lemma descendants:
  shows "distinct (descendants s i t)" and "set (descendants s i t) = {d. (i, d) \<in> (edge_rel s t)\<^sup>+}"
proof -
  have "down.rel s t = edge_rel s t" by (auto simp: down.rel_def set_children)
  then show "distinct (descendants s i t)" and "set (descendants s i t) = {d. (i, d) \<in> (edge_rel s t)\<^sup>+}"
    using down.closure [where s = s and t = t and x = i] by (simp_all add: descendants_def)
qed

lemma ancestors_descendants: "a \<in> set (ancestors s i t) \<longleftrightarrow> i \<in> set (descendants s a t)"
  by (simp add: ancestors descendants)

text \<open>In a validated snapshot no node contains itself.\<close>

lemma contains_rel_edge_rel: "contains_rel (s_edges s) = edge_rel s ET_CONTAINS"
  by (simp add: contains_rel_def edge_rel_def)

lemma not_own_ancestor:
  "acyclic (contains_rel (s_edges s)) \<Longrightarrow> i \<notin> set (ancestors s i ET_CONTAINS)"
  by (simp add: ancestors contains_rel_edge_rel acyclic_def)

section \<open>Siblings\<close>

fun visit_sibling :: "node_id \<Rightarrow> node_id \<Rightarrow> node_id set \<times> node_id list \<Rightarrow> node_id set \<times> node_id list" where
  "visit_sibling i c (seen, out) =
     (if c \<noteq> i \<and> c \<notin> seen then (insert c seen, out @ [c]) else (seen, out))"

definition siblings :: "topology_snapshot \<Rightarrow> node_id \<Rightarrow> edge_type \<Rightarrow> node_id list" where
  "siblings s i t =
     snd (fold (\<lambda>p. fold (visit_sibling i) (children s p t)) (parents s i t) ({}, []))"

lemma visit_siblings:
  "fst so = set (snd so) \<Longrightarrow> distinct (snd so) \<Longrightarrow>
     fst (fold (visit_sibling i) cs so) = set (snd (fold (visit_sibling i) cs so))
     \<and> distinct (snd (fold (visit_sibling i) cs so))
     \<and> set (snd (fold (visit_sibling i) cs so)) = set (snd so) \<union> (set cs - {i})"
proof (induction cs arbitrary: so)
  case (Cons c cs)
  obtain seen out where so: "so = (seen, out)" by fastforce
  show ?case using Cons.prems Cons.IH [of "visit_sibling i c so"] by (auto simp: so)
qed simp

lemma siblings:
  shows "distinct (siblings s i t)"
    and "set (siblings s i t) = {c. c \<noteq> i \<and> (\<exists>p. (p, i) \<in> edge_rel s t \<and> (p, c) \<in> edge_rel s t)}"
proof -
  have "fst so = set (snd so) \<Longrightarrow> distinct (snd so) \<Longrightarrow>
      (let so' = fold (\<lambda>p. fold (visit_sibling i) (children s p t)) ps so in
       fst so' = set (snd so') \<and> distinct (snd so')
       \<and> set (snd so') = set (snd so) \<union> ((\<Union>p \<in> set ps. set (children s p t)) - {i}))" for ps so
  proof (induction ps arbitrary: so)
    case (Cons p ps)
    then show ?case
      using visit_siblings [OF Cons.prems, of i "children s p t"]
        Cons.IH [of "fold (visit_sibling i) (children s p t) so"]
      by (auto simp: Let_def)
  qed simp
  from this [of "({}, [])" "parents s i t"]
  show "distinct (siblings s i t)"
    and "set (siblings s i t) = {c. c \<noteq> i \<and> (\<exists>p. (p, i) \<in> edge_rel s t \<and> (p, c) \<in> edge_rel s t)}"
    by (auto simp: siblings_def Let_def set_parents set_children)
qed

lemma siblings_sym: "c \<in> set (siblings s i t) \<longleftrightarrow> i \<in> set (siblings s c t)"
  by (auto simp: siblings)

section \<open>The nearest ancestor of a type\<close>

function root_loop :: "topology_snapshot \<Rightarrow> node_type \<Rightarrow> node_id \<Rightarrow> node_id set \<Rightarrow> node_id" where
  "root_loop s root_type cur seen =
     (if cur = kNullNodeId then kNullNodeId
      else (case find_node s cur of
          None \<Rightarrow> kNullNodeId
        | Some n \<Rightarrow>
            if n_type n = root_type then cur
            else if cur \<in> seen then kNullNodeId
            else (case parents s cur ET_CONTAINS of
                [] \<Rightarrow> kNullNodeId
              | p # ps \<Rightarrow> root_loop s root_type p (insert cur seen))))"
  by pat_completeness auto
termination
proof (relation "measure (\<lambda>(s, t, cur, seen). card (set (um_keys (s_nodes s)) - seen))")
  fix s root_type cur seen n p ps
  assume "find_node s cur = Some n" and "cur \<notin> seen"
  then have "cur \<in> set (um_keys (s_nodes s)) - seen"
    by (simp add: find_node_def flip: um_count_iff) (simp add: um_count_def)
  then have "set (um_keys (s_nodes s)) - insert cur seen \<subset> set (um_keys (s_nodes s)) - seen" by auto
  then have "card (set (um_keys (s_nodes s)) - insert cur seen) < card (set (um_keys (s_nodes s)) - seen)"
    by (intro psubset_card_mono) auto
  then show "((s, root_type, p, insert cur seen), s, root_type, cur, seen)
      \<in> measure (\<lambda>(s, t, cur, seen). card (set (um_keys (s_nodes s)) - seen))"
    by simp
qed simp

declare root_loop.simps [simp del]

definition root_ancestor :: "topology_snapshot \<Rightarrow> node_id \<Rightarrow> node_type \<Rightarrow> node_id" where
  "root_ancestor s i root_type = root_loop s root_type i {}"

text \<open>The chain of first parents.\<close>

fun parent_chain :: "topology_snapshot \<Rightarrow> node_id \<Rightarrow> nat \<Rightarrow> node_id option" where
  "parent_chain s i 0 = Some i"
| "parent_chain s i (Suc k) =
     (case parent_chain s i k of
        None \<Rightarrow> None
      | Some c \<Rightarrow> (case parents s c ET_CONTAINS of [] \<Rightarrow> None | p # ps \<Rightarrow> Some p))"

definition has_type :: "topology_snapshot \<Rightarrow> node_type \<Rightarrow> node_id \<Rightarrow> bool" where
  "has_type s t c \<longleftrightarrow> c \<noteq> kNullNodeId \<and> (\<exists>n. find_node s c = Some n \<and> n_type n = t)"

definition passes :: "topology_snapshot \<Rightarrow> node_id \<Rightarrow> bool" where
  "passes s c \<longleftrightarrow> c \<noteq> kNullNodeId \<and> find_node s c \<noteq> None"

text \<open>Node \<open>r\<close> at distance \<open>m\<close> on the chain is the nearest one of the type.\<close>

definition nearest :: "topology_snapshot \<Rightarrow> node_id \<Rightarrow> node_type \<Rightarrow> nat \<Rightarrow> node_id \<Rightarrow> bool" where
  "nearest s i t m r \<longleftrightarrow> parent_chain s i m = Some r \<and> has_type s t r
     \<and> (\<forall>k < m. \<exists>c. parent_chain s i k = Some c \<and> passes s c \<and> \<not> has_type s t c)"

lemma parent_chain_shift:
  "parent_chain s i j = parent_chain s i k \<Longrightarrow> parent_chain s i (j + n) = parent_chain s i (k + n)"
  by (induction n) auto

lemma nearest_distinct:
  assumes "nearest s i t m r" and "j < k" and "k \<le> m"
  shows "parent_chain s i j \<noteq> parent_chain s i k"
proof
  assume "parent_chain s i j = parent_chain s i k"
  then have "parent_chain s i (j + (m - k)) = parent_chain s i (k + (m - k))"
    by (rule parent_chain_shift)
  then have "parent_chain s i (j + (m - k)) = Some r" using assms by (simp add: nearest_def)
  moreover have "j + (m - k) < m" using assms by linarith
  ultimately show False using assms(1) by (auto simp: nearest_def)
qed

lemma root_loop_found:
  assumes near: "nearest s i t m r"
  shows "k \<le> m \<Longrightarrow> parent_chain s i k = Some c \<Longrightarrow>
    seen = {d. \<exists>j < k. parent_chain s i j = Some d} \<Longrightarrow> root_loop s t c seen = r"
proof (induction "m - k" arbitrary: k c seen)
  case 0
  then have "c = r" and "has_type s t c" using near by (auto simp: nearest_def)
  then show ?case by (subst root_loop.simps) (auto simp: has_type_def)
next
  case (Suc x)
  then have km: "k < m" by simp
  then obtain p where p: "parent_chain s i (Suc k) = Some p"
    using near unfolding nearest_def by (metis Suc_lessI)
  then obtain ps where ps: "parents s c ET_CONTAINS = p # ps"
    using Suc.prems(2) by (auto split: list.splits)
  have c: "passes s c" "\<not> has_type s t c" using near km Suc.prems(2) by (auto simp: nearest_def)
  have "c \<notin> seen"
    using nearest_distinct [OF near _ Suc.prems(1)] Suc.prems(2,3) by auto
  moreover have "root_loop s t p (insert c seen) = r"
  proof (rule Suc.hyps(1) [OF _ _ p])
    show "x = m - Suc k" and "Suc k \<le> m" using Suc.hyps(2) km by simp_all
    show "insert c seen = {d. \<exists>j < Suc k. parent_chain s i j = Some d}"
      using Suc.prems(2,3) by (auto simp: less_Suc_eq)
  qed
  ultimately show ?case
    using c by (subst root_loop.simps) (auto simp: ps passes_def has_type_def)
qed

lemma root_loop_sound:
  "root_loop s t c seen = r \<Longrightarrow> r \<noteq> kNullNodeId \<Longrightarrow> parent_chain s i k = Some c \<Longrightarrow>
     (\<And>j. j < k \<Longrightarrow> \<exists>d. parent_chain s i j = Some d \<and> passes s d \<and> \<not> has_type s t d) \<Longrightarrow>
     \<exists>m. nearest s i t m r"
proof (induction s t c seen arbitrary: k rule: root_loop.induct)
  case (1 s t c seen)
  from "1.prems"(1,2) have "c \<noteq> kNullNodeId" by (subst (asm) root_loop.simps) auto
  moreover from this "1.prems"(1,2) obtain n where n: "find_node s c = Some n"
    by (subst (asm) root_loop.simps) (auto split: option.splits)
  ultimately have pass: "passes s c" by (simp add: passes_def)
  show ?case
  proof (cases "n_type n = t")
    case True
    then have "c = r" using "1.prems"(1) n \<open>c \<noteq> kNullNodeId\<close> by (subst (asm) root_loop.simps) simp
    then have "nearest s i t k r"
      using "1.prems"(3,4) True n \<open>c \<noteq> kNullNodeId\<close> by (auto simp: nearest_def has_type_def)
    then show ?thesis ..
  next
    case False
    then have not: "\<not> has_type s t c" using n by (simp add: has_type_def)
    from False "1.prems"(1,2) n \<open>c \<noteq> kNullNodeId\<close> obtain p ps
      where step: "c \<notin> seen" "parents s c ET_CONTAINS = p # ps" "root_loop s t p (insert c seen) = r"
      by (subst (asm) root_loop.simps) (auto split: if_splits list.splits)
    show ?thesis
    proof (rule "1.IH" [OF \<open>c \<noteq> kNullNodeId\<close> n False step(1,2,3) "1.prems"(2)])
      show "parent_chain s i (Suc k) = Some p" using "1.prems"(3) step(2) by simp
      show "\<exists>d. parent_chain s i j = Some d \<and> passes s d \<and> \<not> has_type s t d" if "j < Suc k" for j
        using that "1.prems"(3,4) pass not by (cases "j = k") auto
    qed
  qed
qed

text \<open>The loop returns the nearest node of the type on the chain, and the null id exactly when
  there is none.\<close>

lemma root_ancestor_iff:
  "root_ancestor s i t = r \<and> r \<noteq> kNullNodeId \<longleftrightarrow> (\<exists>m. nearest s i t m r)"
proof
  assume "root_ancestor s i t = r \<and> r \<noteq> kNullNodeId"
  then show "\<exists>m. nearest s i t m r"
    using root_loop_sound [of s t i "{}" r i 0] by (simp add: root_ancestor_def)
next
  assume "\<exists>m. nearest s i t m r"
  then obtain m where m: "nearest s i t m r" ..
  then have "root_ancestor s i t = r"
    using root_loop_found [OF m, of 0 i "{}"] by (simp add: root_ancestor_def)
  then show "root_ancestor s i t = r \<and> r \<noteq> kNullNodeId"
    using m by (auto simp: nearest_def has_type_def)
qed

lemma parent_chain_rel: "parent_chain s i k = Some c \<Longrightarrow> (c, i) \<in> (edge_rel s ET_CONTAINS)\<^sup>*"
proof (induction k arbitrary: c)
  case (Suc k)
  then obtain d p ps where "parent_chain s i k = Some d" "parents s d ET_CONTAINS = c # ps"
    by (auto split: option.splits list.splits)
  then have "(c, d) \<in> edge_rel s ET_CONTAINS" by (simp add: set_parents [symmetric])
  with Suc.IH [OF \<open>parent_chain s i k = Some d\<close>] show ?case by (rule converse_rtrancl_into_rtrancl [rotated])
qed simp

lemma root_ancestor_contains:
  assumes "root_ancestor s i t \<noteq> kNullNodeId"
  shows "(root_ancestor s i t, i) \<in> (edge_rel s ET_CONTAINS)\<^sup>*" and "has_type s t (root_ancestor s i t)"
  using assms root_ancestor_iff [of s i t "root_ancestor s i t"]
  by (auto simp: nearest_def intro: parent_chain_rel)

end
