(* ===== verification/TF_Locality.thy ===== *)
theory TF_Locality
  imports TF_Graph
begin

text \<open>
  Locality and path classes (\<open>locality.cpp\<close>): \<open>locality_between\<close> and \<open>classify_path\<close>,
  with the exception both raise for an unknown node.

  The lemmas show that on a snapshot without dangling edges both return for any two known nodes,
  that both are symmetric, when they report identity, and which classes \<open>classify_path\<close> never
  yields.
\<close>

definition is_host :: "node_type \<Rightarrow> bool" where
  "is_host t \<longleftrightarrow> t = NT_CPU_PACKAGE \<or> t = NT_CPU_CORE \<or> t = NT_CPU_THREAD \<or> t = NT_NUMA_NODE
     \<or> t = NT_HOST_MEMORY_DOMAIN \<or> t = NT_MACHINE"

definition is_cpu :: "node_type \<Rightarrow> bool" where
  "is_cpu t \<longleftrightarrow> t = NT_CPU_PACKAGE \<or> t = NT_CPU_CORE \<or> t = NT_CPU_THREAD"

definition is_pci_endpoint :: "topology_node \<Rightarrow> bool" where
  "is_pci_endpoint n \<longleftrightarrow> n_type n = NT_PCI_DEVICE \<or> n_type n = NT_ACCELERATOR"

text \<open>\<open>a && b && *a == *b\<close> on optional values.\<close>

definition both_equal :: "'a option \<Rightarrow> 'a option \<Rightarrow> bool" where
  "both_equal a b \<longleftrightarrow> a \<noteq> None \<and> b \<noteq> None \<and> a = b"

text \<open>Two root ancestors that both exist and coincide.\<close>

definition same_root :: "topology_snapshot \<Rightarrow> node_id \<Rightarrow> node_id \<Rightarrow> node_type \<Rightarrow> bool" where
  "same_root s a b t \<longleftrightarrow> (let ra = root_ancestor s a t; rb = root_ancestor s b t in
     ra \<noteq> kNullNodeId \<and> rb \<noteq> kNullNodeId \<and> ra = rb)"

definition locality_between :: "topology_snapshot \<Rightarrow> node_id \<Rightarrow> node_id \<Rightarrow> locality_class tresult" where
  "locality_between s a b =
     (if a = b then Inr LC_EXACT
      else tbind (snap_node s a) (\<lambda>na. tbind (snap_node s b) (\<lambda>nb.
        let ia = n_native na; ib = n_native nb in
        if n_type na = NT_CPU_THREAD \<and> n_type nb = NT_CPU_THREAD
           \<and> both_equal (ni_core_id ia) (ni_core_id ib)
           \<and> both_equal (ni_cpu_package ia) (ni_cpu_package ib)
        then Inr LC_SAME_CORE
        else if is_cpu (n_type na) \<and> is_cpu (n_type nb)
           \<and> both_equal (ni_cpu_package ia) (ni_cpu_package ib)
        then Inr LC_SAME_PACKAGE
        else if both_equal (ni_numa_node ia) (ni_numa_node ib) then Inr LC_SAME_NUMA
        else if same_root s a b NT_PCI_ROOT then Inr LC_SAME_ROOT_COMPLEX
        else if same_root s a b NT_MACHINE then Inr LC_SAME_HOST
        else if root_ancestor s a NT_MACHINE = kNullNodeId \<and> root_ancestor s b NT_MACHINE = kNullNodeId
        then Inr LC_UNKNOWN
        else Inr LC_REMOTE)))"

text \<open>The two nested loops over the parents: the first common parent that is a bridge ends them.\<close>

fun common_bridge :: "topology_snapshot \<Rightarrow> (node_id \<times> node_id) list \<Rightarrow> bool tresult" where
  "common_bridge s [] = Inr False"
| "common_bridge s ((x, y) # ps) =
     (if x = y
      then tbind (snap_node s x) (\<lambda>n. if n_type n = NT_PCI_BRIDGE then Inr True else common_bridge s ps)
      else common_bridge s ps)"

definition classify_tail :: "topology_snapshot \<Rightarrow> node_id \<Rightarrow> node_id \<Rightarrow> topology_node \<Rightarrow> topology_node \<Rightarrow> path_class" where
  "classify_tail s from to na nb =
     (if ni_numa_node (n_native na) \<noteq> None \<and> ni_numa_node (n_native nb) \<noteq> None
      then (if ni_numa_node (n_native na) = ni_numa_node (n_native nb) then PC_SAME_NUMA else PC_CROSS_NUMA)
      else if same_root s from to NT_MACHINE then PC_REMOTE
      else PC_UNKNOWN)"

definition classify_path :: "topology_snapshot \<Rightarrow> node_id \<Rightarrow> node_id \<Rightarrow> path_class tresult" where
  "classify_path s from to =
     (if from = to then Inr PC_SAME_OBJECT
      else tbind (snap_node s from) (\<lambda>na. tbind (snap_node s to) (\<lambda>nb.
        let ta = n_type na; tb = n_type nb;
            acc_a = (ta = NT_ACCELERATOR); acc_b = (tb = NT_ACCELERATOR);
            host_a = is_host ta; host_b = is_host tb in
        if acc_a \<and> acc_b then Inr PC_ACCELERATOR_TO_ACCELERATOR
        else if acc_a \<and> host_b \<or> host_a \<and> acc_b then Inr PC_HOST_TO_ACCELERATOR
        else if host_a \<and> tb = NT_STORAGE_DEVICE \<or> host_b \<and> ta = NT_STORAGE_DEVICE
        then Inr PC_HOST_TO_STORAGE
        else if host_a \<and> tb = NT_NETWORK_INTERFACE \<or> host_b \<and> ta = NT_NETWORK_INTERFACE
        then Inr PC_HOST_TO_NETWORK
        else if is_cpu ta \<and> is_cpu tb then Inr PC_SAME_PROCESSOR
        else if is_pci_endpoint na \<and> is_pci_endpoint nb
        then tbind (common_bridge s
               (List.product (parents s from ET_CONTAINS) (parents s to ET_CONTAINS))) (\<lambda>bridge.
             if bridge then Inr PC_SAME_PCI_BRIDGE
             else if same_root s from to NT_PCI_ROOT then Inr PC_SAME_ROOT_COMPLEX
             else Inr (classify_tail s from to na nb))
        else Inr (classify_tail s from to na nb))))"

section \<open>Totality and symmetry\<close>

lemma both_equal_sym: "both_equal a b = both_equal b a"
  by (auto simp: both_equal_def)

lemma same_root_sym: "same_root s a b t = same_root s b a t"
  by (auto simp: same_root_def Let_def)

lemma classify_tail_sym: "classify_tail s a b na nb = classify_tail s b a nb na"
  by (auto simp: classify_tail_def same_root_sym [of s a])

lemma locality_total:
  "find_node s a \<noteq> None \<Longrightarrow> find_node s b \<noteq> None \<Longrightarrow> \<exists>l. locality_between s a b = Inr l"
  by (auto simp: locality_between_def Let_def snap_node_find)

lemma locality_sym:
  assumes "find_node s a \<noteq> None" and "find_node s b \<noteq> None"
  shows "locality_between s a b = locality_between s b a"
proof -
  obtain na nb where n: "find_node s a = Some na" "find_node s b = Some nb" using assms by auto
  note sym = same_root_sym [of s b a] both_equal_sym [of "_ (n_native nb)" "_ (n_native na)"]
  show ?thesis
    unfolding locality_between_def snap_node_find [OF n(1)] snap_node_find [OF n(2)] tbind.simps
      Let_def sym
    by (simp only: conj_ac eq_commute [of b a])
qed

lemma locality_exact_iff: "locality_between s a b = Inr LC_EXACT \<longleftrightarrow> a = b"
  by (auto simp: locality_between_def Let_def err_simps split: if_splits)

text \<open>In a closed snapshot all parents are known nodes.\<close>

lemma parents_known:
  "snapshot_closed s \<Longrightarrow> p \<in> set (parents s i t) \<Longrightarrow> find_node s p \<noteq> None"
  by (auto simp: parents_def snapshot_closed_def known_ends_def find_node_def)

lemma common_bridge_known:
  "(\<forall>p \<in> set ps. find_node s (fst p) \<noteq> None) \<Longrightarrow>
     common_bridge s ps = Inr (\<exists>p \<in> set ps. fst p = snd p
        \<and> (\<exists>n. find_node s (fst p) = Some n \<and> n_type n = NT_PCI_BRIDGE))"
  by (induction s ps rule: common_bridge.induct) (auto simp: snap_node_find)

definition share_bridge :: "topology_snapshot \<Rightarrow> node_id \<Rightarrow> node_id \<Rightarrow> bool" where
  "share_bridge s a b \<longleftrightarrow>
     (\<exists>x \<in> set (parents s a ET_CONTAINS) \<inter> set (parents s b ET_CONTAINS).
        \<exists>n. find_node s x = Some n \<and> n_type n = NT_PCI_BRIDGE)"

lemma common_bridge_closed:
  assumes "snapshot_closed s"
  shows "common_bridge s (List.product (parents s a ET_CONTAINS) (parents s b ET_CONTAINS))
    = Inr (share_bridge s a b)"
proof -
  have "\<forall>p \<in> set (List.product (parents s a ET_CONTAINS) (parents s b ET_CONTAINS)).
      find_node s (fst p) \<noteq> None"
    using parents_known [OF assms] by auto
  from common_bridge_known [OF this] show ?thesis
    by (auto simp: share_bridge_def)
qed

lemma share_bridge_sym: "share_bridge s a b = share_bridge s b a"
  by (auto simp: share_bridge_def)

lemma classify_total:
  "snapshot_closed s \<Longrightarrow> find_node s a \<noteq> None \<Longrightarrow> find_node s b \<noteq> None \<Longrightarrow>
     \<exists>c. classify_path s a b = Inr c"
  by (auto simp: classify_path_def Let_def snap_node_find common_bridge_closed)

lemma classify_sym:
  assumes "snapshot_closed s" and "find_node s a \<noteq> None" and "find_node s b \<noteq> None"
  shows "classify_path s a b = classify_path s b a"
proof -
  obtain na nb where n: "find_node s a = Some na" "find_node s b = Some nb" using assms by auto
  note sym = classify_tail_sym [of s b a nb na] same_root_sym [of s b a] share_bridge_sym [of s b a]
  show ?thesis
    unfolding classify_path_def snap_node_find [OF n(1)] snap_node_find [OF n(2)] tbind.simps
      common_bridge_closed [OF assms(1)] Let_def sym
    by (simp only: conj_commute disj_commute eq_commute [of b a])
qed

text \<open>Two of the declared classes are never assigned.\<close>

lemma classify_tail_range:
  "classify_tail s a b na nb \<in> {PC_SAME_NUMA, PC_CROSS_NUMA, PC_REMOTE, PC_UNKNOWN}"
  by (simp add: classify_tail_def)

lemma classify_range:
  assumes "classify_path s a b = Inr c" and "a \<noteq> b"
  shows "c \<notin> {PC_SAME_OBJECT, PC_SAME_PCI_DEVICE, PC_EXTERNAL}"
proof -
  from assms obtain na nb where n: "snap_node s a = Inr na" "snap_node s b = Inr nb"
    by (auto simp: classify_path_def err_simps)
  have tail: "classify_tail s a b na nb \<noteq> d" if "d \<in> {PC_SAME_OBJECT, PC_SAME_PCI_DEVICE, PC_EXTERNAL}" for d
    using that classify_tail_range [of s a b na nb] by auto
  show ?thesis
    using assms(1) tail
    unfolding classify_path_def n tbind.simps Let_def if_not_P [OF assms(2)]
    by (cases "common_bridge s (List.product (parents s a ET_CONTAINS) (parents s b ET_CONTAINS))")
      (auto split: if_split_asm)
qed

lemma classify_same_object: "classify_path s a a = Inr PC_SAME_OBJECT"
  by (simp add: classify_path_def)

end
