(* ===== verification/TF_EdgeCost.thy ===== *)
theory TF_EdgeCost
  imports TF_Snapshot
begin

text \<open>
  The cost policy and the cost of one edge (\<open>CostWeights\<close> in \<open>query.hpp\<close>,
  \<open>internal.hpp\<close>), in doubles, with the guard that replaces a not-a-number or an infinity.

  The lemmas show that an edge cost is always finite, that it is a cost (non-negative) whenever the
  weights and the metrics of the edge are, and what it is under the default policy.
\<close>

section \<open>The policy\<close>

record cost_weights =
  w_hop_penalty :: f64
  w_numa_penalty :: f64
  w_pci_bridge_penalty :: f64
  w_root_crossing_penalty :: f64
  w_latency_ns_weight :: f64
  w_bandwidth_scale :: f64
  w_bandwidth_ref_bps :: f64
  w_uncertainty_penalty :: f64
  w_policy_penalty :: f64
  w_node_transition_penalty :: f64
  w_version :: "32 word"

definition default_weights :: cost_weights where
  "default_weights = \<lparr> w_hop_penalty = F_Fin 1, w_numa_penalty = F_Fin 20,
     w_pci_bridge_penalty = F_Fin 5, w_root_crossing_penalty = F_Fin 40,
     w_latency_ns_weight = f64_lit (5 / 10000), w_bandwidth_scale = f64_lit (25 / 100),
     w_bandwidth_ref_bps = F_Fin 64000000000, w_uncertainty_penalty = F_Fin 4,
     w_policy_penalty = F_Fin 0, w_node_transition_penalty = F_Fin 8, w_version = 1 \<rparr>"

section \<open>Classes and defaults\<close>

datatype hw_class =
    HC_CPU
  | HC_ACCELERATOR
  | HC_PCI
  | HC_MEMORY
  | HC_STORAGE
  | HC_NETWORK
  | HC_MACHINE
  | HC_OTHER

fun hardware_class :: "node_type \<Rightarrow> hw_class" where
  "hardware_class NT_CPU_PACKAGE = HC_CPU"
| "hardware_class NT_CPU_CORE = HC_CPU"
| "hardware_class NT_CPU_THREAD = HC_CPU"
| "hardware_class NT_ACCELERATOR = HC_ACCELERATOR"
| "hardware_class NT_ACCELERATOR_MEMORY_DOMAIN = HC_ACCELERATOR"
| "hardware_class NT_PCI_ROOT = HC_PCI"
| "hardware_class NT_PCI_BRIDGE = HC_PCI"
| "hardware_class NT_PCI_DEVICE = HC_PCI"
| "hardware_class NT_NUMA_NODE = HC_MEMORY"
| "hardware_class NT_HOST_MEMORY_DOMAIN = HC_MEMORY"
| "hardware_class NT_SHARED_MEMORY_DOMAIN = HC_MEMORY"
| "hardware_class NT_STORAGE_DEVICE = HC_STORAGE"
| "hardware_class NT_NETWORK_INTERFACE = HC_NETWORK"
| "hardware_class NT_MACHINE = HC_MACHINE"
| "hardware_class NT_UNKNOWN = HC_OTHER"
| "hardware_class NT_EXTENSION = HC_OTHER"

definition default_latency_ns :: "topology_node \<Rightarrow> topology_node \<Rightarrow> f64" where
  "default_latency_ns u v = (case n_type v of
     NT_ACCELERATOR \<Rightarrow> F_Fin 300
   | NT_CPU_THREAD \<Rightarrow> F_Fin 60
   | NT_PCI_BRIDGE \<Rightarrow> F_Fin 120
   | NT_PCI_ROOT \<Rightarrow> F_Fin 250
   | NT_STORAGE_DEVICE \<Rightarrow> F_Fin 80
   | NT_NETWORK_INTERFACE \<Rightarrow> F_Fin 500
   | _ \<Rightarrow> F_Fin 100)"

definition default_bandwidth_bps :: "topology_node \<Rightarrow> topology_node \<Rightarrow> f64" where
  "default_bandwidth_bps u v = (case n_type v of
     NT_ACCELERATOR \<Rightarrow> F_Fin 32000000000
   | NT_CPU_THREAD \<Rightarrow> F_Fin 32000000000
   | NT_PCI_BRIDGE \<Rightarrow> F_Fin 16000000000
   | NT_PCI_ROOT \<Rightarrow> F_Fin 16000000000
   | NT_STORAGE_DEVICE \<Rightarrow> F_Fin 3000000000
   | NT_NETWORK_INTERFACE \<Rightarrow> F_Fin 10000000000
   | _ \<Rightarrow> F_Fin 8000000000)"

definition collocation_edge :: "edge_type \<Rightarrow> bool" where
  "collocation_edge t \<longleftrightarrow> t = ET_SHARES_PARENT \<or> t = ET_SHARES_NUMA"

section \<open>The cost of an edge\<close>

text \<open>\<open>cost += x\<close> under a condition.\<close>

definition add_if :: "bool \<Rightarrow> f64 \<Rightarrow> f64 \<Rightarrow> f64" where
  "add_if b x c = (if b then f64_add c x else c)"

definition low_confidence :: "topology_edge \<Rightarrow> bool" where
  "low_confidence e \<longleftrightarrow> e_confidence e = CF_LOW \<or> e_confidence e = CF_UNKNOWN"

text \<open>The bandwidth a cost uses: recorded or default, the reference if that is not positive.\<close>

definition edge_bandwidth :: "topology_node \<Rightarrow> topology_node \<Rightarrow> topology_edge \<Rightarrow> cost_weights \<Rightarrow> f64" where
  "edge_bandwidth u v e w =
     (let bw = value_or (e_bandwidth_bytes_per_sec e) (default_bandwidth_bps u v)
      in if f64_le bw (F_Fin 0) then w_bandwidth_ref_bps w else bw)"

definition edge_latency :: "topology_node \<Rightarrow> topology_node \<Rightarrow> topology_edge \<Rightarrow> f64" where
  "edge_latency u v e = value_or (e_latency_ns e) (default_latency_ns u v)"

text \<open>The sum, before the guard.\<close>

definition raw_edge_cost :: "topology_node \<Rightarrow> topology_node \<Rightarrow> topology_edge \<Rightarrow> cost_weights \<Rightarrow> f64" where
  "raw_edge_cost u v e w =
     (let cost = w_hop_penalty w;
          cost = f64_add cost (f64_mul (w_latency_ns_weight w) (edge_latency u v e));
          cost = f64_add cost (f64_mul (w_bandwidth_scale w)
                   (f64_div (w_bandwidth_ref_bps w) (edge_bandwidth u v e w)));
          cost = add_if (n_type v = NT_PCI_BRIDGE) (w_pci_bridge_penalty w) cost;
          cost = add_if (n_type v = NT_PCI_ROOT) (w_root_crossing_penalty w) cost;
          cost = add_if (hardware_class (n_type u) \<noteq> hardware_class (n_type v))
                   (w_node_transition_penalty w) cost;
          cost = add_if (low_confidence e) (w_uncertainty_penalty w) cost
      in f64_add cost (w_policy_penalty w))"

definition edge_traversal_cost :: "topology_node \<Rightarrow> topology_node \<Rightarrow> topology_edge \<Rightarrow> cost_weights \<Rightarrow> f64" where
  "edge_traversal_cost u v e w =
     (let cost = raw_edge_cost u v e w
      in if f64_isnan cost \<or> f64_isinf cost then F_Fin 1000000000000000 else cost)"

text \<open>The guard: whatever the weights and the metrics are, the result is a finite double.\<close>

lemma edge_cost_finite: "f64_finite (edge_traversal_cost u v e w)"
  by (simp add: edge_traversal_cost_def f64_finite_def f64_isnan_def f64_isinf_def Let_def)

text \<open>Policies and edges without negative entries.\<close>

definition weights_nonneg :: "cost_weights \<Rightarrow> bool" where
  "weights_nonneg w \<longleftrightarrow> is_cost (w_hop_penalty w) \<and> is_cost (w_numa_penalty w)
     \<and> is_cost (w_pci_bridge_penalty w) \<and> is_cost (w_root_crossing_penalty w)
     \<and> is_cost (w_latency_ns_weight w) \<and> is_cost (w_bandwidth_scale w)
     \<and> is_cost (w_bandwidth_ref_bps w) \<and> is_cost (w_uncertainty_penalty w)
     \<and> is_cost (w_policy_penalty w) \<and> is_cost (w_node_transition_penalty w)"

text \<open>A recorded latency is non-negative or not a number; any double is fine as a bandwidth.\<close>

definition metrics_ok :: "topology_edge \<Rightarrow> bool" where
  "metrics_ok e \<longleftrightarrow>
     (case e_latency_ns e of None \<Rightarrow> True | Some l \<Rightarrow> is_cost_or_nan l)
     \<and> (case e_bandwidth_bytes_per_sec e of None \<Rightarrow> True | Some b \<Rightarrow> is_f64 b)"

lemma is_cost_int: "0 \<le> i \<Longrightarrow> i \<le> 2 ^ 53 \<Longrightarrow> is_cost (F_Fin (of_int i))"
  using f64_round_int [of i] by (simp add: is_cost_def f64_le_def)

lemma is_cost_numeral: "(numeral n :: int) \<le> 2 ^ 53 \<Longrightarrow> is_cost (F_Fin (numeral n))"
  using is_cost_int [of "numeral n"] by simp

lemma default_latency_cost: "is_cost (default_latency_ns u v)"
  by (simp add: default_latency_ns_def is_cost_numeral split: node_type.splits)

lemma default_bandwidth_f64: "is_f64 (default_bandwidth_bps u v)"
proof -
  have "is_cost (default_bandwidth_bps u v)"
    by (simp add: default_bandwidth_bps_def is_cost_numeral split: node_type.splits)
  then show ?thesis by (simp add: is_cost_def)
qed

lemma edge_latency_cost: "metrics_ok e \<Longrightarrow> is_cost_or_nan (edge_latency u v e)"
  using default_latency_cost [of u v]
  by (auto simp: metrics_ok_def edge_latency_def value_or_def is_cost_or_nan_def split: option.splits)

lemma bandwidth_ratio_cost:
  assumes "is_cost (w_bandwidth_ref_bps w)" and "metrics_ok e"
  shows "is_cost_or_nan (f64_div (w_bandwidth_ref_bps w) (edge_bandwidth u v e w))"
proof -
  let ?r = "w_bandwidth_ref_bps w"
  define bw where "bw = value_or (e_bandwidth_bytes_per_sec e) (default_bandwidth_bps u v)"
  have bw: "is_f64 bw"
    using assms(2) default_bandwidth_f64 [of u v]
    by (auto simp: metrics_ok_def bw_def value_or_def split: option.splits)
  have r: "is_cost_or_nan ?r" using assms(1) by (simp add: is_cost_or_nan_def)
  show ?thesis
  proof (cases "f64_le bw (F_Fin 0)")
    case True
    then have eq: "edge_bandwidth u v e w = ?r" by (simp add: edge_bandwidth_def bw_def Let_def)
    show ?thesis
    proof (cases "f64_iszero ?r")
      case True
      then have "f64_div ?r ?r = F_NaN"
        by (cases ?r) (auto simp: f64_div_def f64_isinf_def)
      then show ?thesis by (simp add: eq is_cost_or_nan_def)
    next
      case False
      then have "is_f64 ?r \<and> f64_lt (F_Fin 0) ?r"
        using assms(1) by (cases ?r) (auto simp: is_cost_def f64_le_def f64_lt_def)
      then show ?thesis unfolding eq by (intro is_cost_or_nan_div r) simp
    qed
  next
    case False
    then have "bw = F_NaN \<or> is_f64 bw \<and> f64_lt (F_Fin 0) bw"
      using bw by (cases bw) (auto simp: f64_le_def f64_lt_def)
    moreover have "edge_bandwidth u v e w = bw" using False by (simp add: edge_bandwidth_def bw_def Let_def)
    ultimately show ?thesis using r by (auto intro: is_cost_or_nan_div)
  qed
qed

lemma is_cost_or_nan_if: "is_cost_or_nan x \<Longrightarrow> is_cost_or_nan c \<Longrightarrow> is_cost_or_nan (add_if b x c)"
  by (simp add: add_if_def is_cost_or_nan_add)

lemma raw_edge_cost_ok:
  assumes "weights_nonneg w" and "metrics_ok e"
  shows "is_cost_or_nan (raw_edge_cost u v e w)"
proof -
  have w: "is_cost_or_nan x" if "is_cost x" for x using that by (simp add: is_cost_or_nan_def)
  show ?thesis
    unfolding raw_edge_cost_def Let_def
    by (intro is_cost_or_nan_add is_cost_or_nan_if is_cost_or_nan_mul bandwidth_ratio_cost
        edge_latency_cost assms(2))
      (use assms(1) in \<open>simp_all add: weights_nonneg_def w\<close>)
qed

lemma edge_cost_ok:
  assumes "weights_nonneg w" and "metrics_ok e"
  shows "is_cost (edge_traversal_cost u v e w)"
  using raw_edge_cost_ok [OF assms, of u v]
  by (auto simp: edge_traversal_cost_def Let_def is_cost_or_nan_def f64_isnan_def is_cost_numeral)

lemma default_weights_nonneg: "weights_nonneg default_weights"
proof -
  have "is_cost (f64_lit q)" if "0 \<le> q" for q
    using is_cost_round [OF that] by (simp add: f64_lit_def)
  moreover have "is_cost (F_Fin 1)" using is_cost_int [of 1] by simp
  ultimately show ?thesis
    by (simp add: weights_nonneg_def default_weights_def is_cost_numeral)
qed

lemma default_edge_metrics: "metrics_ok default_edge"
  by (simp add: metrics_ok_def default_edge_def)

end
