(* ===== verification/TF_Search.thy ===== *)
theory TF_Search
  imports TF_Float64
begin

text \<open>
  What the two path searches of \<open>path.cpp\<close> have in common. Both keep a frontier, a tentative
  cost per reached node and, for each, the node and edge it was reached by; both expand a frontier
  node of least cost. The breadth-first search does so with hop counts, Dijkstra's search with the
  doubles of the cost policy; the locale \<open>search\<close> states and proves the argument once, for any
  costs with the laws of \<open>cost_order\<close>. Associativity is not among them: the cost of a walk is
  its edge costs added from the left, as the searches add them.
\<close>

section \<open>Walks and search trees\<close>

text \<open>An arc out of a node: its target, its edge and its cost. A walk lists (source, edge, target),
  and beside it the costs.\<close>

type_synonym ('n, 'e, 'c) arc = "'n \<times> 'e \<times> 'c"

inductive walk :: "('n \<Rightarrow> ('n, 'e, 'c) arc list) \<Rightarrow> 'n \<Rightarrow> ('n \<times> 'e \<times> 'n) list \<Rightarrow> 'n \<Rightarrow> 'c list \<Rightarrow> bool"
  for arcs and src where
  walk_refl: "walk arcs src [] src []"
| walk_snoc: "walk arcs src p u ks \<Longrightarrow> (v, e, k) \<in> set (arcs u) \<Longrightarrow>
     walk arcs src (p @ [(u, e, v)]) v (ks @ [k])"

text \<open>The path a parent map describes, from the source to a node.\<close>

inductive tree_path :: "('n \<Rightarrow> ('n \<times> 'e) option) \<Rightarrow> 'n \<Rightarrow> 'n \<Rightarrow> ('n \<times> 'e \<times> 'n) list \<Rightarrow> bool"
  for par and src where
  tree_refl: "tree_path par src src []"
| tree_snoc: "v \<noteq> src \<Longrightarrow> par v = Some (u, e) \<Longrightarrow> tree_path par src u p \<Longrightarrow>
     tree_path par src v (p @ [(u, e, v)])"

section \<open>The search\<close>

locale search = cost_order le add cost zero
  for le :: "'c \<Rightarrow> 'c \<Rightarrow> bool" and add :: "'c \<Rightarrow> 'c \<Rightarrow> 'c" and cost :: "'c \<Rightarrow> bool" and zero :: 'c +
  fixes arcs :: "'n \<Rightarrow> ('n, 'e, 'c) arc list" and src :: 'n
  assumes arc_cost: "(v, e, k) \<in> set (arcs u) \<Longrightarrow> cost k"
begin

text \<open>Relaxing one arc out of \<open>u\<close>, which was taken off the frontier with cost \<open>d\<close>.\<close>

fun relax :: "'n \<Rightarrow> 'c \<Rightarrow> ('n, 'e, 'c) arc \<Rightarrow>
    ('n \<Rightarrow> 'c option) \<times> ('n \<Rightarrow> ('n \<times> 'e) option) \<times> ('c \<times> 'n) set \<Rightarrow>
    ('n \<Rightarrow> 'c option) \<times> ('n \<Rightarrow> ('n \<times> 'e) option) \<times> ('c \<times> 'n) set" where
  "relax u d (v, e, k) (dst, par, F) =
     (if dst v = None \<or> \<not> le (the (dst v)) (add d k)
      then (dst(v \<mapsto> add d k), par(v \<mapsto> (u, e)), insert (add d k, v) F)
      else (dst, par, F))"

text \<open>The invariant between expansions, \<open>S\<close> the expanded nodes in order. While a node is being
  expanded its arcs count as far as \<open>out\<close> says.\<close>

definition settled :: "('n \<Rightarrow> ('n, 'e, 'c) arc list) \<Rightarrow> 'n list \<Rightarrow> ('n \<Rightarrow> 'c option) \<Rightarrow> bool" where
  "settled out S dst \<longleftrightarrow>
     (\<forall>u \<in> set S. \<forall>v e k. (v, e, k) \<in> set (out u) \<longrightarrow>
        (\<exists>dv. dst v = Some dv \<and> le dv (add (the (dst u)) k)))"

definition core :: "'n list \<Rightarrow> ('n \<Rightarrow> 'c option) \<Rightarrow> ('n \<Rightarrow> ('n \<times> 'e) option) \<Rightarrow> ('c \<times> 'n) set \<Rightarrow> bool" where
  "core S dst par F \<longleftrightarrow>
     distinct S \<and> dst src = Some zero
     \<and> (\<forall>v d. dst v = Some d \<longrightarrow> cost d)
     \<and> (\<forall>d u. (d, u) \<in> F \<longrightarrow> cost d \<and> (\<exists>d'. dst u = Some d' \<and> (d = d' \<or> \<not> le d d')))
     \<and> (\<forall>u d. dst u = Some d \<longrightarrow> u \<in> set S \<or> (d, u) \<in> F)
     \<and> (\<forall>u \<in> set S. \<exists>d. dst u = Some d \<and> (d, u) \<notin> F)
     \<and> (\<forall>u \<in> set S. \<forall>d v. (d, v) \<in> F \<longrightarrow> le (the (dst u)) d)
     \<and> (\<forall>v d. dst v = Some d \<and> v \<noteq> src \<longrightarrow>
          (\<exists>u e k. par v = Some (u, e) \<and> (v, e, k) \<in> set (arcs u) \<and> u \<in> set S
             \<and> d = add (the (dst u)) k))
     \<and> (\<forall>i < length S. S ! i \<noteq> src \<longrightarrow> (\<exists>j < i. \<exists>e. par (S ! i) = Some (S ! j, e)))"

definition inv :: "('n \<Rightarrow> ('n, 'e, 'c) arc list) \<Rightarrow> 'n list \<Rightarrow> ('n \<Rightarrow> 'c option) \<Rightarrow>
    ('n \<Rightarrow> ('n \<times> 'e) option) \<Rightarrow> ('c \<times> 'n) set \<Rightarrow> bool" where
  "inv out S dst par F \<longleftrightarrow> core S dst par F \<and> settled out S dst"

lemmas inv_defs = inv_def core_def settled_def

lemma core_elims:
  assumes "core S dst par F"
  shows core_distinct: "distinct S"
    and core_src: "dst src = Some zero"
    and core_cost: "dst v = Some d \<Longrightarrow> cost d"
    and core_frontier_cost: "(d, u) \<in> F \<Longrightarrow> cost d"
    and core_frontier: "(d, u) \<in> F \<Longrightarrow> \<exists>d'. dst u = Some d' \<and> (d = d' \<or> \<not> le d d')"
    and core_cover: "dst u = Some d \<Longrightarrow> u \<in> set S \<or> (d, u) \<in> F"
    and core_expanded: "u \<in> set S \<Longrightarrow> \<exists>d. dst u = Some d \<and> (d, u) \<notin> F"
    and core_below: "u \<in> set S \<Longrightarrow> (d, v) \<in> F \<Longrightarrow> le (the (dst u)) d"
    and core_parent: "dst v = Some d \<Longrightarrow> v \<noteq> src \<Longrightarrow> \<exists>u e k. par v = Some (u, e)
      \<and> (v, e, k) \<in> set (arcs u) \<and> u \<in> set S \<and> d = add (the (dst u)) k"
    and core_order: "i < length S \<Longrightarrow> S ! i \<noteq> src \<Longrightarrow> \<exists>j < i. \<exists>e. par (S ! i) = Some (S ! j, e)"
  using assms unfolding core_def by simp_all blast

lemma coreI:
  assumes "distinct S" and "dst src = Some zero" and "\<And>v d. dst v = Some d \<Longrightarrow> cost d"
    and "\<And>d u. (d, u) \<in> F \<Longrightarrow> cost d \<and> (\<exists>d'. dst u = Some d' \<and> (d = d' \<or> \<not> le d d'))"
    and "\<And>u d. dst u = Some d \<Longrightarrow> u \<in> set S \<or> (d, u) \<in> F"
    and "\<And>u. u \<in> set S \<Longrightarrow> \<exists>d. dst u = Some d \<and> (d, u) \<notin> F"
    and "\<And>u d v. u \<in> set S \<Longrightarrow> (d, v) \<in> F \<Longrightarrow> le (the (dst u)) d"
    and "\<And>v d. dst v = Some d \<Longrightarrow> v \<noteq> src \<Longrightarrow> \<exists>u e k. par v = Some (u, e)
      \<and> (v, e, k) \<in> set (arcs u) \<and> u \<in> set S \<and> d = add (the (dst u)) k"
    and "\<And>i. i < length S \<Longrightarrow> S ! i \<noteq> src \<Longrightarrow> \<exists>j < i. \<exists>e. par (S ! i) = Some (S ! j, e)"
  shows "core S dst par F"
  using assms unfolding core_def by simp

lemma settledD:
  "settled out S dst \<Longrightarrow> u \<in> set S \<Longrightarrow> (v, e, k) \<in> set (out u) \<Longrightarrow>
     \<exists>dv. dst v = Some dv \<and> le dv (add (the (dst u)) k)"
  by (simp add: settled_def)

lemma inv_init: "inv arcs [] [src \<mapsto> zero] par {(zero, src)}"
  by (simp add: inv_defs cost_zero)

lemma inv_stale:
  assumes "inv arcs S dst par F" and "dst u = Some d'" and "\<not> le d d'"
  shows "inv arcs S dst par (F - {(d, u)})"
proof -
  have core: "core S dst par F" using assms(1) by (simp add: inv_def)
  have "(dx, x) \<noteq> (d, u)" if "dst x = Some dx" for dx x
    using that assms(2,3) le_refl [OF core_cost [OF core that]] by auto
  then have "core S dst par (F - {(d, u)})"
    using core unfolding core_def by simp blast
  then show ?thesis using assms(1) by (simp add: inv_def)
qed

text \<open>Taking a least entry \<open>(d, u)\<close> off the frontier, when \<open>d\<close> is the cost of \<open>u\<close>.\<close>

lemma inv_take:
  assumes inv: "inv arcs S dst par F" and mem: "(d, u) \<in> F" and d: "dst u = Some d"
    and least: "\<forall>x \<in> F. le d (fst x)"
  shows "inv (arcs(u := [])) (S @ [u]) dst par (F - {(d, u)})"
    and "\<And>x. x \<in> set (S @ [u]) \<Longrightarrow> le (the (dst x)) d"
proof -
  have core: "core S dst par F" and settled: "settled arcs S dst" using inv by (simp_all add: inv_def)
  have u: "u \<notin> set S" using core_expanded [OF core, of u] mem d by auto
  have below: "le (the (dst x)) d" if x: "x \<in> set (S @ [u])" for x
    using x core_below [OF core _ mem] d le_refl [OF core_cost [OF core d]] by auto
  then show "\<And>x. x \<in> set (S @ [u]) \<Longrightarrow> le (the (dst x)) d" .
  have "core (S @ [u]) dst par (F - {(d, u)})"
  proof (rule coreI)
    show "\<exists>j < i. \<exists>e. par ((S @ [u]) ! i) = Some ((S @ [u]) ! j, e)"
      if i: "i < length (S @ [u])" and ne: "(S @ [u]) ! i \<noteq> src" for i
    proof (cases "i < length S")
      case True
      then have "S ! i \<noteq> src" using ne by (simp add: nth_append)
      then obtain j e where "j < i" "par (S ! i) = Some (S ! j, e)" using core_order [OF core True] by blast
      then show ?thesis using True by (intro exI [of _ j]) (simp add: nth_append)
    next
      case False
      then have i': "i = length S" using i by simp
      then have "u \<noteq> src" using ne by simp
      then obtain w e where w: "par u = Some (w, e)" "w \<in> set S" using core_parent [OF core d] by blast
      then obtain j where "j < length S" "S ! j = w" by (auto simp: in_set_conv_nth)
      then show ?thesis using i' w(1) by (intro exI [of _ j]) (simp add: nth_append)
    qed
    show "le (the (dst x)) d'" if "x \<in> set (S @ [u])" "(d', v) \<in> F - {(d, u)}" for x d' v
      using below [OF that(1)] bspec [OF least, of "(d', v)"] that(2) le_trans by auto
    show "\<exists>dx. dst x = Some dx \<and> (dx, x) \<notin> F - {(d, u)}" if "x \<in> set (S @ [u])" for x
      using that d core_expanded [OF core, of x] by auto
    show "\<exists>w e k. par v = Some (w, e) \<and> (v, e, k) \<in> set (arcs w) \<and> w \<in> set (S @ [u])
        \<and> dv = add (the (dst w)) k" if "dst v = Some dv" "v \<noteq> src" for v dv
      using core_parent [OF core that] by auto
    show "x \<in> set (S @ [u]) \<or> (dx, x) \<in> F - {(d, u)}" if "dst x = Some dx" for x dx
      using core_cover [OF core that] by auto
    show "cost dx \<and> (\<exists>d'. dst x = Some d' \<and> (dx = d' \<or> \<not> le dx d'))"
      if "(dx, x) \<in> F - {(d, u)}" for dx x
      using that core_frontier [OF core] core_frontier_cost [OF core] by blast
    show "distinct (S @ [u])" using core_distinct [OF core] u by simp
  qed (use core_src [OF core] core_cost [OF core] in auto)
  moreover have "settled (arcs(u := [])) (S @ [u]) dst"
    using settled u by (auto simp: settled_def)
  ultimately show "inv (arcs(u := [])) (S @ [u]) dst par (F - {(d, u)})" by (simp add: inv_def)
qed

text \<open>Relaxing the arcs one after the other.\<close>

lemma inv_relax:
  assumes inv: "inv out S dst par F" and u: "u \<in> set S" "dst u = Some d"
    and below: "\<And>x. x \<in> set S \<Longrightarrow> le (the (dst x)) d"
    and arc: "(v, e, k) \<in> set (arcs u)"
    and step: "relax u d (v, e, k) (dst, par, F) = (dst', par', F')"
  shows "inv (out(u := out u @ [(v, e, k)])) S dst' par' F'
    \<and> dst' u = Some d \<and> (\<forall>x \<in> set S. le (the (dst' x)) d)"
proof -
  let ?nd = "add d k" and ?out = "out(u := out u @ [(v, e, k)])"
  have core: "core S dst par F" and settled: "settled out S dst" using inv by (simp_all add: inv_def)
  have "cost d" using core_cost [OF core u(2)] .
  then have cnd: "cost ?nd" and infl: "le d ?nd" using arc_cost [OF arc] by (auto intro: cost_add add_infl)
  have S_old: "dst x \<noteq> None \<and> le (the (dst x)) ?nd" if "x \<in> set S" for x
    using core_expanded [OF core that] below [OF that] infl le_trans by auto
  have src_old: "dst src = Some zero" "le zero ?nd" using core_src [OF core] zero_le [OF cnd] by auto
  have settled_new: "settled ?out S dst'"
    if keep: "\<And>x. x \<in> set S \<Longrightarrow> dst' x = dst x" and "\<exists>dv. dst' v = Some dv \<and> le dv ?nd"
      and better: "\<And>w dv c. dst w = Some dv \<Longrightarrow> le dv c \<Longrightarrow> \<exists>dv'. dst' w = Some dv' \<and> le dv' c"
    unfolding settled_def
  proof (intro ballI allI impI)
    fix x w e' k'
    assume x: "x \<in> set S" and w: "(w, e', k') \<in> set (?out x)"
    show "\<exists>dv. dst' w = Some dv \<and> le dv (add (the (dst' x)) k')"
    proof (cases "x = u \<and> (w, e', k') = (v, e, k)")
      case True
      then show ?thesis using that(2) keep [OF x] u(2) by simp
    next
      case False
      then have "(w, e', k') \<in> set (out x)" using w by (auto split: if_splits)
      from settledD [OF settled x this] show ?thesis using better keep [OF x] by auto
    qed
  qed
  show ?thesis
  proof (cases "dst v = None \<or> \<not> le (the (dst v)) ?nd")
    case False
    then have same: "dst' = dst" "par' = par" "F' = F" and "\<exists>dv. dst' v = Some dv \<and> le dv ?nd"
      using step by auto
    then have "settled ?out S dst'" by (intro settled_new) auto
    then show ?thesis using core u below by (simp add: inv_def same)
  next
    case True
    then have new: "dst' = dst(v \<mapsto> ?nd)" "par' = par(v \<mapsto> (u, e))" "F' = insert (?nd, v) F"
      using step by auto
    have vS: "v \<notin> set S" and v_src: "v \<noteq> src" using True S_old [of v] src_old by auto
    have keep: "dst' x = dst x" "par' x = par x" if "x \<in> set S" for x
      using that vS by (auto simp: new)
    have improve: "le ?nd dv" if "dst v = Some dv" for dv
      using True that cnd core_cost [OF core that] not_le_le by auto
    have "settled ?out S dst'"
    proof (rule settled_new)
      show "\<exists>dv. dst' v = Some dv \<and> le dv ?nd" using le_refl [OF cnd] by (simp add: new)
      show "\<exists>dv'. dst' w = Some dv' \<and> le dv' c" if "dst w = Some dv" "le dv c" for w dv c
        using that improve le_trans by (cases "w = v") (auto simp: new)
    qed (rule keep)
    moreover have "core S dst' par' F'"
    proof (rule coreI)
      show "cost dx \<and> (\<exists>d'. dst' x = Some d' \<and> (dx = d' \<or> \<not> le dx d'))" if "(dx, x) \<in> F'" for dx x
      proof (cases "(dx, x) = (?nd, v)")
        case False
        then have F: "(dx, x) \<in> F" using that by (auto simp: new)
        obtain d' where d': "dst x = Some d'" "dx = d' \<or> \<not> le dx d'" using core_frontier [OF core F] by blast
        have c: "cost dx" by (rule core_frontier_cost [OF core F])
        have "\<not> le dx ?nd" if "x = v"
        proof
          assume "le dx ?nd"
          moreover have "le d' dx"
            using d'(2) le_refl [OF c] not_le_le [OF c core_cost [OF core d'(1)]] by auto
          ultimately have "le d' ?nd" by (rule le_trans [rotated])
          then show False using True d'(1) \<open>x = v\<close> by simp
        qed
        then show ?thesis using c d' by (cases "x = v") (auto simp: new)
      qed (simp add: cnd new)
      show "x \<in> set S \<or> (dx, x) \<in> F'" if "dst' x = Some dx" for x dx
        using that core_cover [OF core, of x dx] by (cases "x = v") (auto simp: new)
      show "\<exists>d. dst' x = Some d \<and> (d, x) \<notin> F'" if "x \<in> set S" for x
        using core_expanded [OF core that] that vS by (auto simp: new)
      show "le (the (dst' x)) dx" if "x \<in> set S" "(dx, w) \<in> F'" for x dx w
        using that(2) core_below [OF core that(1)] S_old [OF that(1)] keep(1) [OF that(1)] by (auto simp: new)
      show "\<exists>u e k. par' x = Some (u, e) \<and> (x, e, k) \<in> set (arcs u) \<and> u \<in> set S
          \<and> dx = add (the (dst' u)) k" if xv: "dst' x = Some dx" "x \<noteq> src" for x dx
      proof (cases "x = v")
        case True
        then show ?thesis using xv arc u keep(1) [OF u(1)] by (auto simp: new)
      next
        case False
        then have "dst x = Some dx" using xv(1) by (simp add: new)
        then obtain u' e' k' where "par x = Some (u', e')" "(x, e', k') \<in> set (arcs u')" "u' \<in> set S"
          "dx = add (the (dst u')) k'" using core_parent [OF core _ xv(2)] by blast
        then show ?thesis using False keep(1) [of u'] by (auto simp: new)
      qed
      show "\<exists>j < i. \<exists>e. par' (S ! i) = Some (S ! j, e)" if "i < length S" "S ! i \<noteq> src" for i
        using core_order [OF core that] keep(2) [of "S ! i"] that(1) by simp
      show "cost dx" if "dst' x = Some dx" for x dx
        using that cnd core_cost [OF core, of x dx] by (cases "x = v") (auto simp: new)
    qed (use core_distinct [OF core] core_src [OF core] v_src in \<open>simp_all add: new\<close>)
    ultimately show ?thesis using u below keep(1) by (simp add: inv_def)
  qed
qed

lemma inv_relax_fold:
  assumes "inv out S dst par F" and "u \<in> set S" "dst u = Some d"
    and "\<And>x. x \<in> set S \<Longrightarrow> le (the (dst x)) d" and "set as \<subseteq> set (arcs u)"
    and "fold (relax u d) as (dst, par, F) = (dst', par', F')"
  shows "inv (out(u := out u @ as)) S dst' par' F'"
  using assms
proof (induction as arbitrary: out dst par F)
  case (Cons a as)
  obtain v e k where a: "a = (v, e, k)" by (metis surj_pair)
  obtain dst1 par1 F1 where step: "relax u d (v, e, k) (dst, par, F) = (dst1, par1, F1)"
    by (metis surj_pair)
  have "(v, e, k) \<in> set (arcs u)" using Cons.prems(5) by (auto simp: a)
  note r = inv_relax [OF Cons.prems(1-4) this step]
  then have r1: "inv (out(u := out u @ [(v, e, k)])) S dst1 par1 F1" and r2: "dst1 u = Some d"
    and r3: "\<And>x. x \<in> set S \<Longrightarrow> le (the (dst1 x)) d" by blast+
  have "inv ((out(u := out u @ [(v, e, k)]))(u := (out(u := out u @ [(v, e, k)])) u @ as)) S dst' par' F'"
    by (rule Cons.IH [OF r1 Cons.prems(2) r2 r3]) (use Cons.prems(5,6) step in \<open>auto simp: a\<close>)
  then show ?case by (simp only: a fun_upd_upd fun_upd_same append_assoc append_Cons append_Nil)
qed simp

text \<open>One whole expansion.\<close>

lemma inv_expand:
  assumes "inv arcs S dst par F" and "(d, u) \<in> F" and "dst u = Some d"
    and "\<forall>x \<in> F. le d (fst x)"
    and "fold (relax u d) (arcs u) (dst, par, F - {(d, u)}) = (dst', par', F')"
  shows "inv arcs (S @ [u]) dst' par' F'"
proof -
  note t = inv_take [OF assms(1-3)]
  have "inv ((arcs(u := []))(u := (arcs(u := [])) u @ arcs u)) (S @ [u]) dst' par' F'"
    by (rule inv_relax_fold [OF t(1) _ assms(3) t(2) _ assms(5)]) (use assms(4) in auto)
  then show ?thesis by simp
qed

text \<open>The tree leads from the source to every reached node, over a walk of the recorded cost.\<close>

lemma tree_walk_in:
  assumes core: "core S dst par F"
  shows "i < length S \<Longrightarrow> \<exists>p ks. tree_path par src (S ! i) p \<and> walk arcs src p (S ! i) ks
    \<and> dst (S ! i) = Some (foldl add zero ks)"
proof (induction i rule: less_induct)
  case (less i)
  show ?case
  proof (cases "S ! i = src")
    case True
    have "tree_path par src src []" "walk arcs src [] src []" by (rule tree_refl, rule walk_refl)
    then show ?thesis using core_src [OF core] True by (intro exI [of _ "[]"]) simp
  next
    case False
    obtain j e where j: "j < i" "par (S ! i) = Some (S ! j, e)"
      using core_order [OF core less.prems False] by blast
    obtain d where d: "dst (S ! i) = Some d"
      using core_expanded [OF core, of "S ! i"] less.prems by auto
    obtain u e' k where u: "par (S ! i) = Some (u, e')" "(S ! i, e', k) \<in> set (arcs u)"
      "d = add (the (dst u)) k" using core_parent [OF core d False] by blast
    obtain p ks where p: "tree_path par src (S ! j) p" "walk arcs src p (S ! j) ks"
      "dst (S ! j) = Some (foldl add zero ks)" using less.IH [OF j(1)] less.prems j(1) by auto
    have "tree_path par src (S ! i) (p @ [(u, e', S ! i)])"
      using False u(1) p(1) j(2) by (intro tree_snoc) auto
    moreover have "walk arcs src (p @ [(u, e', S ! i)]) (S ! i) (ks @ [k])"
      using p(2) u(1,2) j(2) by (intro walk_snoc) auto
    moreover have "dst (S ! i) = Some (foldl add zero (ks @ [k]))"
      using d u j(2) p(3) by simp
    ultimately show ?thesis by blast
  qed
qed

lemma tree_walk:
  assumes core: "core S dst par F" and d: "dst v = Some d"
  shows "\<exists>p ks. tree_path par src v p \<and> walk arcs src p v ks \<and> d = foldl add zero ks"
proof (cases "v = src")
  case True
  have "tree_path par src src []" "walk arcs src [] src []" by (rule tree_refl, rule walk_refl)
  then show ?thesis using core_src [OF core] d True by (intro exI [of _ "[]"]) simp
next
  case False
  obtain u e k where u: "par v = Some (u, e)" "(v, e, k) \<in> set (arcs u)" "u \<in> set S"
    "d = add (the (dst u)) k" using core_parent [OF core d False] by blast
  then obtain p ks where p: "tree_path par src u p" "walk arcs src p u ks"
    "dst u = Some (foldl add zero ks)"
    using tree_walk_in [OF core] by (metis in_set_conv_nth)
  have "tree_path par src v (p @ [(u, e, v)])" using False u(1) p(1) by (rule tree_snoc)
  moreover have "walk arcs src (p @ [(u, e, v)]) v (ks @ [k])" by (rule walk_snoc [OF p(2) u(2)])
  moreover have "d = foldl add zero (ks @ [k])" using u(4) p(3) by simp
  ultimately show ?thesis by blast
qed

lemma walk_cost: "walk arcs src p v ks \<Longrightarrow> cost (foldl add zero ks)"
  by (induction rule: walk.induct) (auto intro: cost_zero cost_add arc_cost)

text \<open>Every walk is matched by a recorded cost at its end or by a frontier entry.\<close>

lemma walk_covered:
  assumes core: "core S dst par F" and settled: "settled arcs S dst"
  shows "walk arcs src p v ks \<Longrightarrow> (\<exists>d. dst v = Some d \<and> le d (foldl add zero ks))
    \<or> (\<exists>d x. (d, x) \<in> F \<and> le d (foldl add zero ks))"
proof (induction rule: walk.induct)
  case walk_refl
  then show ?case using core_src [OF core] le_refl [OF cost_zero] by simp
next
  case (walk_snoc p u ks v e k)
  let ?c = "foldl add zero ks"
  have c: "cost ?c" using walk_snoc.hyps(1) by (rule walk_cost)
  have k: "cost k" using walk_snoc.hyps(2) by (rule arc_cost)
  have infl: "le ?c (foldl add zero (ks @ [k]))" using add_infl [OF c k] by simp
  show ?case
  proof (cases "\<exists>d x. (d, x) \<in> F \<and> le d ?c")
    case True
    then show ?thesis using infl le_trans by blast
  next
    case False
    then obtain du where du: "dst u = Some du" "le du ?c" using walk_snoc.IH by blast
    then have "u \<in> set S" using core_cover [OF core du(1)] False by blast
    then obtain dv where dv: "dst v = Some dv" "le dv (add du k)"
      using settledD [OF settled _ walk_snoc.hyps(2)] du(1) by auto
    have "le (add du k) (add ?c k)" by (rule add_mono [OF core_cost [OF core du(1)] c k du(2)])
    then show ?thesis using dv le_trans by auto
  qed
qed

text \<open>Taking the goal off the frontier ends the search with a walk of least cost.\<close>

theorem search_optimal:
  assumes inv: "inv arcs S dst par F" and mem: "(d, goal) \<in> F" and new: "goal \<notin> set S"
    and least: "\<forall>x \<in> F. le d (fst x)"
  shows "\<exists>p ks. tree_path par src goal p \<and> walk arcs src p goal ks \<and> d = foldl add zero ks
    \<and> (\<forall>p' ks'. walk arcs src p' goal ks' \<longrightarrow> le (foldl add zero ks) (foldl add zero ks'))"
proof -
  have core: "core S dst par F" and settled: "settled arcs S dst" using inv by (simp_all add: inv_def)
  obtain dg where dg: "dst goal = Some dg" "d = dg \<or> \<not> le d dg" using core_frontier [OF core mem] by blast
  then have "(dg, goal) \<in> F" using core_cover [OF core dg(1)] new by blast
  then have d: "dst goal = Some d" using bspec [OF least, of "(dg, goal)"] dg by auto
  obtain p ks where p: "tree_path par src goal p" "walk arcs src p goal ks" "d = foldl add zero ks"
    using tree_walk [OF core d] by blast
  have "le d (foldl add zero ks')" if "walk arcs src p' goal ks'" for p' ks'
    using walk_covered [OF core settled that] d least le_trans by (metis fst_conv option.inject)
  then show ?thesis using p by blast
qed

text \<open>An empty frontier means that the nodes reached are all there are.\<close>

theorem search_exhausted:
  assumes inv: "inv arcs S dst par {}" and new: "goal \<notin> set S"
  shows "\<not> walk arcs src p goal ks"
proof
  assume w: "walk arcs src p goal ks"
  have core: "core S dst par {}" and settled: "settled arcs S dst" using inv by (simp_all add: inv_def)
  obtain d where "dst goal = Some d" using walk_covered [OF core settled w] by blast
  then show False using core_cover [OF core] new by blast
qed

end

text \<open>Hop counts are such costs too: the breadth-first search adds one per edge.\<close>

interpretation hop_cost: cost_order "(\<le>)" "(+)" "\<lambda>_. True" "0 :: nat"
  by unfold_locales auto

end
