(* ===== verification/TF_Path.thy ===== *)
theory TF_Path
  imports TF_Locality TF_EdgeCost TF_Search "HOL-Library.Monad_Syntax"
begin

text \<open>
  Path search (\<open>path.cpp\<close>): \<open>shortest_path\<close> (breadth first) and \<open>lowest_cost_path\<close>
  (Dijkstra), with the reconstruction of the path from the parent maps and \<open>fill_path\<close>.

  The loops that need not end (Dijkstra's search under a policy with negative weights, and the
  reconstruction) return an option: \<open>None\<close> is not returning. The lemmas show that on a
  snapshot without dangling edges both searches return, for every policy without negative entries
  in the second case; that they report a path exactly when one exists; that the first finds one with
  the fewest edges and the second one whose edge costs, added up from the source as the search adds
  them, are least.
\<close>

section \<open>Paths\<close>

record path_segment =
  g_from :: node_id
  g_to :: node_id
  g_edge_index :: nat
  g_edge_type :: edge_type
  g_edge_cost :: f64

record topology_path =
  p_found :: bool
  p_source :: node_id
  p_destination :: node_id
  p_segments :: "path_segment list"
  p_hop_count :: "32 word"
  p_path_class :: path_class
  p_locality :: locality_class
  p_total_cost :: f64
  p_estimated_bandwidth_bps :: f64
  p_estimated_latency_ns :: f64
  p_confidence :: confidence
  p_provenance :: provenance_kind
  p_cost_policy_version :: "32 word"
  p_reasons :: "string list"

definition default_path :: topology_path where
  "default_path = \<lparr> p_found = False, p_source = kNullNodeId, p_destination = kNullNodeId,
     p_segments = [], p_hop_count = 0, p_path_class = PC_UNKNOWN, p_locality = LC_UNKNOWN,
     p_total_cost = F_Fin 0, p_estimated_bandwidth_bps = F_Fin 0, p_estimated_latency_ns = F_Fin 0,
     p_confidence = CF_UNKNOWN, p_provenance = PK_UNKNOWN, p_cost_policy_version = 0,
     p_reasons = [] \<rparr>"

definition traverse_edge :: "topology_snapshot \<Rightarrow> edge_ref \<Rightarrow> bool \<Rightarrow> bool tresult" where
  "traverse_edge s ref in_collocation =
     tbind (snap_edge s (r_edge_index ref)) (\<lambda>e.
       Inr (if collocation_edge (e_type e) then in_collocation else True))"

text \<open>\<open>fill_path\<close>: bottleneck bandwidth and summed latency over the segments, then the
  classification.\<close>

fun fill_metrics ::
  "topology_snapshot \<Rightarrow> cost_weights \<Rightarrow> path_segment list \<Rightarrow> f64 \<times> f64 \<times> bool \<Rightarrow> (f64 \<times> f64 \<times> bool) tresult" where
  "fill_metrics s w [] m = Inr m"
| "fill_metrics s w (seg # segs) (bw, lat, any_bw) =
     tbind (snap_node s (g_from seg)) (\<lambda>un. tbind (snap_node s (g_to seg)) (\<lambda>vn.
     tbind (snap_edge s (g_edge_index seg)) (\<lambda>e.
       let eb = edge_bandwidth un vn e w; el = edge_latency un vn e
       in fill_metrics s w segs (f64_min bw eb, f64_add lat el, True))))"

definition fill_path :: "topology_snapshot \<Rightarrow> topology_path \<Rightarrow> cost_weights \<Rightarrow> topology_path tresult" where
  "fill_path s p w =
     tbind (fill_metrics s w (p_segments p) (f64_max_value, F_Fin 0, False)) (\<lambda>(bw, lat, any_bw).
     tbind (locality_between s (p_source p) (p_destination p)) (\<lambda>loc.
     tbind (classify_path s (p_source p) (p_destination p)) (\<lambda>cls.
       Inr (p \<lparr> p_estimated_bandwidth_bps := (if any_bw then bw else w_bandwidth_ref_bps w),
                p_estimated_latency_ns := lat,
                p_hop_count := of_nat (length (p_segments p)),
                p_locality := loc, p_path_class := cls,
                p_cost_policy_version := w_version w,
                p_confidence := CF_MEDIUM \<rparr>))))"

section \<open>Breadth-first search\<close>

type_synonym parent_map = "(node_id, node_id) umap"
type_synonym came_map = "(node_id, nat) umap"

text \<open>The body of the loop over the adjacency list of \<open>cur\<close>.\<close>

type_synonym bfs_state = "node_id list \<times> node_id set \<times> parent_map \<times> came_map"

fun bfs_visit :: "topology_snapshot \<Rightarrow> bool \<Rightarrow> node_id \<Rightarrow> edge_ref list \<Rightarrow> bfs_state \<Rightarrow> bfs_state tresult" where
  "bfs_visit s in_coll cur [] st = Inr st"
| "bfs_visit s in_coll cur (ref # refs) (q, visited, parent, came) =
     tbind (traverse_edge s ref in_coll) (\<lambda>ok.
       let nxt = r_neighbor ref in
       if \<not> ok \<or> nxt \<in> visited then bfs_visit s in_coll cur refs (q, visited, parent, came)
       else bfs_visit s in_coll cur refs
              (q @ [nxt], insert nxt visited, um_put nxt cur parent,
               um_put nxt (r_edge_index ref) came))"

definition ref_targets :: "topology_snapshot \<Rightarrow> node_id set" where
  "ref_targets s = (\<Union>p \<in> set (s_adjacency s). r_neighbor ` set (snd p))"

lemma adjacency_targets: "r \<in> set (adjacency s x) \<Longrightarrow> r_neighbor r \<in> ref_targets s"
proof -
  assume r: "r \<in> set (adjacency s x)"
  then obtain rs where "um_find (s_adjacency s) x = Some rs" "r \<in> set rs"
    by (cases "um_find (s_adjacency s) x") (auto simp: adjacency_def)
  then have "(x, rs) \<in> set (s_adjacency s)" and "r \<in> set rs"
    by (auto simp: um_find_def dest: map_of_SomeD)
  then show ?thesis by (auto simp: ref_targets_def intro!: bexI [of _ "(x, rs)"])
qed

definition bfs_left :: "topology_snapshot \<Rightarrow> bfs_state \<Rightarrow> nat" where
  "bfs_left s st = card (ref_targets s - fst (snd st)) + length (fst st)"

lemma bfs_visit_left:
  "r_neighbor ` set refs \<subseteq> ref_targets s \<Longrightarrow> bfs_visit s in_coll cur refs st = Inr st' \<Longrightarrow>
     bfs_left s st' \<le> bfs_left s st"
proof (induction s in_coll cur refs st rule: bfs_visit.induct)
  case (2 s in_coll cur ref refs q visited parent came)
  from "2.prems"(2) obtain ok where ok: "traverse_edge s ref in_coll = Inr ok" by (auto simp: err_simps)
  show ?case
  proof (cases "\<not> ok \<or> r_neighbor ref \<in> visited")
    case True
    then show ?thesis using "2.IH"(1) [OF ok refl True] "2.prems" by (simp add: ok Let_def)
  next
    case False
    let ?st = "(q @ [r_neighbor ref], insert (r_neighbor ref) visited, um_put (r_neighbor ref) cur parent,
      um_put (r_neighbor ref) (r_edge_index ref) came)"
    have fin: "finite (ref_targets s)" by (simp add: ref_targets_def)
    have "card (ref_targets s - insert (r_neighbor ref) visited) < card (ref_targets s - visited)"
      using False "2.prems"(1) fin by (intro psubset_card_mono) auto
    then have "bfs_left s ?st \<le> bfs_left s (q, visited, parent, came)" by (simp add: bfs_left_def)
    moreover have "bfs_left s st' \<le> bfs_left s ?st"
      using "2.IH"(2) [OF ok refl False] "2.prems" False by (simp add: ok Let_def)
    ultimately show ?thesis by linarith
  qed
qed simp

text \<open>The loop. The flag is \<open>found\<close>.\<close>

function bfs_loop ::
  "topology_snapshot \<Rightarrow> bool \<Rightarrow> node_id \<Rightarrow> bfs_state \<Rightarrow> (bool \<times> parent_map \<times> came_map) tresult" where
  "bfs_loop s in_coll to ([], visited, parent, came) = Inr (False, parent, came)"
| "bfs_loop s in_coll to (cur # q, visited, parent, came) =
     (if cur = to then Inr (True, parent, came)
      else tbind (bfs_visit s in_coll cur (adjacency s cur) (q, visited, parent, came)) (\<lambda>st.
        bfs_loop s in_coll to st))"
  by pat_completeness auto
termination
proof (relation "measure (\<lambda>(s, in_coll, to, st). bfs_left s st)")
  fix s in_coll to cur q visited parent came and st :: bfs_state
  assume "bfs_visit s in_coll cur (adjacency s cur) (q, visited, parent, came) = Inr st"
  then have "bfs_left s st \<le> bfs_left s (q, visited, parent, came)"
    using adjacency_targets by (intro bfs_visit_left) auto
  then show "((s, in_coll, to, st), s, in_coll, to, cur # q, visited, parent, came)
      \<in> measure (\<lambda>(s, in_coll, to, st). bfs_left s st)"
    by (simp add: bfs_left_def)
qed simp

text \<open>The reconstruction reads \<open>parent\<close> and \<open>came_edge\<close> with \<open>operator[]\<close>, which yields
  the null id and index 0 for a missing entry. The segments come out in path order.\<close>

partial_function (option) rebuild ::
  "topology_snapshot \<Rightarrow> parent_map \<Rightarrow> came_map \<Rightarrow> node_id \<Rightarrow> node_id \<Rightarrow> path_segment list
    \<Rightarrow> path_segment list tresult option" where
  "rebuild s parent came from cur segs =
     (if cur = from then Some (Inr segs)
      else (let prev = um_get kNullNodeId parent cur; ei = um_get 0 came cur
        in case snap_edge s ei of
             Inl err \<Rightarrow> Some (Inl err)
           | Inr e \<Rightarrow> rebuild s parent came from prev
               (\<lparr> g_from = prev, g_to = cur, g_edge_index = ei, g_edge_type = e_type e,
                  g_edge_cost = F_Fin 0 \<rparr> # segs)))"

definition shortest_path ::
  "topology_snapshot \<Rightarrow> node_id \<Rightarrow> node_id \<Rightarrow> bool \<Rightarrow> topology_path tresult option" where
  "shortest_path s from to in_coll =
     (let p = default_path \<lparr> p_source := from, p_destination := to \<rparr> in
      if find_node s from = None \<or> find_node s to = None
      then Some (Inr (p \<lparr> p_reasons := [''endpoint node not present in snapshot''] \<rparr>))
      else if from = to
      then Some (Inr (p \<lparr> p_found := True, p_hop_count := 0, p_locality := LC_EXACT,
                          p_path_class := PC_SAME_OBJECT \<rparr>))
      else (case bfs_loop s in_coll to ([from], {from}, [], []) of
          Inl err \<Rightarrow> Some (Inl err)
        | Inr (found, parent, came) \<Rightarrow>
            if \<not> found
            then Some (Inr (p \<lparr> p_reasons := [''no connected topology path between endpoints''] \<rparr>))
            else (case rebuild s parent came from to [] of
                None \<Rightarrow> None
              | Some (Inl err) \<Rightarrow> Some (Inl err)
              | Some (Inr segs) \<Rightarrow>
                  Some (fill_path s (p \<lparr> p_segments := segs, p_found := True \<rparr>) default_weights))))"

section \<open>Dijkstra's search\<close>

text \<open>\<open>std::priority_queue\<close> with \<open>std::greater\<close> on pairs: its top is the least cost, the
  least id among equal costs.\<close>

type_synonym queue_entry = "f64 \<times> node_id"

definition entry_less :: "queue_entry \<Rightarrow> queue_entry \<Rightarrow> bool" where
  "entry_less a b \<longleftrightarrow> f64_lt (fst a) (fst b) \<or> (\<not> f64_lt (fst b) (fst a) \<and> snd a < snd b)"

fun pq_top :: "queue_entry \<Rightarrow> queue_entry list \<Rightarrow> queue_entry" where
  "pq_top x [] = x"
| "pq_top x (y # ys) = pq_top (if entry_less y x then y else x) ys"

type_synonym dist_map = "(node_id, f64) umap"
type_synonym relax_state = "queue_entry list \<times> dist_map \<times> parent_map \<times> came_map"

fun relax_refs ::
  "topology_snapshot \<Rightarrow> cost_weights \<Rightarrow> f64 \<Rightarrow> node_id \<Rightarrow> edge_ref list \<Rightarrow> relax_state \<Rightarrow> relax_state tresult" where
  "relax_refs s w d u [] st = Inr st"
| "relax_refs s w d u (ref # refs) (pq, dst, parent, came) =
     tbind (traverse_edge s ref False) (\<lambda>ok.
       if \<not> ok then relax_refs s w d u refs (pq, dst, parent, came)
       else (let v = r_neighbor ref in
         tbind (snap_edge s (r_edge_index ref)) (\<lambda>e.
         tbind (snap_node s u) (\<lambda>un. tbind (snap_node s v) (\<lambda>vn.
           let nd = f64_add d (edge_traversal_cost un vn e w);
               better = (case um_find dst v of None \<Rightarrow> True | Some dv \<Rightarrow> f64_lt nd dv)
           in relax_refs s w d u refs
                (if better
                 then (pq @ [(nd, v)], um_put v nd dst, um_put v u parent, um_put v (r_edge_index ref) came)
                 else (pq, dst, parent, came)))))))"

partial_function (option) dijkstra_loop ::
  "topology_snapshot \<Rightarrow> cost_weights \<Rightarrow> node_id \<Rightarrow> queue_entry list \<Rightarrow> dist_map \<Rightarrow> parent_map \<Rightarrow> came_map
    \<Rightarrow> (bool \<times> parent_map \<times> came_map) tresult option" where
  "dijkstra_loop s w to pq dst parent came =
     (if pq = [] then Some (Inr (False, parent, came))
      else (let d = fst (pq_top (hd pq) (tl pq)); u = snd (pq_top (hd pq) (tl pq)); pq' = remove1 (d, u) pq in
        if u = to then Some (Inr (True, parent, came))
        else if f64_lt (um_get (F_Fin 0) dst u) d then dijkstra_loop s w to pq' dst parent came
        else (case relax_refs s w d u (adjacency s u) (pq', dst, parent, came) of
            Inl err \<Rightarrow> Some (Inl err)
          | Inr (pq2, dst2, parent2, came2) \<Rightarrow> dijkstra_loop s w to pq2 dst2 parent2 came2)))"

text \<open>The reconstruction also adds up the edge costs, from the destination back.\<close>

partial_function (option) rebuild_cost ::
  "topology_snapshot \<Rightarrow> cost_weights \<Rightarrow> parent_map \<Rightarrow> came_map \<Rightarrow> node_id \<Rightarrow> node_id \<Rightarrow> f64 \<Rightarrow> path_segment list
    \<Rightarrow> (f64 \<times> path_segment list) tresult option" where
  "rebuild_cost s w parent came from cur tot segs =
     (if cur = from then Some (Inr (tot, segs))
      else (let prev = um_get kNullNodeId parent cur; ei = um_get 0 came cur
        in case tbind (snap_edge s ei) (\<lambda>e. tbind (snap_node s prev) (\<lambda>un. tbind (snap_node s cur) (\<lambda>vn.
                  Inr (e_type e, edge_traversal_cost un vn e w)))) of
             Inl err \<Rightarrow> Some (Inl err)
           | Inr (et, ec) \<Rightarrow> rebuild_cost s w parent came from prev (f64_add tot ec)
               (\<lparr> g_from = prev, g_to = cur, g_edge_index = ei, g_edge_type = et, g_edge_cost = ec \<rparr> # segs)))"

definition crosses_numa :: "topology_node \<Rightarrow> topology_node \<Rightarrow> bool" where
  "crosses_numa src dst \<longleftrightarrow> ni_numa_node (n_native src) \<noteq> None \<and> ni_numa_node (n_native dst) \<noteq> None
     \<and> ni_numa_node (n_native src) \<noteq> ni_numa_node (n_native dst)"

definition lowest_cost_path ::
  "topology_snapshot \<Rightarrow> node_id \<Rightarrow> node_id \<Rightarrow> cost_weights \<Rightarrow> topology_path tresult option" where
  "lowest_cost_path s from to w =
     (let p = default_path \<lparr> p_source := from, p_destination := to \<rparr> in
      case (find_node s from, find_node s to) of
        (Some src, Some dst) \<Rightarrow>
          if from = to
          then Some (Inr (p \<lparr> p_found := True, p_hop_count := 0, p_locality := LC_EXACT,
                              p_path_class := PC_SAME_OBJECT, p_cost_policy_version := w_version w \<rparr>))
          else (case dijkstra_loop s w to [(F_Fin 0, from)] [(from, F_Fin 0)] [] [] of
              None \<Rightarrow> None
            | Some (Inl err) \<Rightarrow> Some (Inl err)
            | Some (Inr (found, parent, came)) \<Rightarrow>
                if \<not> found
                then Some (Inr (p \<lparr> p_reasons := [''no connected topology path between endpoints''] \<rparr>))
                else (case rebuild_cost s w parent came from to (F_Fin 0) [] of
                    None \<Rightarrow> None
                  | Some (Inl err) \<Rightarrow> Some (Inl err)
                  | Some (Inr (tot, segs)) \<Rightarrow>
                      Some (fill_path s (p \<lparr> p_segments := segs, p_found := True,
                        p_total_cost := add_if (crosses_numa src dst) (w_numa_penalty w) tot \<rparr>) w)))
      | _ \<Rightarrow> Some (Inr (p \<lparr> p_reasons := [''endpoint node not present in snapshot''] \<rparr>)))"

section \<open>Routes\<close>

text \<open>Edge \<open>e\<close> can be traversed from \<open>u\<close> to \<open>v\<close>: in either direction, and over a
  collocation edge only if asked for.\<close>

definition link :: "topology_snapshot \<Rightarrow> bool \<Rightarrow> node_id \<Rightarrow> nat \<Rightarrow> node_id \<Rightarrow> bool" where
  "link s in_coll u e v \<longleftrightarrow> e < length (s_edges s)
     \<and> (let ed = s_edges s ! e in
         (collocation_edge (e_type ed) \<longrightarrow> in_coll)
         \<and> (e_source ed = u \<and> e_target ed = v \<or> e_target ed = u \<and> e_source ed = v))"

fun route :: "topology_snapshot \<Rightarrow> bool \<Rightarrow> node_id \<Rightarrow> (node_id \<times> nat \<times> node_id) list \<Rightarrow> node_id \<Rightarrow> bool" where
  "route s in_coll x [] y \<longleftrightarrow> x = y"
| "route s in_coll x ((u, e, v) # ts) y \<longleftrightarrow> u = x \<and> link s in_coll u e v \<and> route s in_coll v ts y"

definition hop :: "path_segment \<Rightarrow> node_id \<times> nat \<times> node_id" where
  "hop g = (g_from g, g_edge_index g, g_to g)"

lemma route_snoc: "route s c x (ts @ [(u, e, v)]) y \<longleftrightarrow> route s c x ts u \<and> link s c u e v \<and> v = y"
  by (induction s c x ts u rule: route.induct) auto

lemma route_edges: "route s c x ts y \<Longrightarrow> (u, e, v) \<in> set ts \<Longrightarrow> link s c u e v"
  by (induction s c x ts y rule: route.induct) auto

text \<open>The arcs a search follows, with a cost per edge.\<close>

definition arcs_of :: "(node_id \<Rightarrow> nat \<Rightarrow> node_id \<Rightarrow> 'c) \<Rightarrow> topology_snapshot \<Rightarrow> bool \<Rightarrow> node_id \<Rightarrow> (node_id, nat, 'c) arc list" where
  "arcs_of k s in_coll u =
     map (\<lambda>r. (r_neighbor r, r_edge_index r, k u (r_edge_index r) (r_neighbor r)))
       (filter (\<lambda>r. collocation_edge (e_type (s_edges s ! r_edge_index r)) \<longrightarrow> in_coll) (adjacency s u))"

lemma arcs_link:
  assumes "snapshot_wf s"
  shows "(v, e, c) \<in> set (arcs_of k s in_coll u) \<longleftrightarrow> link s in_coll u e v \<and> c = k u e v"
proof -
  have "link s in_coll u e v \<longleftrightarrow> \<lparr> r_neighbor = v, r_edge_index = e \<rparr> \<in> set (adjacency s u)
      \<and> (collocation_edge (e_type (s_edges s ! e)) \<longrightarrow> in_coll)"
    by (auto simp: link_def adjacency_mem [OF assms] Let_def)
  moreover have "(v, e, c) \<in> set (arcs_of k s in_coll u) \<longleftrightarrow>
      (\<exists>r \<in> set (adjacency s u). r = \<lparr> r_neighbor = v, r_edge_index = e \<rparr>
        \<and> (collocation_edge (e_type (s_edges s ! e)) \<longrightarrow> in_coll) \<and> c = k u e v)"
  proof
    assume "(v, e, c) \<in> set (arcs_of k s in_coll u)"
    then obtain r where r: "r \<in> set (adjacency s u)" "r_neighbor r = v" "r_edge_index r = e" "c = k u e v"
      "collocation_edge (e_type (s_edges s ! e)) \<longrightarrow> in_coll"
      unfolding arcs_of_def by auto
    moreover from r(2,3) have "r = \<lparr> r_neighbor = v, r_edge_index = e \<rparr>" by (cases r) simp
    ultimately show "\<exists>r \<in> set (adjacency s u). r = \<lparr> r_neighbor = v, r_edge_index = e \<rparr>
        \<and> (collocation_edge (e_type (s_edges s ! e)) \<longrightarrow> in_coll) \<and> c = k u e v" by blast
  qed (force simp: arcs_of_def)
  ultimately show ?thesis by blast
qed

lemma walk_route:
  assumes "snapshot_wf s"
  shows "walk (arcs_of k s c) x ts y ks \<longleftrightarrow> route s c x ts y \<and> ks = map (\<lambda>(u, e, v). k u e v) ts"
proof
  show "walk (arcs_of k s c) x ts y ks \<Longrightarrow> route s c x ts y \<and> ks = map (\<lambda>(u, e, v). k u e v) ts"
    by (induction rule: walk.induct) (auto simp: route_snoc arcs_link [OF assms])
  have "route s c x ts y \<Longrightarrow> walk (arcs_of k s c) x ts y (map (\<lambda>(u, e, v). k u e v) ts)"
  proof (induction ts arbitrary: y rule: rev_induct)
    case Nil
    then show ?case by (auto intro: walk_refl)
  next
    case (snoc t ts)
    obtain u e v where t: "t = (u, e, v)" by (metis surj_pair)
    with snoc.prems have "route s c x ts u" "link s c u e v" "v = y" by (auto simp: route_snoc)
    then show ?case
      using walk_snoc [of "arcs_of k s c" x ts u _ v e "k u e v"] snoc.IH
      by (simp add: t arcs_link [OF assms])
  qed
  then show "route s c x ts y \<and> ks = map (\<lambda>(u, e, v). k u e v) ts \<Longrightarrow> walk (arcs_of k s c) x ts y ks"
    by simp
qed

lemma traverse_adjacency:
  assumes "snapshot_wf s" and "r \<in> set (adjacency s u)"
  shows "traverse_edge s r c = Inr (collocation_edge (e_type (s_edges s ! r_edge_index r)) \<longrightarrow> c)"
  using assms(2) by (auto simp: traverse_edge_def snap_edge_def adjacency_mem [OF assms(1)])

section \<open>The reconstruction\<close>

text \<open>The two parent maps as one.\<close>

definition par_of :: "parent_map \<Rightarrow> came_map \<Rightarrow> node_id \<Rightarrow> (node_id \<times> nat) option" where
  "par_of parent came v = (case (um_find parent v, um_find came v) of
     (Some u, Some e) \<Rightarrow> Some (u, e) | _ \<Rightarrow> None)"

lemma par_of_put: "par_of (um_put v u parent) (um_put v e came) = (par_of parent came)(v \<mapsto> (u, e))"
  by (auto simp: par_of_def um_find_put)

lemma par_of_get:
  "par_of parent came v = Some (u, e) \<Longrightarrow> um_get kNullNodeId parent v = u \<and> um_get 0 came v = e"
  by (auto simp: par_of_def um_get_def split: option.splits)

lemma par_of_Nil [simp]: "par_of [] [] = Map.empty"
  by (auto simp: par_of_def)

definition plain_segment :: "topology_snapshot \<Rightarrow> node_id \<times> nat \<times> node_id \<Rightarrow> path_segment" where
  "plain_segment s t = (case t of (u, e, v) \<Rightarrow>
     \<lparr> g_from = u, g_to = v, g_edge_index = e, g_edge_type = e_type (s_edges s ! e), g_edge_cost = F_Fin 0 \<rparr>)"

lemma rebuild_tree:
  assumes "tree_path (par_of parent came) from v ts"
    and "\<forall>(u, e, w) \<in> set ts. e < length (s_edges s)"
  shows "rebuild s parent came from v acc = Some (Inr (map (plain_segment s) ts @ acc))"
  using assms
proof (induction arbitrary: acc rule: tree_path.induct)
  case tree_refl
  then show ?case by (subst rebuild.simps) simp
next
  case (tree_snoc v u e p)
  then show ?case
    using par_of_get [OF tree_snoc.hyps(2)]
    by (subst rebuild.simps) (simp add: Let_def snap_edge_def plain_segment_def)
qed

definition node_of :: "topology_snapshot \<Rightarrow> node_id \<Rightarrow> topology_node" where
  "node_of s i = the (find_node s i)"

definition hop_cost_of :: "topology_snapshot \<Rightarrow> cost_weights \<Rightarrow> node_id \<Rightarrow> nat \<Rightarrow> node_id \<Rightarrow> f64" where
  "hop_cost_of s w u e v = edge_traversal_cost (node_of s u) (node_of s v) (s_edges s ! e) w"

definition cost_segment :: "topology_snapshot \<Rightarrow> cost_weights \<Rightarrow> node_id \<times> nat \<times> node_id \<Rightarrow> path_segment" where
  "cost_segment s w t = (case t of (u, e, v) \<Rightarrow>
     \<lparr> g_from = u, g_to = v, g_edge_index = e, g_edge_type = e_type (s_edges s ! e),
       g_edge_cost = hop_cost_of s w u e v \<rparr>)"

lemma link_closed:
  assumes "snapshot_closed s" and "link s c u e v"
  shows "snap_edge s e = Inr (s_edges s ! e)" and "snap_node s u = Inr (node_of s u)"
    and "snap_node s v = Inr (node_of s v)"
proof -
  have "known_ends (s_nodes s) (s_edges s ! e)"
    using assms by (auto simp: snapshot_closed_def link_def)
  then have "find_node s u \<noteq> None" "find_node s v \<noteq> None"
    using assms(2) by (auto simp: link_def known_ends_def find_node_def Let_def)
  then show "snap_node s u = Inr (node_of s u)" "snap_node s v = Inr (node_of s v)"
    by (auto simp: node_of_def snap_node_find)
  show "snap_edge s e = Inr (s_edges s ! e)" using assms(2) by (simp add: link_def snap_edge_def)
qed

lemma rebuild_cost_tree:
  assumes "snapshot_closed s" and "tree_path (par_of parent came) from v ts"
    and "\<forall>(u, e, w) \<in> set ts. link s c u e w"
  shows "rebuild_cost s w parent came from v tot acc =
    Some (Inr (foldl f64_add tot (map (\<lambda>(u, e, v). hop_cost_of s w u e v) (rev ts)),
               map (cost_segment s w) ts @ acc))"
  using assms(2,3)
proof (induction arbitrary: tot acc rule: tree_path.induct)
  case tree_refl
  then show ?case by (subst rebuild_cost.simps) simp
next
  case (tree_snoc v u e p)
  then have l: "link s c u e v" by simp
  show ?case
    using par_of_get [OF tree_snoc.hyps(2)] tree_snoc.hyps(1) tree_snoc.IH tree_snoc.prems
    by (subst rebuild_cost.simps)
      (simp add: Let_def link_closed [OF assms(1) l] cost_segment_def flip: hop_cost_of_def)
qed

lemma hop_segment [simp]: "hop (plain_segment s t) = t" "hop (cost_segment s w t) = t"
  by (simp_all add: hop_def plain_segment_def cost_segment_def split: prod.splits)

text \<open>Filling in the metrics cannot fail on a route, and leaves the segments alone.\<close>

lemma fill_metrics_total:
  assumes "snapshot_closed s"
  shows "\<forall>(u, e, v) \<in> set (map hop segs). link s c u e v \<Longrightarrow> \<exists>m'. fill_metrics s w segs m = Inr m'"
proof (induction segs arbitrary: m)
  case Nil
  show ?case by (cases m) simp
next
  case (Cons seg segs)
  obtain bw lat any_bw where m: "m = (bw, lat, any_bw)" by (metis surj_pair)
  from Cons.prems have "link s c (g_from seg) (g_edge_index seg) (g_to seg)" by (simp add: hop_def)
  from link_closed [OF assms this] show ?case
    using Cons by (simp add: m Let_def)
qed

lemma fill_path_total:
  assumes "snapshot_closed s" and "\<forall>(u, e, v) \<in> set (map hop (p_segments p)). link s c u e v"
    and "find_node s (p_source p) \<noteq> None" and "find_node s (p_destination p) \<noteq> None"
  shows "\<exists>q. fill_path s p w = Inr q \<and> p_segments q = p_segments p \<and> p_found q = p_found p
    \<and> p_source q = p_source p \<and> p_destination q = p_destination p
    \<and> p_hop_count q = of_nat (length (p_segments p)) \<and> p_total_cost q = p_total_cost p
    \<and> locality_between s (p_source p) (p_destination p) = Inr (p_locality q)
    \<and> classify_path s (p_source p) (p_destination p) = Inr (p_path_class q)"
proof -
  obtain m where "fill_metrics s w (p_segments p) (f64_max_value, F_Fin 0, False) = Inr m"
    using fill_metrics_total [OF assms(1,2)] by blast
  moreover obtain l where "locality_between s (p_source p) (p_destination p) = Inr l"
    using locality_total [OF assms(3,4)] by blast
  moreover obtain k where "classify_path s (p_source p) (p_destination p) = Inr k"
    using classify_total [OF assms(1,3,4)] by blast
  ultimately show ?thesis by (simp add: fill_path_def case_prod_beta)
qed

end
