(* ===== verification/TF_Shortest.thy ===== *)
theory TF_Shortest
  imports TF_Path
begin

text \<open>
  \<open>shortest_path\<close> is correct: on a snapshot without dangling edges it returns, reports a path
  exactly when one exists, and the path it reports has the fewest edges. The proof relates the
  queue, the visited set and the parent maps to the invariant of \<open>search\<close>, with hop counts as
  costs.
\<close>

abbreviation hop_arcs :: "topology_snapshot \<Rightarrow> bool \<Rightarrow> node_id \<Rightarrow> (node_id, nat, nat) arc list" where
  "hop_arcs s c \<equiv> arcs_of (\<lambda>_ _ _. 1 :: nat) s c"

interpretation bfs: search "(\<le>)" "(+)" "\<lambda>_. True" "0 :: nat" "hop_arcs s c" "from" for s c "from"
  by unfold_locales simp

text \<open>The abstract state behind a queue: \<open>d\<close> is the level being expanded; the queue holds the
  levels \<open>d\<close> and \<open>d + 1\<close>, in order.\<close>

definition bfs_sim :: "nat \<Rightarrow> bfs_state \<Rightarrow> (node_id \<Rightarrow> nat option) \<Rightarrow> (node_id \<Rightarrow> (node_id \<times> nat) option)
    \<Rightarrow> (nat \<times> node_id) set \<Rightarrow> bool" where
  "bfs_sim d st dst par F \<longleftrightarrow> (case st of (q, visited, parent, came) \<Rightarrow>
     visited = dom dst \<and> par = par_of parent came
     \<and> F = (\<lambda>v. (the (dst v), v)) ` set q \<and> distinct q \<and> set q \<subseteq> dom dst
     \<and> sorted (map (\<lambda>v. the (dst v)) q)
     \<and> (\<forall>v x. dst v = Some x \<longrightarrow> x \<le> d + 1) \<and> (\<forall>v \<in> set q. d \<le> the (dst v)))"

lemma sum_ones: "foldl (+) (a :: nat) (map (\<lambda>(u, e, v). 1) ts) = a + length ts"
  by (induction ts arbitrary: a) auto

lemma sorted_snoc: "sorted (xs @ [x]) \<longleftrightarrow> sorted xs \<and> (\<forall>y \<in> set xs. y \<le> x)"
  by (simp add: sorted_append)

lemma bfs_sim_visit:
  assumes wf: "snapshot_wf s" and refs: "set refs \<subseteq> set (adjacency s cur)"
    and sim: "bfs_sim d st dst par F"
  shows "\<exists>st' dst' par' F'. bfs_visit s c cur refs st = Inr st'
    \<and> fold (bfs.relax cur d)
        (map (\<lambda>r. (r_neighbor r, r_edge_index r, 1))
          (filter (\<lambda>r. collocation_edge (e_type (s_edges s ! r_edge_index r)) \<longrightarrow> c) refs))
        (dst, par, F) = (dst', par', F')
    \<and> bfs_sim d st' dst' par' F'"
  using refs sim
proof (induction refs arbitrary: st dst par F)
  case Nil
  then show ?case by (cases st) simp
next
  case (Cons r refs)
  obtain q visited parent came where st: "st = (q, visited, parent, came)" by (metis surj_pair)
  let ?ok = "collocation_edge (e_type (s_edges s ! r_edge_index r)) \<longrightarrow> c"
  let ?v = "r_neighbor r"
  have trav: "traverse_edge s r c = Inr ?ok"
    using Cons.prems(1) by (intro traverse_adjacency [OF wf]) auto
  show ?case
  proof (cases "?ok \<and> ?v \<notin> visited")
    case False
    have skip: "bfs.relax cur d (?v, r_edge_index r, 1) (dst, par, F) = (dst, par, F)" if "?ok"
    proof -
      have "?v \<in> dom dst" using False that Cons.prems(2) by (auto simp: st bfs_sim_def)
      then show ?thesis using Cons.prems(2) by (auto simp: st bfs_sim_def)
    qed
    then show ?thesis
      using Cons.IH [OF _ Cons.prems(2)] Cons.prems(1) False by (auto simp: st trav Let_def)
  next
    case True
    define st1 :: bfs_state where "st1 = (q @ [?v], insert ?v visited, um_put ?v cur parent, um_put ?v (r_edge_index r) came)"
    have new: "dst ?v = None" and q: "?v \<notin> set q"
      using True Cons.prems(2) by (auto simp: st bfs_sim_def)
    define dst1 where "dst1 = dst(?v \<mapsto> d + 1)"
    have at: "dst1 ?v = Some (d + 1)" "dom dst1 = insert ?v (dom dst)" by (simp_all add: dst1_def)
    have old: "dst1 x = dst x" if "x \<in> set q" for x using that q by (auto simp: dst1_def)
    have bound: "x \<le> d + 1" if "dst1 y = Some x" for x y
      using that Cons.prems(2) by (auto simp: st bfs_sim_def dst1_def split: if_splits)
    have "map (\<lambda>v. the (dst1 v)) q = map (\<lambda>v. the (dst v)) q"
      using old by (intro map_cong) auto
    then have "sorted (map (\<lambda>v. the (dst1 v)) q)"
      using Cons.prems(2) by (simp only: st bfs_sim_def prod.case)
    moreover have "(\<lambda>v. (the (dst1 v), v)) ` set q = (\<lambda>v. (the (dst v), v)) ` set q"
      using old by (intro image_cong) auto
    moreover define par1 where "par1 = par(?v \<mapsto> (cur, r_edge_index r))"
    ultimately have sim: "bfs_sim d st1 dst1 par1 (insert (d + 1, ?v) F)"
      using Cons.prems(2) q old bound at
      by (auto simp: st st1_def bfs_sim_def par_of_put sorted_snoc)
    have relax1: "bfs.relax cur d (?v, r_edge_index r, 1) (dst, par, F) = (dst1, par1, insert (d + 1, ?v) F)"
      using new by (simp only: bfs.relax.simps dst1_def par1_def if_True simp_thms)
    note relax = relax1 [unfolded One_nat_def add_Suc_right add_0_right]
    have "set refs \<subseteq> set (adjacency s cur)" using Cons.prems(1) by simp
    from Cons.IH [OF this sim] True show ?thesis
      by (simp add: st st1_def [symmetric] trav Let_def relax del: bfs.relax.simps)
  qed
qed

lemma bfs_sim_pop:
  assumes "bfs_sim d0 (cur # q, visited, parent, came) dst par F" and "dst cur = Some d"
  shows "bfs_sim d (q, visited, parent, came) dst par (F - {(d, cur)})"
    and "(d, cur) \<in> F" and "\<forall>x \<in> F. d \<le> fst x"
proof -
  from assms have d: "d0 \<le> d" and all: "\<And>v x. dst v = Some x \<Longrightarrow> x \<le> d0 + 1"
    by (auto simp: bfs_sim_def)
  have "x \<le> d + 1" if "dst v = Some x" for v x using all [OF that] d by simp
  then show "bfs_sim d (q, visited, parent, came) dst par (F - {(d, cur)})"
    using assms by (auto simp: bfs_sim_def)
  show "(d, cur) \<in> F" and "\<forall>x \<in> F. d \<le> fst x"
    using assms by (auto simp: bfs_sim_def)
qed

text \<open>The loop, from any state of the invariant.\<close>

lemma bfs_loop_correct:
  "snapshot_wf s \<Longrightarrow> bfs.inv s c from (hop_arcs s c) S dst par F \<Longrightarrow> bfs_sim d0 st dst par F \<Longrightarrow> to \<notin> set S \<Longrightarrow>
    \<exists>found parent came. bfs_loop s c to st = Inr (found, parent, came)
      \<and> (found \<longrightarrow> (\<exists>ts. tree_path (par_of parent came) from to ts \<and> route s c from ts to
            \<and> (\<forall>ts'. route s c from ts' to \<longrightarrow> length ts \<le> length ts')))
      \<and> (\<not> found \<longrightarrow> (\<forall>ts. \<not> route s c from ts to))"
proof (induction s c to st arbitrary: S dst par F d0 rule: bfs_loop.induct)
  case (1 s c to visited parent came)
  note wf = \<open>snapshot_wf s\<close>
  have "F = {}" using 1 by (auto simp: bfs_sim_def)
  with 1 have "\<not> walk (hop_arcs s c) from ts to ks" for ts ks
    by (intro bfs.search_exhausted) simp_all
  then have "\<forall>ts. \<not> route s c from ts to"
    using walk_route [OF wf, of "\<lambda>_ _ _. 1" c "from" _ to] by blast
  then show ?case
    by (intro exI [of _ False] exI [of _ parent] exI [of _ came]) simp
next
  case (2 s c to cur q visited parent came)
  note wf = \<open>snapshot_wf s\<close>
  obtain d where d: "dst cur = Some d" using "2.prems"(3) by (auto simp: bfs_sim_def)
  note pop = bfs_sim_pop [OF "2.prems"(3) d]
  show ?case
  proof (cases "cur = to")
    case True
    obtain ts ks where ts: "tree_path par from to ts" "walk (hop_arcs s c) from ts to ks"
      and least: "\<And>ts' ks'. walk (hop_arcs s c) from ts' to ks' \<Longrightarrow> foldl (+) 0 ks \<le> foldl (+) 0 ks'"
      using bfs.search_optimal [OF "2.prems"(2) pop(2) _ pop(3)] "2.prems"(4) True by blast
    have par: "par = par_of parent came" using "2.prems"(3) by (simp add: bfs_sim_def)
    have "length ts \<le> length ts'" if "route s c from ts' to" for ts'
      using least [of ts' "map (\<lambda>(u, e, v). 1) ts'"] ts(2) that
      by (simp add: walk_route [OF wf] sum_ones [unfolded One_nat_def])
    then show ?thesis using True ts par by (auto simp: walk_route [OF wf])
  next
    case False
    obtain st' dst' par' F' where
      visit: "bfs_visit s c cur (adjacency s cur) (q, visited, parent, came) = Inr st'"
      and fold: "fold (bfs.relax cur d) (hop_arcs s c cur) (dst, par, F - {(d, cur)}) = (dst', par', F')"
      and sim: "bfs_sim d st' dst' par' F'"
      using bfs_sim_visit [OF wf subset_refl pop(1), of c] unfolding arcs_of_def by blast
    have inv: "bfs.inv s c from (hop_arcs s c) (S @ [cur]) dst' par' F'"
      by (rule bfs.inv_expand [OF "2.prems"(2) pop(2) d pop(3) fold])
    have "to \<notin> set (S @ [cur])" using "2.prems"(4) False by simp
    from "2.IH" [OF False visit wf inv sim this] False visit show ?thesis by simp
  qed
qed

theorem shortest_path_total:
  assumes wf: "snapshot_wf s" and closed: "snapshot_closed s"
    and known: "find_node s from \<noteq> None" "find_node s to \<noteq> None"
  shows "\<exists>p. shortest_path s from to c = Some (Inr p) \<and> p_source p = from \<and> p_destination p = to
    \<and> (p_found p \<longleftrightarrow> (\<exists>ts. route s c from ts to))
    \<and> (p_found p \<longrightarrow> route s c from (map hop (p_segments p)) to
          \<and> (\<forall>ts. route s c from ts to \<longrightarrow> length (p_segments p) \<le> length ts)
          \<and> p_hop_count p = of_nat (length (p_segments p)))"
proof (cases "from = to")
  case True
  have "route s c from [] to" using True by simp
  then show ?thesis
    using known True by (auto simp: shortest_path_def default_path_def Let_def intro!: exI [of _ "[]"])
next
  case False
  have sim: "bfs_sim 0 ([from], {from}, [], []) [from \<mapsto> 0] Map.empty {(0, from)}"
    by (auto simp: bfs_sim_def)
  obtain found parent came where
    loop: "bfs_loop s c to ([from], {from}, [], []) = Inr (found, parent, came)"
    and yes: "found \<Longrightarrow> \<exists>ts. tree_path (par_of parent came) from to ts \<and> route s c from ts to
      \<and> (\<forall>ts'. route s c from ts' to \<longrightarrow> length ts \<le> length ts')"
    and no: "\<not> found \<Longrightarrow> \<forall>ts. \<not> route s c from ts to"
    using bfs_loop_correct [OF wf bfs.inv_init sim, of to] by (simp del: bfs_loop.simps) blast
  show ?thesis
  proof (cases found)
    case False
    then show ?thesis
      using known \<open>from \<noteq> to\<close> loop no by (simp add: shortest_path_def default_path_def Let_def)
  next
    case True
    then obtain ts where tree: "tree_path (par_of parent came) from to ts" and route: "route s c from ts to"
      and least: "\<forall>ts'. route s c from ts' to \<longrightarrow> length ts \<le> length ts'" using yes by blast
    have links: "\<forall>(u, e, v) \<in> set ts. link s c u e v" using route_edges [OF route] by auto
    then have "\<forall>(u, e, v) \<in> set ts. e < length (s_edges s)" by (auto simp: link_def)
    then have segs: "rebuild s parent came from to [] = Some (Inr (map (plain_segment s) ts))"
      using rebuild_tree [OF tree, of s "[]"] by simp
    define p where "p = default_path \<lparr> p_source := from, p_destination := to,
      p_segments := map (plain_segment s) ts, p_found := True \<rparr>"
    have hops: "map hop (p_segments p) = ts" by (simp add: p_def o_def)
    obtain q where q: "fill_path s p default_weights = Inr q" "p_segments q = p_segments p" "p_found q"
      "p_source q = from" "p_destination q = to" "p_hop_count q = of_nat (length (p_segments p))"
      using fill_path_total [OF closed, of p c default_weights] links known hops by (auto simp: p_def)
    have "shortest_path s from to c = Some (Inr q)"
      using not_None_eq [THEN iffD1, OF known(1)] not_None_eq [THEN iffD1, OF known(2)]
        \<open>from \<noteq> to\<close> loop segs True q(1)
      by (auto simp: shortest_path_def p_def Let_def simp del: bfs_loop.simps)
    moreover have "length (p_segments q) = length ts" using q(2) hops by (metis length_map)
    ultimately show ?thesis using q route least hops by auto
  qed
qed

end
