(* ===== verification/TF_Dijkstra.thy ===== *)
theory TF_Dijkstra
  imports TF_Path
begin

text \<open>
  \<open>lowest_cost_path\<close> is correct: on a snapshot without dangling edges, under a policy and with
  edge metrics that are not negative, it returns; it reports a path exactly when one exists; and the
  edge costs of that path, added from the source on as the search does, come to no more than those
  of any other route. The reported total adds the same costs from the destination back.
\<close>

definition policy_ok :: "topology_snapshot \<Rightarrow> cost_weights \<Rightarrow> bool" where
  "policy_ok s w \<longleftrightarrow> weights_nonneg w \<and> (\<forall>e \<in> set (s_edges s). metrics_ok e)"

text \<open>The arcs with a proper cost; under such a policy, all of them.\<close>

definition cost_arcs :: "topology_snapshot \<Rightarrow> cost_weights \<Rightarrow> node_id \<Rightarrow> (node_id, nat, f64) arc list" where
  "cost_arcs s w u = filter (\<lambda>a. is_cost (snd (snd a))) (arcs_of (hop_cost_of s w) s False u)"

interpretation dij: search f64_le f64_add is_cost "F_Fin 0" "cost_arcs s w" "from" for s w "from"
  by unfold_locales (simp add: cost_arcs_def)

lemma hop_cost_ok: "policy_ok s w \<Longrightarrow> e < length (s_edges s) \<Longrightarrow> is_cost (hop_cost_of s w u e v)"
  by (simp add: hop_cost_of_def policy_ok_def edge_cost_ok)

lemma adjacency_index: "snapshot_wf s \<Longrightarrow> r \<in> set (adjacency s u) \<Longrightarrow> r_edge_index r < length (s_edges s)"
  by (simp add: adjacency_mem)

lemma cost_arcs_eq:
  assumes "snapshot_wf s" and "policy_ok s w"
  shows "cost_arcs s w = arcs_of (hop_cost_of s w) s False"
proof
  fix u
  have "is_cost (snd (snd a))" if "a \<in> set (arcs_of (hop_cost_of s w) s False u)" for a
    using that hop_cost_ok [OF assms(2) adjacency_index [OF assms(1)]] by (auto simp: arcs_of_def)
  then show "cost_arcs s w u = arcs_of (hop_cost_of s w) s False u"
    by (simp add: cost_arcs_def)
qed

section \<open>The top of the queue\<close>

lemma entry_less_le:
  assumes "is_cost (fst x)" and "is_cost (fst y)"
  shows "entry_less y x \<Longrightarrow> f64_le (fst y) (fst x)" and "\<not> entry_less y x \<Longrightarrow> f64_le (fst x) (fst y)"
  using assms [THEN is_cost_not_NaN] f64_lt_iff [of "fst x" "fst y"] f64_lt_iff [of "fst y" "fst x"]
    f64_le_total [of "fst x" "fst y"]
  by (auto simp: entry_less_def)

lemma pq_top_mem: "pq_top x xs \<in> set (x # xs)"
proof (induction x xs rule: pq_top.induct)
  case (2 x y ys)
  then show ?case by (auto split: if_splits)
qed simp

lemma pq_top_least:
  "\<forall>y \<in> set (x # xs). is_cost (fst y) \<Longrightarrow> \<forall>y \<in> set (x # xs). f64_le (fst (pq_top x xs)) (fst y)"
proof (induction x xs rule: pq_top.induct)
  case (1 x)
  then show ?case by (simp add: f64_le_refl is_cost_not_NaN)
next
  case (2 x y ys)
  let ?z = "if entry_less y x then y else x"
  have "\<forall>a \<in> set (?z # ys). is_cost (fst a)" using "2.prems" by auto
  from "2.IH" [OF this] have le: "\<forall>a \<in> set (?z # ys). f64_le (fst (pq_top ?z ys)) (fst a)" .
  have "f64_le (fst ?z) (fst x)" "f64_le (fst ?z) (fst y)"
    using entry_less_le [of x y] "2.prems" f64_le_refl is_cost_not_NaN by auto
  moreover have "f64_le (fst (pq_top ?z ys)) (fst ?z)" using le by simp
  ultimately have "f64_le (fst (pq_top ?z ys)) (fst x)" "f64_le (fst (pq_top ?z ys)) (fst y)"
    by (blast intro: f64_le_trans)+
  with le show ?case by (simp only: pq_top.simps(2) list.set) blast
qed

section \<open>Relaxing the adjacency list\<close>

definition dij_sim :: "topology_snapshot \<Rightarrow> node_id \<Rightarrow> relax_state \<Rightarrow> (node_id \<Rightarrow> f64 option)
    \<Rightarrow> (node_id \<Rightarrow> (node_id \<times> nat) option) \<Rightarrow> (f64 \<times> node_id) set \<Rightarrow> bool" where
  "dij_sim s from st dst par F \<longleftrightarrow> (case st of (pq, dm, parent, came) \<Rightarrow>
     dst = um_find dm \<and> par = par_of parent came \<and> F = set pq \<and> distinct pq
     \<and> dom dst \<subseteq> insert from (ref_targets s)
     \<and> (\<forall>v x. dst v = Some x \<longrightarrow> is_cost x)
     \<and> (\<forall>(x, v) \<in> F. is_cost x \<and> (\<exists>y. dst v = Some y \<and> f64_le y x)))"

lemma dij_sim_relax:
  assumes wf: "snapshot_wf s" and closed: "snapshot_closed s" and policy: "policy_ok s w"
    and d: "is_cost d" and refs: "set refs \<subseteq> set (adjacency s u)" and sim: "dij_sim s from st dst par F"
  shows "\<exists>st' dst' par' F'. relax_refs s w d u refs st = Inr st'
    \<and> fold (dij.relax u d)
        (map (\<lambda>r. (r_neighbor r, r_edge_index r, hop_cost_of s w u (r_edge_index r) (r_neighbor r)))
          (filter (\<lambda>r. collocation_edge (e_type (s_edges s ! r_edge_index r)) \<longrightarrow> False) refs))
        (dst, par, F) = (dst', par', F')
    \<and> dij_sim s from st' dst' par' F'"
  using refs sim
proof (induction refs arbitrary: st dst par F)
  case Nil
  then show ?case by (cases st) simp
next
  case (Cons r refs)
  obtain pq dm parent came where st: "st = (pq, dm, parent, came)" by (metis surj_pair)
  let ?v = "r_neighbor r" and ?e = "r_edge_index r"
  let ?ok = "collocation_edge (e_type (s_edges s ! ?e)) \<longrightarrow> False"
  let ?nd = "f64_add d (hop_cost_of s w u ?e ?v)"
  have r: "r \<in> set (adjacency s u)" and refs: "set refs \<subseteq> set (adjacency s u)" using Cons.prems(1) by auto
  have trav: "traverse_edge s r False = Inr ?ok" by (rule traverse_adjacency [OF wf r])
  show ?case
  proof (cases ?ok)
    case False
    then show ?thesis using Cons.IH [OF refs Cons.prems(2)] by (simp add: st trav)
  next
    case True
    have "link s True u ?e ?v" using r by (auto simp: link_def adjacency_mem [OF wf] Let_def)
    note look = link_closed [OF closed this]
    have nd: "is_cost ?nd"
      by (intro is_cost_add d hop_cost_ok [OF policy adjacency_index [OF wf r]])
    let ?better = "case um_find dm ?v of None \<Rightarrow> True | Some dv \<Rightarrow> f64_lt ?nd dv"
    have better: "?better \<longleftrightarrow> dst ?v = None \<or> \<not> f64_le (the (dst ?v)) ?nd"
    proof (cases "dst ?v")
      case (Some dv)
      then have "is_cost dv" using Cons.prems(2) by (auto simp: st dij_sim_def)
      then show ?thesis
        using Some Cons.prems(2) nd by (auto simp: st dij_sim_def f64_lt_iff is_cost_not_NaN)
    qed (use Cons.prems(2) in \<open>auto simp: st dij_sim_def\<close>)
    define st1 where "st1 = (if ?better
      then (pq @ [(?nd, ?v)], um_put ?v ?nd dm, um_put ?v u parent, um_put ?v ?e came) else st)"
    have step: "relax_refs s w d u (r # refs) st = relax_refs s w d u refs st1"
      using True by (simp add: st st1_def trav look Let_def hop_cost_of_def split: option.splits)
    obtain dst1 par1 F1 where relax: "dij.relax u d (?v, ?e, hop_cost_of s w u ?e ?v) (dst, par, F) = (dst1, par1, F1)"
      by (metis surj_pair)
    have "dij_sim s from st1 dst1 par1 F1"
    proof (cases ?better)
      case False
      then have "(dst1, par1, F1) = (dst, par, F)" using relax better by auto
      then show ?thesis using False Cons.prems(2) by (simp add: st1_def)
    next
      case b: True
      then have new: "dst1 = dst(?v \<mapsto> ?nd)" "par1 = par(?v \<mapsto> (u, ?e))" "F1 = insert (?nd, ?v) F"
        using relax better by auto
      have lower: "dst ?v = Some y \<Longrightarrow> f64_le ?nd y \<and> \<not> f64_le y ?nd" for y
        using b better Cons.prems(2) nd f64_le_total [of ?nd y] is_cost_not_NaN
        by (auto simp: st dij_sim_def)
      have out: "(?nd, ?v) \<notin> F" using lower Cons.prems(2) by (fastforce simp: st dij_sim_def)
      have F1: "is_cost x \<and> (\<exists>y. dst1 v = Some y \<and> f64_le y x)" if "(x, v) \<in> F1" for x v
      proof (cases "(x, v) \<in> F")
        case True
        then obtain y where "is_cost x" "dst v = Some y" "f64_le y x"
          using Cons.prems(2) by (fastforce simp: st dij_sim_def)
        then show ?thesis using lower f64_le_trans by (cases "v = ?v") (auto simp: new)
      next
        case False
        then have "x = ?nd" "v = ?v" using that by (auto simp: new)
        then show ?thesis using nd f64_le_refl is_cost_not_NaN by (auto simp: new)
      qed
      have "dst1 = um_find (um_put ?v ?nd dm)"
        using Cons.prems(2) by (auto simp: st dij_sim_def new um_find_put)
      moreover have "dom dst1 \<subseteq> insert from (ref_targets s)"
        using Cons.prems(2) adjacency_targets [OF r] by (auto simp: st dij_sim_def new)
      moreover have "\<forall>v x. dst1 v = Some x \<longrightarrow> is_cost x"
        using Cons.prems(2) nd by (auto simp: st dij_sim_def new)
      moreover have "par1 = par_of (um_put ?v u parent) (um_put ?v ?e came)"
        using Cons.prems(2) by (simp add: st dij_sim_def new par_of_put)
      moreover have "F1 = set (pq @ [(?nd, ?v)])" and "distinct (pq @ [(?nd, ?v)])"
        using Cons.prems(2) out by (auto simp: st dij_sim_def new)
      moreover have "\<forall>(x, v) \<in> F1. is_cost x \<and> (\<exists>y. dst1 v = Some y \<and> f64_le y x)"
        using F1 by blast
      ultimately show ?thesis
        unfolding st1_def if_P [OF b] dij_sim_def prod.case by (intro conjI)
    qed
    from Cons.IH [OF refs this] True show ?thesis
      by (simp only: step) (simp add: relax del: dij.relax.simps)
  qed
qed

section \<open>The loop\<close>

definition route_cost :: "topology_snapshot \<Rightarrow> cost_weights \<Rightarrow> (node_id \<times> nat \<times> node_id) list \<Rightarrow> f64" where
  "route_cost s w ts = foldl f64_add (F_Fin 0) (map (\<lambda>(u, e, v). hop_cost_of s w u e v) ts)"

text \<open>A result of the loop is right: the tree leads to the goal over a route of least cost, or there
  is no route.\<close>

definition dij_result :: "topology_snapshot \<Rightarrow> cost_weights \<Rightarrow> node_id \<Rightarrow> node_id \<Rightarrow> bool \<times> parent_map \<times> came_map \<Rightarrow> bool" where
  "dij_result s w from to res \<longleftrightarrow> (case res of (found, parent, came) \<Rightarrow>
     if found
     then (\<exists>ts. tree_path (par_of parent came) from to ts \<and> route s False from ts to
        \<and> (\<forall>ts'. route s False from ts' to \<longrightarrow> f64_le (route_cost s w ts) (route_cost s w ts')))
     else (\<forall>ts. \<not> route s False from ts to))"

lemma remove_top:
  assumes "pq \<noteq> []" and "distinct pq"
  shows "set (remove1 (pq_top (hd pq) (tl pq)) pq) = set pq - {pq_top (hd pq) (tl pq)}"
    and "distinct (remove1 (pq_top (hd pq) (tl pq)) pq)"
    and "length (remove1 (pq_top (hd pq) (tl pq)) pq) < length pq"
    and "pq_top (hd pq) (tl pq) \<in> set pq"
proof -
  show mem: "pq_top (hd pq) (tl pq) \<in> set pq"
    using assms(1) pq_top_mem [of "hd pq" "tl pq"] by (cases pq) auto
  show "length (remove1 (pq_top (hd pq) (tl pq)) pq) < length pq"
    using mem assms(1) by (simp add: length_remove1)
qed (use assms in auto)

lemma dijkstra_loop_correct:
  assumes wf: "snapshot_wf s" and closed: "snapshot_closed s" and policy: "policy_ok s w"
  shows "dij.inv s w from (cost_arcs s w) S dst par F \<Longrightarrow>
    dij_sim s from (pq, dm, parent, came) dst par F \<Longrightarrow> to \<notin> set S \<Longrightarrow>
    \<exists>res. dijkstra_loop s w to pq dm parent came = Some (Inr res) \<and> dij_result s w from to res"
proof (induction "(card (insert from (ref_targets s) - set S), length pq)"
    arbitrary: S dst par F pq dm parent came rule: wf_induct_rule [OF wf_lex_prod [OF wf_less wf_less]])
  case 1
  note inv = 1(2) and sim = 1(3) and new = 1(4)
  note arcs = cost_arcs_eq [OF wf policy]
  have core: "dij.core s w from S dst par F" using inv by (simp add: dij.inv_def)
  have F: "F = set pq" and dist: "distinct pq" and dst: "dst = um_find dm" and par: "par = par_of parent came"
    using sim by (auto simp: dij_sim_def)
  show ?case
  proof (cases "pq = []")
    case True
    then have "\<not> walk (cost_arcs s w) from ts to ks" for ts ks
      using inv new F by (intro dij.search_exhausted) simp_all
    then have "\<forall>ts. \<not> route s False from ts to"
      using walk_route [OF wf, of "hop_cost_of s w" False "from" _ to] unfolding arcs by blast
    then show ?thesis
      using True by (subst dijkstra_loop.simps) (simp add: dij_result_def)
  next
    case False
    obtain d u where top: "pq_top (hd pq) (tl pq) = (d, u)" by fastforce
    note rm = remove_top [OF False dist, unfolded top]
    have mem: "(d, u) \<in> F" using rm(4) F by simp
    have cost: "is_cost d" using sim mem by (auto simp: dij_sim_def)
    have "\<forall>y \<in> set pq. is_cost (fst y)" using sim by (fastforce simp: dij_sim_def)
    then have least: "\<forall>x \<in> F. f64_le d (fst x)"
      using pq_top_least [of "hd pq" "tl pq"] unfolding list.collapse [OF False] top F by simp
    let ?pq = "remove1 (d, u) pq"
    have sim': "dij_sim s from (?pq, dm, parent, came) dst par (F - {(d, u)})"
      using sim rm(1,2) by (auto simp: dij_sim_def)
    obtain du where du: "dst u = Some du" "d = du \<or> \<not> f64_le d du"
      using dij.core_frontier [OF core mem] by blast
    have du_cost: "is_cost du" using sim du(1) by (auto simp: dij_sim_def)
    have get: "um_get (F_Fin 0) dm u = du" using du(1) dst by (simp add: um_get_def)
    have stale: "f64_lt du d \<longleftrightarrow> d \<noteq> du"
      using du(2) f64_lt_iff [OF is_cost_not_NaN is_cost_not_NaN, OF du_cost cost] f64_le_refl [OF is_cost_not_NaN, OF du_cost]
      by auto
    show ?thesis
    proof (cases "u = to")
      case True
      obtain ts ks where ts: "tree_path par from to ts" "walk (cost_arcs s w) from ts to ks"
        and best: "\<And>ts' ks'. walk (cost_arcs s w) from ts' to ks' \<Longrightarrow>
          f64_le (foldl f64_add (F_Fin 0) ks) (foldl f64_add (F_Fin 0) ks')"
        using dij.search_optimal [OF inv mem _ least] new True by blast
      have "f64_le (route_cost s w ts) (route_cost s w ts')" if "route s False from ts' to" for ts'
        using best [of ts'] ts(2) that unfolding arcs walk_route [OF wf] route_cost_def by blast
      moreover have "route s False from ts to" using ts(2) unfolding arcs walk_route [OF wf] by blast
      ultimately have "dij_result s w from to (True, parent, came)"
        using ts(1) par by (auto simp: dij_result_def)
      then show ?thesis
        using False True by (subst dijkstra_loop.simps) (simp add: top)
    next
      case ne: False
      show ?thesis
      proof (cases "d = du")
        case False
        have "dij.inv s w from (cost_arcs s w) S dst par (F - {(d, u)})"
          using du False by (intro dij.inv_stale [OF inv du(1)]) auto
        from 1(1) [OF _ this sim' new] rm(3)
        obtain res where "dijkstra_loop s w to ?pq dm parent came = Some (Inr res)" "dij_result s w from to res"
          by auto
        then show ?thesis
          using \<open>pq \<noteq> []\<close> ne False stale by (subst dijkstra_loop.simps) (simp add: top get)
      next
        case True
        obtain st' dst' par' F' where
          relax: "relax_refs s w d u (adjacency s u) (?pq, dm, parent, came) = Inr st'"
          and fold: "fold (dij.relax u d) (cost_arcs s w u) (dst, par, F - {(d, u)}) = (dst', par', F')"
          and sim2: "dij_sim s from st' dst' par' F'"
          using dij_sim_relax [OF wf closed policy cost subset_refl sim'] unfolding arcs arcs_of_def by blast
        obtain pq2 dm2 parent2 came2 where st': "st' = (pq2, dm2, parent2, came2)" by (metis surj_pair)
        have inv2: "dij.inv s w from (cost_arcs s w) (S @ [u]) dst' par' F'"
          using du(1) True by (intro dij.inv_expand [OF inv mem _ least fold]) simp
        have "u \<in> insert from (ref_targets s)" using sim du(1) by (auto simp: dij_sim_def)
        moreover have "u \<notin> set S" using dij.core_expanded [OF core, of u] mem du(1) True by auto
        ultimately have "card (insert from (ref_targets s) - set (S @ [u])) < card (insert from (ref_targets s) - set S)"
          by (intro psubset_card_mono) (auto simp: ref_targets_def)
        moreover have "to \<notin> set (S @ [u])" using new ne by simp
        ultimately obtain res where "dijkstra_loop s w to pq2 dm2 parent2 came2 = Some (Inr res)" "dij_result s w from to res"
          using 1(1) [OF _ inv2 sim2 [unfolded st']] by auto
        then show ?thesis
          using \<open>pq \<noteq> []\<close> ne True stale relax by (subst dijkstra_loop.simps) (simp add: top get st')
      qed
    qed
  qed
qed

theorem lowest_cost_path_total:
  assumes wf: "snapshot_wf s" and closed: "snapshot_closed s" and policy: "policy_ok s w"
    and known: "find_node s from = Some nf" "find_node s to = Some nt"
  shows "\<exists>p. lowest_cost_path s from to w = Some (Inr p) \<and> p_source p = from \<and> p_destination p = to
    \<and> (p_found p \<longleftrightarrow> (\<exists>ts. route s False from ts to)) \<and> (\<not> p_found p \<longrightarrow> p_segments p = [])
    \<and> (p_found p \<longrightarrow> route s False from (map hop (p_segments p)) to
          \<and> (\<forall>ts. route s False from ts to \<longrightarrow>
                f64_le (route_cost s w (map hop (p_segments p))) (route_cost s w ts))
          \<and> p_segments p = map (cost_segment s w) (map hop (p_segments p))
          \<and> p_total_cost p = add_if (crosses_numa nf nt \<and> from \<noteq> to) (w_numa_penalty w)
                (foldl f64_add (F_Fin 0) (map g_edge_cost (rev (p_segments p)))))"
proof (cases "from = to")
  case True
  have "route s False from [] to" using True by simp
  moreover have "is_cost (route_cost s w ts)" if "route s False from ts to" for ts
  proof -
    have "walk (cost_arcs s w) from ts to (map (\<lambda>(u, e, v). hop_cost_of s w u e v) ts)"
      using that unfolding cost_arcs_eq [OF wf policy] walk_route [OF wf] by simp
    then show ?thesis unfolding route_cost_def by (rule dij.walk_cost)
  qed
  then have "f64_le (F_Fin 0) (route_cost s w ts)" if "route s False from ts to" for ts
    using that by (simp add: is_cost_def)
  ultimately show ?thesis
    using known True
    by (auto simp: lowest_cost_path_def default_path_def Let_def add_if_def route_cost_def intro!: exI [of _ "[]"])
next
  case False
  have sim: "dij_sim s from ([(F_Fin 0, from)], [(from, F_Fin 0)], [], []) [from \<mapsto> F_Fin 0] Map.empty {(F_Fin 0, from)}"
    by (auto simp: dij_sim_def um_find_def f64_le_def)
  obtain found parent came where
    loop: "dijkstra_loop s w to [(F_Fin 0, from)] [(from, F_Fin 0)] [] [] = Some (Inr (found, parent, came))"
    and res: "dij_result s w from to (found, parent, came)"
    using dijkstra_loop_correct [OF wf closed policy dij.inv_init sim, of to] by auto
  show ?thesis
  proof (cases found)
    case False
    then show ?thesis
      using known \<open>from \<noteq> to\<close> loop res
      by (simp add: lowest_cost_path_def default_path_def Let_def dij_result_def)
  next
    case True
    then obtain ts where tree: "tree_path (par_of parent came) from to ts" and route: "route s False from ts to"
      and least: "\<forall>ts'. route s False from ts' to \<longrightarrow> f64_le (route_cost s w ts) (route_cost s w ts')"
      using res by (auto simp: dij_result_def)
    have links: "\<forall>(u, e, v) \<in> set ts. link s False u e v" using route_edges [OF route] by auto
    let ?tot = "foldl f64_add (F_Fin 0) (map (\<lambda>(u, e, v). hop_cost_of s w u e v) (rev ts))"
    have segs: "rebuild_cost s w parent came from to (F_Fin 0) [] = Some (Inr (?tot, map (cost_segment s w) ts))"
      using rebuild_cost_tree [OF closed tree links, of w "F_Fin 0" "[]"] by simp
    define p where "p = default_path \<lparr> p_source := from, p_destination := to,
      p_segments := map (cost_segment s w) ts, p_found := True,
      p_total_cost := add_if (crosses_numa nf nt) (w_numa_penalty w) ?tot \<rparr>"
    have hops: "map hop (p_segments p) = ts" by (simp add: p_def o_def)
    obtain q where q: "fill_path s p w = Inr q" "p_segments q = p_segments p" "p_found q"
      "p_source q = from" "p_destination q = to" "p_total_cost q = p_total_cost p"
      using fill_path_total [OF closed, of p False w] links known hops by (auto simp: p_def)
    have "lowest_cost_path s from to w = Some (Inr q)"
      using known \<open>from \<noteq> to\<close> loop segs True q(1) by (simp add: lowest_cost_path_def p_def Let_def)
    moreover have "map g_edge_cost (rev (p_segments q)) = map (\<lambda>(u, e, v). hop_cost_of s w u e v) (rev ts)"
      unfolding q(2) by (auto simp: p_def cost_segment_def rev_map)
    moreover have "p_segments q = map (cost_segment s w) (map hop (p_segments q))"
      unfolding q(2) hops by (simp add: p_def)
    ultimately show ?thesis
      using q route least hops \<open>from \<noteq> to\<close> by (auto simp: p_def)
  qed
qed

end
