(* ===== verification/TF_Cost.thy ===== *)
theory TF_Cost
  imports TF_Shortest TF_Dijkstra
begin

text \<open>
  Cost breakdowns and distances (\<open>cost.cpp\<close>, \<open>distance_between\<close> in \<open>locality.cpp\<close>).

  The lemmas show that on a route of a snapshot without dangling edges the breakdown succeeds and
  each of its components is the sum, along the route, of what the edges contribute; that hop counts
  are symmetric; and that the normalised score of a finite non-negative total lies between 0 and 1.
\<close>

section \<open>Sequencing with non-termination\<close>

text \<open>\<open>None\<close> is not returning, \<open>Some (Inl e)\<close> an exception.\<close>

fun obind :: "'a tresult option \<Rightarrow> ('a \<Rightarrow> 'b tresult option) \<Rightarrow> 'b tresult option" where
  "obind None f = None"
| "obind (Some (Inl e)) f = Some (Inl e)"
| "obind (Some (Inr x)) f = f x"

section \<open>The breakdown of a path's cost\<close>

record cost_breakdown =
  cb_hop_penalty :: f64
  cb_numa_penalty :: f64
  cb_pci_bridge_penalty :: f64
  cb_root_crossing_penalty :: f64
  cb_latency_term :: f64
  cb_inverse_bandwidth_term :: f64
  cb_uncertainty_penalty :: f64
  cb_policy_penalty :: f64
  cb_node_transition_penalty :: f64
  cb_total :: f64
  cb_policy_version :: "32 word"

definition default_breakdown :: cost_breakdown where
  "default_breakdown = \<lparr> cb_hop_penalty = F_Fin 0, cb_numa_penalty = F_Fin 0,
     cb_pci_bridge_penalty = F_Fin 0, cb_root_crossing_penalty = F_Fin 0, cb_latency_term = F_Fin 0,
     cb_inverse_bandwidth_term = F_Fin 0, cb_uncertainty_penalty = F_Fin 0,
     cb_policy_penalty = F_Fin 0, cb_node_transition_penalty = F_Fin 0, cb_total = F_Fin 0,
     cb_policy_version = 0 \<rparr>"

definition accumulate ::
  "topology_node \<Rightarrow> topology_node \<Rightarrow> topology_edge \<Rightarrow> cost_weights \<Rightarrow> cost_breakdown \<Rightarrow> cost_breakdown" where
  "accumulate u v e w cb =
     cb \<lparr> cb_hop_penalty := f64_add (cb_hop_penalty cb) (w_hop_penalty w),
          cb_latency_term := f64_add (cb_latency_term cb)
            (f64_mul (w_latency_ns_weight w) (edge_latency u v e)),
          cb_inverse_bandwidth_term := f64_add (cb_inverse_bandwidth_term cb)
            (f64_mul (w_bandwidth_scale w) (f64_div (w_bandwidth_ref_bps w) (edge_bandwidth u v e w))),
          cb_pci_bridge_penalty := add_if (n_type v = NT_PCI_BRIDGE) (w_pci_bridge_penalty w)
            (cb_pci_bridge_penalty cb),
          cb_root_crossing_penalty := add_if (n_type v = NT_PCI_ROOT) (w_root_crossing_penalty w)
            (cb_root_crossing_penalty cb),
          cb_node_transition_penalty := add_if (hardware_class (n_type u) \<noteq> hardware_class (n_type v))
            (w_node_transition_penalty w) (cb_node_transition_penalty cb),
          cb_uncertainty_penalty := add_if (low_confidence e) (w_uncertainty_penalty w)
            (cb_uncertainty_penalty cb),
          cb_policy_penalty := f64_add (cb_policy_penalty cb) (w_policy_penalty w) \<rparr>"

fun accumulate_segments ::
  "topology_snapshot \<Rightarrow> cost_weights \<Rightarrow> path_segment list \<Rightarrow> cost_breakdown \<Rightarrow> cost_breakdown tresult" where
  "accumulate_segments s w [] cb = Inr cb"
| "accumulate_segments s w (seg # segs) cb =
     tbind (snap_node s (g_from seg)) (\<lambda>u. tbind (snap_node s (g_to seg)) (\<lambda>v.
     tbind (snap_edge s (g_edge_index seg)) (\<lambda>e.
       accumulate_segments s w segs (accumulate u v e w cb))))"

definition breakdown_total :: "cost_breakdown \<Rightarrow> f64" where
  "breakdown_total cb =
     f64_add (f64_add (f64_add (f64_add (f64_add (f64_add (f64_add (f64_add
       (cb_hop_penalty cb) (cb_numa_penalty cb)) (cb_pci_bridge_penalty cb))
       (cb_root_crossing_penalty cb)) (cb_latency_term cb)) (cb_inverse_bandwidth_term cb))
       (cb_uncertainty_penalty cb)) (cb_policy_penalty cb)) (cb_node_transition_penalty cb)"

definition cost_breakdown :: "topology_snapshot \<Rightarrow> topology_path \<Rightarrow> cost_weights \<Rightarrow> cost_breakdown tresult" where
  "cost_breakdown s p w =
     tbind (accumulate_segments s w (p_segments p)
              (default_breakdown \<lparr> cb_policy_version := w_version w \<rparr>)) (\<lambda>cb.
     tbind (snap_node s (p_source p)) (\<lambda>src. tbind (snap_node s (p_destination p)) (\<lambda>dst.
       let cb = cb \<lparr> cb_numa_penalty := add_if (crosses_numa src dst) (w_numa_penalty w)
                       (cb_numa_penalty cb) \<rparr>
       in Inr (cb \<lparr> cb_total := breakdown_total cb \<rparr>))))"

definition path_cost :: "topology_snapshot \<Rightarrow> topology_path \<Rightarrow> cost_weights \<Rightarrow> cost_breakdown tresult" where
  "path_cost s p w = cost_breakdown s p w"

section \<open>Distance\<close>

record distance_breakdown =
  db_graph_hops :: int
  db_pci_depth :: int
  db_root_crossings :: int
  db_device_class_transitions :: int
  db_numa_distance :: "f64 option"
  db_measured_latency_ns :: "f64 option"
  db_measured_bandwidth_bps :: "f64 option"
  db_configured_penalty :: f64
  db_uncertainty :: f64
  db_normalized_score :: f64

definition default_distance :: distance_breakdown where
  "default_distance = \<lparr> db_graph_hops = 0, db_pci_depth = 0, db_root_crossings = 0,
     db_device_class_transitions = 0, db_numa_distance = None, db_measured_latency_ns = None,
     db_measured_bandwidth_bps = None, db_configured_penalty = F_Fin 0, db_uncertainty = F_Fin 0,
     db_normalized_score = F_Fin 0 \<rparr>"

text \<open>The counting loops over the segments.\<close>

definition count_if :: "bool list \<Rightarrow> int" where
  "count_if bs = int (length (filter id bs))"

definition pci_depth :: "topology_snapshot \<Rightarrow> path_segment list \<Rightarrow> int tresult" where
  "pci_depth s segs = tbind (tmap (\<lambda>seg. snap_node s (g_to seg)) segs) (\<lambda>ns.
     Inr (count_if (map (\<lambda>n. n_type n = NT_PCI_BRIDGE \<or> n_type n = NT_PCI_ROOT) ns)))"

definition class_transitions :: "topology_snapshot \<Rightarrow> path_segment list \<Rightarrow> int tresult" where
  "class_transitions s segs =
     tbind (tmap (\<lambda>seg. tbind (snap_node s (g_from seg)) (\<lambda>u. tbind (snap_node s (g_to seg)) (\<lambda>v.
              Inr (hardware_class (n_type u) \<noteq> hardware_class (n_type v))))) segs) (\<lambda>bs.
     Inr (count_if bs))"

definition low_confidence_sum :: "topology_snapshot \<Rightarrow> path_segment list \<Rightarrow> f64 tresult" where
  "low_confidence_sum s segs = tbind (tmap (\<lambda>seg. snap_edge s (g_edge_index seg)) segs) (\<lambda>es.
     Inr (foldl (\<lambda>c e. add_if (low_confidence e) (F_Fin 1) c) (F_Fin 0) es))"

definition crosses_roots :: "topology_snapshot \<Rightarrow> node_id \<Rightarrow> node_id \<Rightarrow> bool" where
  "crosses_roots s from to \<longleftrightarrow>
     (let ra = root_ancestor s from NT_PCI_ROOT; rb = root_ancestor s to NT_PCI_ROOT in
      ra \<noteq> kNullNodeId \<and> rb \<noteq> kNullNodeId \<and> ra \<noteq> rb)"

definition numa_distance :: "topology_node \<Rightarrow> topology_node \<Rightarrow> f64 option" where
  "numa_distance na nb =
     (case (ni_numa_node (n_native na), ni_numa_node (n_native nb)) of
        (Some a, Some b) \<Rightarrow> Some (if a = b then F_Fin 0 else F_Fin 1)
      | _ \<Rightarrow> None)"

definition normalized_score :: "f64 \<Rightarrow> f64" where
  "normalized_score t = f64_div t (f64_add t (F_Fin 1))"

definition distance_of_path ::
  "topology_snapshot \<Rightarrow> node_id \<Rightarrow> node_id \<Rightarrow> cost_weights \<Rightarrow> topology_path \<Rightarrow> distance_breakdown tresult" where
  "distance_of_path s from to w sp =
     tbind (pci_depth s (p_segments sp)) (\<lambda>depth.
     tbind (class_transitions s (p_segments sp)) (\<lambda>trans.
     tbind (snap_node s from) (\<lambda>na. tbind (snap_node s to) (\<lambda>nb.
     tbind (path_cost s sp w) (\<lambda>cb.
     tbind (low_confidence_sum s (p_segments sp)) (\<lambda>conf_penalty.
       Inr \<lparr> db_graph_hops = sint (p_hop_count sp), db_pci_depth = depth,
             db_root_crossings = (if crosses_roots s from to then 1 else 0),
             db_device_class_transitions = trans, db_numa_distance = numa_distance na nb,
             db_measured_latency_ns = Some (p_estimated_latency_ns sp),
             db_measured_bandwidth_bps = Some (p_estimated_bandwidth_bps sp),
             db_configured_penalty = cb_policy_penalty cb, db_uncertainty = conf_penalty,
             db_normalized_score = normalized_score (cb_total cb) \<rparr>))))))"

definition distance_between ::
  "topology_snapshot \<Rightarrow> node_id \<Rightarrow> node_id \<Rightarrow> cost_weights \<Rightarrow> distance_breakdown tresult option" where
  "distance_between s from to w =
     (if from = to then Some (Inr (default_distance \<lparr> db_graph_hops := 0, db_normalized_score := F_Fin 0 \<rparr>))
      else obind (shortest_path s from to False) (\<lambda>sp.
        if \<not> p_found sp
        then Some (Inr (default_distance \<lparr> db_graph_hops := -1, db_normalized_score := F_Fin 1,
                                           db_uncertainty := F_Fin 1 \<rparr>))
        else Some (distance_of_path s from to w sp)))"

text \<open>A counter never exceeds the number of segments, so it stays below \<open>2 ^ 31\<close> on every path that a program
  can hold; the \<open>int\<close> of the code does not overflow.\<close>

lemma count_if_bounds: "0 \<le> count_if bs \<and> count_if bs \<le> int (length bs)"
  by (simp add: count_if_def)

lemma length_tmap: "tmap f xs = Inr ys \<Longrightarrow> length ys = length xs"
  by (induction xs arbitrary: ys) (auto simp: tbind_Inr_iff)

lemma counter_bounds:
  "pci_depth s segs = Inr d \<Longrightarrow> 0 \<le> d \<and> d \<le> int (length segs)"
  "class_transitions s segs = Inr d' \<Longrightarrow> 0 \<le> d' \<and> d' \<le> int (length segs)"
  by (auto simp: pci_depth_def class_transitions_def tbind_Inr_iff dest!: length_tmap
      intro!: order_trans [OF conjunct2 [OF count_if_bounds]] conjunct1 [OF count_if_bounds])

section \<open>The breakdown along a route\<close>

definition on_route :: "topology_snapshot \<Rightarrow> path_segment list \<Rightarrow> bool" where
  "on_route s segs \<longleftrightarrow> (\<forall>t \<in> set segs. link s True (g_from t) (g_edge_index t) (g_to t))"

lemma route_on_route:
  assumes "route s c x (map hop segs) y"
  shows "on_route s segs"
proof -
  have "link s True u e v" if "(u, e, v) \<in> set (map hop segs)" for u e v
    using route_edges [OF assms that] by (auto simp: link_def Let_def)
  then show ?thesis by (force simp: on_route_def hop_def)
qed

lemma on_route_look:
  assumes "snapshot_closed s" and "on_route s segs" and "seg \<in> set segs"
  shows "snap_node s (g_from seg) = Inr (node_of s (g_from seg))"
    and "snap_node s (g_to seg) = Inr (node_of s (g_to seg))"
    and "snap_edge s (g_edge_index seg) = Inr (s_edges s ! g_edge_index seg)"
proof -
  have "link s True (g_from seg) (g_edge_index seg) (g_to seg)" using assms(2,3) by (simp add: on_route_def)
  note link_closed [OF assms(1) this]
  then show "snap_node s (g_from seg) = Inr (node_of s (g_from seg))"
    and "snap_node s (g_to seg) = Inr (node_of s (g_to seg))"
    and "snap_edge s (g_edge_index seg) = Inr (s_edges s ! g_edge_index seg)" by auto
qed

text \<open>The nodes and the edge of each segment.\<close>

definition steps :: "topology_snapshot \<Rightarrow> path_segment list \<Rightarrow> (topology_node \<times> topology_node \<times> topology_edge) list" where
  "steps s segs = map (\<lambda>g. (node_of s (g_from g), node_of s (g_to g), s_edges s ! g_edge_index g)) segs"

lemma accumulate_segments_eq:
  assumes "snapshot_closed s"
  shows "on_route s segs \<Longrightarrow>
    accumulate_segments s w segs cb = Inr (fold (\<lambda>(u, v, e). accumulate u v e w) (steps s segs) cb)"
proof (induction segs arbitrary: cb)
  case (Cons seg segs)
  then have "on_route s segs" by (simp add: on_route_def)
  then show ?case
    using on_route_look [OF assms Cons.prems, of seg] Cons.IH by (simp add: steps_def)
qed (simp add: steps_def)

text \<open>What the edges of a route contribute to a component, added in route order.\<close>

definition sum_over :: "('a \<Rightarrow> bool) \<Rightarrow> ('a \<Rightarrow> f64) \<Rightarrow> 'a list \<Rightarrow> f64 \<Rightarrow> f64" where
  "sum_over P f xs c = foldl f64_add c (map f (filter P xs))"

lemma sum_over_simps [simp]:
  "sum_over P f [] c = c"
  "sum_over P f (x # xs) c = sum_over P f xs (add_if (P x) (f x) c)"
  by (simp_all add: sum_over_def add_if_def)

lemma add_if_True [simp]: "add_if True x c = f64_add c x"
  by (simp add: add_if_def)

definition latency_share :: "cost_weights \<Rightarrow> topology_node \<times> topology_node \<times> topology_edge \<Rightarrow> f64" where
  "latency_share w t = (case t of (u, v, e) \<Rightarrow> f64_mul (w_latency_ns_weight w) (edge_latency u v e))"

definition bandwidth_share :: "cost_weights \<Rightarrow> topology_node \<times> topology_node \<times> topology_edge \<Rightarrow> f64" where
  "bandwidth_share w t = (case t of (u, v, e) \<Rightarrow>
     f64_mul (w_bandwidth_scale w) (f64_div (w_bandwidth_ref_bps w) (edge_bandwidth u v e w)))"

lemma fold_accumulate:
  "fold (\<lambda>(u, v, e). accumulate u v e w) xs cb =
     cb \<lparr> cb_hop_penalty := sum_over (\<lambda>_. True) (\<lambda>_. w_hop_penalty w) xs (cb_hop_penalty cb),
          cb_latency_term := sum_over (\<lambda>_. True) (latency_share w) xs (cb_latency_term cb),
          cb_inverse_bandwidth_term :=
            sum_over (\<lambda>_. True) (bandwidth_share w) xs (cb_inverse_bandwidth_term cb),
          cb_pci_bridge_penalty := sum_over (\<lambda>(u, v, e). n_type v = NT_PCI_BRIDGE)
            (\<lambda>_. w_pci_bridge_penalty w) xs (cb_pci_bridge_penalty cb),
          cb_root_crossing_penalty := sum_over (\<lambda>(u, v, e). n_type v = NT_PCI_ROOT)
            (\<lambda>_. w_root_crossing_penalty w) xs (cb_root_crossing_penalty cb),
          cb_node_transition_penalty :=
            sum_over (\<lambda>(u, v, e). hardware_class (n_type u) \<noteq> hardware_class (n_type v))
              (\<lambda>_. w_node_transition_penalty w) xs (cb_node_transition_penalty cb),
          cb_uncertainty_penalty := sum_over (\<lambda>(u, v, e). low_confidence e)
            (\<lambda>_. w_uncertainty_penalty w) xs (cb_uncertainty_penalty cb),
          cb_policy_penalty := sum_over (\<lambda>_. True) (\<lambda>_. w_policy_penalty w) xs (cb_policy_penalty cb) \<rparr>"
proof (induction xs arbitrary: cb)
  case (Cons x xs)
  then show ?case
    by (cases x) (simp add: accumulate_def latency_share_def bandwidth_share_def)
qed simp

lemma cost_breakdown_route:
  assumes closed: "snapshot_closed s" and segs: "on_route s (p_segments p)"
    and src: "find_node s (p_source p) = Some ns" and dst: "find_node s (p_destination p) = Some nd"
  shows "\<exists>cb. cost_breakdown s p w = Inr cb
    \<and> cb_hop_penalty cb = foldl f64_add (F_Fin 0) (replicate (length (p_segments p)) (w_hop_penalty w))
    \<and> cb_latency_term cb = foldl f64_add (F_Fin 0) (map (latency_share w) (steps s (p_segments p)))
    \<and> cb_inverse_bandwidth_term cb = foldl f64_add (F_Fin 0) (map (bandwidth_share w) (steps s (p_segments p)))
    \<and> cb_pci_bridge_penalty cb = sum_over (\<lambda>(u, v, e). n_type v = NT_PCI_BRIDGE) (\<lambda>_. w_pci_bridge_penalty w)
        (steps s (p_segments p)) (F_Fin 0)
    \<and> cb_root_crossing_penalty cb = sum_over (\<lambda>(u, v, e). n_type v = NT_PCI_ROOT) (\<lambda>_. w_root_crossing_penalty w)
        (steps s (p_segments p)) (F_Fin 0)
    \<and> cb_node_transition_penalty cb = sum_over (\<lambda>(u, v, e). hardware_class (n_type u) \<noteq> hardware_class (n_type v))
        (\<lambda>_. w_node_transition_penalty w) (steps s (p_segments p)) (F_Fin 0)
    \<and> cb_uncertainty_penalty cb = sum_over (\<lambda>(u, v, e). low_confidence e) (\<lambda>_. w_uncertainty_penalty w)
        (steps s (p_segments p)) (F_Fin 0)
    \<and> cb_policy_penalty cb = foldl f64_add (F_Fin 0) (replicate (length (p_segments p)) (w_policy_penalty w))
    \<and> cb_numa_penalty cb = (if crosses_numa ns nd then f64_add (F_Fin 0) (w_numa_penalty w) else F_Fin 0)
    \<and> cb_total cb = breakdown_total cb \<and> cb_policy_version cb = w_version w"
proof -
  have every: "sum_over (\<lambda>_. True) f ts c = foldl f64_add c (map f ts)" for f :: "'x \<Rightarrow> f64" and ts c
    by (simp add: sum_over_def)
  show ?thesis
    using snap_node_find [OF src] snap_node_find [OF dst]
    by (simp add: cost_breakdown_def accumulate_segments_eq [OF closed segs] fold_accumulate Let_def every
        default_breakdown_def steps_def add_if_def breakdown_total_def map_replicate_const o_def)
qed

lemma sum_over_cost:
  "is_cost_or_nan c \<Longrightarrow> (\<And>x. x \<in> set xs \<Longrightarrow> is_cost_or_nan (f x)) \<Longrightarrow> is_cost_or_nan (sum_over P f xs c)"
  by (induction xs arbitrary: c) (auto simp: add_if_def is_cost_or_nan_add)

text \<open>Under a policy without negative entries no component is negative, nor is the total.\<close>

lemma breakdown_nonneg:
  assumes policy: "policy_ok s w" and segs: "on_route s (p_segments p)" and closed: "snapshot_closed s"
    and cb: "cost_breakdown s p w = Inr cb"
  shows "is_cost_or_nan (cb_total cb)" and "is_cost_or_nan (cb_policy_penalty cb)"
proof -
  have zero: "is_cost_or_nan (F_Fin 0)" by (simp add: is_cost_or_nan_def)
  have w: "is_cost_or_nan (w_hop_penalty w)" "is_cost_or_nan (w_numa_penalty w)"
    "is_cost_or_nan (w_pci_bridge_penalty w)" "is_cost_or_nan (w_root_crossing_penalty w)"
    "is_cost_or_nan (w_uncertainty_penalty w)" "is_cost_or_nan (w_policy_penalty w)"
    "is_cost_or_nan (w_node_transition_penalty w)"
    using policy by (auto simp: policy_ok_def weights_nonneg_def is_cost_or_nan_def)
  have edges: "metrics_ok (snd (snd x))" if "x \<in> set (steps s (p_segments p))" for x
    using that policy segs by (auto simp: steps_def on_route_def link_def policy_ok_def)
  have wl: "is_cost_or_nan (w_latency_ns_weight w)" "is_cost_or_nan (w_bandwidth_scale w)"
    "is_cost (w_bandwidth_ref_bps w)"
    using policy by (auto simp: policy_ok_def weights_nonneg_def is_cost_or_nan_def)
  have lat: "is_cost_or_nan (latency_share w x)" if "x \<in> set (steps s (p_segments p))" for x
    using edges [OF that] wl
    by (cases x) (auto simp: latency_share_def intro!: is_cost_or_nan_mul edge_latency_cost)
  have bw: "is_cost_or_nan (bandwidth_share w x)" if "x \<in> set (steps s (p_segments p))" for x
    using edges [OF that] wl
    by (cases x) (auto simp: bandwidth_share_def intro!: is_cost_or_nan_mul bandwidth_ratio_cost)
  note parts = sum_over_cost [OF zero]
  show "is_cost_or_nan (cb_total cb)" and "is_cost_or_nan (cb_policy_penalty cb)"
    using cb zero w lat bw
    by (auto simp: cost_breakdown_def accumulate_segments_eq [OF closed segs] fold_accumulate Let_def
        default_breakdown_def breakdown_total_def add_if_def err_simps
        intro!: is_cost_or_nan_add parts)
qed

section \<open>The score\<close>

lemma f64_round_1: "f64_round 1 = F_Fin 1"
  using f64_round_int [of 1] by simp

lemma f64_round_unit:
  assumes "0 \<le> x" and "x \<le> 1"
  shows "f64_le (F_Fin 0) (f64_round x)" and "f64_le (f64_round x) (F_Fin 1)"
  using f64_round_mono [OF assms(1)] f64_round_mono [OF assms(2)] by (simp_all add: f64_round_1)

lemma normalized_score_range:
  assumes "is_cost t" and "f64_finite t"
  shows "f64_le (F_Fin 0) (normalized_score t)" and "f64_le (normalized_score t) (F_Fin 1)"
proof -
  have "f64_le (F_Fin 0) (normalized_score t) \<and> f64_le (normalized_score t) (F_Fin 1)"
    using assms(1)
  proof (cases rule: is_cost_cases)
    case 1
    then show ?thesis using assms(2) by (simp add: f64_finite_def f64_isinf_def)
  next
    case 2
    then show ?thesis
      by (simp add: normalized_score_def f64_add_def f64_div_def f64_isinf_def f64_zero_def f64_le_def)
  next
    case (3 q)
    have add: "f64_add t (F_Fin 1) = f64_round (q + 1)"
      by (simp add: 3 f64_add_def f64_isinf_def)
    have lower: "f64_le (F_Fin q) (f64_round (q + 1))" "f64_le (F_Fin 1) (f64_round (q + 1))"
      using f64_round_mono [of q "q + 1"] f64_round_mono [of 1 "q + 1"] 3 by (simp_all add: f64_round_1)
    show ?thesis
    proof (cases "f64_round (q + 1)")
      case (F_Fin r)
      then have r: "q \<le> r" "1 \<le> r" using lower by (simp_all add: f64_le_def)
      then have "0 \<le> q / r" "q / r \<le> 1" using 3 by (simp_all add: divide_le_eq)
      from f64_round_unit [OF this] show ?thesis
        using r 3 add F_Fin
        by (auto simp: normalized_score_def f64_div_def f64_isinf_def f64_zero_def Let_def f64_le_def)
    next
      case F_PInf
      then show ?thesis
        using add 3 by (simp add: normalized_score_def f64_div_def f64_isinf_def f64_zero_def f64_le_def)
    qed (use lower in \<open>simp_all add: f64_le_def\<close>)
  qed
  then show "f64_le (F_Fin 0) (normalized_score t)" and "f64_le (normalized_score t) (F_Fin 1)" by auto
qed

section \<open>Distances\<close>

text \<open>Links, and so routes, can be followed both ways.\<close>

definition turn :: "(node_id \<times> nat \<times> node_id) list \<Rightarrow> (node_id \<times> nat \<times> node_id) list" where
  "turn ts = map (\<lambda>(u, e, v). (v, e, u)) (rev ts)"

lemma link_sym: "link s c u e v \<longleftrightarrow> link s c v e u"
  by (auto simp: link_def Let_def)

lemma route_append: "route s c x (ts @ us) y \<longleftrightarrow> (\<exists>z. route s c x ts z \<and> route s c z us y)"
  by (induction s c x ts y rule: route.induct) auto

lemma route_turn: "route s c x ts y \<Longrightarrow> route s c y (turn ts) x"
proof (induction s c x ts y rule: route.induct)
  case (2 s c x u e v ts y)
  then have "route s c y (turn ts) v" "link s c v e u" using link_sym [of s c u] by auto
  then show ?case using "2.prems" by (auto simp: turn_def route_append)
qed (simp add: turn_def)

lemma length_turn [simp]: "length (turn ts) = length ts"
  by (simp add: turn_def)

definition hop_distance :: "topology_snapshot \<Rightarrow> node_id \<Rightarrow> node_id \<Rightarrow> nat" where
  "hop_distance s a b = (LEAST n. \<exists>ts. route s False a ts b \<and> length ts = n)"

lemma hop_distance_sym: "hop_distance s a b = hop_distance s b a"
proof -
  have "(\<exists>ts. route s False a ts b \<and> length ts = n) \<longleftrightarrow> (\<exists>ts. route s False b ts a \<and> length ts = n)" for n
    using route_turn length_turn by metis
  then show ?thesis by (simp add: hop_distance_def)
qed

lemma connected_sym: "(\<exists>ts. route s c a ts b) \<longleftrightarrow> (\<exists>ts. route s c b ts a)"
  using route_turn by blast

lemma distance_of_path_total:
  assumes closed: "snapshot_closed s" and segs: "on_route s (p_segments p)"
    and known: "find_node s from = Some na" "find_node s to = Some nb"
    and ends: "p_source p = from" "p_destination p = to"
  shows "\<exists>d. distance_of_path s from to w p = Inr d \<and> db_graph_hops d = sint (p_hop_count p)
    \<and> db_root_crossings d = (if crosses_roots s from to then 1 else 0)
    \<and> db_numa_distance d = numa_distance na nb"
proof -
  note look = on_route_look [OF closed segs]
  have "tmap (\<lambda>g. snap_node s (g_to g)) (p_segments p) = Inr (map (\<lambda>g. node_of s (g_to g)) (p_segments p))"
    by (rule tmap_all_Inr) (rule look)
  moreover have "tmap (\<lambda>g. tbind (snap_node s (g_from g)) (\<lambda>u. tbind (snap_node s (g_to g)) (\<lambda>v.
        Inr (hardware_class (n_type u) \<noteq> hardware_class (n_type v))))) (p_segments p)
      = Inr (map (\<lambda>g. hardware_class (n_type (node_of s (g_from g)))
          \<noteq> hardware_class (n_type (node_of s (g_to g)))) (p_segments p))"
    by (rule tmap_all_Inr) (simp add: look)
  moreover have "tmap (\<lambda>g. snap_edge s (g_edge_index g)) (p_segments p)
      = Inr (map (\<lambda>g. s_edges s ! g_edge_index g) (p_segments p))"
    by (rule tmap_all_Inr) (rule look)
  moreover obtain cb where "path_cost s p w = Inr cb"
    using cost_breakdown_route [OF closed segs known [folded ends], of w] by (auto simp: path_cost_def)
  ultimately show ?thesis
    using known by (simp add: distance_of_path_def pci_depth_def class_transitions_def
        low_confidence_sum_def snap_node_find)
qed

theorem distance_total:
  assumes wf: "snapshot_wf s" and closed: "snapshot_closed s"
    and known: "find_node s from = Some na" "find_node s to = Some nb" and ne: "from \<noteq> to"
  shows "\<exists>d. distance_between s from to w = Some (Inr d)
    \<and> (if \<exists>ts. route s False from ts to
       then db_graph_hops d = sint (of_nat (hop_distance s from to) :: 32 word)
       else db_graph_hops d = -1 \<and> db_normalized_score d = F_Fin 1)"
proof -
  obtain p where p: "shortest_path s from to False = Some (Inr p)" "p_source p = from" "p_destination p = to"
    "p_found p \<longleftrightarrow> (\<exists>ts. route s False from ts to)"
    "p_found p \<Longrightarrow> route s False from (map hop (p_segments p)) to"
    "p_found p \<Longrightarrow> \<forall>ts. route s False from ts to \<longrightarrow> length (p_segments p) \<le> length ts"
    "p_found p \<Longrightarrow> p_hop_count p = of_nat (length (p_segments p))"
    using shortest_path_total [OF wf closed, of "from" to False] known by auto
  show ?thesis
  proof (cases "p_found p")
    case False
    then show ?thesis using p(1,4) ne by (simp add: distance_between_def default_distance_def)
  next
    case True
    have len: "length (p_segments p) = hop_distance s from to"
    proof -
      have "(LEAST n. \<exists>ts. route s False from ts to \<and> length ts = n) = length (p_segments p)"
      proof (rule Least_equality)
        show "\<exists>ts. route s False from ts to \<and> length ts = length (p_segments p)"
          using p(5) [OF True] by (metis length_map)
      qed (use p(6) [OF True] in auto)
      then show ?thesis by (simp add: hop_distance_def)
    qed
    have "on_route s (p_segments p)" by (rule route_on_route) (rule p(5) [OF True])
    from distance_of_path_total [OF closed this known p(2,3), of w] obtain d where
      "distance_of_path s from to w p = Inr d" "db_graph_hops d = sint (p_hop_count p)" by blast
    then show ?thesis
      using p(1,4,7) True ne len by (simp add: distance_between_def)
  qed
qed

end
