(* ===== verification/TF_Ranking.thy ===== *)
theory TF_Ranking
  imports TF_Cost
begin

text \<open>
  Ranking and explanation (\<open>ranking.cpp\<close>): the reasons for a pair of nodes, the two
  \<open>rank_candidates\<close> and \<open>explain\<close>.

  The lemmas show that on a snapshot without dangling edges and under a policy without negative
  entries a ranking returns; that it lists the connected candidates, in ascending order of cost with
  ties broken by id; that it does not depend on the order in which the candidates are enumerated;
  and that a limit takes a prefix of the full ranking.
\<close>

section \<open>Reasons\<close>

definition reason_if :: "bool \<Rightarrow> string \<Rightarrow> string list" where
  "reason_if b r = (if b then [r] else [])"

definition reasons_of :: "locality_class \<Rightarrow> path_class \<Rightarrow> distance_breakdown \<Rightarrow> string list" where
  "reasons_of loc cls d =
     reason_if (loc = LC_SAME_NUMA) ''same_numa''
     @ reason_if (loc = LC_SAME_PACKAGE) ''same_package''
     @ reason_if (loc = LC_SAME_CORE) ''same_core''
     @ reason_if (loc = LC_SAME_ROOT_COMPLEX) ''same_root_complex''
     @ reason_if (loc = LC_REMOTE) ''remote''
     @ reason_if (loc = LC_UNKNOWN) ''locality_unknown''
     @ reason_if (cls = PC_HOST_TO_ACCELERATOR) ''host_to_accelerator''
     @ reason_if (cls = PC_ACCELERATOR_TO_ACCELERATOR) ''accelerator_to_accelerator''
     @ reason_if (cls = PC_CROSS_NUMA) ''cross_numa''
     @ reason_if (0 < db_root_crossings d) ''crosses_pci_root''
     @ reason_if (db_pci_depth d = 0 \<and> loc \<noteq> LC_UNKNOWN) ''direct_connectivity''
     @ reason_if (f64_lt (F_Fin 0) (db_uncertainty d)) ''uncertain_path''
     @ reason_if (cls = PC_SAME_PCI_BRIDGE) ''same_pci_bridge''
     @ reason_if (cls = PC_SAME_PCI_DEVICE) ''same_pci_device''"

definition build_reasons ::
  "topology_snapshot \<Rightarrow> node_id \<Rightarrow> node_id \<Rightarrow> cost_weights \<Rightarrow> string list tresult option" where
  "build_reasons s src dst w =
     obind (Some (locality_between s src dst)) (\<lambda>loc.
     obind (Some (classify_path s src dst)) (\<lambda>cls.
     obind (distance_between s src dst w) (\<lambda>d.
       Some (Inr (sort_by (<) (reasons_of loc cls d))))))"

section \<open>Ranking\<close>

record rank_entry =
  k_id :: node_id
  k_cost :: f64
  k_breakdown :: cost_breakdown
  k_distance :: distance_breakdown
  k_path_class :: path_class
  k_locality :: locality_class
  k_reasons :: "string list"

record rank_result =
  rr_found :: bool
  rr_source :: node_id
  rr_ranked :: "rank_entry list"
  rr_cost_policy_version :: "32 word"

text \<open>One candidate: \<open>None\<close> when there is no path to it.\<close>

definition rank_one ::
  "topology_snapshot \<Rightarrow> node_id \<Rightarrow> cost_weights \<Rightarrow> node_id \<Rightarrow> rank_entry option tresult option" where
  "rank_one s src w i =
     obind (lowest_cost_path s src i w) (\<lambda>p.
       if \<not> p_found p then Some (Inr None)
       else obind (Some (cost_breakdown s p w)) (\<lambda>cb.
            obind (distance_between s src i w) (\<lambda>d.
            obind (build_reasons s src i w) (\<lambda>rs.
              Some (Inr (Some \<lparr> k_id = i, k_cost = p_total_cost p, k_breakdown = cb, k_distance = d,
                k_path_class = p_path_class p, k_locality = p_locality p, k_reasons = rs \<rparr>))))))"

fun rank_loop ::
  "topology_snapshot \<Rightarrow> node_id \<Rightarrow> cost_weights \<Rightarrow> node_id list \<Rightarrow> rank_entry list \<Rightarrow> rank_entry list tresult option" where
  "rank_loop s src w [] acc = Some (Inr acc)"
| "rank_loop s src w (i # is) acc =
     obind (rank_one s src w i) (\<lambda>r.
       rank_loop s src w is (case r of None \<Rightarrow> acc | Some e \<Rightarrow> acc @ [e]))"

text \<open>The comparison: cost, then id. \<open>a.cost != b.cost\<close> also holds of a not-a-number.\<close>

definition rank_less :: "rank_entry \<Rightarrow> rank_entry \<Rightarrow> bool" where
  "rank_less a b \<longleftrightarrow>
     (if \<not> f64_eq (k_cost a) (k_cost b) then f64_lt (k_cost a) (k_cost b) else k_id a < k_id b)"

definition rank_ids ::
  "topology_snapshot \<Rightarrow> node_id \<Rightarrow> cost_weights \<Rightarrow> node_id list \<Rightarrow> rank_result tresult option" where
  "rank_ids s src w is =
     obind (rank_loop s src w is []) (\<lambda>es.
       let ranked = sort_by rank_less es in
       Some (Inr \<lparr> rr_found = (ranked \<noteq> []), rr_source = src, rr_ranked = ranked,
                   rr_cost_policy_version = w_version w \<rparr>))"

definition no_ranking :: "node_id \<Rightarrow> cost_weights \<Rightarrow> rank_result" where
  "no_ranking src w = \<lparr> rr_found = False, rr_source = src, rr_ranked = [],
     rr_cost_policy_version = w_version w \<rparr>"

text \<open>The overload for a node type, whose limit 0 is none.\<close>

definition candidates_of_type :: "topology_snapshot \<Rightarrow> node_id \<Rightarrow> node_type \<Rightarrow> node_id list" where
  "candidates_of_type s src t =
     map fst (filter (\<lambda>(i, n). \<not> (i = src \<or> n_type n \<noteq> t)) (s_nodes s))"

definition rank_candidates ::
  "topology_snapshot \<Rightarrow> node_id \<Rightarrow> node_type \<Rightarrow> nat \<Rightarrow> cost_weights \<Rightarrow> rank_result tresult option" where
  "rank_candidates s src t max_candidates w =
     (if find_node s src = None then Some (Inr (no_ranking src w))
      else obind (rank_ids s src w (candidates_of_type s src t)) (\<lambda>rr.
        Some (Inr (if 0 < max_candidates \<and> max_candidates < length (rr_ranked rr)
                   then rr \<lparr> rr_ranked := take max_candidates (rr_ranked rr) \<rparr> else rr))))"

text \<open>The overload for a list of candidates.\<close>

definition rank_candidate_list ::
  "topology_snapshot \<Rightarrow> node_id \<Rightarrow> node_id list \<Rightarrow> cost_weights \<Rightarrow> rank_result tresult option" where
  "rank_candidate_list s src candidates w =
     (if find_node s src = None then Some (Inr (no_ranking src w))
      else rank_ids s src w (filter (\<lambda>i. \<not> (i = src \<or> find_node s i = None)) candidates))"

section \<open>Explanation\<close>

record explanation_factor =
  xf_name :: string
  xf_value :: string
  xf_note :: string
  xf_weight :: f64

record explanation =
  x_source :: node_id
  x_destination :: node_id
  x_path_class :: path_class
  x_locality :: locality_class
  x_cost :: cost_breakdown
  x_factors :: "explanation_factor list"
  x_summary :: string

definition default_explanation :: explanation where
  "default_explanation = \<lparr> x_source = kNullNodeId, x_destination = kNullNodeId,
     x_path_class = PC_UNKNOWN, x_locality = LC_UNKNOWN, x_cost = default_breakdown,
     x_factors = [], x_summary = '''' \<rparr>"

definition factor :: "string \<Rightarrow> string \<Rightarrow> string \<Rightarrow> f64 \<Rightarrow> explanation_factor" where
  "factor name val note weight =
     \<lparr> xf_name = name, xf_value = val, xf_note = note, xf_weight = weight \<rparr>"

definition explain_factors :: "topology_path \<Rightarrow> cost_breakdown \<Rightarrow> explanation_factor list" where
  "explain_factors p cb =
     [factor ''locality'' (locality_class_to_string (p_locality p)) ''policy locality classification'' (F_Fin 0),
      factor ''path_class'' (path_class_to_string (p_path_class p)) ''path categorization'' (F_Fin 0),
      factor ''hop_count'' (int_to_string (sint (p_hop_count p))) ''edge count along path''
        (f64_of_int (sint (p_hop_count p))),
      factor ''numa_penalty'' (f64_to_string (cb_numa_penalty cb)) ''same/different NUMA cost'' (cb_numa_penalty cb),
      factor ''pci_bridge_penalty'' (f64_to_string (cb_pci_bridge_penalty cb)) ''bridges crossed''
        (cb_pci_bridge_penalty cb),
      factor ''root_crossing_penalty'' (f64_to_string (cb_root_crossing_penalty cb))
        ''PCI root complexes crossed'' (cb_root_crossing_penalty cb),
      factor ''latency_term'' (f64_to_string (cb_latency_term cb)) ''latency weight'' (cb_latency_term cb),
      factor ''inverse_bandwidth_term'' (f64_to_string (cb_inverse_bandwidth_term cb))
        ''inverse bandwidth weight'' (cb_inverse_bandwidth_term cb),
      factor ''uncertainty_penalty'' (f64_to_string (cb_uncertainty_penalty cb)) ''low-confidence edges''
        (cb_uncertainty_penalty cb),
      factor ''policy_penalty'' (f64_to_string (cb_policy_penalty cb)) ''configured policy penalty''
        (cb_policy_penalty cb),
      factor ''total_cost'' (f64_to_string (p_total_cost p)) ''sum of all penalties/weights'' (p_total_cost p)]"

definition explain ::
  "topology_snapshot \<Rightarrow> node_id \<Rightarrow> node_id \<Rightarrow> cost_weights \<Rightarrow> explanation tresult option" where
  "explain s src dst w =
     (let ex = default_explanation \<lparr> x_source := src, x_destination := dst \<rparr> in
      if find_node s src = None \<or> find_node s dst = None
      then Some (Inr (ex \<lparr> x_summary := ''endpoint node not present in snapshot'' \<rparr>))
      else obind (lowest_cost_path s src dst w) (\<lambda>p.
           obind (Some (cost_breakdown s p w)) (\<lambda>cb.
           obind (build_reasons s src dst w) (\<lambda>reasons.
             Some (Inr (ex \<lparr> x_path_class := p_path_class p, x_locality := p_locality p, x_cost := cb,
               x_factors := explain_factors p cb,
               x_summary := ''path class '' @ path_class_to_string (p_path_class p)
                 @ '', locality '' @ locality_class_to_string (p_locality p)
                 @ '', cost '' @ f64_to_string (p_total_cost p) \<rparr>))))))"

section \<open>The order\<close>

lemma rank_less_key:
  assumes "k_cost a \<noteq> F_NaN" and "k_cost b \<noteq> F_NaN"
  shows "rank_less a b \<longleftrightarrow> (f64_key (k_cost a), k_id a) < (f64_key (k_cost b), k_id b)"
  using assms by (auto simp: rank_less_def f64_lt_def f64_eq_def)

interpretation rank: sort_order rank_less "\<lambda>a. k_cost a \<noteq> F_NaN"
  by unfold_locales (auto simp: rank_less_key)

lemma rank_less_separates:
  assumes "k_cost a \<noteq> F_NaN" and "k_cost b \<noteq> F_NaN" and "\<not> rank_less a b" and "\<not> rank_less b a"
  shows "k_id a = k_id b"
  using assms by (auto simp: rank_less_key not_less intro: order_antisym)

interpretation reasons: sort_order "(<) :: string \<Rightarrow> string \<Rightarrow> bool" "\<lambda>_. True"
  by unfold_locales auto

section \<open>One candidate\<close>

lemma build_reasons_total:
  assumes wf: "snapshot_wf s" and closed: "snapshot_closed s"
    and known: "find_node s src = Some ns" "find_node s dst = Some nd" and ne: "src \<noteq> dst"
  shows "\<exists>rs. build_reasons s src dst w = Some (Inr rs) \<and> sorted_wrt (\<le>) rs"
proof -
  obtain l where "locality_between s src dst = Inr l"
    using locality_total [of s src dst] known by auto
  moreover obtain k where "classify_path s src dst = Inr k"
    using classify_total [OF closed, of src dst] known by auto
  moreover obtain d where "distance_between s src dst w = Some (Inr d)"
    using distance_total [OF wf closed known ne] by blast
  moreover have "sorted_wrt (\<le>) (sort_by (<) (reasons_of l k d))"
    using reasons.sorted_sort_by [of "reasons_of l k d"] by (simp add: not_less)
  ultimately show ?thesis by (simp add: build_reasons_def)
qed

definition joined :: "topology_snapshot \<Rightarrow> node_id \<Rightarrow> node_id \<Rightarrow> bool" where
  "joined s a b \<longleftrightarrow> (\<exists>ts. route s False a ts b)"

lemma total_cost_ok:
  assumes policy: "policy_ok s w" and route: "route s False x (map hop segs) y"
    and segs: "segs = map (cost_segment s w) (map hop segs)"
  shows "is_cost (add_if b (w_numa_penalty w) (foldl f64_add (F_Fin 0) (map g_edge_cost (rev segs))))"
proof -
  have "is_cost (g_edge_cost g)" if g: "g \<in> set segs" for g
  proof -
    obtain u e v where h: "hop g = (u, e, v)" by (metis surj_pair)
    have "(u, e, v) \<in> set (map hop segs)" using g h by force
    from route_edges [OF route this] have "e < length (s_edges s)" by (simp add: link_def)
    moreover obtain t where "g = cost_segment s w t" and "t \<in> set (map hop segs)"
      using g segs by (metis in_set_conv_nth length_map nth_map nth_mem)
    moreover from this have "hop g = t" by simp
    ultimately show ?thesis
      using h hop_cost_ok [OF policy] by (auto simp: cost_segment_def)
  qed
  then have "is_cost (foldl f64_add (F_Fin 0) (map g_edge_cost (rev segs)))"
    by (intro f64_cost.cost_foldl) auto
  moreover have "is_cost (w_numa_penalty w)"
    using policy by (simp add: policy_ok_def weights_nonneg_def)
  ultimately show ?thesis by (simp add: add_if_def is_cost_add)
qed

lemma rank_one_total:
  assumes wf: "snapshot_wf s" and closed: "snapshot_closed s" and policy: "policy_ok s w"
    and known: "find_node s src \<noteq> None" "find_node s i \<noteq> None" and ne: "src \<noteq> i"
  shows "\<exists>r. rank_one s src w i = Some (Inr r) \<and> (r = None \<longleftrightarrow> \<not> joined s src i)
    \<and> (\<forall>e. r = Some e \<longrightarrow> k_id e = i \<and> is_cost (k_cost e)
          \<and> (\<exists>p. lowest_cost_path s src i w = Some (Inr p) \<and> k_cost e = p_total_cost p))"
proof -
  obtain ns ni where n: "find_node s src = Some ns" "find_node s i = Some ni" using known by auto
  obtain p where p: "lowest_cost_path s src i w = Some (Inr p)" "p_source p = src" "p_destination p = i"
    "p_found p \<longleftrightarrow> joined s src i"
    "p_found p \<Longrightarrow> route s False src (map hop (p_segments p)) i"
    "p_found p \<Longrightarrow> p_segments p = map (cost_segment s w) (map hop (p_segments p))"
    "p_found p \<Longrightarrow> p_total_cost p = add_if (crosses_numa ns ni \<and> src \<noteq> i) (w_numa_penalty w)
        (foldl f64_add (F_Fin 0) (map g_edge_cost (rev (p_segments p))))"
    using lowest_cost_path_total [OF wf closed policy n] by (auto simp: joined_def)
  show ?thesis
  proof (cases "p_found p")
    case False
    then show ?thesis using p(1,4) by (simp add: rank_one_def)
  next
    case True
    have "on_route s (p_segments p)" by (rule route_on_route) (rule p(5) [OF True])
    from cost_breakdown_route [OF closed this n [folded p(2,3)], of w] obtain cb
      where cb: "cost_breakdown s p w = Inr cb" by auto
    obtain d where d: "distance_between s src i w = Some (Inr d)"
      using distance_total [OF wf closed n ne] by blast
    obtain rs where rs: "build_reasons s src i w = Some (Inr rs)"
      using build_reasons_total [OF wf closed n ne] by blast
    have "is_cost (p_total_cost p)"
      unfolding p(7) [OF True] by (rule total_cost_ok [OF policy p(5) [OF True] p(6) [OF True]])
    then show ?thesis using p(1,4) True cb d rs by (simp add: rank_one_def)
  qed
qed

section \<open>The ranking\<close>

definition entry_of :: "topology_snapshot \<Rightarrow> node_id \<Rightarrow> cost_weights \<Rightarrow> node_id \<Rightarrow> rank_entry option" where
  "entry_of s src w i = (case rank_one s src w i of Some (Inr r) \<Rightarrow> r | _ \<Rightarrow> None)"

definition rankable :: "topology_snapshot \<Rightarrow> node_id \<Rightarrow> node_id \<Rightarrow> bool" where
  "rankable s src i \<longleftrightarrow> i \<noteq> src \<and> find_node s i \<noteq> None"

lemma entry_of:
  assumes "snapshot_wf s" and "snapshot_closed s" and "policy_ok s w"
    and "find_node s src \<noteq> None" and "rankable s src i"
  shows "rank_one s src w i = Some (Inr (entry_of s src w i))"
    and "entry_of s src w i = None \<longleftrightarrow> \<not> joined s src i"
    and "entry_of s src w i = Some e \<Longrightarrow> k_id e = i \<and> is_cost (k_cost e)
          \<and> (\<exists>p. lowest_cost_path s src i w = Some (Inr p) \<and> k_cost e = p_total_cost p)"
  using rank_one_total [OF assms(1-4), of i] assms(5) by (auto simp: rankable_def entry_of_def)

lemma rank_loop_eq:
  assumes "snapshot_wf s" and "snapshot_closed s" and "policy_ok s w" and "find_node s src \<noteq> None"
  shows "\<forall>i \<in> set is. rankable s src i \<Longrightarrow>
    rank_loop s src w is acc = Some (Inr (acc @ List.map_filter (entry_of s src w) is))"
proof (induction "is" arbitrary: acc)
  case (Cons i "is")
  then show ?case
    using entry_of(1) [OF assms, of i] by (simp add: map_filter_simps split: option.splits)
qed (simp add: map_filter_simps)

lemma ids_of_entries:
  assumes "snapshot_wf s" and "snapshot_closed s" and "policy_ok s w" and "find_node s src \<noteq> None"
  shows "\<forall>i \<in> set is. rankable s src i \<Longrightarrow>
    map k_id (List.map_filter (entry_of s src w) is) = filter (joined s src) is"
proof (induction "is")
  case (Cons i "is")
  then show ?case
    using entry_of(2,3) [OF assms, of i] by (auto simp: map_filter_simps split: option.splits)
qed (simp add: map_filter_simps)

lemma entry_mem:
  assumes ok: "snapshot_wf s" "snapshot_closed s" "policy_ok s w" "find_node s src \<noteq> None"
    and "\<forall>i \<in> set is. rankable s src i" and "e \<in> set (List.map_filter (entry_of s src w) is)"
  shows "entry_of s src w (k_id e) = Some e" and "is_cost (k_cost e)"
    and "\<exists>p. lowest_cost_path s src (k_id e) w = Some (Inr p) \<and> k_cost e = p_total_cost p"
proof -
  obtain i where i: "i \<in> set is" "entry_of s src w i = Some e"
    using assms(6) by (auto simp: List.map_filter_def)
  with entry_of(3) [OF ok, of i e] assms(5)
  show "entry_of s src w (k_id e) = Some e" and "is_cost (k_cost e)"
    and "\<exists>p. lowest_cost_path s src (k_id e) w = Some (Inr p) \<and> k_cost e = p_total_cost p" by auto
qed

text \<open>What a ranking promises: every connected candidate once per occurrence, at the cost of its
  lowest-cost path, in ascending order of cost and then id.\<close>

definition ranking_of ::
  "topology_snapshot \<Rightarrow> node_id \<Rightarrow> cost_weights \<Rightarrow> node_id list \<Rightarrow> rank_entry list \<Rightarrow> bool" where
  "ranking_of s src w is es \<longleftrightarrow>
     mset (map k_id es) = mset (filter (joined s src) is)
     \<and> sorted_wrt (\<lambda>a b. (f64_key (k_cost a), k_id a) \<le> (f64_key (k_cost b), k_id b)) es
     \<and> (\<forall>e \<in> set es. is_cost (k_cost e)
           \<and> (\<exists>p. lowest_cost_path s src (k_id e) w = Some (Inr p) \<and> k_cost e = p_total_cost p))"

lemma rank_ids_total:
  assumes ok: "snapshot_wf s" "snapshot_closed s" "policy_ok s w" "find_node s src \<noteq> None"
    and cands: "\<forall>i \<in> set is. rankable s src i"
  shows "\<exists>es. rank_ids s src w is = Some (Inr \<lparr> rr_found = (es \<noteq> []), rr_source = src,
           rr_ranked = es, rr_cost_policy_version = w_version w \<rparr>)
    \<and> ranking_of s src w is es \<and> es = sort_by rank_less (List.map_filter (entry_of s src w) is)"
proof -
  define xs where "xs = List.map_filter (entry_of s src w) is"
  note mem = entry_mem [OF ok cands, folded xs_def]
  have notnan: "\<forall>e \<in> set xs. k_cost e \<noteq> F_NaN" using mem(2) is_cost_not_NaN by auto
  have "sorted_wrt (\<lambda>a b. \<not> rank_less b a) (sort_by rank_less xs)"
    by (rule rank.sorted_sort_by [OF notnan])
  then have "sorted_wrt (\<lambda>a b. (f64_key (k_cost a), k_id a) \<le> (f64_key (k_cost b), k_id b)) (sort_by rank_less xs)"
    by (rule sorted_wrt_mono_rel [rotated]) (use notnan in \<open>auto simp: rank_less_key not_less\<close>)
  moreover have "mset (map k_id (sort_by rank_less xs)) = mset (filter (joined s src) is)"
    by (simp add: mset_map xs_def ids_of_entries [OF ok cands, symmetric])
  ultimately have "ranking_of s src w is (sort_by rank_less xs)"
    using mem by (simp add: ranking_of_def)
  then show ?thesis
    using rank_loop_eq [OF ok cands] by (simp add: rank_ids_def xs_def Let_def)
qed

lemma rank_ids_order:
  assumes ok: "snapshot_wf s" "snapshot_closed s" "policy_ok s w" "find_node s src \<noteq> None"
    and cands: "\<forall>i \<in> set is. rankable s src i" and perm: "mset is = mset js"
  shows "rank_ids s src w is = rank_ids s src w js"
proof -
  define xs where "xs = List.map_filter (entry_of s src w) is"
  note mem = entry_mem [OF ok cands, folded xs_def]
  have cands': "\<forall>i \<in> set js. rankable s src i" using cands mset_eq_setD [OF perm] by simp
  have "mset xs = mset (List.map_filter (entry_of s src w) js)"
    using perm by (simp add: xs_def List.map_filter_def mset_map mset_filter)
  then have "sort_by rank_less xs = sort_by rank_less (List.map_filter (entry_of s src w) js)"
  proof (rule rank.sort_by_unique)
    show "\<forall>e \<in> set xs. k_cost e \<noteq> F_NaN" using mem(2) is_cost_not_NaN by auto
    show "a = b" if "a \<in> set xs" "b \<in> set xs" "\<not> rank_less a b" "\<not> rank_less b a" for a b
    proof -
      have "k_id a = k_id b"
        by (rule rank_less_separates [OF is_cost_not_NaN is_cost_not_NaN]) (fact that mem(2) [OF that(1)] mem(2) [OF that(2)])+
      then have "Some a = Some b" unfolding mem(1) [OF that(1), symmetric] mem(1) [OF that(2), symmetric] by (rule arg_cong)
      then show "a = b" by (rule option.inject [THEN iffD1])
    qed
  qed
  then show ?thesis
    using rank_ids_total [OF ok cands] rank_ids_total [OF ok cands'] unfolding xs_def by force
qed

lemma candidates_rankable:
  assumes "um_ok (s_nodes s)" and "i \<in> set (candidates_of_type s src t)"
  shows "rankable s src i \<and> (\<exists>n. find_node s i = Some n \<and> n_type n = t)"
proof -
  obtain n where n: "(i, n) \<in> set (s_nodes s)" "i \<noteq> src" "n_type n = t"
    using assms(2) by (auto simp: candidates_of_type_def)
  then have "map_of (s_nodes s) i = Some n"
    using assms(1) by (simp add: um_ok_def um_keys_def)
  with n show ?thesis by (simp add: rankable_def find_node_def um_find_def)
qed

lemma rank_candidates_total:
  assumes wf: "snapshot_wf s" and closed: "snapshot_closed s" and policy: "policy_ok s w"
    and known: "find_node s src \<noteq> None"
  shows "\<exists>es. ranking_of s src w (candidates_of_type s src t) es
    \<and> rank_candidates s src t k w = Some (Inr \<lparr> rr_found = (es \<noteq> []), rr_source = src,
        rr_ranked = (if 0 < k then take k es else es), rr_cost_policy_version = w_version w \<rparr>)"
proof -
  have "um_ok (s_nodes s)" using wf by (simp add: snapshot_wf_def)
  then have "\<forall>i \<in> set (candidates_of_type s src t). rankable s src i"
    using candidates_rankable by blast
  from rank_ids_total [OF wf closed policy known this] show ?thesis
    using known by (auto simp: rank_candidates_def)
qed

lemma rank_candidates_limit:
  assumes "snapshot_wf s" and "snapshot_closed s" and "policy_ok s w" and "find_node s src \<noteq> None"
  shows "\<exists>es. rank_candidates s src t 0 w = Some (Inr \<lparr> rr_found = (es \<noteq> []), rr_source = src,
        rr_ranked = es, rr_cost_policy_version = w_version w \<rparr>)
    \<and> rank_candidates s src t k w = Some (Inr \<lparr> rr_found = (es \<noteq> []), rr_source = src,
        rr_ranked = (if 0 < k then take k es else es), rr_cost_policy_version = w_version w \<rparr>)"
proof -
  have "um_ok (s_nodes s)" using assms(1) by (simp add: snapshot_wf_def)
  then have "\<forall>i \<in> set (candidates_of_type s src t). rankable s src i"
    using candidates_rankable by blast
  from rank_ids_total [OF assms this] show ?thesis
    using assms(4) by (auto simp: rank_candidates_def)
qed

lemma rank_candidate_list_total:
  assumes wf: "snapshot_wf s" and closed: "snapshot_closed s" and policy: "policy_ok s w"
    and known: "find_node s src \<noteq> None"
  shows "\<exists>es. ranking_of s src w (filter (rankable s src) is) es
    \<and> rank_candidate_list s src is w = Some (Inr \<lparr> rr_found = (es \<noteq> []), rr_source = src,
        rr_ranked = es, rr_cost_policy_version = w_version w \<rparr>)"
proof -
  have "(\<lambda>i. \<not> (i = src \<or> find_node s i = None)) = rankable s src" by (auto simp: rankable_def)
  moreover have "\<forall>i \<in> set (filter (rankable s src) is). rankable s src i" by simp
  note rank_ids_total [OF wf closed policy known this]
  ultimately show ?thesis using known by (auto simp: rank_candidate_list_def)
qed

lemma rank_candidate_list_order:
  assumes ok: "snapshot_wf s" "snapshot_closed s" "policy_ok s w" and perm: "mset is = mset js"
  shows "rank_candidate_list s src is w = rank_candidate_list s src js w"
proof (cases "find_node s src = None")
  case False
  have "\<forall>i \<in> set (filter (\<lambda>i. \<not> (i = src \<or> find_node s i = None)) is). rankable s src i"
    by (simp add: rankable_def)
  moreover have "mset (filter (\<lambda>i. \<not> (i = src \<or> find_node s i = None)) is)
      = mset (filter (\<lambda>i. \<not> (i = src \<or> find_node s i = None)) js)"
    using perm by (simp add: mset_filter)
  ultimately have "rank_ids s src w (filter (\<lambda>i. \<not> (i = src \<or> find_node s i = None)) is)
      = rank_ids s src w (filter (\<lambda>i. \<not> (i = src \<or> find_node s i = None)) js)"
    by (rule rank_ids_order [OF ok False])
  then show ?thesis using False by (simp only: rank_candidate_list_def if_False)
qed (simp add: rank_candidate_list_def)

section \<open>The explanation\<close>

lemma explain_total:
  assumes wf: "snapshot_wf s" and closed: "snapshot_closed s" and policy: "policy_ok s w"
    and known: "find_node s src = Some ns" "find_node s dst = Some nd" and ne: "src \<noteq> dst"
  shows "\<exists>x p cb. explain s src dst w = Some (Inr x) \<and> lowest_cost_path s src dst w = Some (Inr p)
    \<and> cost_breakdown s p w = Inr cb \<and> x_source x = src \<and> x_destination x = dst \<and> x_cost x = cb
    \<and> x_path_class x = p_path_class p \<and> x_locality x = p_locality p
    \<and> x_factors x = explain_factors p cb"
proof -
  obtain p where p: "lowest_cost_path s src dst w = Some (Inr p)" "p_source p = src" "p_destination p = dst"
    "p_found p \<Longrightarrow> route s False src (map hop (p_segments p)) dst"
    and nf: "\<not> p_found p \<Longrightarrow> p_segments p = []"
    using lowest_cost_path_total [OF wf closed policy known] by metis
  have "on_route s (p_segments p)"
  proof (cases "p_found p")
    case True
    show ?thesis by (rule route_on_route) (rule p(4) [OF True])
  qed (simp add: nf on_route_def)
  from cost_breakdown_route [OF closed this known [folded p(2,3)], of w] obtain cb
    where cb: "cost_breakdown s p w = Inr cb" by auto
  obtain rs where rs: "build_reasons s src dst w = Some (Inr rs)"
    using build_reasons_total [OF wf closed known ne] by blast
  show ?thesis
    using p(1) cb rs known by (auto simp: explain_def Let_def default_explanation_def)
qed

end
