(* ===== verification/TF_Diff.thy ===== *)
theory TF_Diff
  imports TF_Snapshot "HOL-Library.Product_Lexorder"
begin

text \<open>
  Snapshot comparison (\<open>diff.cpp\<close>, \<open>diff.hpp\<close>): the events between two snapshots and the
  flag for a material change.

  The lemmas show when each kind of event occurs, that the event list is sorted and does not depend
  on the order in which the hash maps and the edge vectors enumerate their elements, that comparing
  a snapshot with itself gives no event, that additions and removals are dual, and what it means that
  the material flag is not set.
\<close>

section \<open>Events\<close>

record diff_event =
  ev_kind :: diff_event_kind
  ev_node :: node_id
  ev_node2 :: node_id
  ev_key :: string
  ev_before :: string
  ev_after :: string
  ev_on_edge :: bool

definition default_event :: diff_event where
  "default_event = \<lparr> ev_kind = DE_PROPERTY_CHANGED, ev_node = kNullNodeId, ev_node2 = kNullNodeId,
     ev_key = '''', ev_before = '''', ev_after = '''', ev_on_edge = False \<rparr>"

record topology_diff =
  td_generation_before :: "64 word"
  td_generation_after :: "64 word"
  td_material_change :: bool
  td_events :: "diff_event list"

fun is_material_event :: "diff_event \<Rightarrow> bool" where
  "is_material_event e = (case ev_kind e of DE_PROPERTY_CHANGED \<Rightarrow> ev_on_edge e | _ \<Rightarrow> True)"

definition is_material_change :: "topology_diff \<Rightarrow> bool" where
  "is_material_change d = td_material_change d"

section \<open>The comparison\<close>

definition node_event :: "diff_event_kind \<Rightarrow> node_id \<Rightarrow> string \<Rightarrow> string \<Rightarrow> diff_event" where
  "node_event k i before after =
     default_event \<lparr> ev_kind := k, ev_node := i, ev_before := before, ev_after := after \<rparr>"

definition edge_event :: "diff_event_kind \<Rightarrow> topology_edge \<Rightarrow> string \<Rightarrow> diff_event" where
  "edge_event k e key =
     default_event \<lparr> ev_kind := k, ev_node := e_source e, ev_node2 := e_target e, ev_key := key,
                     ev_on_edge := True \<rparr>"

definition added_nodes :: "(node_id, topology_node) umap \<Rightarrow> (node_id, topology_node) umap \<Rightarrow> diff_event list" where
  "added_nodes A B =
     map (\<lambda>(i, n). node_event DE_NODE_ADDED i [] (node_type_to_string (n_type n)))
       (filter (\<lambda>(i, n). um_find A i = None) B)"

definition removed_nodes :: "(node_id, topology_node) umap \<Rightarrow> (node_id, topology_node) umap \<Rightarrow> diff_event list" where
  "removed_nodes A B =
     map (\<lambda>(i, n). node_event DE_NODE_REMOVED i (node_type_to_string (n_type n)) [])
       (filter (\<lambda>(i, n). \<not> um_count B i) A)"

definition locality_changed :: "topology_node \<Rightarrow> topology_node \<Rightarrow> bool" where
  "locality_changed na nb \<longleftrightarrow>
     ni_numa_node (n_native na) \<noteq> ni_numa_node (n_native nb)
     \<or> ni_cpu_package (n_native na) \<noteq> ni_cpu_package (n_native nb)
     \<or> ni_core_id (n_native na) \<noteq> ni_core_id (n_native nb)"

definition property_changed :: "property_map \<Rightarrow> string \<times> property_value \<Rightarrow> bool" where
  "property_changed pa kv = (case om_find pa (fst kv) of None \<Rightarrow> True | Some va \<Rightarrow> \<not> pv_eq va (snd kv))"

definition changed_node :: "node_id \<Rightarrow> topology_node \<Rightarrow> topology_node \<Rightarrow> diff_event list" where
  "changed_node i na nb =
     (if n_capabilities na \<noteq> n_capabilities nb
      then [node_event DE_CAPABILITY_CHANGED i (dec_digits (unat (n_capabilities na)))
              (dec_digits (unat (n_capabilities nb)))] else [])
     @ (if locality_changed na nb
        then [node_event DE_LOCALITY_CHANGED i (canonical_key (n_native na)) (canonical_key (n_native nb))]
        else [])
     @ (if pr_provider (n_provenance na) \<noteq> pr_provider (n_provenance nb)
        then [node_event DE_PROVIDER_CHANGED i (pr_provider (n_provenance na)) (pr_provider (n_provenance nb))]
        else [])
     @ map (\<lambda>kv. (node_event DE_PROPERTY_CHANGED i [] []) \<lparr> ev_key := fst kv, ev_on_edge := False \<rparr>)
         (filter (property_changed (n_properties na)) (n_properties nb))"

definition changed_nodes :: "(node_id, topology_node) umap \<Rightarrow> (node_id, topology_node) umap \<Rightarrow> diff_event list" where
  "changed_nodes A B =
     concat (map (\<lambda>(i, nb). case um_find A i of None \<Rightarrow> [] | Some na \<Rightarrow> changed_node i na nb) B)"

text \<open>The edges, by their canonical keys.\<close>

definition edges_missing :: "diff_event_kind \<Rightarrow> topology_edge list \<Rightarrow> topology_edge list \<Rightarrow> diff_event list" where
  "edges_missing k from to =
     map (\<lambda>e. edge_event k e (edge_type_to_string (e_type e)))
       (filter (\<lambda>e. edge_key e \<notin> edge_key ` set to) from)"

text \<open>\<open>!=\<close> of two \<open>std::optional<double>\<close>.\<close>

definition opt_f64_ne :: "f64 option \<Rightarrow> f64 option \<Rightarrow> bool" where
  "opt_f64_ne x y = (case (x, y) of
     (None, None) \<Rightarrow> False | (Some a, Some b) \<Rightarrow> \<not> f64_eq a b | _ \<Rightarrow> True)"

definition link_changed :: "topology_edge \<Rightarrow> topology_edge \<Rightarrow> bool" where
  "link_changed ea e \<longleftrightarrow>
     opt_f64_ne (e_bandwidth_bytes_per_sec ea) (e_bandwidth_bytes_per_sec e)
     \<or> opt_f64_ne (e_latency_ns ea) (e_latency_ns e) \<or> e_width ea \<noteq> e_width e
     \<or> e_pcie_generation ea \<noteq> e_pcie_generation e \<or> e_accessible ea \<noteq> e_accessible e"

definition changed_edges :: "topology_edge list \<Rightarrow> topology_edge list \<Rightarrow> diff_event list" where
  "changed_edges EA EB =
     map (\<lambda>e. edge_event DE_PROPERTY_CHANGED e ''edge.link'')
       (filter (\<lambda>e. case find (\<lambda>ae. edge_key ae = edge_key e) EA of
                      None \<Rightarrow> False | Some ea \<Rightarrow> link_changed ea e) EB)"

definition event_less :: "diff_event \<Rightarrow> diff_event \<Rightarrow> bool" where
  "event_less a b \<longleftrightarrow>
     (if ev_kind a \<noteq> ev_kind b then diff_event_kind_int (ev_kind a) < diff_event_kind_int (ev_kind b)
      else if ev_node a \<noteq> ev_node b then ev_node a < ev_node b
      else if ev_node2 a \<noteq> ev_node2 b then ev_node2 a < ev_node2 b
      else if ev_key a \<noteq> ev_key b then ev_key a < ev_key b
      else ev_before a < ev_before b)"

definition raw_events :: "topology_snapshot \<Rightarrow> topology_snapshot \<Rightarrow> diff_event list" where
  "raw_events before after =
     (let A = s_nodes before; B = s_nodes after; EA = s_edges before; EB = s_edges after in
      added_nodes A B @ removed_nodes A B @ changed_nodes A B
      @ edges_missing DE_EDGE_ADDED EB EA @ edges_missing DE_EDGE_REMOVED EA EB @ changed_edges EA EB)"

definition compare_snapshots :: "topology_snapshot \<Rightarrow> topology_snapshot \<Rightarrow> topology_diff" where
  "compare_snapshots before after =
     (let events = sort_by event_less (raw_events before after) in
      \<lparr> td_generation_before = m_generation (s_metadata before),
        td_generation_after = m_generation (s_metadata after),
        td_material_change = list_ex is_material_event events, td_events = events \<rparr>)"

section \<open>The order of the events\<close>

definition event_key :: "diff_event \<Rightarrow> int \<times> node_id \<times> node_id \<times> string \<times> string" where
  "event_key e = (diff_event_kind_int (ev_kind e), ev_node e, ev_node2 e, ev_key e, ev_before e)"

lemma event_less_key: "event_less a b \<longleftrightarrow> event_key a < event_key b"
  using diff_event_kind_int_inj [of "ev_kind a" "ev_kind b"] by (auto simp: event_less_def event_key_def simp del: diff_event_kind_int_inj)

lemma event_less_eq: "event_less = (\<lambda>a b. event_key a < event_key b)"
  by (intro ext) (rule event_less_key)

interpretation events: sort_order event_less "\<lambda>_. True"
  unfolding event_less_eq by (rule sort_order_key)

lemma events_sorted: "sorted_wrt (\<lambda>a b. event_key a \<le> event_key b) (td_events (compare_snapshots s t))"
  using events.sorted_sort_by [of "raw_events s t"]
  by (simp add: compare_snapshots_def Let_def event_less_key not_less)

lemma events_raw: "set (td_events (compare_snapshots s t)) = set (raw_events s t)"
  by (simp add: compare_snapshots_def Let_def)

lemma material_iff: "td_material_change (compare_snapshots s t) \<longleftrightarrow> (\<exists>e \<in> set (raw_events s t). is_material_event e)"
  by (simp add: compare_snapshots_def Let_def list_ex_iff)

section \<open>What is material\<close>

lemma material_node_event [simp]: "k \<noteq> DE_PROPERTY_CHANGED \<Longrightarrow> is_material_event (node_event k i b a)"
  by (simp add: node_event_def default_event_def split: diff_event_kind.splits)

lemma not_material_property [simp]:
  "\<not> is_material_event ((node_event DE_PROPERTY_CHANGED i b a) \<lparr> ev_key := k, ev_on_edge := False \<rparr>)"
  by (simp add: node_event_def default_event_def)

lemma material_edge_event [simp]: "is_material_event (edge_event k e key)"
  by (simp add: edge_event_def default_event_def split: diff_event_kind.splits)

text \<open>Two nodes that differ at most in their properties, names and the like.\<close>

definition same_facts :: "topology_node \<Rightarrow> topology_node \<Rightarrow> bool" where
  "same_facts na nb \<longleftrightarrow> n_capabilities na = n_capabilities nb \<and> \<not> locality_changed na nb
     \<and> pr_provider (n_provenance na) = pr_provider (n_provenance nb)"

lemma changed_node_material:
  "(\<exists>e \<in> set (changed_node i na nb). is_material_event e) \<longleftrightarrow> \<not> same_facts na nb"
  by (auto simp: changed_node_def same_facts_def simp del: is_material_event.simps)

text \<open>The link facts of every edge of \<open>EB\<close> are those of its first namesake in \<open>EA\<close>.\<close>

definition same_links :: "topology_edge list \<Rightarrow> topology_edge list \<Rightarrow> bool" where
  "same_links EA EB \<longleftrightarrow> (\<forall>e \<in> set EB. \<forall>ea. find (\<lambda>ae. edge_key ae = edge_key e) EA = Some ea \<longrightarrow> \<not> link_changed ea e)"

definition same_topology :: "topology_snapshot \<Rightarrow> topology_snapshot \<Rightarrow> bool" where
  "same_topology s t \<longleftrightarrow>
     set (um_keys (s_nodes s)) = set (um_keys (s_nodes t))
     \<and> (\<forall>i na nb. um_find (s_nodes s) i = Some na \<longrightarrow> um_find (s_nodes t) i = Some nb \<longrightarrow> same_facts na nb)
     \<and> edge_key ` set (s_edges s) = edge_key ` set (s_edges t)
     \<and> same_links (s_edges s) (s_edges t)"

lemma added_nodes_empty: "added_nodes A B = [] \<longleftrightarrow> set (um_keys B) \<subseteq> set (um_keys A)"
  by (force simp: added_nodes_def filter_empty_conv um_find_None_iff um_keys_def)

lemma removed_nodes_empty: "removed_nodes A B = [] \<longleftrightarrow> set (um_keys A) \<subseteq> set (um_keys B)"
  by (force simp: removed_nodes_def filter_empty_conv um_count_iff um_keys_def)

lemma edges_missing_empty: "edges_missing k E F = [] \<longleftrightarrow> edge_key ` set E \<subseteq> edge_key ` set F"
  by (auto simp: edges_missing_def filter_empty_conv)

lemma changed_edges_empty: "changed_edges EA EB = [] \<longleftrightarrow> same_links EA EB"
  by (auto simp: changed_edges_def filter_empty_conv same_links_def split: option.splits)

lemma all_material:
  "e \<in> set (added_nodes A B) \<or> e \<in> set (removed_nodes A B) \<or> e \<in> set (edges_missing k E F)
    \<or> e \<in> set (changed_edges E F) \<Longrightarrow> is_material_event e"
  by (auto simp: added_nodes_def removed_nodes_def edges_missing_def changed_edges_def
      simp del: is_material_event.simps)

lemma some_material:
  assumes "set xs \<subseteq> Collect is_material_event"
  shows "(\<exists>e \<in> set xs. is_material_event e) \<longleftrightarrow> xs \<noteq> []"
  using assms by (cases xs) auto

lemma changed_nodes_material:
  assumes "um_ok B"
  shows "(\<exists>e \<in> set (changed_nodes A B). is_material_event e) \<longleftrightarrow>
    (\<exists>i na nb. um_find A i = Some na \<and> um_find B i = Some nb \<and> \<not> same_facts na nb)"
proof -
  have "e \<in> set (changed_nodes A B) \<longleftrightarrow>
      (\<exists>i na nb. um_find A i = Some na \<and> (i, nb) \<in> set B \<and> e \<in> set (changed_node i na nb))" for e
    by (force simp: changed_nodes_def split: option.splits)
  then have "(\<exists>e \<in> set (changed_nodes A B). is_material_event e) \<longleftrightarrow>
    (\<exists>i na nb. um_find A i = Some na \<and> (i, nb) \<in> set B \<and> (\<exists>e \<in> set (changed_node i na nb). is_material_event e))"
    by blast
  then show ?thesis by (simp only: changed_node_material um_find_mem [OF assms])
qed

lemma not_material_iff:
  assumes "um_ok (s_nodes t)"
  shows "\<not> td_material_change (compare_snapshots s t) \<longleftrightarrow> same_topology s t"
proof -
  note parts = some_material [OF subsetI]
  have "(\<exists>e \<in> set (added_nodes A B). is_material_event e) \<longleftrightarrow> added_nodes A B \<noteq> []"
    "(\<exists>e \<in> set (removed_nodes A B). is_material_event e) \<longleftrightarrow> removed_nodes A B \<noteq> []"
    "(\<exists>e \<in> set (edges_missing k E F). is_material_event e) \<longleftrightarrow> edges_missing k E F \<noteq> []"
    "(\<exists>e \<in> set (changed_edges E F). is_material_event e) \<longleftrightarrow> changed_edges E F \<noteq> []" for A B k E F
    by (rule parts, rule CollectI, rule all_material, blast)+
  note material = this changed_nodes_material [OF assms, of "s_nodes s"]
  show ?thesis
    unfolding material_iff raw_events_def Let_def set_append bex_Un
    by (simp only: material added_nodes_empty removed_nodes_empty edges_missing_empty changed_edges_empty
        same_topology_def set_eq_subset not_ex de_Morgan_conj de_Morgan_disj imp_conv_disj not_not) argo
qed

section \<open>Comparing a snapshot with itself\<close>

text \<open>No double among the compared facts is a not-a-number, the maps have unique keys, and no two
  edges share a key.\<close>

definition edge_numbers :: "topology_edge \<Rightarrow> bool" where
  "edge_numbers e \<longleftrightarrow> e_bandwidth_bytes_per_sec e \<noteq> Some F_NaN \<and> e_latency_ns e \<noteq> Some F_NaN"

definition comparable :: "topology_snapshot \<Rightarrow> bool" where
  "comparable s \<longleftrightarrow> um_ok (s_nodes s) \<and> distinct (map edge_key (s_edges s))
     \<and> (\<forall>e \<in> set (s_edges s). edge_numbers e)
     \<and> (\<forall>(i, n) \<in> set (s_nodes s). om_ok (n_properties n) \<and> (\<forall>(k, v) \<in> set (n_properties n). v \<noteq> PV_Double F_NaN))"

lemma opt_f64_ne_same: "x \<noteq> Some F_NaN \<Longrightarrow> \<not> opt_f64_ne x x"
  by (cases x) (simp_all add: opt_f64_ne_def f64_eq_def)

lemma om_find_mem: "om_ok m \<Longrightarrow> (k, v) \<in> set m \<Longrightarrow> om_find m k = Some v"
  by (simp add: om_ok_def om_find_def strict_sorted_iff)

lemma find_key:
  "distinct (map f xs) \<Longrightarrow> x \<in> set xs \<Longrightarrow> find (\<lambda>y. f y = f x) xs = Some x"
  by (induction xs) (auto simp: rev_image_eqI)

lemma changed_node_same:
  assumes "om_ok (n_properties n)" and "\<forall>(k, v) \<in> set (n_properties n). v \<noteq> PV_Double F_NaN"
  shows "changed_node i n n = []"
proof -
  have "\<not> property_changed (n_properties n) kv" if "kv \<in> set (n_properties n)" for kv
    using that assms(2) om_find_mem [OF assms(1), of "fst kv" "snd kv"]
    by (cases kv) (auto simp: property_changed_def pv_eq_refl_iff)
  then show ?thesis by (simp add: changed_node_def locality_changed_def filter_empty_conv)
qed

lemma compare_self: "comparable s \<Longrightarrow> raw_events s s = []"
proof -
  assume ok: "comparable s"
  let ?A = "s_nodes s" and ?E = "s_edges s"
  have nodes: "(case um_find ?A i of None \<Rightarrow> [] | Some na \<Rightarrow> changed_node i na n) = []"
    if "(i, n) \<in> set ?A" for i n
  proof -
    have "um_find ?A i = Some n" using ok that by (simp add: comparable_def um_find_mem)
    moreover have "changed_node i n n = []"
      using ok that by (intro changed_node_same) (auto simp: comparable_def)
    ultimately show ?thesis by simp
  qed
  have "changed_nodes ?A ?A = []"
    using nodes by (auto simp: changed_nodes_def)
  moreover have "same_links ?E ?E"
  proof -
    have "\<not> link_changed e e" if "e \<in> set ?E" for e
      using ok that by (auto simp: comparable_def edge_numbers_def link_changed_def opt_f64_ne_same)
    moreover have "find (\<lambda>ae. edge_key ae = edge_key e) ?E = Some e" if "e \<in> set ?E" for e
      using ok that by (intro find_key) (simp_all add: comparable_def)
    ultimately show ?thesis by (auto simp: same_links_def)
  qed
  ultimately show ?thesis
    by (simp add: raw_events_def Let_def added_nodes_empty removed_nodes_empty edges_missing_empty changed_edges_empty)
qed

section \<open>Additions and removals\<close>

lemma event_of_kind:
  "e \<in> set (changed_node i na nb) \<Longrightarrow> ev_kind e \<notin> {DE_NODE_ADDED, DE_NODE_REMOVED, DE_EDGE_ADDED, DE_EDGE_REMOVED}"
  by (auto simp: changed_node_def node_event_def default_event_def split: if_splits)

lemma raw_kind:
  "(e \<in> set (raw_events s t) \<and> ev_kind e = DE_NODE_ADDED) \<longleftrightarrow> e \<in> set (added_nodes (s_nodes s) (s_nodes t))"
  "(e \<in> set (raw_events s t) \<and> ev_kind e = DE_NODE_REMOVED) \<longleftrightarrow> e \<in> set (removed_nodes (s_nodes s) (s_nodes t))"
  using event_of_kind [of e]
  by (auto simp: raw_events_def Let_def added_nodes_def removed_nodes_def edges_missing_def changed_edges_def
      changed_nodes_def node_event_def edge_event_def default_event_def split: option.splits)

lemma node_added_iff:
  assumes "um_ok (s_nodes t)"
  shows "(\<exists>e \<in> set (raw_events s t). ev_kind e = DE_NODE_ADDED \<and> ev_node e = i) \<longleftrightarrow>
    find_node t i \<noteq> None \<and> find_node s i = None"
proof -
  have "(\<exists>e \<in> set (raw_events s t). ev_kind e = DE_NODE_ADDED \<and> ev_node e = i) \<longleftrightarrow>
    (\<exists>e \<in> set (added_nodes (s_nodes s) (s_nodes t)). ev_node e = i)"
    using raw_kind(1) [of _ s t] by blast
  also have "\<dots> \<longleftrightarrow> (\<exists>n. (i, n) \<in> set (s_nodes t)) \<and> um_find (s_nodes s) i = None"
    by (force simp: added_nodes_def node_event_def default_event_def)
  finally show ?thesis by (simp add: find_node_def flip: um_find_mem [OF assms])
qed

lemma node_removed_iff:
  assumes "um_ok (s_nodes s)"
  shows "(\<exists>e \<in> set (raw_events s t). ev_kind e = DE_NODE_REMOVED \<and> ev_node e = i) \<longleftrightarrow>
    find_node s i \<noteq> None \<and> find_node t i = None"
proof -
  have "(\<exists>e \<in> set (raw_events s t). ev_kind e = DE_NODE_REMOVED \<and> ev_node e = i) \<longleftrightarrow>
    (\<exists>e \<in> set (removed_nodes (s_nodes s) (s_nodes t)). ev_node e = i)"
    using raw_kind(2) [of _ s t] by blast
  also have "\<dots> \<longleftrightarrow> (\<exists>n. (i, n) \<in> set (s_nodes s)) \<and> um_find (s_nodes t) i = None"
    by (force simp: removed_nodes_def um_count_def node_event_def default_event_def)
  finally show ?thesis by (simp add: find_node_def flip: um_find_mem [OF assms])
qed

section \<open>Independence of the enumeration order\<close>

text \<open>Two events with one sort key are equal: key and kind determine what follows.\<close>

definition after_text :: "topology_snapshot \<Rightarrow> diff_event_kind \<Rightarrow> node_id \<Rightarrow> string" where
  "after_text t k i = (case um_find (s_nodes t) i of None \<Rightarrow> [] | Some n \<Rightarrow>
     (case k of DE_NODE_ADDED \<Rightarrow> node_type_to_string (n_type n)
      | DE_CAPABILITY_CHANGED \<Rightarrow> dec_digits (unat (n_capabilities n))
      | DE_LOCALITY_CHANGED \<Rightarrow> canonical_key (n_native n)
      | DE_PROVIDER_CHANGED \<Rightarrow> pr_provider (n_provenance n)
      | _ \<Rightarrow> []))"

definition edge_side :: "diff_event_kind \<Rightarrow> node_id \<Rightarrow> bool" where
  "edge_side k j \<longleftrightarrow> k \<in> {DE_EDGE_ADDED, DE_EDGE_REMOVED} \<or> k = DE_PROPERTY_CHANGED \<and> j \<noteq> kNullNodeId"

definition ends_real :: "topology_edge list \<Rightarrow> bool" where
  "ends_real E \<longleftrightarrow> (\<forall>e \<in> set E. e_target e \<noteq> kNullNodeId)"

lemma changed_node_shape:
  assumes "um_find (s_nodes t) i = Some nb" and "e \<in> set (changed_node i na nb)"
  shows "ev_after e = after_text t (ev_kind e) (ev_node e) \<and> ev_on_edge e = edge_side (ev_kind e) (ev_node2 e)"
  using assms
  by (auto simp: changed_node_def after_text_def edge_side_def node_event_def default_event_def split: if_splits)

lemma edge_event_shape:
  assumes "k \<in> {DE_EDGE_ADDED, DE_EDGE_REMOVED} \<or> k = DE_PROPERTY_CHANGED \<and> e_target x \<noteq> kNullNodeId"
    and "e = edge_event k x key"
  shows "ev_after e = after_text t (ev_kind e) (ev_node e) \<and> ev_on_edge e = edge_side (ev_kind e) (ev_node2 e)"
  using assms by (auto simp: after_text_def edge_side_def edge_event_def default_event_def split: option.splits)

lemma node_event_shape:
  assumes "e = node_event DE_NODE_ADDED i b a \<and> (\<exists>n. um_find (s_nodes t) i = Some n \<and> a = node_type_to_string (n_type n))
    \<or> e = node_event DE_NODE_REMOVED i b [] "
  shows "ev_after e = after_text t (ev_kind e) (ev_node e) \<and> ev_on_edge e = edge_side (ev_kind e) (ev_node2 e)"
  using assms by (auto simp: after_text_def edge_side_def node_event_def default_event_def split: option.splits)

lemma raw_shape:
  assumes "um_ok (s_nodes t)" and "ends_real (s_edges t)" and "e \<in> set (raw_events s t)"
  shows "ev_after e = after_text t (ev_kind e) (ev_node e) \<and> ev_on_edge e = edge_side (ev_kind e) (ev_node2 e)"
proof -
  consider (added) "e \<in> set (added_nodes (s_nodes s) (s_nodes t))"
    | (removed) "e \<in> set (removed_nodes (s_nodes s) (s_nodes t))"
    | (changed) "e \<in> set (changed_nodes (s_nodes s) (s_nodes t))"
    | (edges) k E F where "k \<in> {DE_EDGE_ADDED, DE_EDGE_REMOVED}" "e \<in> set (edges_missing k E F)"
    | (links) "e \<in> set (changed_edges (s_edges s) (s_edges t))"
    using assms(3) by (auto simp: raw_events_def Let_def)
  then show ?thesis
  proof cases
    case added
    then obtain i n where "(i, n) \<in> set (s_nodes t)"
      "e = node_event DE_NODE_ADDED i [] (node_type_to_string (n_type n))" by (auto simp: added_nodes_def)
    then show ?thesis
      using um_find_mem [OF assms(1)] by (intro node_event_shape disjI1) auto
  next
    case removed
    then obtain i b where "e = node_event DE_NODE_REMOVED i b []" by (auto simp: removed_nodes_def)
    then show ?thesis by (intro node_event_shape) auto
  next
    case changed
    then obtain i na nb where "(i, nb) \<in> set (s_nodes t)" "e \<in> set (changed_node i na nb)"
      by (auto simp: changed_nodes_def split: option.splits)
    then show ?thesis using um_find_mem [OF assms(1)] by (intro changed_node_shape) auto
  next
    case edges
    then obtain x key where "e = edge_event k x key" by (auto simp: edges_missing_def)
    then show ?thesis using edges(1) by (intro edge_event_shape) auto
  next
    case links
    then obtain x where "x \<in> set (s_edges t)" "e = edge_event DE_PROPERTY_CHANGED x ''edge.link''"
      by (auto simp: changed_edges_def)
    then show ?thesis using assms(2) by (intro edge_event_shape) (auto simp: ends_real_def)
  qed
qed

lemma event_determined:
  assumes ok: "um_ok (s_nodes t)" "ends_real (s_edges t)"
    and mem: "a \<in> set (raw_events s t)" "b \<in> set (raw_events s t)" and key: "event_key a = event_key b"
  shows "a = b"
proof -
  have "ev_kind a = ev_kind b" "ev_node a = ev_node b" "ev_node2 a = ev_node2 b"
    "ev_key a = ev_key b" "ev_before a = ev_before b"
    using key by (auto simp: event_key_def diff_event_kind_int_inj)
  with raw_shape [OF ok mem(1)] raw_shape [OF ok mem(2)] show ?thesis
    by (intro diff_event.equality) simp_all
qed

definition reordered :: "topology_snapshot \<Rightarrow> topology_snapshot \<Rightarrow> bool" where
  "reordered s s' \<longleftrightarrow> mset (s_nodes s) = mset (s_nodes s') \<and> mset (s_edges s) = mset (s_edges s')"

lemma find_perm:
  assumes "distinct (map f xs)" and "mset xs = mset ys"
  shows "find (\<lambda>y. f y = k) xs = find (\<lambda>y. f y = k) ys"
proof -
  have distinct: "distinct (map f ys)"
    using assms by (metis mset_eq_imp_distinct_iff mset_map)
  have sets: "set xs = set ys" using assms(2) by (rule mset_eq_setD)
  show ?thesis
  proof (cases "find (\<lambda>y. f y = k) ys")
    case None
    moreover from None have "find (\<lambda>y. f y = k) xs = None" using sets by (simp add: find_None_iff)
    ultimately show ?thesis by simp
  next
    case (Some y)
    then have "y \<in> set xs" "f y = k" using sets by (auto simp: find_Some_iff)
    then show ?thesis using Some find_key [OF assms(1), of y] by simp
  qed
qed

lemma raw_events_perm:
  assumes ok: "um_ok (s_nodes s)" "um_ok (s_nodes t)" "distinct (map edge_key (s_edges s))"
    and "reordered s s'" and "reordered t t'"
  shows "mset (raw_events s t) = mset (raw_events s' t')"
proof -
  have A: "mset (s_nodes s) = mset (s_nodes s')" and B: "mset (s_nodes t) = mset (s_nodes t')"
    and E: "mset (s_edges s) = mset (s_edges s')" and F: "mset (s_edges t) = mset (s_edges t')"
    using assms(4,5) by (simp_all add: reordered_def)
  note looks = um_find_perm [OF ok(1) A] um_find_perm [OF ok(2) B]
    mset_eq_setD [OF E] mset_eq_setD [OF F] find_perm [OF ok(3) E]
  have "mset (concat (map g xs)) = mset (concat (map g ys))" if "mset xs = mset ys"
    for g :: "node_id \<times> topology_node \<Rightarrow> diff_event list" and xs ys
    using that by (metis mset_concat mset_map sum_mset_sum_list)
  from this [OF B] show ?thesis
    using A B E F looks
    by (simp add: raw_events_def Let_def added_nodes_def removed_nodes_def edges_missing_def changed_nodes_def
        changed_edges_def um_count_def mset_map mset_filter)
qed

lemma compare_order:
  assumes ok: "um_ok (s_nodes s)" "um_ok (s_nodes t)" "distinct (map edge_key (s_edges s))"
    and real: "ends_real (s_edges t)" and perm: "reordered s s'" "reordered t t'"
  shows "td_events (compare_snapshots s t) = td_events (compare_snapshots s' t')"
proof -
  have "sort_by event_less (raw_events s t) = sort_by event_less (raw_events s' t')"
  proof (rule events.sort_by_unique)
    show "mset (raw_events s t) = mset (raw_events s' t')" by (rule raw_events_perm) fact+
    show "a = b" if "a \<in> set (raw_events s t)" "b \<in> set (raw_events s t)"
      "\<not> event_less a b" "\<not> event_less b a" for a b
    proof (rule event_determined [OF ok(2) real that(1,2)])
      show "event_key a = event_key b" using that(3,4) by (simp add: event_less_key)
    qed
  qed simp
  then show ?thesis by (simp add: compare_snapshots_def Let_def)
qed

end
