(* ===== verification/TF_Example.thy ===== *)
theory TF_Example
  imports TF_Ranking TF_Diff
begin

text \<open>
  A small machine, on which the properties of the snapshot operations are instantiated: a machine
  that contains a PCI root, the root contains two accelerators, and a storage device that no edge
  reaches. The snapshot is built with the builder's own calls.
\<close>

definition ex_node :: "64 word \<Rightarrow> node_type \<Rightarrow> topology_node" where
  "ex_node i t = default_node \<lparr> n_id := NodeId 0 i, n_type := t \<rparr>"

definition ex_edge :: "64 word \<Rightarrow> 64 word \<Rightarrow> topology_edge" where
  "ex_edge i j = default_edge \<lparr> e_source := NodeId 0 i, e_target := NodeId 0 j, e_type := ET_CONTAINS,
     e_confidence := CF_HIGH \<rparr>"

definition ex_ops :: "builder_op list" where
  "ex_ops =
     [Op_add_node (ex_node 1 NT_MACHINE), Op_add_node (ex_node 2 NT_PCI_ROOT),
      Op_add_node (ex_node 3 NT_ACCELERATOR), Op_add_node (ex_node 4 NT_ACCELERATOR),
      Op_add_node (ex_node 5 NT_STORAGE_DEVICE),
      Op_add_edge (ex_edge 1 2), Op_add_edge (ex_edge 2 3), Op_add_edge (ex_edge 2 4)]"

definition ex_builder :: snapshot_builder where
  "ex_builder = fold run_op ex_ops (new_builder (default_bounds \<lparr> b_max_nodes := 10, b_max_edges := 10 \<rparr>))"

definition ex_snapshot :: topology_snapshot where
  "ex_snapshot = (case take_snapshot ex_builder of Inr (_, s) \<Rightarrow> s)"

lemma ex_builder_eq:
  "ex_builder = new_builder (default_bounds \<lparr> b_max_nodes := 10, b_max_edges := 10 \<rparr>)
     \<lparr> bd_nodes := map (\<lambda>n. (n_id n, n)) [ex_node 1 NT_MACHINE, ex_node 2 NT_PCI_ROOT,
         ex_node 3 NT_ACCELERATOR, ex_node 4 NT_ACCELERATOR, ex_node 5 NT_STORAGE_DEVICE],
       bd_edges := [ex_edge 1 2, ex_edge 2 3, ex_edge 2 4] \<rparr>"
  by (simp add: ex_builder_def ex_ops_def new_builder_def default_bounds_def add_node_def add_edge_def
      um_emplace_def um_count_def um_find_def ex_node_def Let_def)

lemma ex_nodes: "bd_nodes ex_builder = map (\<lambda>n. (n_id n, n)) [ex_node 1 NT_MACHINE, ex_node 2 NT_PCI_ROOT,
    ex_node 3 NT_ACCELERATOR, ex_node 4 NT_ACCELERATOR, ex_node 5 NT_STORAGE_DEVICE]"
  and ex_edges: "bd_edges ex_builder = [ex_edge 1 2, ex_edge 2 3, ex_edge 2 4]"
  and ex_frame: "bd_taken ex_builder = False" "bd_validation ex_builder = default_validation"
  by (simp_all add: ex_builder_eq new_builder_def)

lemma ex_valid: "valid_snapshot ex_snapshot"
proof -
  obtain bd' where t: "take_snapshot ex_builder = Inr (bd', ex_snapshot)"
    by (auto simp: take_snapshot_def ex_snapshot_def ex_frame Let_def)
  have reach: "builder_reach ex_builder"
    unfolding ex_builder_def by (intro builder_reach_ops builder_reach.fresh)
  moreover have "v_ok (s_validation ex_snapshot)"
  proof -
    have "v_ok (validate (bd_nodes ex_builder) (bd_edges ex_builder))"
      unfolding ex_nodes ex_edges by code_simp
    then have "graph_ok (bd_nodes ex_builder) (bd_edges ex_builder)"
      using builder_reach_wf [OF reach] by (simp add: validate_ok builder_wf_def)
    then show ?thesis
      using take_snapshot_ok(4) [OF builder_reach_wf [OF reach] t]
      by (simp add: ex_frame default_validation_def)
  qed
  ultimately show ?thesis using t by (auto simp: valid_snapshot_def made_snapshot_def)
qed

lemma ex_find:
  "find_node ex_snapshot (NodeId 0 1) = Some (ex_node 1 NT_MACHINE)"
  "find_node ex_snapshot (NodeId 0 2) = Some (ex_node 2 NT_PCI_ROOT)"
  "find_node ex_snapshot (NodeId 0 3) = Some (ex_node 3 NT_ACCELERATOR)"
  "find_node ex_snapshot (NodeId 0 4) = Some (ex_node 4 NT_ACCELERATOR)"
  "find_node ex_snapshot (NodeId 0 5) = Some (ex_node 5 NT_STORAGE_DEVICE)"
  by (simp_all add: find_node_def ex_snapshot_def take_snapshot_def ex_frame Let_def ex_nodes um_find_def ex_node_def)

lemma ex_snapshot_edges: "s_edges ex_snapshot = [ex_edge 1 2, ex_edge 2 3, ex_edge 2 4]"
  by (simp add: ex_snapshot_def take_snapshot_def ex_frame Let_def ex_edges)

lemma ex_policy: "policy_ok ex_snapshot default_weights"
  by (simp add: policy_ok_def default_weights_nonneg ex_snapshot_edges ex_edge_def metrics_ok_def default_edge_def)

end
