(* ===== verification/TF_Negative.thy ===== *)
theory TF_Negative
  imports TF_Example
begin

text \<open>
  A policy with a negative entry can make the lowest-cost search hang: the walk back from the destination
  runs round a cycle of the parent map.
\<close>

section \<open>The walk back round a cycle\<close>

definition goes_round :: "topology_snapshot \<Rightarrow> parent_map \<Rightarrow> came_map \<Rightarrow> node_id set \<Rightarrow> bool" where
  "goes_round s parent came X \<longleftrightarrow> (\<forall>x \<in> X. um_get kNullNodeId parent x \<in> X \<and> (\<exists>e. snap_edge s (um_get 0 came x) = Inr e)
     \<and> (\<exists>n. snap_node s (um_get kNullNodeId parent x) = Inr n) \<and> (\<exists>n. snap_node s x = Inr n))"

lemma rebuild_cost_round:
  assumes "rebuild_cost s w parent came from cur tot segs = Some r"
  shows "from \<notin> X \<longrightarrow> goes_round s parent came X \<longrightarrow> cur \<notin> X"
  by (rule rebuild_cost.raw_induct [OF _ assms, where P = "\<lambda>s w parent came from cur tot segs r.
      from \<notin> X \<longrightarrow> goes_round s parent came X \<longrightarrow> cur \<notin> X"])
    (fastforce simp: Let_def goes_round_def split: if_splits sum.splits prod.splits)

section \<open>The graph\<close>

definition neg_node :: "64 word \<Rightarrow> node_type \<Rightarrow> topology_node" where
  "neg_node i t = default_node \<lparr> n_id := NodeId 0 i, n_type := t \<rparr>"

definition neg_edge :: "64 word \<Rightarrow> 64 word \<Rightarrow> rat \<Rightarrow> topology_edge" where
  "neg_edge i j l = default_edge \<lparr> e_source := NodeId 0 i, e_target := NodeId 0 j, e_type := ET_CONNECTED_TO,
     e_confidence := CF_HIGH, e_latency_ns := Some (F_Fin l) \<rparr>"

definition neg_builder :: snapshot_builder where
  "neg_builder = fold run_op
     [Op_add_node (neg_node 1 NT_ACCELERATOR), Op_add_node (neg_node 2 NT_ACCELERATOR),
      Op_add_node (neg_node 3 NT_PCI_ROOT), Op_add_node (neg_node 4 NT_PCI_ROOT),
      Op_add_edge (neg_edge 1 2 0), Op_add_edge (neg_edge 2 3 2), Op_add_edge (neg_edge 2 4 3)]
     (new_builder (default_bounds \<lparr> b_max_nodes := 10, b_max_edges := 10 \<rparr>))"

definition neg_snapshot :: topology_snapshot where
  "neg_snapshot = snd (projr (take_snapshot neg_builder))"

definition neg_weights :: cost_weights where
  "neg_weights = \<lparr> w_hop_penalty = F_Fin 0, w_numa_penalty = F_Fin 0, w_pci_bridge_penalty = F_Fin 0,
     w_root_crossing_penalty = F_Fin (-5), w_latency_ns_weight = F_Fin 1, w_bandwidth_scale = F_Fin 0,
     w_bandwidth_ref_bps = F_Fin 0, w_uncertainty_penalty = F_Fin 0, w_policy_penalty = F_Fin 0,
     w_node_transition_penalty = F_Fin 0, w_version = 1 \<rparr>"

lemma neg_costs:
  "edge_traversal_cost (neg_node 1 NT_ACCELERATOR) (neg_node 2 NT_ACCELERATOR) (neg_edge 1 2 0) neg_weights = F_Fin 0"
  "edge_traversal_cost (neg_node 2 NT_ACCELERATOR) (neg_node 3 NT_PCI_ROOT) (neg_edge 2 3 2) neg_weights = F_Fin (-3)"
  "edge_traversal_cost (neg_node 3 NT_PCI_ROOT) (neg_node 2 NT_ACCELERATOR) (neg_edge 2 3 2) neg_weights = F_Fin 2"
  "edge_traversal_cost (neg_node 2 NT_ACCELERATOR) (neg_node 4 NT_PCI_ROOT) (neg_edge 2 4 3) neg_weights = F_Fin (-2)"
  "edge_traversal_cost (neg_node 2 NT_ACCELERATOR) (neg_node 1 NT_ACCELERATOR) (neg_edge 1 2 0) neg_weights = F_Fin 0"
  by code_simp+

lemma neg_builder_eq:
  "neg_builder = new_builder (default_bounds \<lparr> b_max_nodes := 10, b_max_edges := 10 \<rparr>)
     \<lparr> bd_nodes := map (\<lambda>n. (n_id n, n)) [neg_node 1 NT_ACCELERATOR, neg_node 2 NT_ACCELERATOR, neg_node 3 NT_PCI_ROOT,
         neg_node 4 NT_PCI_ROOT],
       bd_edges := [neg_edge 1 2 0, neg_edge 2 3 2, neg_edge 2 4 3] \<rparr>"
  by (simp add: neg_builder_def new_builder_def default_bounds_def add_node_def add_edge_def
      um_emplace_def um_count_def um_find_def neg_node_def Let_def)

lemma neg_parts:
  "s_nodes neg_snapshot = map (\<lambda>n. (n_id n, n)) [neg_node 1 NT_ACCELERATOR, neg_node 2 NT_ACCELERATOR, neg_node 3 NT_PCI_ROOT,
     neg_node 4 NT_PCI_ROOT]"
  "s_edges neg_snapshot = [neg_edge 1 2 0, neg_edge 2 3 2, neg_edge 2 4 3]"
  "s_adjacency neg_snapshot = link_edges 0 [neg_edge 1 2 0, neg_edge 2 3 2, neg_edge 2 4 3] []"
  "s_validation neg_snapshot = validate (map (\<lambda>n. (n_id n, n)) [neg_node 1 NT_ACCELERATOR, neg_node 2 NT_ACCELERATOR,
     neg_node 3 NT_PCI_ROOT, neg_node 4 NT_PCI_ROOT]) [neg_edge 1 2 0, neg_edge 2 3 2, neg_edge 2 4 3]"
  by (simp_all add: neg_snapshot_def take_snapshot_def neg_builder_eq new_builder_def Let_def default_validation_def)

lemma neg_valid: "valid_snapshot neg_snapshot"
proof -
  obtain bd where "take_snapshot neg_builder = Inr (bd, neg_snapshot)"
    by (simp add: neg_snapshot_def take_snapshot_def neg_builder_eq new_builder_def Let_def)
  moreover have "builder_reach neg_builder" unfolding neg_builder_def by (intro builder_reach_ops builder_reach.fresh)
  moreover have "v_ok (s_validation neg_snapshot)" unfolding neg_parts(4) by code_simp
  ultimately show ?thesis by (auto simp: valid_snapshot_def made_snapshot_def)
qed

lemma neg_adjacency:
  "adjacency neg_snapshot (NodeId 0 1) = [\<lparr> r_neighbor = NodeId 0 2, r_edge_index = 0 \<rparr>]"
  "adjacency neg_snapshot (NodeId 0 2) = [\<lparr> r_neighbor = NodeId 0 1, r_edge_index = 0 \<rparr>,
     \<lparr> r_neighbor = NodeId 0 3, r_edge_index = 1 \<rparr>, \<lparr> r_neighbor = NodeId 0 4, r_edge_index = 2 \<rparr>]"
  "adjacency neg_snapshot (NodeId 0 3) = [\<lparr> r_neighbor = NodeId 0 2, r_edge_index = 1 \<rparr>]"
  by (simp_all add: adjacency_def neg_parts link_edge_def Let_def neg_edge_def um_push_def um_put_def um_get_def um_find_def default_edge_def)

lemma neg_reads:
  "snap_edge neg_snapshot 0 = Inr (neg_edge 1 2 0)" "snap_edge neg_snapshot 1 = Inr (neg_edge 2 3 2)"
  "snap_edge neg_snapshot 2 = Inr (neg_edge 2 4 3)"
  "snap_node neg_snapshot (NodeId 0 1) = Inr (neg_node 1 NT_ACCELERATOR)"
  "snap_node neg_snapshot (NodeId 0 2) = Inr (neg_node 2 NT_ACCELERATOR)"
  "snap_node neg_snapshot (NodeId 0 3) = Inr (neg_node 3 NT_PCI_ROOT)"
  "snap_node neg_snapshot (NodeId 0 4) = Inr (neg_node 4 NT_PCI_ROOT)"
  by (simp_all add: snap_edge_def snap_node_def neg_parts neg_node_def um_find_def)

lemma neg_link: "e_type (neg_edge i j l) = ET_CONNECTED_TO" "\<not> collocation_edge ET_CONNECTED_TO"
  by (simp_all add: neg_edge_def collocation_edge_def)

lemma neg_sums:
  "f64_add (F_Fin 0) (F_Fin 0) = F_Fin 0" "f64_add (F_Fin 0) (F_Fin (-3)) = F_Fin (-3)" "f64_add (F_Fin 0) (F_Fin (-2)) = F_Fin (-2)"
  "f64_add (F_Fin (-3)) (F_Fin 2) = F_Fin (-1)" "\<not> f64_lt (F_Fin 0) (F_Fin 0)" "f64_lt (F_Fin (-1)) (F_Fin 0)"
  "f64_lt (F_Fin (-3)) (F_Fin (-2))" "\<not> f64_lt (F_Fin (-2)) (F_Fin (-3))" "f64_lt (F_Fin (-2)) (F_Fin (-1))"
  "\<not> f64_lt (F_Fin (-1)) (F_Fin (-2))" "\<not> f64_lt (F_Fin (-3)) (F_Fin (-3))" "\<not> f64_lt (F_Fin (-2)) (F_Fin (-2))"
  by code_simp+

section \<open>The search\<close>

abbreviation neg_id :: "64 word \<Rightarrow> node_id" where
  "neg_id i \<equiv> NodeId 0 i"

lemma neg_relax:
  "relax_refs neg_snapshot neg_weights (F_Fin 0) (neg_id 1) (adjacency neg_snapshot (neg_id 1)) ([], [(neg_id 1, F_Fin 0)], [], [])
   = Inr ([(F_Fin 0, neg_id 2)], [(neg_id 1, F_Fin 0), (neg_id 2, F_Fin 0)], [(neg_id 2, neg_id 1)], [(neg_id 2, 0)])"
  "relax_refs neg_snapshot neg_weights (F_Fin 0) (neg_id 2) (adjacency neg_snapshot (neg_id 2))
     ([], [(neg_id 1, F_Fin 0), (neg_id 2, F_Fin 0)], [(neg_id 2, neg_id 1)], [(neg_id 2, 0)])
   = Inr ([(F_Fin (-3), neg_id 3), (F_Fin (-2), neg_id 4)],
       [(neg_id 1, F_Fin 0), (neg_id 2, F_Fin 0), (neg_id 3, F_Fin (-3)), (neg_id 4, F_Fin (-2))],
       [(neg_id 2, neg_id 1), (neg_id 3, neg_id 2), (neg_id 4, neg_id 2)], [(neg_id 2, 0), (neg_id 3, 1), (neg_id 4, 2)])"
  "relax_refs neg_snapshot neg_weights (F_Fin (-3)) (neg_id 3) (adjacency neg_snapshot (neg_id 3))
     ([(F_Fin (-2), neg_id 4)], [(neg_id 1, F_Fin 0), (neg_id 2, F_Fin 0), (neg_id 3, F_Fin (-3)), (neg_id 4, F_Fin (-2))],
      [(neg_id 2, neg_id 1), (neg_id 3, neg_id 2), (neg_id 4, neg_id 2)], [(neg_id 2, 0), (neg_id 3, 1), (neg_id 4, 2)])
   = Inr ([(F_Fin (-2), neg_id 4), (F_Fin (-1), neg_id 2)],
       [(neg_id 1, F_Fin 0), (neg_id 2, F_Fin (-1)), (neg_id 3, F_Fin (-3)), (neg_id 4, F_Fin (-2))],
       [(neg_id 2, neg_id 3), (neg_id 3, neg_id 2), (neg_id 4, neg_id 2)], [(neg_id 2, 1), (neg_id 3, 1), (neg_id 4, 2)])"
  by (simp_all add: neg_adjacency neg_reads neg_reads(2) [simplified] traverse_edge_def neg_link neg_costs neg_sums um_find_def um_put_def Let_def)

lemma neg_search:
  "dijkstra_loop neg_snapshot neg_weights (neg_id 4) [(F_Fin 0, neg_id 1)] [(neg_id 1, F_Fin 0)] [] []
   = Some (Inr (True, [(neg_id 2, neg_id 3), (neg_id 3, neg_id 2), (neg_id 4, neg_id 2)], [(neg_id 2, 1), (neg_id 3, 1), (neg_id 4, 2)]))"
proof -
  have get: "um_get (F_Fin 0) ((i, d) # m) j = (if i = j then d else um_get (F_Fin 0) m j)" for i j :: node_id and d m
    by (simp add: um_get_def um_find_def)
  note simps = neg_relax get neg_sums entry_less_def Let_def
  have "dijkstra_loop neg_snapshot neg_weights (neg_id 4) [(F_Fin 0, neg_id 1)] [(neg_id 1, F_Fin 0)] [] []
    = dijkstra_loop neg_snapshot neg_weights (neg_id 4) [(F_Fin 0, neg_id 2)] [(neg_id 1, F_Fin 0), (neg_id 2, F_Fin 0)]
        [(neg_id 2, neg_id 1)] [(neg_id 2, 0)]"
    by (subst dijkstra_loop.simps) (simp add: simps)
  also have "\<dots> = dijkstra_loop neg_snapshot neg_weights (neg_id 4) [(F_Fin (-3), neg_id 3), (F_Fin (-2), neg_id 4)]
       [(neg_id 1, F_Fin 0), (neg_id 2, F_Fin 0), (neg_id 3, F_Fin (-3)), (neg_id 4, F_Fin (-2))]
       [(neg_id 2, neg_id 1), (neg_id 3, neg_id 2), (neg_id 4, neg_id 2)] [(neg_id 2, 0), (neg_id 3, 1), (neg_id 4, 2)]"
    by (subst dijkstra_loop.simps) (simp add: simps)
  also have "\<dots> = dijkstra_loop neg_snapshot neg_weights (neg_id 4) [(F_Fin (-2), neg_id 4), (F_Fin (-1), neg_id 2)]
       [(neg_id 1, F_Fin 0), (neg_id 2, F_Fin (-1)), (neg_id 3, F_Fin (-3)), (neg_id 4, F_Fin (-2))]
       [(neg_id 2, neg_id 3), (neg_id 3, neg_id 2), (neg_id 4, neg_id 2)] [(neg_id 2, 1), (neg_id 3, 1), (neg_id 4, 2)]"
    by (subst dijkstra_loop.simps) (simp add: simps del: One_nat_def)
  also have "\<dots> = Some (Inr (True, [(neg_id 2, neg_id 3), (neg_id 3, neg_id 2), (neg_id 4, neg_id 2)],
       [(neg_id 2, 1), (neg_id 3, 1), (neg_id 4, 2)]))"
    by (subst dijkstra_loop.simps) (simp add: simps)
  finally show ?thesis .
qed

section \<open>Properties\<close>

text \<open>C16: under a policy with one negative entry the lowest-cost search can fail to return, on a valid snapshot with four nodes
  and three edges: the search ends, but its parent map has a cycle that does not hold the source.\<close>

theorem negative_weight_hangs:
  "valid_snapshot neg_snapshot \<and> lowest_cost_path neg_snapshot (neg_id 1) (neg_id 4) neg_weights = None"
proof -
  let ?parent = "[(neg_id 2, neg_id 3), (neg_id 3, neg_id 2), (neg_id 4, neg_id 2)]" and ?came = "[(neg_id 2, 1), (neg_id 3, 1), (neg_id 4, 2)]"
  have "goes_round neg_snapshot ?parent ?came {neg_id 2, neg_id 3, neg_id 4}"
    by (simp add: goes_round_def um_get_def um_find_def neg_reads neg_reads(2) [simplified])
  moreover have "neg_id 1 \<notin> {neg_id 2, neg_id 3, neg_id 4}" by simp
  ultimately have "rebuild_cost neg_snapshot neg_weights ?parent ?came (neg_id 1) (neg_id 4) (F_Fin 0) [] = None"
    using rebuild_cost_round [of neg_snapshot neg_weights ?parent ?came "neg_id 1" "neg_id 4" "F_Fin 0" "[]" _
        "{neg_id 2, neg_id 3, neg_id 4}"] by (cases "rebuild_cost neg_snapshot neg_weights ?parent ?came (neg_id 1) (neg_id 4) (F_Fin 0) []") auto
  moreover have "find_node neg_snapshot (neg_id 1) \<noteq> None" "find_node neg_snapshot (neg_id 4) \<noteq> None"
    by (simp_all add: find_node_def neg_parts um_find_def neg_node_def)
  ultimately show ?thesis using neg_valid by (auto simp: lowest_cost_path_def neg_search Let_def)
qed

end
