(* ===== verification/TF_Merge.thy ===== *)
theory TF_Merge
  imports TF_Snapshot
begin

text \<open>
  The merge of provider contributions (\<open>merge.cpp\<close>, \<open>merge.hpp\<close>, the contribution records of
  \<open>provider.hpp\<close>).

  Two hash maps are enumerated: the groups and the ids of the groups. Their orders are parameters,
  functions that rearrange the entries.

  The lemmas show which nodes a merge makes and from which members, that of several values of one
  property the one of the best member stays, that edges are unique and within the bounds, that the
  result is closed when no group was dropped, and when the result is independent of the two orders.
\<close>

section \<open>Contributions\<close>

record contributed_node =
  cn_ref :: string
  cn_type :: node_type
  cn_category :: string
  cn_name :: string
  cn_native :: native_identity
  cn_capabilities :: capability
  cn_properties :: property_map
  cn_provenance :: provenance
  cn_synthetic :: bool

record contributed_edge =
  ce_from_ref :: string
  ce_to_ref :: string
  ce_type :: edge_type
  ce_direction :: edge_direction
  ce_provenance :: provenance
  ce_confidence :: confidence
  ce_width :: "32 word option"
  ce_pcie_generation :: "32 word option"
  ce_bandwidth_bytes_per_sec :: "f64 option"
  ce_latency_ns :: "f64 option"
  ce_hop_count :: "32 word"
  ce_peer_capability :: "64 word option"
  ce_properties :: property_map

record contribution =
  ct_provider :: string
  ct_version :: string
  ct_nodes :: "contributed_node list"
  ct_edges :: "contributed_edge list"
  ct_warnings :: "string list"
  ct_partial :: bool
  ct_success :: bool

record merged_graph =
  mg_nodes :: "(node_id, topology_node) umap"
  mg_edges :: "topology_edge list"
  mg_warnings :: "string list"
  mg_conflicts :: "string list"
  mg_merged_count :: nat

record member =
  mb_node :: contributed_node
  mb_ci :: nat
  mb_idx :: nat

section \<open>Choosing between members\<close>

fun type_rank :: "node_type \<Rightarrow> nat" where
  "type_rank NT_ACCELERATOR_MEMORY_DOMAIN = 9"
| "type_rank NT_ACCELERATOR = 8"
| "type_rank NT_NETWORK_INTERFACE = 7"
| "type_rank NT_STORAGE_DEVICE = 6"
| "type_rank NT_SHARED_MEMORY_DOMAIN = 6"
| "type_rank NT_PCI_DEVICE = 5"
| "type_rank NT_PCI_BRIDGE = 4"
| "type_rank NT_PCI_ROOT = 3"
| "type_rank NT_CPU_PACKAGE = 2"
| "type_rank NT_CPU_CORE = 2"
| "type_rank NT_CPU_THREAD = 2"
| "type_rank NT_NUMA_NODE = 1"
| "type_rank NT_HOST_MEMORY_DOMAIN = 1"
| "type_rank NT_MACHINE = 1"
| "type_rank NT_UNKNOWN = 0"
| "type_rank NT_EXTENSION = 0"

definition group_key :: "contributed_node \<Rightarrow> string" where
  "group_key n =
     (let k = canonical_key (cn_native n) in
      if k = [] then ''type:'' @ node_type_to_string (cn_type n) @ '':'' @ cn_name n else k)"

definition better_type :: "node_type \<Rightarrow> node_type \<Rightarrow> bool" where
  "better_type a b \<longleftrightarrow> type_rank b < type_rank a"

definition member_less :: "member \<Rightarrow> member \<Rightarrow> bool" where
  "member_less a b \<longleftrightarrow>
     (let ca = confidence_rank (pr_confidence (cn_provenance (mb_node a)));
          cb = confidence_rank (pr_confidence (cn_provenance (mb_node b))) in
      if ca \<noteq> cb then cb < ca
      else if mb_ci a \<noteq> mb_ci b then mb_ci a < mb_ci b
      else mb_idx a < mb_idx b)"

definition first_set :: "'a option \<Rightarrow> 'a option \<Rightarrow> 'a option" where
  "first_set a b = (if a = None then b else a)"

definition first_text :: "string \<Rightarrow> string \<Rightarrow> string" where
  "first_text a b = (if a = [] then b else a)"

definition merge_identity :: "native_identity \<Rightarrow> native_identity \<Rightarrow> native_identity" where
  "merge_identity out n =
     \<lparr> ni_pci_domain = first_set (ni_pci_domain out) (ni_pci_domain n),
       ni_pci_bus = first_set (ni_pci_bus out) (ni_pci_bus n),
       ni_pci_device = first_set (ni_pci_device out) (ni_pci_device n),
       ni_pci_function = first_set (ni_pci_function out) (ni_pci_function n),
       ni_vendor_id = first_set (ni_vendor_id out) (ni_vendor_id n),
       ni_device_id = first_set (ni_device_id out) (ni_device_id n),
       ni_subsystem_id = first_set (ni_subsystem_id out) (ni_subsystem_id n),
       ni_subsystem_vendor_id = first_set (ni_subsystem_vendor_id out) (ni_subsystem_vendor_id n),
       ni_numa_node = first_set (ni_numa_node out) (ni_numa_node n),
       ni_cpu_package = first_set (ni_cpu_package out) (ni_cpu_package n),
       ni_core_id = first_set (ni_core_id out) (ni_core_id n),
       ni_processor_group = first_set (ni_processor_group out) (ni_processor_group n),
       ni_logical_processor_index = first_set (ni_logical_processor_index out) (ni_logical_processor_index n),
       ni_cuda_ordinal = first_set (ni_cuda_ordinal out) (ni_cuda_ordinal n),
       ni_cuda_uuid = first_text (ni_cuda_uuid out) (ni_cuda_uuid n),
       ni_name = first_text (ni_name out) (ni_name n),
       ni_network_interface_name = first_text (ni_network_interface_name out) (ni_network_interface_name n),
       ni_network_hardware_id = first_text (ni_network_hardware_id out) (ni_network_hardware_id n),
       ni_storage_id = first_text (ni_storage_id out) (ni_storage_id n),
       ni_storage_device_path = first_text (ni_storage_device_path out) (ni_storage_device_path n),
       ni_machine_name = first_text (ni_machine_name out) (ni_machine_name n),
       ni_os_version = first_text (ni_os_version out) (ni_os_version n) \<rparr>"

definition merge_native :: "member list \<Rightarrow> native_identity" where
  "merge_native ms = foldl (\<lambda>out m. merge_identity out (cn_native (mb_node m))) default_native ms"

section \<open>Step 1: groups\<close>

text \<open>The inner loop stops when there are too many groups; the next contribution goes on.\<close>

fun ingest :: "nat \<Rightarrow> nat \<Rightarrow> nat \<Rightarrow> contributed_node list \<Rightarrow>
    (string, member list) umap \<times> string list \<Rightarrow> (string, member list) umap \<times> string list" where
  "ingest max_nodes ci i [] gw = gw"
| "ingest max_nodes ci i (n # ns) gw =
     (let groups = um_push (group_key n) \<lparr> mb_node = n, mb_ci = ci, mb_idx = i \<rparr> (fst gw) in
      if max_nodes < length groups
      then (groups, snd gw @ [''max_nodes bound exceeded while merging; stopping node ingestion''])
      else ingest max_nodes ci (Suc i) ns (groups, snd gw))"

fun ingest_all :: "nat \<Rightarrow> nat \<Rightarrow> contribution list \<Rightarrow>
    (string, member list) umap \<times> string list \<Rightarrow> (string, member list) umap \<times> string list" where
  "ingest_all max_nodes ci [] gw = gw"
| "ingest_all max_nodes ci (c # cs) gw = ingest_all max_nodes (Suc ci) cs (ingest max_nodes ci 0 (ct_nodes c) gw)"

definition refs_of :: "(string, member list) umap \<Rightarrow> (nat \<times> string \<times> string) list" where
  "refs_of groups = concat (map (\<lambda>(key, ms). map (\<lambda>m. (mb_ci m, cn_ref (mb_node m), key)) ms) groups)"

section \<open>Step 2: nodes\<close>

definition best_type :: "member list \<Rightarrow> node_type" where
  "best_type ms =
     foldl (\<lambda>best m. if better_type (cn_type (mb_node m)) best then cn_type (mb_node m) else best)
       (cn_type (mb_node (hd ms))) ms"

definition best_name :: "node_type \<Rightarrow> member list \<Rightarrow> string" where
  "best_name best ms =
     (let nm = (case find (\<lambda>m. cn_type (mb_node m) = best) ms of
                  Some m \<Rightarrow> cn_name (mb_node m) | None \<Rightarrow> []) in
      if nm = []
      then foldl (\<lambda>nm m. if length nm < length (cn_name (mb_node m)) then cn_name (mb_node m) else nm) nm ms
      else nm)"

text \<open>The properties of the members, best first; the first value of a key stays.\<close>

definition conflict_text :: "string \<Rightarrow> string \<Rightarrow> string" where
  "conflict_text key k = ''property '' @ [CHR 0x27] @ k @ [CHR 0x27] @ '' conflict on group '' @ [CHR 0x27]
     @ key @ [CHR 0x27] @ ''; keeping higher-confidence value''"

definition add_property :: "string \<Rightarrow> string \<times> property_value \<Rightarrow> property_map \<times> string list \<Rightarrow> property_map \<times> string list" where
  "add_property key kv pc =
     (if om_find (fst pc) (fst kv) = None then (fst (om_emplace (fst kv) (snd kv) (fst pc)), snd pc)
      else (fst pc, snd pc @ [conflict_text key (fst kv)]))"

definition add_properties :: "string \<Rightarrow> member list \<Rightarrow> property_map \<times> string list \<Rightarrow> property_map \<times> string list" where
  "add_properties key ms pc = fold (\<lambda>m. fold (add_property key) (cn_properties (mb_node m))) ms pc"

definition member_text :: "member \<Rightarrow> string" where
  "member_text m = pr_provider (cn_provenance (mb_node m)) @ '':'' @ cn_ref (mb_node m)"

definition merged_properties :: "string \<Rightarrow> member list \<Rightarrow> property_map \<Rightarrow> property_map" where
  "merged_properties key ms ps =
     fst (om_emplace ''tf.merged_members'' (PV_Int (of_nat (length ms)))
       (fst (om_emplace ''tf.merged_providers'' (PV_StringArray (map member_text ms)) ps)))"

definition merged_node :: "string \<Rightarrow> member list \<Rightarrow> topology_node" where
  "merged_node key ms =
     (let i = derive_node_id ''touchstone'' ''node'' key; best = best_type ms;
          nm = best_name best ms in
      \<lparr> n_id = i, n_type = best, n_category = ''merged'', n_name = nm,
        n_display_name = (if nm = [] then to_hex i else nm), n_native = merge_native ms,
        n_capabilities = foldl (\<lambda>c m. cap_add c (cn_capabilities (mb_node m))) CAP_NONE ms,
        n_properties = merged_properties key ms (fst (add_properties key ms ([], []))),
        n_provenance = cn_provenance (mb_node (hd ms)),
        n_confidence = foldl (\<lambda>c m. confidence_maximum c (pr_confidence (cn_provenance (mb_node m))))
          CF_UNKNOWN ms,
        n_synthetic = list_ex (\<lambda>m. cn_synthetic (mb_node m)) ms \<rparr>)"

definition merge_group :: "nat \<Rightarrow> string \<times> member list \<Rightarrow>
    merged_graph \<times> (string, node_id) umap \<Rightarrow> merged_graph \<times> (string, node_id) umap" where
  "merge_group max_nodes grp mi =
     (let key = fst grp; ms = sort_by member_less (snd grp); mg = fst mi in
      if max_nodes \<le> length (mg_nodes mg)
      then (mg \<lparr> mg_warnings := mg_warnings mg @ [''max_nodes exceeded; dropping group '' @ [CHR 0x27] @ key
              @ [CHR 0x27]] \<rparr>, snd mi)
      else (let node = merged_node key ms in
        (mg \<lparr> mg_conflicts := mg_conflicts mg @ snd (add_properties key ms ([], [])),
              mg_nodes := fst (um_emplace (n_id node) node (mg_nodes mg)) \<rparr>,
         um_put key (n_id node) (snd mi))))"

section \<open>Step 3: edges\<close>

text \<open>\<open>groupNodeId[key]\<close> yields the null id for a group that was dropped.\<close>

definition ref_to_id ::
  "(string \<times> node_id) list \<Rightarrow> (string, node_id) umap \<Rightarrow> (nat \<times> string \<times> string) list \<Rightarrow> (string, node_id) umap" where
  "ref_to_id walked gids ref_map =
     fold (\<lambda>(ci, ref, key) m. fst (um_emplace ref (um_get kNullNodeId gids key) m)) ref_map
       (fold (\<lambda>(key, gid) m. fst (um_emplace key gid m)) walked [])"

definition merged_edge :: "node_id \<Rightarrow> node_id \<Rightarrow> contributed_edge \<Rightarrow> topology_edge" where
  "merged_edge src tgt ce = default_edge \<lparr> e_source := src, e_target := tgt, e_type := ce_type ce,
     e_direction := ce_direction ce, e_provenance := ce_provenance ce, e_confidence := ce_confidence ce,
     e_width := ce_width ce, e_pcie_generation := ce_pcie_generation ce,
     e_bandwidth_bytes_per_sec := ce_bandwidth_bytes_per_sec ce, e_latency_ns := ce_latency_ns ce,
     e_hop_count := ce_hop_count ce, e_peer_capability := ce_peer_capability ce,
     e_properties := ce_properties ce \<rparr>"

fun resolve_edges :: "nat \<Rightarrow> (string, node_id) umap \<Rightarrow> contributed_edge list \<Rightarrow>
    topology_edge list \<times> string list \<Rightarrow> topology_edge list \<times> string list" where
  "resolve_edges max_edges refs [] ew = ew"
| "resolve_edges max_edges refs (ce # ces) ew =
     (case (um_find refs (ce_from_ref ce), um_find refs (ce_to_ref ce)) of
        (Some src, Some tgt) \<Rightarrow>
          if max_edges \<le> length (fst ew)
          then (fst ew, snd ew @ [''max_edges exceeded; dropping remaining edges''])
          else resolve_edges max_edges refs ces (fst ew @ [merged_edge src tgt ce], snd ew)
      | _ \<Rightarrow> resolve_edges max_edges refs ces
               (fst ew, snd ew @ [''dangling edge dropped: '' @ [CHR 0x27] @ ce_from_ref ce @ [CHR 0x27]
                  @ '' -> '' @ [CHR 0x27] @ ce_to_ref ce @ [CHR 0x27] @ '' (unresolvable endpoint)'']))"

definition dedup_edge :: "topology_edge \<Rightarrow> edge_key set \<times> topology_edge list \<Rightarrow> edge_key set \<times> topology_edge list" where
  "dedup_edge e sd =
     (if edge_key e \<in> fst sd then sd else (insert (edge_key e) (fst sd), snd sd @ [e]))"

definition merge_contributions ::
  "((string \<times> member list) list \<Rightarrow> (string \<times> member list) list) \<Rightarrow>
   ((string \<times> node_id) list \<Rightarrow> (string \<times> node_id) list) \<Rightarrow>
   contribution list \<Rightarrow> bounds \<Rightarrow> merged_graph" where
  "merge_contributions walk1 walk2 contributions bounds =
     (let gw = ingest_all (b_max_nodes bounds) 0 contributions ([], []);
          groups = walk1 (fst gw);
          ref_map = refs_of groups;
          ordered = sort_by (\<lambda>a b. fst a < fst b) groups;
          mi = fold (merge_group (b_max_nodes bounds)) ordered
                 (\<lparr> mg_nodes = [], mg_edges = [], mg_warnings = snd gw, mg_conflicts = [],
                    mg_merged_count = sum_list (map (\<lambda>c. length (ct_nodes c)) contributions) \<rparr>, []);
          refs = ref_to_id (walk2 (snd mi)) (snd mi) ref_map;
          ew = fold (\<lambda>c. resolve_edges (b_max_edges bounds) refs (ct_edges c)) contributions
                 ([], mg_warnings (fst mi));
          dedup = snd (fold dedup_edge (fst ew) ({}, []))
      in (fst mi) \<lparr> mg_edges := dedup, mg_warnings := snd ew \<rparr>)"

section \<open>Groups\<close>

text \<open>The contributed nodes with their positions.\<close>

fun tagged :: "nat \<Rightarrow> nat \<Rightarrow> contributed_node list \<Rightarrow> member list" where
  "tagged ci i [] = []"
| "tagged ci i (n # ns) = \<lparr> mb_node = n, mb_ci = ci, mb_idx = i \<rparr> # tagged ci (Suc i) ns"

fun tagged_all :: "nat \<Rightarrow> contribution list \<Rightarrow> member list" where
  "tagged_all ci [] = []"
| "tagged_all ci (c # cs) = tagged ci 0 (ct_nodes c) @ tagged_all (Suc ci) cs"

definition key_of :: "member \<Rightarrow> string" where
  "key_of m = group_key (mb_node m)"

lemma keys_push: "set (um_keys (um_push k x m)) = insert k (set (um_keys m))"
  by (simp add: um_push_def um_keys_put)

text \<open>A group never is empty, and holds members of its key only, taken from the contributions.\<close>

definition groups_ok :: "member set \<Rightarrow> (string, member list) umap \<Rightarrow> bool" where
  "groups_ok M gs \<longleftrightarrow> um_ok gs \<and> (\<forall>k ms. um_find gs k = Some ms \<longrightarrow> ms \<noteq> [] \<and> set ms \<subseteq> {m \<in> M. key_of m = k})"

lemma groups_ok_push:
  assumes "groups_ok M gs" and "m \<in> M"
  shows "groups_ok M (um_push (key_of m) m gs)"
proof -
  have "um_ok (um_push (key_of m) m gs)" using assms(1) by (simp add: groups_ok_def um_push_simps)
  moreover have "um_find (um_push (key_of m) m gs) k =
      (if k = key_of m then Some (um_get [] gs k @ [m]) else um_find gs k)" for k
    by (simp add: um_push_def um_find_put)
  ultimately show ?thesis
    using assms by (fastforce simp: groups_ok_def um_get_def split: option.splits if_splits)
qed

lemma groups_ok_ingest:
  "groups_ok M (fst gw) \<Longrightarrow> set (tagged ci i ns) \<subseteq> M \<Longrightarrow> groups_ok M (fst (ingest mx ci i ns gw))"
proof (induction mx ci i ns gw rule: ingest.induct)
  case (2 mx ci i n ns gw)
  have "groups_ok M (um_push (group_key n) \<lparr> mb_node = n, mb_ci = ci, mb_idx = i \<rparr> (fst gw))"
    using groups_ok_push [OF "2.prems"(1), of "\<lparr> mb_node = n, mb_ci = ci, mb_idx = i \<rparr>"] "2.prems"(2)
    by (simp add: key_of_def)
  with 2 show ?case by (simp add: Let_def)
qed simp

lemma groups_ok_all:
  "groups_ok M (fst gw) \<Longrightarrow> set (tagged_all ci cs) \<subseteq> M \<Longrightarrow> groups_ok M (fst (ingest_all mx ci cs gw))"
  by (induction mx ci cs gw rule: ingest_all.induct) (simp_all add: groups_ok_ingest)

lemma length_card: "um_ok m \<Longrightarrow> length m = card (set (um_keys m))"
  by (metis distinct_card length_map um_keys_def um_ok_def)

text \<open>With at most as many keys as nodes allowed, every node is taken in.\<close>

lemma ingest_full:
  assumes "um_ok (fst gw)" and "card (set (um_keys (fst gw)) \<union> key_of ` set (tagged ci i ns)) \<le> mx"
  shows "snd (ingest mx ci i ns gw) = snd gw \<and> um_ok (fst (ingest mx ci i ns gw))
    \<and> set (um_keys (fst (ingest mx ci i ns gw))) = set (um_keys (fst gw)) \<union> key_of ` set (tagged ci i ns)
    \<and> um_get [] (fst (ingest mx ci i ns gw)) k
        = um_get [] (fst gw) k @ filter (\<lambda>m. key_of m = k) (tagged ci i ns)"
  using assms
proof (induction mx ci i ns gw rule: ingest.induct)
  case (2 mx ci i n ns gw)
  let ?m = "\<lparr> mb_node = n, mb_ci = ci, mb_idx = i \<rparr>"
  let ?g = "um_push (group_key n) ?m (fst gw)"
  have key: "key_of ?m = group_key n" by (simp add: key_of_def)
  have ok: "um_ok ?g" and keys: "set (um_keys ?g) = insert (group_key n) (set (um_keys (fst gw)))"
    using "2.prems"(1) by (simp_all add: um_push_simps keys_push)
  have card: "card (set (um_keys ?g) \<union> key_of ` set (tagged ci (Suc i) ns)) \<le> mx"
    using "2.prems"(2) by (simp add: keys key)
  then have le: "\<not> mx < length ?g"
    using card_mono [of "set (um_keys ?g) \<union> key_of ` set (tagged ci (Suc i) ns)" "set (um_keys ?g)"]
    by (simp add: length_card [OF ok])
  show ?case
    using "2.IH" [OF refl le] ok card le by (simp add: keys key um_push_simps Let_def)
qed simp

lemma ingest_all_full:
  assumes "um_ok (fst gw)" and "card (set (um_keys (fst gw)) \<union> key_of ` set (tagged_all ci cs)) \<le> mx"
  shows "snd (ingest_all mx ci cs gw) = snd gw \<and> um_ok (fst (ingest_all mx ci cs gw))
    \<and> set (um_keys (fst (ingest_all mx ci cs gw))) = set (um_keys (fst gw)) \<union> key_of ` set (tagged_all ci cs)
    \<and> um_get [] (fst (ingest_all mx ci cs gw)) k
        = um_get [] (fst gw) k @ filter (\<lambda>m. key_of m = k) (tagged_all ci cs)"
  using assms
proof (induction mx ci cs gw rule: ingest_all.induct)
  case (2 mx ci c cs gw)
  let ?U = "set (um_keys (fst gw)) \<union> key_of ` set (tagged ci 0 (ct_nodes c))"
  have "card ?U \<le> card (?U \<union> key_of ` set (tagged_all (Suc ci) cs))"
    by (intro card_mono) auto
  also have "\<dots> \<le> mx" using "2.prems"(2) by (simp add: image_Un Un_assoc)
  finally have step: "card ?U \<le> mx" .
  note first = ingest_full [OF "2.prems"(1) step]
  show ?case using "2.IH" first "2.prems"(2) by (simp add: image_Un Un_assoc)
qed simp

lemma tagged_nodes: "map mb_node (tagged ci i ns) = ns"
  by (induction ci i ns rule: tagged.induct) auto

lemma tagged_all_nodes: "map mb_node (tagged_all ci cs) = concat (map ct_nodes cs)"
  by (induction ci cs rule: tagged_all.induct) (auto simp: tagged_nodes)

section \<open>Best members first\<close>

definition member_rank :: "member \<Rightarrow> nat" where
  "member_rank m = confidence_rank (pr_confidence (cn_provenance (mb_node m)))"

definition member_key :: "member \<Rightarrow> int \<times> nat \<times> nat" where
  "member_key m = (- int (member_rank m), mb_ci m, mb_idx m)"

lemma member_less_key: "member_less = (\<lambda>a b. member_key a < member_key b)"
  by (intro ext) (auto simp: member_less_def member_key_def member_rank_def Let_def)

interpretation members: sort_order member_less "\<lambda>_. True"
  unfolding member_less_key by (rule sort_order_key)

definition best_first :: "member list \<Rightarrow> member list" where
  "best_first ms = sort_by member_less ms"

lemma best_first_sorted: "sorted_wrt (\<lambda>a b. member_key a \<le> member_key b) (best_first ms)"
  using members.sorted_sort_by [of ms] by (simp add: best_first_def member_less_key not_less)

lemma best_first_hd:
  assumes "m \<in> set ms"
  shows "member_key (hd (best_first ms)) \<le> member_key m" and "hd (best_first ms) \<in> set ms"
proof -
  have m: "m \<in> set (best_first ms)" using assms by (simp add: best_first_def)
  then obtain b bs where b: "best_first ms = b # bs" by (cases "best_first ms") auto
  then show "member_key (hd (best_first ms)) \<le> member_key m"
    using best_first_sorted [of ms] m by auto
  have "hd (best_first ms) \<in> set (best_first ms)" using b by simp
  then show "hd (best_first ms) \<in> set ms" by (simp add: best_first_def)
qed

text \<open>The confidence of a merged node is the highest among the members, and that of the provenance it
  shows.\<close>

lemma foldl_confidence:
  "confidence_rank (foldl (\<lambda>c m. confidence_maximum c (f m)) a ms) = Max (insert (confidence_rank a) (confidence_rank ` f ` set ms))"
proof (induction ms arbitrary: a)
  case (Cons m ms)
  have "insert (max (confidence_rank a) (confidence_rank (f m))) (confidence_rank ` f ` set ms) \<noteq> {}" by simp
  then show ?case
    using Cons [of "confidence_maximum a (f m)"]
    by (cases "ms = []") (simp_all add: max.assoc)
qed simp

lemma merged_confidence:
  assumes "m \<in> set ms"
  shows "n_confidence (merged_node key (best_first ms)) = pr_confidence (n_provenance (merged_node key (best_first ms)))"
    and "confidence_rank (pr_confidence (cn_provenance (mb_node m)))
          \<le> confidence_rank (n_confidence (merged_node key (best_first ms)))"
proof -
  let ?h = "hd (best_first ms)" and ?f = "\<lambda>m. pr_confidence (cn_provenance (mb_node m))"
  have le: "member_rank x \<le> member_rank ?h" if "x \<in> set ms" for x
    using best_first_hd(1) [OF that] by (auto simp: member_key_def)
  have ge: "1 \<le> member_rank x" for x
    unfolding member_rank_def by (cases "?f x") auto
  have "Max (insert 1 (member_rank ` set ms)) = member_rank ?h"
    using le ge best_first_hd(2) [OF assms] by (intro Max_eqI) auto
  then have "confidence_rank (n_confidence (merged_node key (best_first ms))) = member_rank ?h"
    by (simp add: merged_node_def Let_def foldl_confidence image_image member_rank_def best_first_def)
  then show "n_confidence (merged_node key (best_first ms)) = pr_confidence (n_provenance (merged_node key (best_first ms)))"
    and "confidence_rank (pr_confidence (cn_provenance (mb_node m)))
          \<le> confidence_rank (n_confidence (merged_node key (best_first ms)))"
    using le [OF assms] confidence_rank_inj by (simp_all add: member_rank_def merged_node_def Let_def)
qed

text \<open>Its capabilities are those of all members together.\<close>

lemma foldl_capabilities:
  "bit (foldl (\<lambda>c m. cap_add c (f m)) a ms) n \<longleftrightarrow> bit a n \<or> (\<exists>m \<in> set ms. bit (f m) n)"
  by (induction ms arbitrary: a) (auto simp: cap_add_def bit_simps)

lemma merged_capabilities:
  assumes "n < 64"
  shows "cap_has (n_capabilities (merged_node key (best_first ms))) (push_bit n 1)
     \<longleftrightarrow> (\<exists>m \<in> set ms. cap_has (cn_capabilities (mb_node m)) (push_bit n 1))"
  unfolding cap_has_bit [OF assms]
  by (simp add: merged_node_def Let_def foldl_capabilities CAP_NONE_def best_first_def)

text \<open>Its type is one of the members' types, and none of them ranks higher.\<close>

lemma best_type_fold:
  "\<exists>t \<in> insert t0 (f ` set ms). foldl (\<lambda>best m. if better_type (f m) best then f m else best) t0 ms = t
     \<and> (\<forall>u \<in> insert t0 (f ` set ms). type_rank u \<le> type_rank t)"
proof (induction ms arbitrary: t0)
  case (Cons m ms)
  show ?case
    using Cons [of "if better_type (f m) t0 then f m else t0"]
    by (auto simp: better_type_def)
qed simp

lemma best_type:
  assumes "ms \<noteq> []"
  shows "best_type ms \<in> (cn_type \<circ> mb_node) ` set ms"
    and "m \<in> set ms \<Longrightarrow> type_rank (cn_type (mb_node m)) \<le> type_rank (best_type ms)"
proof -
  have "hd ms \<in> set ms" using assms by simp
  then show "best_type ms \<in> (cn_type \<circ> mb_node) ` set ms"
    and "m \<in> set ms \<Longrightarrow> type_rank (cn_type (mb_node m)) \<le> type_rank (best_type ms)"
    using best_type_fold [of "cn_type (mb_node (hd ms))" "\<lambda>m. cn_type (mb_node m)" ms]
    by (auto simp: best_type_def)
qed

section \<open>Properties of a merged node\<close>

lemma om_emplace_present: "om_find m k = Some w \<Longrightarrow> om_ok m \<Longrightarrow> fst (om_emplace k v m) = m"
proof (induction k v m rule: om_emplace.induct)
  case (2 k v k' v' m)
  then have "om_ok m" by (simp add: om_ok_def)
  moreover have "\<not> k < k'"
    using "2.prems" om_find_less [of k' v' m k] by (auto simp: om_find_def split: if_splits)
  ultimately show ?case using 2 by (auto simp: om_find_def Let_def case_prod_beta)
qed (simp add: om_find_def)

lemma add_property_map:
  "om_ok (fst pc) \<Longrightarrow> fst (add_property key kv pc) = fst (om_emplace (fst kv) (snd kv) (fst pc))"
  by (auto simp: add_property_def om_emplace_present)

lemma add_property_fold:
  "om_ok (fst pc) \<Longrightarrow> fst (fold (add_property key) kvs pc) = fold (\<lambda>(k, v) m. fst (om_emplace k v m)) kvs (fst pc)"
proof (induction kvs arbitrary: pc)
  case (Cons kv kvs)
  then show ?case by (cases kv) (simp add: add_property_map om_ok_emplace)
qed simp

lemma add_properties_fold:
  "om_ok (fst pc) \<Longrightarrow> fst (add_properties key ms pc)
     = fold (\<lambda>(k, v) m. fst (om_emplace k v m)) (concat (map (\<lambda>m. cn_properties (mb_node m)) ms)) (fst pc)"
proof (induction ms arbitrary: pc)
  case (Cons m ms)
  have "om_ok (fst (fold (add_property key) (cn_properties (mb_node m)) pc))"
    using Cons.prems by (simp add: add_property_fold om.valid_fold)
  from Cons.IH [OF this] show ?case
    using add_property_fold [OF Cons.prems, of key "cn_properties (mb_node m)"]
    by (simp add: add_properties_def)
qed (simp add: add_properties_def)

lemma map_of_concat:
  "map_of (concat (map f ms)) k = (case find (\<lambda>m. map_of (f m) k \<noteq> None) ms of None \<Rightarrow> None | Some m \<Rightarrow> map_of (f m) k)"
  by (induction ms) (auto simp: map_add_def split: option.splits)

text \<open>The value of a property is the one of the best member that has the property.\<close>

lemma merged_property:
  assumes "k \<noteq> ''tf.merged_providers''" and "k \<noteq> ''tf.merged_members''"
  shows "om_find (n_properties (merged_node key ms)) k =
    (case find (\<lambda>m. om_find (cn_properties (mb_node m)) k \<noteq> None) ms of
       None \<Rightarrow> None | Some m \<Rightarrow> om_find (cn_properties (mb_node m)) k)"
proof -
  let ?ps = "fst (add_properties key ms ([], []))"
  have ps: "?ps = fold (\<lambda>(k, v) m. fst (om_emplace k v m)) (concat (map (\<lambda>m. cn_properties (mb_node m)) ms)) []"
    using add_properties_fold [of "([], [])" key ms] by (simp add: om_ok_def)
  have ok: "om_ok ?ps" unfolding ps by (rule om.valid_fold) (simp add: om_ok_def)
  have "om_find (merged_properties key ms ?ps) k = om_find ?ps k"
    using ok assms by (simp add: merged_properties_def om_find_emplace om_ok_emplace split: option.splits)
  also have "\<dots> = map_of (concat (map (\<lambda>m. cn_properties (mb_node m)) ms)) k"
    using om.find_fold [of "[]" "concat (map (\<lambda>m. cn_properties (mb_node m)) ms)" k]
    by (simp add: ps om_ok_def om_find_def)
  finally have "om_find (n_properties (merged_node key ms)) k
      = map_of (concat (map (\<lambda>m. cn_properties (mb_node m)) ms)) k"
    by (simp add: merged_node_def Let_def)
  moreover have "om_find = (map_of :: property_map \<Rightarrow> _)" by (intro ext) (simp add: om_find_def)
  ultimately show ?thesis by (simp only: map_of_concat)
qed

section \<open>The nodes of a merge\<close>

definition merge_ids :: "string \<Rightarrow> node_id" where
  "merge_ids key = derive_node_id ''touchstone'' ''node'' key"

lemma merged_node_id [simp]: "n_id (merged_node key ms) = merge_ids key"
  by (simp add: merged_node_def Let_def merge_ids_def)

lemma merge_group_simps:
  "mg_nodes (fst (merge_group mx g mi)) =
     (if mx \<le> length (mg_nodes (fst mi)) then mg_nodes (fst mi)
      else fst (um_emplace (merge_ids (fst g)) (merged_node (fst g) (best_first (snd g))) (mg_nodes (fst mi))))"
  "snd (merge_group mx g mi) =
     (if mx \<le> length (mg_nodes (fst mi)) then snd mi else um_put (fst g) (merge_ids (fst g)) (snd mi))"
  "mg_edges (fst (merge_group mx g mi)) = mg_edges (fst mi)"
  "mg_merged_count (fst (merge_group mx g mi)) = mg_merged_count (fst mi)"
  by (simp_all add: merge_group_def Let_def best_first_def)

text \<open>Whatever the bounds are: unique ids, at most \<open>max_nodes\<close> nodes, each made of a group.\<close>

definition nodes_inv :: "nat \<Rightarrow> (string \<times> member list) set \<Rightarrow> merged_graph \<times> (string, node_id) umap \<Rightarrow> bool" where
  "nodes_inv mx G mi \<longleftrightarrow> um_ok (mg_nodes (fst mi)) \<and> length (mg_nodes (fst mi)) \<le> mx
     \<and> (\<forall>(i, n) \<in> set (mg_nodes (fst mi)). \<exists>(key, ms) \<in> G. i = merge_ids key \<and> n = merged_node key (best_first ms))
     \<and> um_ok (snd mi) \<and> (\<forall>key i. um_find (snd mi) key = Some i \<longrightarrow> i = merge_ids key \<and> i \<in> set (um_keys (mg_nodes (fst mi))))"

lemma nodes_inv_step:
  assumes inv: "nodes_inv mx G mi" and g: "g \<in> G"
  shows "nodes_inv mx G (merge_group mx g mi)"
proof (cases "mx \<le> length (mg_nodes (fst mi))")
  case True
  then show ?thesis using inv by (simp add: nodes_inv_def merge_group_simps)
next
  case False
  let ?n = "merged_node (fst g) (best_first (snd g))" and ?nodes = "mg_nodes (fst mi)"
  have nodes: "set (fst (um_emplace (merge_ids (fst g)) ?n ?nodes)) \<subseteq> insert (merge_ids (fst g), ?n) (set ?nodes)"
    "set (um_keys (fst (um_emplace (merge_ids (fst g)) ?n ?nodes))) = insert (merge_ids (fst g)) (set (um_keys ?nodes))"
    by (auto simp: um_emplace_def um_count_iff um_keys_def)
  have "length (fst (um_emplace (merge_ids (fst g)) ?n ?nodes)) \<le> mx"
    using False by (simp add: um_length_emplace)
  moreover have "\<exists>(key, ms) \<in> G. i = merge_ids key \<and> n = merged_node key (best_first ms)"
    if "(i, n) \<in> set (fst (um_emplace (merge_ids (fst g)) ?n ?nodes))" for i n
  proof (cases "(i, n) \<in> set ?nodes")
    case True
    then show ?thesis using inv by (auto simp: nodes_inv_def)
  next
    case False
    then have "i = merge_ids (fst g)" "n = ?n" using that nodes(1) by auto
    then show ?thesis using g by (intro bexI [of _ g]) (auto split: prod.splits)
  qed
  ultimately show ?thesis
    using inv False nodes(2) unfolding nodes_inv_def merge_group_simps
    by (auto simp: um_ok_emplace um_ok_put um_find_put)
qed

lemma nodes_inv_fold: "nodes_inv mx G mi \<Longrightarrow> set gs \<subseteq> G \<Longrightarrow> nodes_inv mx G (fold (merge_group mx) gs mi)"
  by (induction gs arbitrary: mi) (simp_all add: nodes_inv_step)

text \<open>Within the bound no group is dropped.\<close>

lemma nodes_full:
  assumes "um_ok (mg_nodes (fst mi))"
    and "set (um_keys (mg_nodes (fst mi))) \<subseteq> merge_ids ` K"
    and "finite K" and "card (K \<union> fst ` set gs) \<le> mx" and "fst ` set gs \<inter> K = {}" and "distinct (map fst gs)"
  shows "set (um_keys (mg_nodes (fst (fold (merge_group mx) gs mi))))
        = set (um_keys (mg_nodes (fst mi))) \<union> merge_ids ` fst ` set gs
    \<and> um_find (snd (fold (merge_group mx) gs mi)) key
        = (if key \<in> fst ` set gs then Some (merge_ids key) else um_find (snd mi) key)"
  using assms
proof (induction gs arbitrary: mi K)
  case (Cons g gs)
  let ?mi = "merge_group mx g mi"
  have "length (mg_nodes (fst mi)) = card (set (um_keys (mg_nodes (fst mi))))"
    using Cons.prems(1) by (rule length_card)
  also have "\<dots> \<le> card K"
    using Cons.prems(2,3) by (meson card_image_le card_mono finite_imageI le_trans)
  also have "\<dots> < card (insert (fst g) K)" using Cons.prems(3,5) by simp
  also have "\<dots> \<le> card (K \<union> fst ` set (g # gs))"
    using Cons.prems(3) by (intro card_mono) auto
  finally have not_full: "\<not> mx \<le> length (mg_nodes (fst mi))" using Cons.prems(4) by simp
  have keys: "set (um_keys (mg_nodes (fst ?mi))) = insert (merge_ids (fst g)) (set (um_keys (mg_nodes (fst mi))))"
    using not_full by (auto simp: merge_group_simps um_emplace_def um_count_iff um_keys_def)
  have "set (um_keys (mg_nodes (fst (fold (merge_group mx) gs ?mi))))
        = set (um_keys (mg_nodes (fst ?mi))) \<union> merge_ids ` fst ` set gs
    \<and> um_find (snd (fold (merge_group mx) gs ?mi)) key
        = (if key \<in> fst ` set gs then Some (merge_ids key) else um_find (snd ?mi) key)"
  proof (rule Cons.IH [of ?mi "insert (fst g) K"])
    show "um_ok (mg_nodes (fst ?mi))"
      using Cons.prems(1) by (simp add: merge_group_simps um_ok_emplace)
    show "card (insert (fst g) K \<union> fst ` set gs) \<le> mx" using Cons.prems(4) by simp
  qed (use Cons.prems keys in auto)
  then show ?case
    using keys not_full by (auto simp: merge_group_simps um_find_put)
qed simp

section \<open>The edges of a merge\<close>

lemma ref_to_id_find:
  "um_find (ref_to_id walked gids ref_map) r =
     map_of (walked @ map (\<lambda>(ci, ref, key). (ref, um_get kNullNodeId gids key)) ref_map) r"
proof -
  have "ref_to_id walked gids ref_map = fold (\<lambda>(k, v) m. fst (um_emplace k v m))
      (walked @ map (\<lambda>(ci, ref, key). (ref, um_get kNullNodeId gids key)) ref_map) []"
    by (simp add: ref_to_id_def fold_map o_def case_prod_beta')
  then show ?thesis by (simp only: um.find_fold [OF um_ok_Nil] um_find_Nil option.case)
qed

text \<open>Edges get their ends from the references; with the bound they stay within it.\<close>

definition edges_inv :: "nat \<Rightarrow> node_id set \<Rightarrow> topology_edge list \<Rightarrow> bool" where
  "edges_inv mx I es \<longleftrightarrow> length es \<le> mx \<and> (\<forall>e \<in> set es. e_source e \<in> I \<and> e_target e \<in> I)"

lemma resolve_edges_inv:
  assumes "edges_inv mx I (fst ew)" and refs: "\<And>r i. um_find refs r = Some i \<Longrightarrow> i \<in> I"
  shows "edges_inv mx I (fst (resolve_edges mx refs ces ew))"
  using assms(1)
proof (induction ces arbitrary: ew)
  case (Cons ce ces)
  show ?case
  proof (cases "um_find refs (ce_from_ref ce)")
    case None
    then show ?thesis using Cons by simp
  next
    case src: (Some src)
    show ?thesis
    proof (cases "um_find refs (ce_to_ref ce)")
      case None
      then show ?thesis using Cons src by simp
    next
      case (Some tgt)
      have "edges_inv mx I (fst ew @ [merged_edge src tgt ce])" if "\<not> mx \<le> length (fst ew)"
        using that Cons.prems refs [OF src] refs [OF Some] by (auto simp: edges_inv_def merged_edge_def)
      then show ?thesis using Cons src Some by simp
    qed
  qed
qed simp

lemma resolve_all_inv:
  assumes "edges_inv mx I (fst ew)" and "\<And>r i. um_find refs r = Some i \<Longrightarrow> i \<in> I"
  shows "edges_inv mx I (fst (fold (\<lambda>c. resolve_edges mx refs (ct_edges c)) cs ew))"
  using assms(1) by (induction cs arbitrary: ew) (simp_all add: resolve_edges_inv [OF _ assms(2)])

lemma resolve_edges_cong:
  "um_find refs = um_find refs' \<Longrightarrow> resolve_edges mx refs ces ew = resolve_edges mx refs' ces ew"
  by (induction mx refs ces ew rule: resolve_edges.induct) (auto split: option.splits)

lemma dedup_inv:
  assumes "fst sd = edge_key ` set (snd sd)" and "distinct (map edge_key (snd sd))"
  shows "fst (fold dedup_edge es sd) = edge_key ` set (snd (fold dedup_edge es sd))
    \<and> distinct (map edge_key (snd (fold dedup_edge es sd)))
    \<and> set (snd (fold dedup_edge es sd)) \<subseteq> set (snd sd) \<union> set es
    \<and> edge_key ` set (snd (fold dedup_edge es sd)) = edge_key ` (set (snd sd) \<union> set es)
    \<and> length (snd (fold dedup_edge es sd)) \<le> length (snd sd) + length es"
  using assms
proof (induction es arbitrary: sd)
  case (Cons e es)
  have "fst (dedup_edge e sd) = edge_key ` set (snd (dedup_edge e sd))"
    "distinct (map edge_key (snd (dedup_edge e sd)))"
    "set (snd (dedup_edge e sd)) \<subseteq> insert e (set (snd sd))"
    "edge_key ` set (snd (dedup_edge e sd)) = insert (edge_key e) (edge_key ` set (snd sd))"
    "length (snd (dedup_edge e sd)) \<le> Suc (length (snd sd))"
    using Cons.prems by (auto simp: dedup_edge_def)
  moreover from Cons.IH [OF this(1,2)]
  have "fst (fold dedup_edge es (dedup_edge e sd)) = edge_key ` set (snd (fold dedup_edge es (dedup_edge e sd)))
    \<and> distinct (map edge_key (snd (fold dedup_edge es (dedup_edge e sd))))
    \<and> set (snd (fold dedup_edge es (dedup_edge e sd))) \<subseteq> set (snd (dedup_edge e sd)) \<union> set es
    \<and> edge_key ` set (snd (fold dedup_edge es (dedup_edge e sd))) = edge_key ` (set (snd (dedup_edge e sd)) \<union> set es)
    \<and> length (snd (fold dedup_edge es (dedup_edge e sd))) \<le> length (snd (dedup_edge e sd)) + length es" .
  ultimately show ?case by (auto simp: image_Un)
qed auto

section \<open>The result of a merge\<close>

definition rearranges :: "('a list \<Rightarrow> 'a list) \<Rightarrow> bool" where
  "rearranges walk \<longleftrightarrow> (\<forall>xs. mset (walk xs) = mset xs)"

lemma rearranges_set: "rearranges walk \<Longrightarrow> set (walk xs) = set xs"
  unfolding rearranges_def by (metis mset_eq_setD)

definition merge_keys :: "contribution list \<Rightarrow> string set" where
  "merge_keys cs = group_key ` set (concat (map ct_nodes cs))"

lemma merge_keys_tagged: "merge_keys cs = key_of ` set (tagged_all 0 cs)"
proof -
  have "key_of ` set (tagged_all 0 cs) = group_key ` mb_node ` set (tagged_all 0 cs)"
    by (auto simp: key_of_def image_image)
  also have "mb_node ` set (tagged_all 0 cs) = set (concat (map ct_nodes cs))"
    using tagged_all_nodes [of 0 cs] by (metis set_map)
  finally show ?thesis by (simp add: merge_keys_def)
qed

text \<open>The members of a group, in the order in which they were contributed.\<close>

definition contributed :: "contribution list \<Rightarrow> string \<Rightarrow> member list" where
  "contributed cs key = filter (\<lambda>m. key_of m = key) (tagged_all 0 cs)"

definition the_groups :: "nat \<Rightarrow> contribution list \<Rightarrow> (string, member list) umap" where
  "the_groups mx cs = fst (ingest_all mx 0 cs ([], []))"

lemma the_groups_ok: "groups_ok (set (tagged_all 0 cs)) (the_groups mx cs)"
  unfolding the_groups_def by (rule groups_ok_all) (simp_all add: groups_ok_def)

definition merge_state ::
  "((string \<times> member list) list \<Rightarrow> (string \<times> member list) list) \<Rightarrow> contribution list \<Rightarrow> bounds
     \<Rightarrow> merged_graph \<times> (string, node_id) umap" where
  "merge_state walk1 cs b = fold (merge_group (b_max_nodes b))
     (sort_by (\<lambda>a b. fst a < fst b) (walk1 (the_groups (b_max_nodes b) cs)))
     (\<lparr> mg_nodes = [], mg_edges = [], mg_warnings = snd (ingest_all (b_max_nodes b) 0 cs ([], [])),
        mg_conflicts = [], mg_merged_count = sum_list (map (\<lambda>c. length (ct_nodes c)) cs) \<rparr>, [])"

definition merge_refs ::
  "((string \<times> member list) list \<Rightarrow> (string \<times> member list) list) \<Rightarrow>
   ((string \<times> node_id) list \<Rightarrow> (string \<times> node_id) list) \<Rightarrow> contribution list \<Rightarrow> bounds
     \<Rightarrow> (string, node_id) umap" where
  "merge_refs walk1 walk2 cs b = ref_to_id (walk2 (snd (merge_state walk1 cs b))) (snd (merge_state walk1 cs b))
     (refs_of (walk1 (the_groups (b_max_nodes b) cs)))"

definition merge_edges ::
  "((string \<times> member list) list \<Rightarrow> (string \<times> member list) list) \<Rightarrow>
   ((string \<times> node_id) list \<Rightarrow> (string \<times> node_id) list) \<Rightarrow> contribution list \<Rightarrow> bounds
     \<Rightarrow> topology_edge list \<times> string list" where
  "merge_edges walk1 walk2 cs b =
     fold (\<lambda>c. resolve_edges (b_max_edges b) (merge_refs walk1 walk2 cs b) (ct_edges c)) cs
       ([], mg_warnings (fst (merge_state walk1 cs b)))"

lemma merge_contributions_eq:
  "merge_contributions walk1 walk2 cs b = (fst (merge_state walk1 cs b))
     \<lparr> mg_edges := snd (fold dedup_edge (fst (merge_edges walk1 walk2 cs b)) ({}, [])),
       mg_warnings := snd (merge_edges walk1 walk2 cs b) \<rparr>"
  by (simp add: merge_contributions_def merge_edges_def merge_refs_def merge_state_def the_groups_def Let_def)

lemma merge_state_inv:
  assumes "rearranges walk1"
  shows "nodes_inv (b_max_nodes b) (set (the_groups (b_max_nodes b) cs)) (merge_state walk1 cs b)"
  unfolding merge_state_def
  by (rule nodes_inv_fold) (simp_all add: nodes_inv_def rearranges_set [OF assms])

text \<open>Edges after the removal of duplicates.\<close>

lemma merge_edges_dedup:
  "distinct (map edge_key (mg_edges (merge_contributions walk1 walk2 cs b)))
   \<and> length (mg_edges (merge_contributions walk1 walk2 cs b)) \<le> b_max_edges b
   \<and> set (mg_edges (merge_contributions walk1 walk2 cs b)) \<subseteq> set (fst (merge_edges walk1 walk2 cs b))"
proof -
  have "edges_inv (b_max_edges b) UNIV (fst (merge_edges walk1 walk2 cs b))"
    unfolding merge_edges_def by (rule resolve_all_inv) (simp_all add: edges_inv_def)
  then show ?thesis
    using dedup_inv [of "({}, [])" "fst (merge_edges walk1 walk2 cs b)"]
    by (auto simp: merge_contributions_eq edges_inv_def)
qed

text \<open>Within the node bound.\<close>

definition within_nodes :: "contribution list \<Rightarrow> bounds \<Rightarrow> bool" where
  "within_nodes cs b \<longleftrightarrow> card (merge_keys cs) \<le> b_max_nodes b"

lemma the_groups_full:
  assumes "within_nodes cs b"
  shows "um_ok (the_groups (b_max_nodes b) cs)"
    and "set (um_keys (the_groups (b_max_nodes b) cs)) = merge_keys cs"
    and "um_find (the_groups (b_max_nodes b) cs) key = Some ms \<Longrightarrow> ms = contributed cs key"
proof -
  note full = ingest_all_full [of "([], [])" 0 cs "b_max_nodes b", folded the_groups_def]
  have card: "card (set (um_keys []) \<union> key_of ` set (tagged_all 0 cs)) \<le> b_max_nodes b"
    using assms by (simp add: within_nodes_def merge_keys_tagged)
  show "um_ok (the_groups (b_max_nodes b) cs)"
    and "set (um_keys (the_groups (b_max_nodes b) cs)) = merge_keys cs"
    and "um_find (the_groups (b_max_nodes b) cs) key = Some ms \<Longrightarrow> ms = contributed cs key"
    using full [of key] card by (auto simp: merge_keys_tagged contributed_def um_get_def)
qed

lemma merge_state_full:
  assumes walk: "rearranges walk1" and "within_nodes cs b"
  shows "set (um_keys (mg_nodes (fst (merge_state walk1 cs b)))) = merge_ids ` merge_keys cs"
    and "um_find (snd (merge_state walk1 cs b)) key
        = (if key \<in> merge_keys cs then Some (merge_ids key) else None)"
proof -
  let ?gs = "sort_by (\<lambda>a b. fst a < fst b) (walk1 (the_groups (b_max_nodes b) cs))"
  note full = the_groups_full [OF assms(2)]
  have keys: "fst ` set ?gs = merge_keys cs"
    using full(2) by (simp add: rearranges_set [OF walk] um_keys_def)
  have "mset (map fst ?gs) = mset (map fst (the_groups (b_max_nodes b) cs))"
    using walk by (simp add: rearranges_def mset_map)
  then have "distinct (map fst ?gs)"
    using full(1) by (metis mset_eq_imp_distinct_iff um_keys_def um_ok_def)
  moreover have "card ({} \<union> fst ` set ?gs) \<le> b_max_nodes b"
    using assms(2) unfolding keys Un_empty_left within_nodes_def .
  ultimately show "set (um_keys (mg_nodes (fst (merge_state walk1 cs b)))) = merge_ids ` merge_keys cs"
    and "um_find (snd (merge_state walk1 cs b)) key
        = (if key \<in> merge_keys cs then Some (merge_ids key) else None)"
    using nodes_full [where K = "{}" and gs = ?gs and mx = "b_max_nodes b" and key = key] keys
    by (simp_all add: merge_state_def)
qed

lemma refs_of_mem:
  assumes "um_ok gs"
  shows "(ci, r, key) \<in> set (refs_of gs) \<longleftrightarrow>
    (\<exists>ms m. um_find gs key = Some ms \<and> m \<in> set ms \<and> ci = mb_ci m \<and> r = cn_ref (mb_node m))"
proof -
  have "(ci, r, key) \<in> set (refs_of gs) \<longleftrightarrow>
      (\<exists>ms m. (key, ms) \<in> set gs \<and> m \<in> set ms \<and> ci = mb_ci m \<and> r = cn_ref (mb_node m))"
    by (fastforce simp: refs_of_def)
  then show ?thesis by (simp add: um_find_mem [OF assms])
qed

lemma refs_walk: "rearranges walk \<Longrightarrow> set (refs_of (walk gs)) = set (refs_of gs)"
  by (simp add: refs_of_def rearranges_set)

lemma merge_refs_find:
  "um_find (merge_refs walk1 walk2 cs b) r = map_of (walk2 (snd (merge_state walk1 cs b))
     @ map (\<lambda>(ci, ref, key). (ref, um_get kNullNodeId (snd (merge_state walk1 cs b)) key))
         (refs_of (walk1 (the_groups (b_max_nodes b) cs)))) r"
  unfolding merge_refs_def by (rule ref_to_id_find)

text \<open>Within the node bound every reference leads to a node of the result.\<close>

lemma merge_refs_known:
  assumes walk: "rearranges walk1" "rearranges walk2" and bound: "within_nodes cs b"
    and r: "um_find (merge_refs walk1 walk2 cs b) r = Some i"
  shows "i \<in> set (um_keys (mg_nodes (fst (merge_state walk1 cs b))))"
proof -
  let ?gids = "snd (merge_state walk1 cs b)" and ?gs = "the_groups (b_max_nodes b) cs"
  note full = the_groups_full [OF bound] and state = merge_state_full [OF walk(1) bound]
  have inv: "nodes_inv (b_max_nodes b) (set ?gs) (merge_state walk1 cs b)" by (rule merge_state_inv [OF walk(1)])
  have "(r, i) \<in> set (walk2 ?gids @ map (\<lambda>(ci, ref, key). (ref, um_get kNullNodeId ?gids key))
      (refs_of (walk1 ?gs)))"
    using r unfolding merge_refs_find by (rule map_of_SomeD)
  then consider "(r, i) \<in> set ?gids"
    | ci key where "(ci, r, key) \<in> set (refs_of ?gs)" "i = um_get kNullNodeId ?gids key"
    by (auto simp: rearranges_set [OF walk(2)] refs_walk [OF walk(1)])
  then show ?thesis
  proof cases
    case 1
    have "um_ok ?gids" using inv by (simp add: nodes_inv_def)
    then have "um_find ?gids r = Some i" using 1 by (simp add: um_find_mem)
    then show ?thesis using inv by (simp add: nodes_inv_def)
  next
    case 2
    then have "key \<in> set (um_keys ?gs)"
      using refs_of_mem [OF full(1), of ci r key] um_find_None_iff [of ?gs key] by auto
    then have "key \<in> merge_keys cs" by (simp add: full(2))
    then show ?thesis using 2(2) state by (simp add: um_get_def)
  qed
qed

lemma merge_closed:
  assumes walk: "rearranges walk1" "rearranges walk2" and bound: "within_nodes cs b"
    and e: "e \<in> set (mg_edges (merge_contributions walk1 walk2 cs b))"
  shows "known_ends (mg_nodes (merge_contributions walk1 walk2 cs b)) e"
proof -
  let ?I = "set (um_keys (mg_nodes (fst (merge_state walk1 cs b))))"
  have "edges_inv (b_max_edges b) ?I (fst (merge_edges walk1 walk2 cs b))"
    unfolding merge_edges_def
  proof (rule resolve_all_inv)
    show "i \<in> ?I" if "um_find (merge_refs walk1 walk2 cs b) r = Some i" for r i
      by (rule merge_refs_known [OF walk bound that])
  qed (simp add: edges_inv_def)
  then have "e_source e \<in> ?I \<and> e_target e \<in> ?I"
    using e merge_edges_dedup [of walk1 walk2 cs b] by (auto simp: edges_inv_def)
  then show ?thesis
    by (auto simp: known_ends_def merge_contributions_eq um_find_None_iff)
qed

section \<open>Independence of the enumeration orders\<close>

text \<open>No reference names members of two groups.\<close>

definition refs_agree :: "contribution list \<Rightarrow> bool" where
  "refs_agree cs \<longleftrightarrow> (\<forall>m \<in> set (tagged_all 0 cs). \<forall>m' \<in> set (tagged_all 0 cs).
     cn_ref (mb_node m) = cn_ref (mb_node m') \<longrightarrow> key_of m = key_of m')"

lemma map_of_agree:
  assumes "set xs = set ys" and "\<And>k v w. (k, v) \<in> set xs \<Longrightarrow> (k, w) \<in> set xs \<Longrightarrow> v = w"
  shows "map_of xs = map_of ys"
proof
  fix k
  show "map_of xs k = map_of ys k"
  proof (cases "map_of xs k")
    case None
    then have "k \<notin> fst ` set ys" using assms(1) by (simp add: map_of_eq_None_iff)
    then have "map_of ys k = None" by (simp add: map_of_eq_None_iff)
    then show ?thesis using None by simp
  next
    case (Some v)
    then have v: "(k, v) \<in> set xs" by (rule map_of_SomeD)
    then obtain w where w: "map_of ys k = Some w"
      using assms(1) by (metis weak_map_of_SomeI)
    then have "(k, w) \<in> set xs" using assms(1) map_of_SomeD by metis
    then show ?thesis using Some w assms(2) [OF v] by simp
  qed
qed

interpretation by_key: sort_order "\<lambda>a b :: string \<times> member list. fst a < fst b" "\<lambda>_. True"
  by (rule sort_order_key)

lemma ordered_same:
  assumes "rearranges walk" and "um_ok gs"
  shows "sort_by (\<lambda>a b. fst a < fst b) (walk gs) = sort_by (\<lambda>a b :: string \<times> member list. fst a < fst b) gs"
proof (rule by_key.sort_by_unique)
  show "mset (walk gs) = mset gs" using assms(1) by (simp add: rearranges_def)
  show "a = c" if "a \<in> set (walk gs)" "c \<in> set (walk gs)" "\<not> fst a < fst c" "\<not> fst c < fst a" for a c
  proof -
    have fst: "fst a = fst c" using that(3,4) by simp
    have "(fst a, snd a) \<in> set gs" "(fst c, snd c) \<in> set gs"
      using that(1,2) by (simp_all add: rearranges_set [OF assms(1)])
    then have "um_find gs (fst a) = Some (snd a)" "um_find gs (fst c) = Some (snd c)"
      by (simp_all only: um_find_mem [OF assms(2)])
    then show ?thesis using fst by (simp add: prod_eq_iff)
  qed
qed simp

lemma merge_state_walk:
  assumes "rearranges walk1"
  shows "merge_state walk1 cs b = merge_state (\<lambda>xs. xs) cs b"
  using the_groups_ok [of cs "b_max_nodes b"] ordered_same [OF assms]
  by (simp add: merge_state_def groups_ok_def)

lemma merge_refs_walk:
  assumes walk: "rearranges walk1" "rearranges walk2" and agree: "refs_agree cs"
  shows "um_find (merge_refs walk1 walk2 cs b) = um_find (merge_refs (\<lambda>xs. xs) (\<lambda>xs. xs) cs b)"
proof
  fix r
  let ?gids = "snd (merge_state (\<lambda>xs. xs) cs b)" and ?gs = "the_groups (b_max_nodes b) cs"
  let ?refs = "\<lambda>gs. map (\<lambda>(ci, ref, key). (ref, um_get kNullNodeId ?gids key)) (refs_of gs)"
  have gs: "um_ok ?gs" and mem: "\<And>k ms. um_find ?gs k = Some ms \<Longrightarrow> set ms \<subseteq> {m \<in> set (tagged_all 0 cs). key_of m = k}"
    using the_groups_ok [of cs "b_max_nodes b"] by (auto simp: groups_ok_def)
  have same: "rearranges (\<lambda>xs. xs)" by (simp add: rearranges_def)
  have ok: "um_ok ?gids"
    using merge_state_inv [OF same, of b cs] by (simp add: nodes_inv_def)
  have "map_of (walk2 ?gids) = map_of ?gids"
    using um_find_perm [of ?gids "walk2 ?gids"] ok walk(2)
    by (simp add: rearranges_def um_find_def [abs_def])
  moreover have "map_of (?refs (walk1 ?gs)) = map_of (?refs ?gs)"
  proof (rule map_of_agree)
    show "set (?refs (walk1 ?gs)) = set (?refs ?gs)" by (simp add: refs_walk [OF walk(1)])
    show "i = j" if ij: "(k, i) \<in> set (?refs (walk1 ?gs))" "(k, j) \<in> set (?refs (walk1 ?gs))" for k i j
    proof -
      obtain c c' key key' where keys: "(c, k, key) \<in> set (refs_of ?gs)" "(c', k, key') \<in> set (refs_of ?gs)"
        and "i = um_get kNullNodeId ?gids key" "j = um_get kNullNodeId ?gids key'"
        using ij by (auto simp: refs_walk [OF walk(1)])
      moreover have "key = key'"
      proof -
        obtain ms m where "um_find ?gs key = Some ms" "m \<in> set ms" and m: "k = cn_ref (mb_node m)"
          using keys(1) unfolding refs_of_mem [OF gs] by blast
        then have m_in: "m \<in> set (tagged_all 0 cs)" "key_of m = key" using mem by blast+
        obtain ms' m' where "um_find ?gs key' = Some ms'" "m' \<in> set ms'" and m': "k = cn_ref (mb_node m')"
          using keys(2) unfolding refs_of_mem [OF gs] by blast
        then have "m' \<in> set (tagged_all 0 cs)" "key_of m' = key'" using mem by blast+
        then show ?thesis using m_in m m' agree unfolding refs_agree_def by metis
      qed
      ultimately show ?thesis by simp
    qed
  qed
  ultimately show "um_find (merge_refs walk1 walk2 cs b) r = um_find (merge_refs (\<lambda>xs. xs) (\<lambda>xs. xs) cs b) r"
    by (simp add: merge_refs_find merge_state_walk [OF walk(1)])
qed

lemma merge_walk:
  assumes walk: "rearranges walk1" "rearranges walk2" and agree: "refs_agree cs"
  shows "merge_contributions walk1 walk2 cs b = merge_contributions (\<lambda>xs. xs) (\<lambda>xs. xs) cs b"
proof -
  have "resolve_edges mx (merge_refs walk1 walk2 cs b) = resolve_edges mx (merge_refs (\<lambda>xs. xs) (\<lambda>xs. xs) cs b)" for mx
    by (intro ext) (rule resolve_edges_cong [OF merge_refs_walk [OF walk agree]])
  then have "merge_edges walk1 walk2 cs b = merge_edges (\<lambda>xs. xs) (\<lambda>xs. xs) cs b"
    by (simp add: merge_edges_def merge_state_walk [OF walk(1)])
  then show ?thesis by (simp add: merge_contributions_eq merge_state_walk [OF walk(1)])
qed

section \<open>What a merge produces\<close>

lemma merge_nodes_made:
  assumes walk: "rearranges walk1" and bound: "within_nodes cs b"
    and n: "(i, n) \<in> set (mg_nodes (merge_contributions walk1 walk2 cs b))"
  obtains key where "key \<in> merge_keys cs" "i = merge_ids key" "n = merged_node key (best_first (contributed cs key))"
proof -
  let ?gs = "the_groups (b_max_nodes b) cs"
  have "nodes_inv (b_max_nodes b) (set ?gs) (merge_state walk1 cs b)" by (rule merge_state_inv [OF walk])
  moreover have "(i, n) \<in> set (mg_nodes (fst (merge_state walk1 cs b)))" using n by (simp add: merge_contributions_eq)
  ultimately obtain key ms where g: "(key, ms) \<in> set ?gs" and *: "i = merge_ids key" "n = merged_node key (best_first ms)"
    unfolding nodes_inv_def by blast
  have f: "um_find ?gs key = Some ms" using g um_find_mem [OF the_groups_full(1) [OF bound]] by simp
  then have "key \<in> set (um_keys ?gs)" using um_find_None_iff [of ?gs key] by simp
  then have "key \<in> merge_keys cs" by (simp add: the_groups_full(2) [OF bound])
  moreover have "ms = contributed cs key" by (rule the_groups_full(3) [OF bound f])
  ultimately show ?thesis using that * by simp
qed

lemma contributed_ne:
  assumes "key \<in> merge_keys cs"
  shows "contributed cs key \<noteq> []"
proof -
  obtain m where "m \<in> set (tagged_all 0 cs)" "key_of m = key"
    using assms unfolding merge_keys_tagged by blast
  then show ?thesis by (auto simp: contributed_def filter_empty_conv)
qed

definition ex_offer :: "string \<Rightarrow> node_type \<Rightarrow> string \<Rightarrow> confidence \<Rightarrow> contributed_node" where
  "ex_offer r t name c = \<lparr> cn_ref = r, cn_type = t, cn_category = [], cn_name = name,
     cn_native = default_native, cn_capabilities = CAP_NONE, cn_properties = [],
     cn_provenance = (n_provenance default_node) \<lparr> pr_confidence := c \<rparr>, cn_synthetic = False \<rparr>"

definition ex_link :: "string \<Rightarrow> string \<Rightarrow> contributed_edge" where
  "ex_link r r' = \<lparr> ce_from_ref = r, ce_to_ref = r', ce_type = ET_CONTAINS, ce_direction = ED_DIRECTED,
     ce_provenance = n_provenance default_node, ce_confidence = CF_UNKNOWN, ce_width = None,
     ce_pcie_generation = None, ce_bandwidth_bytes_per_sec = None, ce_latency_ns = None,
     ce_hop_count = 0, ce_peer_capability = None, ce_properties = [] \<rparr>"

definition ex_contribution :: "contributed_node list \<Rightarrow> contributed_edge list \<Rightarrow> contribution" where
  "ex_contribution ns es = \<lparr> ct_provider = [], ct_version = [], ct_nodes = ns, ct_edges = es, ct_warnings = [],
     ct_partial = False, ct_success = True \<rparr>"

text \<open>Two providers know one machine, the second one with less confidence.\<close>

definition ex_two :: "contribution list" where
  "ex_two = [ex_contribution [ex_offer ''a'' NT_MACHINE ''m'' CF_HIGH] [],
     ex_contribution [ex_offer ''b'' NT_MACHINE ''m'' CF_LOW, ex_offer ''d'' NT_NUMA_NODE ''n'' CF_LOW] [ex_link ''b'' ''d'']]"

text \<open>One provider uses one reference for two machines.\<close>

definition ex_ambiguous :: "contribution list" where
  "ex_ambiguous = [ex_contribution [ex_offer ''x'' NT_MACHINE ''a'' CF_HIGH, ex_offer ''x'' NT_MACHINE ''b'' CF_HIGH]
     [ex_link ''x'' ''x'']]"

lemma ex_keys_of:
  "group_key (ex_offer r NT_MACHINE name c) = ''type:machine:'' @ name"
  "group_key (ex_offer r NT_NUMA_NODE name c) = ''type:numa_node:'' @ name"
proof -
  have "canonical_key default_native = []" by code_simp
  then show "group_key (ex_offer r NT_MACHINE name c) = ''type:machine:'' @ name"
    and "group_key (ex_offer r NT_NUMA_NODE name c) = ''type:numa_node:'' @ name"
    by (simp_all add: group_key_def ex_offer_def Let_def)
qed

lemma ex_two_keys: "merge_keys ex_two = {''type:machine:m'', ''type:numa_node:n''}"
  by (simp add: merge_keys_def ex_two_def ex_contribution_def ex_keys_of)

lemma ex_two_within: "within_nodes ex_two default_bounds"
  by (simp add: within_nodes_def ex_two_keys default_bounds_def card_insert_if)

lemma rearranges_rev: "rearranges rev" and rearranges_id: "rearranges (\<lambda>xs. xs)"
  by (simp_all add: rearranges_def)

lemma ex_two_refs: "refs_agree ex_two"
  by (simp add: refs_agree_def ex_two_def ex_contribution_def key_of_def ex_keys_of ex_offer_def)

text \<open>C36: when no contributed node is left out for the node bound, a merge yields exactly one node per
  id of a group key, every edge of the result joins two nodes of the result, no two edges have the same
  key, and there are no more edges than allowed.\<close>

theorem merge_closed_graph:
  assumes "rearranges walk1" and "rearranges walk2" and "within_nodes cs b"
  defines "g \<equiv> merge_contributions walk1 walk2 cs b"
  shows "um_ok (mg_nodes g) \<and> set (um_keys (mg_nodes g)) = merge_ids ` merge_keys cs
    \<and> (\<forall>e \<in> set (mg_edges g). known_ends (mg_nodes g) e)
    \<and> distinct (map edge_key (mg_edges g)) \<and> length (mg_edges g) \<le> b_max_edges b"
proof -
  have "nodes_inv (b_max_nodes b) (set (the_groups (b_max_nodes b) cs)) (merge_state walk1 cs b)"
    by (rule merge_state_inv [OF assms(1)])
  then have "um_ok (mg_nodes g)" by (simp add: g_def merge_contributions_eq nodes_inv_def)
  moreover have "set (um_keys (mg_nodes g)) = merge_ids ` merge_keys cs"
    using merge_state_full(1) [OF assms(1,3)] by (simp add: g_def merge_contributions_eq)
  ultimately show ?thesis
    using merge_closed [OF assms(1-3)] merge_edges_dedup [of walk1 walk2 cs b] by (simp add: g_def)
qed

theorem merge_closed_graph_witness:
  "set (um_keys (mg_nodes (merge_contributions rev rev ex_two default_bounds)))
     = merge_ids ` {''type:machine:m'', ''type:numa_node:n''}"
  using merge_closed_graph [OF rearranges_rev rearranges_rev ex_two_within] by (simp add: ex_two_keys)

text \<open>C37: the node of a group takes the confidence and the provenance of its most trusted member, which
  no member exceeds, has a capability exactly when a member has it, a type of a member that no member's
  type outranks, and for every property the value of the first member, most trusted first, that has it.\<close>

theorem merge_keeps_best:
  assumes "rearranges walk1" and "within_nodes cs b"
    and "(i, n) \<in> set (mg_nodes (merge_contributions walk1 walk2 cs b))"
  shows "\<exists>key \<in> merge_keys cs. i = merge_ids key
    \<and> n_confidence n = pr_confidence (n_provenance n)
    \<and> n_provenance n \<in> (cn_provenance \<circ> mb_node) ` set (contributed cs key)
    \<and> (\<forall>m \<in> set (contributed cs key).
         confidence_rank (pr_confidence (cn_provenance (mb_node m))) \<le> confidence_rank (n_confidence n)
         \<and> type_rank (cn_type (mb_node m)) \<le> type_rank (n_type n))
    \<and> n_type n \<in> (cn_type \<circ> mb_node) ` set (contributed cs key)
    \<and> (\<forall>k < 64. cap_has (n_capabilities n) (push_bit k 1)
         \<longleftrightarrow> (\<exists>m \<in> set (contributed cs key). cap_has (cn_capabilities (mb_node m)) (push_bit k 1)))
    \<and> (\<forall>k. k \<notin> {''tf.merged_providers'', ''tf.merged_members''} \<longrightarrow> om_find (n_properties n) k =
         (case find (\<lambda>m. om_find (cn_properties (mb_node m)) k \<noteq> None) (best_first (contributed cs key)) of
            None \<Rightarrow> None | Some m \<Rightarrow> om_find (cn_properties (mb_node m)) k))"
proof -
  obtain key where key: "key \<in> merge_keys cs" "i = merge_ids key"
    and n: "n = merged_node key (best_first (contributed cs key))"
    using merge_nodes_made [OF assms] .
  let ?ms = "contributed cs key"
  obtain m0 where m0: "m0 \<in> set ?ms" using contributed_ne [OF key(1)] by (cases ?ms) auto
  have set: "set (best_first ?ms) = set ?ms" by (simp add: best_first_def)
  have "best_first ?ms \<noteq> []" using m0 set by force
  note type = best_type [OF this, unfolded set]
  have prov: "n_provenance n \<in> (cn_provenance \<circ> mb_node) ` set ?ms"
    using best_first_hd(2) [OF m0] by (simp add: n merged_node_def Let_def)
  have nt: "n_type n = best_type (best_first ?ms)" by (simp add: n merged_node_def Let_def)
  show ?thesis
  proof (intro bexI [OF _ key(1)] conjI allI ballI impI)
    show "i = merge_ids key" by (rule key(2))
    show "n_confidence n = pr_confidence (n_provenance n)" unfolding n by (rule merged_confidence(1) [OF m0])
    show "n_provenance n \<in> (cn_provenance \<circ> mb_node) ` set ?ms" by (rule prov)
    show "n_type n \<in> (cn_type \<circ> mb_node) ` set ?ms" unfolding nt by (rule type(1))
  next
    fix m assume m: "m \<in> set ?ms"
    show "confidence_rank (pr_confidence (cn_provenance (mb_node m))) \<le> confidence_rank (n_confidence n)"
      unfolding n by (rule merged_confidence(2) [OF m])
    show "type_rank (cn_type (mb_node m)) \<le> type_rank (n_type n)" unfolding nt by (rule type(2) [OF m])
  next
    fix k :: nat assume "k < 64"
    then show "cap_has (n_capabilities n) (push_bit k 1)
         \<longleftrightarrow> (\<exists>m \<in> set ?ms. cap_has (cn_capabilities (mb_node m)) (push_bit k 1))"
      unfolding n by (rule merged_capabilities)
  next
    fix k assume "k \<notin> {''tf.merged_providers'', ''tf.merged_members''}"
    then show "om_find (n_properties n) k =
         (case find (\<lambda>m. om_find (cn_properties (mb_node m)) k \<noteq> None) (best_first ?ms) of
            None \<Rightarrow> None | Some m \<Rightarrow> om_find (cn_properties (mb_node m)) k)"
      unfolding n by (intro merged_property) simp_all
  qed
qed

lemma ex_two_machine:
  "\<exists>n. (merge_ids ''type:machine:m'', n) \<in> set (mg_nodes (merge_contributions rev rev ex_two default_bounds))"
proof -
  have "merge_ids ''type:machine:m'' \<in> set (um_keys (mg_nodes (fst (merge_state rev ex_two default_bounds))))"
    unfolding merge_state_full(1) [OF rearranges_rev ex_two_within] ex_two_keys by blast
  then show ?thesis by (auto simp: um_keys_def merge_contributions_eq)
qed

theorem merge_keeps_best_witness:
  "\<exists>n. (merge_ids ''type:machine:m'', n) \<in> set (mg_nodes (merge_contributions rev rev ex_two default_bounds))
     \<and> n_confidence n = pr_confidence (n_provenance n)"
proof -
  obtain n where n: "(merge_ids ''type:machine:m'', n) \<in> set (mg_nodes (merge_contributions rev rev ex_two default_bounds))"
    using ex_two_machine by blast
  then show ?thesis using merge_keeps_best [OF rearranges_rev ex_two_within n] by blast
qed

text \<open>C38: when every reference is used for one group only, the result of a merge, warnings and conflicts
  included, does not depend on the orders in which the hash maps of groups and of node ids are walked.\<close>

theorem merge_order_free:
  assumes "refs_agree cs" and "rearranges walk1" and "rearranges walk2" and "rearranges walk1'" and "rearranges walk2'"
  shows "merge_contributions walk1 walk2 cs b = merge_contributions walk1' walk2' cs b"
  using merge_walk [OF assms(2,3,1)] merge_walk [OF assms(4,5,1)] by simp

theorem merge_order_free_witness:
  "merge_contributions rev rev ex_two default_bounds = merge_contributions (\<lambda>xs. xs) rev ex_two default_bounds"
  by (rule merge_order_free [OF ex_two_refs rearranges_rev rearranges_rev rearranges_id rearranges_rev])

lemma ex_ambiguous_ids: "merge_ids ''type:machine:a'' \<noteq> merge_ids ''type:machine:b''"
proof -
  have "stable_hash128 ((''touchstone'' @ ''|'' @ ''node'' @ ''|'' @ ''type:machine:'') @ CHR ''a'' # []) sa sb
     \<noteq> stable_hash128 ((''touchstone'' @ ''|'' @ ''node'' @ ''|'' @ ''type:machine:'') @ CHR ''b'' # []) sa sb" for sa sb
    unfolding stable_hash128_byte by simp
  then show ?thesis by (simp add: merge_ids_def derive_node_id_def)
qed

lemma ex_ambiguous_groups:
  "the_groups (b_max_nodes default_bounds) ex_ambiguous =
     [(''type:machine:a'', [\<lparr> mb_node = ex_offer ''x'' NT_MACHINE ''a'' CF_HIGH, mb_ci = 0, mb_idx = 0 \<rparr>]),
      (''type:machine:b'', [\<lparr> mb_node = ex_offer ''x'' NT_MACHINE ''b'' CF_HIGH, mb_ci = 0, mb_idx = 1 \<rparr>])]"
  by (simp add: the_groups_def ex_ambiguous_def ex_contribution_def ex_keys_of um_push_def um_put_def um_get_def
      um_find_def default_bounds_def Let_def)

lemma ex_ambiguous_refs:
  "um_find (merge_refs (\<lambda>xs. xs) (\<lambda>xs. xs) ex_ambiguous default_bounds) ''x'' = Some (merge_ids ''type:machine:a'')"
  "um_find (merge_refs rev (\<lambda>xs. xs) ex_ambiguous default_bounds) ''x'' = Some (merge_ids ''type:machine:b'')"
proof -
  have keys: "merge_keys ex_ambiguous = {''type:machine:a'', ''type:machine:b''}"
    by (simp add: merge_keys_def ex_ambiguous_def ex_contribution_def ex_keys_of)
  then have within: "within_nodes ex_ambiguous default_bounds"
    by (simp add: within_nodes_def default_bounds_def card_insert_if)
  have ids: "um_find (snd (merge_state w ex_ambiguous default_bounds)) key
      = (if key \<in> {''type:machine:a'', ''type:machine:b''} then Some (merge_ids key) else None)" if "rearranges w" for w key
    using merge_state_full(2) [OF that within, of key] by (simp only: keys)
  show "um_find (merge_refs (\<lambda>xs. xs) (\<lambda>xs. xs) ex_ambiguous default_bounds) ''x'' = Some (merge_ids ''type:machine:a'')"
    using ids [OF rearranges_id]
    by (simp add: merge_refs_find ex_ambiguous_groups refs_of_def um_get_def map_add_def um_find_def [symmetric] ex_offer_def)
  show "um_find (merge_refs rev (\<lambda>xs. xs) ex_ambiguous default_bounds) ''x'' = Some (merge_ids ''type:machine:b'')"
    using ids [OF rearranges_rev]
    by (simp add: merge_refs_find ex_ambiguous_groups refs_of_def um_get_def map_add_def um_find_def [symmetric] ex_offer_def)
qed

lemma ex_ambiguous_edges:
  assumes "um_find (merge_refs walk1 walk2 ex_ambiguous default_bounds) ''x'' = Some i"
  shows "map e_source (mg_edges (merge_contributions walk1 walk2 ex_ambiguous default_bounds)) = [i]"
  using assms
  by (simp add: merge_contributions_eq merge_edges_def ex_ambiguous_def ex_contribution_def ex_link_def
      default_bounds_def dedup_edge_def merged_edge_def default_edge_def)

text \<open>When one provider uses a reference for two nodes, the same contributions give different edges
  under two orders of the hash map of groups.\<close>

theorem merge_ambiguous_reference:
  "map e_source (mg_edges (merge_contributions (\<lambda>xs. xs) (\<lambda>xs. xs) ex_ambiguous default_bounds))
   \<noteq> map e_source (mg_edges (merge_contributions rev (\<lambda>xs. xs) ex_ambiguous default_bounds))"
  using ex_ambiguous_ids by (simp add: ex_ambiguous_edges [OF ex_ambiguous_refs(1)] ex_ambiguous_edges [OF ex_ambiguous_refs(2)])

text \<open>A group that the node bound drops is still found by its references, under the null id.\<close>

definition ex_overfull :: "contribution list" where
  "ex_overfull = [ex_contribution [ex_offer ''p'' NT_MACHINE ''a'' CF_HIGH, ex_offer ''q'' NT_MACHINE ''b'' CF_HIGH]
     [ex_link ''p'' ''q'']]"

definition ex_tight :: bounds where
  "ex_tight = default_bounds \<lparr> b_max_nodes := 1 \<rparr>"

lemma ex_tight_bounds: "b_max_nodes ex_tight = Suc 0" "b_max_edges ex_tight = 4000000"
  by (simp_all add: ex_tight_def default_bounds_def)

lemma ex_overfull_state:
  "snd (merge_state (\<lambda>xs. xs) ex_overfull ex_tight)
     = [(''type:machine:a'', merge_ids ''type:machine:a'')]"
  "mg_nodes (fst (merge_state (\<lambda>xs. xs) ex_overfull ex_tight))
     = [(merge_ids ''type:machine:a'', merged_node ''type:machine:a''
          (best_first [\<lparr> mb_node = ex_offer ''p'' NT_MACHINE ''a'' CF_HIGH, mb_ci = 0, mb_idx = 0 \<rparr>]))]"
  "refs_of (the_groups (b_max_nodes ex_tight) ex_overfull)
     = [(0, ''p'', ''type:machine:a''), (0, ''q'', ''type:machine:b'')]"
proof -
  have g: "the_groups (Suc 0) ex_overfull =
     [(''type:machine:a'', [\<lparr> mb_node = ex_offer ''p'' NT_MACHINE ''a'' CF_HIGH, mb_ci = 0, mb_idx = 0 \<rparr>]),
      (''type:machine:b'', [\<lparr> mb_node = ex_offer ''q'' NT_MACHINE ''b'' CF_HIGH, mb_ci = 0, mb_idx = 1 \<rparr>])]"
    by (simp add: the_groups_def ex_overfull_def ex_contribution_def ex_keys_of um_push_def um_put_def um_get_def
      um_find_def Let_def)
  have less: "''type:machine:a'' < ''type:machine:b''" "\<not> ''type:machine:b'' < ''type:machine:a''" by code_simp+
  have s: "sort_by (\<lambda>a b. fst a < fst b) (the_groups (Suc 0) ex_overfull) = the_groups (Suc 0) ex_overfull"
    unfolding g by (simp add: less)
  show "snd (merge_state (\<lambda>xs. xs) ex_overfull ex_tight)
     = [(''type:machine:a'', merge_ids ''type:machine:a'')]"
    and "mg_nodes (fst (merge_state (\<lambda>xs. xs) ex_overfull ex_tight))
     = [(merge_ids ''type:machine:a'', merged_node ''type:machine:a''
          (best_first [\<lparr> mb_node = ex_offer ''p'' NT_MACHINE ''a'' CF_HIGH, mb_ci = 0, mb_idx = 0 \<rparr>]))]"
    by (simp_all add: merge_state_def ex_tight_bounds s, simp_all add: g merge_group_simps um_emplace_def um_count_def um_put_def um_find_def Let_def)
  show "refs_of (the_groups (b_max_nodes ex_tight) ex_overfull)
     = [(0, ''p'', ''type:machine:a''), (0, ''q'', ''type:machine:b'')]"
    by (simp add: ex_tight_bounds g refs_of_def ex_offer_def)
qed

lemma ex_overfull_edge:
  "map e_target (mg_edges (merge_contributions (\<lambda>xs. xs) (\<lambda>xs. xs) ex_overfull ex_tight))
     = [kNullNodeId]"
proof -
  have "um_find (merge_refs (\<lambda>xs. xs) (\<lambda>xs. xs) ex_overfull ex_tight) ''p'' = Some (merge_ids ''type:machine:a'')"
    "um_find (merge_refs (\<lambda>xs. xs) (\<lambda>xs. xs) ex_overfull ex_tight) ''q'' = Some kNullNodeId"
    by (simp_all add: merge_refs_find ex_overfull_state um_get_def, simp_all add: um_find_def)
  then show ?thesis
    by (simp add: merge_contributions_eq merge_edges_def ex_overfull_def ex_contribution_def ex_link_def
      ex_tight_bounds dedup_edge_def merged_edge_def default_edge_def)
qed

end
