(* ===== verification/TF_Registry.thy ===== *)
theory TF_Registry
  imports TF_Prelude
begin

text \<open>
  The provider registry (\<open>registry.cpp\<close>, \<open>registry.hpp\<close>). A provider is an object behind an
  abstract interface: here a value of an arbitrary type whose \<open>name()\<close> is a parameter. Every
  operation holds the registry's mutex from its first access to its return, so the operations are
  atomic and a run of the registry is a sequence of them.

  The lemmas show that the two containers stay consistent and that the registry implements a list of
  named providers in registration order, in which registering a known name replaces the provider and
  keeps its place.
\<close>

record 'p registry =
  rg_by_name :: "(string, 'p) umap"
  rg_order :: "string list"

definition empty_registry :: "'p registry" where
  "empty_registry = \<lparr> rg_by_name = [], rg_order = [] \<rparr>"

text \<open>\<open>None\<close> as the argument is the null pointer.\<close>

definition register_provider :: "('p \<Rightarrow> string) \<Rightarrow> 'p option \<Rightarrow> 'p registry \<Rightarrow> 'p registry \<times> bool" where
  "register_provider pname p r =
     (case p of
        None \<Rightarrow> (r, False)
      | Some p \<Rightarrow>
          let nm = pname p; is_new = (um_find (rg_by_name r) nm = None) in
          (r \<lparr> rg_by_name := um_put nm p (rg_by_name r),
               rg_order := (if is_new then rg_order r @ [nm] else rg_order r) \<rparr>, True))"

definition unregister :: "string \<Rightarrow> 'p registry \<Rightarrow> 'p registry \<times> bool" where
  "unregister name r =
     (case um_find (rg_by_name r) name of
        None \<Rightarrow> (r, False)
      | Some _ \<Rightarrow> (r \<lparr> rg_by_name := AList.delete name (rg_by_name r),
                       rg_order := filter (\<lambda>n. n \<noteq> name) (rg_order r) \<rparr>, True))"

definition registry_find :: "string \<Rightarrow> 'p registry \<Rightarrow> 'p option" where
  "registry_find name r = um_find (rg_by_name r) name"

definition registry_all :: "'p registry \<Rightarrow> 'p list" where
  "registry_all r = List.map_filter (um_find (rg_by_name r)) (rg_order r)"

definition registry_size :: "'p registry \<Rightarrow> nat" where
  "registry_size r = length (rg_by_name r)"

definition registry_clear :: "'p registry \<Rightarrow> 'p registry" where
  "registry_clear r = r \<lparr> rg_by_name := [], rg_order := [] \<rparr>"

section \<open>The invariant\<close>

definition registry_ok :: "'p registry \<Rightarrow> bool" where
  "registry_ok r \<longleftrightarrow> um_ok (rg_by_name r) \<and> distinct (rg_order r)
     \<and> set (rg_order r) = set (um_keys (rg_by_name r))"

datatype 'p registry_op =
    R_Register "'p option"
  | R_Unregister string
  | R_Clear

fun run_registry :: "('p \<Rightarrow> string) \<Rightarrow> 'p registry_op \<Rightarrow> 'p registry \<Rightarrow> 'p registry" where
  "run_registry pname (R_Register p) r = fst (register_provider pname p r)"
| "run_registry pname (R_Unregister name) r = fst (unregister name r)"
| "run_registry pname R_Clear r = registry_clear r"

lemma um_find_delete: "um_find (AList.delete k m) j = (if j = k then None else um_find m j)"
  by (simp add: um_find_def delete_conv')

lemma um_keys_delete: "set (um_keys (AList.delete k m)) = set (um_keys m) - {k}"
  by (simp add: um_keys_def delete_keys)

lemma um_ok_delete: "um_ok m \<Longrightarrow> um_ok (AList.delete k m)"
  by (simp add: um_ok_def um_keys_def distinct_delete)

lemma registry_ok_step: "registry_ok r \<Longrightarrow> registry_ok (run_registry pname op r)"
  by (cases op)
    (auto simp: registry_ok_def register_provider_def unregister_def registry_clear_def Let_def
      um_ok_put um_keys_put um_ok_delete um_keys_delete um_find_None_iff um_keys_Nil
      split: option.splits)

lemma registry_ok_run: "registry_ok r \<Longrightarrow> registry_ok (fold (run_registry pname) ops r)"
  by (induction ops arbitrary: r) (auto simp: registry_ok_step)

lemma registry_ok_empty: "registry_ok empty_registry"
  by (simp add: registry_ok_def empty_registry_def um_keys_def)

lemma registry_size_order: "registry_ok r \<Longrightarrow> registry_size r = length (rg_order r)"
  by (metis distinct_card length_map registry_ok_def registry_size_def um_keys_def um_ok_def)

section \<open>The list of named providers\<close>

definition registry_abs :: "'p registry \<Rightarrow> (string \<times> 'p) list" where
  "registry_abs r = map (\<lambda>n. (n, the (um_find (rg_by_name r) n))) (rg_order r)"

lemma registry_named: "registry_ok r \<Longrightarrow> n \<in> set (rg_order r) \<Longrightarrow> \<exists>p. um_find (rg_by_name r) n = Some p"
  using um_find_None_iff [of "rg_by_name r" n] by (auto simp: registry_ok_def)

lemma registry_all_abs: "registry_ok r \<Longrightarrow> registry_all r = map snd (registry_abs r)"
proof -
  assume ok: "registry_ok r"
  have "List.map_filter (um_find (rg_by_name r)) ns = map (\<lambda>n. the (um_find (rg_by_name r) n)) ns"
    if "set ns \<subseteq> set (rg_order r)" for ns
    using that registry_named [OF ok] by (induction ns) (fastforce simp: map_filter_simps)+
  then show ?thesis by (simp add: registry_all_def registry_abs_def o_def)
qed

lemma registry_find_abs:
  assumes "registry_ok r"
  shows "registry_find n r = map_of (registry_abs r) n"
proof (cases "n \<in> set (rg_order r)")
  case True
  then have "map_of (registry_abs r) n = Some (the (um_find (rg_by_name r) n))"
    by (simp add: registry_abs_def map_of_map_restrict)
  then show ?thesis
    using registry_named [OF assms True] by (auto simp: registry_find_def)
next
  case False
  then have "um_find (rg_by_name r) n = None"
    using assms by (simp add: registry_ok_def um_find_None_iff)
  moreover have "map_of (registry_abs r) n = None"
    using False by (simp add: registry_abs_def map_of_map_restrict)
  ultimately show ?thesis by (simp add: registry_find_def)
qed

lemma update_map_key:
  assumes "distinct ns"
  shows "AList.update k p (map (\<lambda>n. (n, f n)) ns) =
    map (\<lambda>n. (n, if n = k then p else f n)) (if k \<in> set ns then ns else ns @ [k])"
  using assms by (induction ns) auto

lemma register_abs:
  assumes "registry_ok r"
  shows "registry_abs (fst (register_provider pname (Some p) r)) = AList.update (pname p) p (registry_abs r)"
proof -
  have "um_find (rg_by_name r) (pname p) = None \<longleftrightarrow> pname p \<notin> set (rg_order r)"
    using assms by (simp add: registry_ok_def um_find_None_iff)
  moreover have "distinct (rg_order r)" using assms by (simp add: registry_ok_def)
  ultimately show ?thesis
    by (auto simp: registry_abs_def register_provider_def Let_def update_map_key um_find_put)
qed

lemma unregister_abs:
  assumes "registry_ok r"
  shows "registry_abs (fst (unregister n r)) = AList.delete n (registry_abs r)"
proof (cases "um_find (rg_by_name r) n")
  case None
  then have "n \<notin> set (rg_order r)"
    using assms by (simp add: registry_ok_def um_find_None_iff)
  moreover from this have "AList.delete n (registry_abs r) = registry_abs r"
    by (simp add: registry_abs_def image_image delete_idem)
  ultimately show ?thesis using None by (simp add: unregister_def)
next
  case (Some p)
  have "map (\<lambda>m. (m, the (um_find (AList.delete n (rg_by_name r)) m))) (filter (\<lambda>m. m \<noteq> n) ns)
      = AList.delete n (map (\<lambda>m. (m, the (um_find (rg_by_name r) m))) ns)" for ns
    by (induction ns) (auto simp: um_find_delete)
  with Some show ?thesis by (simp add: registry_abs_def unregister_def)
qed

lemma register_flag: "snd (register_provider pname p r) \<longleftrightarrow> p \<noteq> None"
  by (auto simp: register_provider_def Let_def split: option.splits)

lemma unregister_flag: "snd (unregister n r) \<longleftrightarrow> registry_find n r \<noteq> None"
  by (auto simp: unregister_def registry_find_def split: option.splits)

lemma clear_abs: "registry_abs (registry_clear r) = []"
  by (simp add: registry_abs_def registry_clear_def)

text \<open>The registry after a sequence of operations, as a list.\<close>

fun run_list :: "('p \<Rightarrow> string) \<Rightarrow> 'p registry_op \<Rightarrow> (string \<times> 'p) list \<Rightarrow> (string \<times> 'p) list" where
  "run_list pname (R_Register None) l = l"
| "run_list pname (R_Register (Some p)) l = AList.update (pname p) p l"
| "run_list pname (R_Unregister name) l = AList.delete name l"
| "run_list pname R_Clear l = []"

lemma registry_abs_step: "registry_ok r \<Longrightarrow> registry_abs (run_registry pname op r) = run_list pname op (registry_abs r)"
  by (cases "(pname, op, registry_abs r)" rule: run_list.cases)
    (auto simp: register_abs unregister_abs clear_abs, simp add: register_provider_def)

lemma registry_abs_run:
  "registry_ok r \<Longrightarrow> registry_abs (fold (run_registry pname) ops r) = fold (run_list pname) ops (registry_abs r)"
  by (induction ops arbitrary: r) (auto simp: registry_abs_step registry_ok_step)

section \<open>Properties\<close>

text \<open>C33: after any sequence of calls the registry is the list of named providers that the same calls
  make of an association list: registering a known name replaces its provider in place, a new name is
  appended, unregistering removes the name. \<open>all()\<close>, \<open>find\<close> and \<open>size\<close> read that list.\<close>

theorem registry_refines_list:
  "registry_all (fold (run_registry pname) ops empty_registry) = map snd (fold (run_list pname) ops [])
   \<and> registry_find n (fold (run_registry pname) ops empty_registry) = map_of (fold (run_list pname) ops []) n
   \<and> registry_size (fold (run_registry pname) ops empty_registry) = length (fold (run_list pname) ops [])"
proof -
  let ?r = "fold (run_registry pname) ops empty_registry"
  have ok: "registry_ok ?r" by (intro registry_ok_run registry_ok_empty)
  have abs: "registry_abs ?r = fold (run_list pname) ops []"
    using registry_abs_run [OF registry_ok_empty] by (simp add: registry_abs_def empty_registry_def)
  then have "registry_size ?r = length (fold (run_list pname) ops [])"
    using registry_size_order [OF ok] by (metis length_map registry_abs_def)
  then show ?thesis by (simp only: registry_all_abs [OF ok] registry_find_abs [OF ok] abs)
qed

text \<open>Registering reports success exactly for a non-null provider, unregistering exactly for a
  known name; after the call the name is bound to the provider, respectively unbound, and every other
  name is as before.\<close>

theorem registry_calls:
  "(snd (register_provider pname p r) \<longleftrightarrow> p \<noteq> None)
   \<and> (snd (unregister n r) \<longleftrightarrow> registry_find n r \<noteq> None)
   \<and> registry_find m (fst (register_provider pname (Some q) r)) = (if m = pname q then Some q else registry_find m r)
   \<and> registry_find m (fst (unregister n r)) = (if m = n then None else registry_find m r)"
proof -
  have "registry_find m (fst (register_provider pname (Some q) r)) = (if m = pname q then Some q else registry_find m r)"
    by (simp add: registry_find_def register_provider_def Let_def um_find_put)
  moreover have "registry_find m (fst (unregister n r)) = (if m = n then None else registry_find m r)"
    by (auto simp: registry_find_def unregister_def um_find_delete split: option.splits)
  ultimately show ?thesis by (intro conjI register_flag unregister_flag)
qed

end
