(* ===== verification/TF_Telemetry.thy ===== *)
theory TF_Telemetry
  imports TF_Float64 TF_Types
begin

text \<open>
  The counters of the runtime (\<open>telemetry.cpp\<close>, \<open>telemetry.hpp\<close>). Every operation holds the
  mutex throughout, so the operations are atomic. The counters are 64-bit and wrap around.
\<close>

record telemetry =
  tm_discovery_runs :: "64 word"
  tm_nodes_total :: "64 word"
  tm_edges_total :: "64 word"
  tm_provider_successes :: "64 word"
  tm_provider_failures :: "64 word"
  tm_partial_discoveries :: "64 word"
  tm_merge_conflicts :: "64 word"
  tm_validation_failures :: "64 word"
  tm_snapshots_created :: "64 word"
  tm_generation_changes :: "64 word"
  tm_path_queries :: "64 word"
  tm_ranking_queries :: "64 word"
  tm_measurement_runs :: "64 word"
  tm_imported_snapshots :: "64 word"
  tm_malformed_imports_rejected :: "64 word"
  tm_discovery_total_ms :: f64
  tm_query_total_ms :: f64
  tm_provider_total_ms :: f64
  tm_nodes_by_type :: "(node_type, 64 word) umap"
  tm_provider_runs :: "(string, 64 word) umap"

definition empty_telemetry :: telemetry where
  "empty_telemetry = \<lparr> tm_discovery_runs = 0, tm_nodes_total = 0, tm_edges_total = 0,
     tm_provider_successes = 0, tm_provider_failures = 0, tm_partial_discoveries = 0,
     tm_merge_conflicts = 0, tm_validation_failures = 0, tm_snapshots_created = 0,
     tm_generation_changes = 0, tm_path_queries = 0, tm_ranking_queries = 0, tm_measurement_runs = 0,
     tm_imported_snapshots = 0, tm_malformed_imports_rejected = 0, tm_discovery_total_ms = F_Fin 0,
     tm_query_total_ms = F_Fin 0, tm_provider_total_ms = F_Fin 0, tm_nodes_by_type = [],
     tm_provider_runs = [] \<rparr>"

datatype telemetry_op =
    T_discovery_run
  | T_nodes "64 word"
  | T_edges "64 word"
  | T_node_type node_type "64 word"
  | T_provider_run string bool f64
  | T_partial_discovery
  | T_merge_conflicts "64 word"
  | T_validation_failures "64 word"
  | T_snapshot_created
  | T_generation_change
  | T_path_query
  | T_ranking_query
  | T_measurement_run
  | T_imported_snapshot bool
  | T_discovery_time f64
  | T_query_time f64
  | T_provider_time f64
  | T_reset

fun record_telemetry :: "telemetry_op \<Rightarrow> telemetry \<Rightarrow> telemetry" where
  "record_telemetry T_discovery_run s = s \<lparr> tm_discovery_runs := tm_discovery_runs s + 1 \<rparr>"
| "record_telemetry (T_nodes n) s = s \<lparr> tm_nodes_total := n \<rparr>"
| "record_telemetry (T_edges n) s = s \<lparr> tm_edges_total := n \<rparr>"
| "record_telemetry (T_node_type t n) s = s \<lparr> tm_nodes_by_type := um_put t n (tm_nodes_by_type s) \<rparr>"
| "record_telemetry (T_provider_run p success ms) s =
     (let s = s \<lparr> tm_provider_runs := um_put p (um_get 0 (tm_provider_runs s) p + 1) (tm_provider_runs s) \<rparr>;
          s = (if success then s \<lparr> tm_provider_successes := tm_provider_successes s + 1 \<rparr>
               else s \<lparr> tm_provider_failures := tm_provider_failures s + 1 \<rparr>)
      in s \<lparr> tm_provider_total_ms := f64_add (tm_provider_total_ms s) ms \<rparr>)"
| "record_telemetry T_partial_discovery s = s \<lparr> tm_partial_discoveries := tm_partial_discoveries s + 1 \<rparr>"
| "record_telemetry (T_merge_conflicts n) s = s \<lparr> tm_merge_conflicts := tm_merge_conflicts s + n \<rparr>"
| "record_telemetry (T_validation_failures n) s = s \<lparr> tm_validation_failures := tm_validation_failures s + n \<rparr>"
| "record_telemetry T_snapshot_created s = s \<lparr> tm_snapshots_created := tm_snapshots_created s + 1 \<rparr>"
| "record_telemetry T_generation_change s = s \<lparr> tm_generation_changes := tm_generation_changes s + 1 \<rparr>"
| "record_telemetry T_path_query s = s \<lparr> tm_path_queries := tm_path_queries s + 1 \<rparr>"
| "record_telemetry T_ranking_query s = s \<lparr> tm_ranking_queries := tm_ranking_queries s + 1 \<rparr>"
| "record_telemetry T_measurement_run s = s \<lparr> tm_measurement_runs := tm_measurement_runs s + 1 \<rparr>"
| "record_telemetry (T_imported_snapshot ok) s =
     (if ok then s \<lparr> tm_imported_snapshots := tm_imported_snapshots s + 1 \<rparr>
      else s \<lparr> tm_malformed_imports_rejected := tm_malformed_imports_rejected s + 1 \<rparr>)"
| "record_telemetry (T_discovery_time ms) s = s \<lparr> tm_discovery_total_ms := f64_add (tm_discovery_total_ms s) ms \<rparr>"
| "record_telemetry (T_query_time ms) s = s \<lparr> tm_query_total_ms := f64_add (tm_query_total_ms s) ms \<rparr>"
| "record_telemetry (T_provider_time ms) s = s \<lparr> tm_provider_total_ms := f64_add (tm_provider_total_ms s) ms \<rparr>"
| "record_telemetry T_reset s = empty_telemetry"

section \<open>The provider counters agree\<close>

definition run_count :: "telemetry \<Rightarrow> string \<Rightarrow> 64 word" where
  "run_count s p = um_get 0 (tm_provider_runs s) p"

text \<open>The runs per provider add up to the successes and the failures, modulo \<open>2 ^ 64\<close>.\<close>

definition telemetry_ok :: "telemetry \<Rightarrow> bool" where
  "telemetry_ok s \<longleftrightarrow> um_ok (tm_provider_runs s) \<and> um_ok (tm_nodes_by_type s)
     \<and> sum_list (map snd (tm_provider_runs s)) = tm_provider_successes s + tm_provider_failures s"

lemma sum_put:
  fixes v :: "'a :: len word"
  shows "um_ok m \<Longrightarrow> sum_list (map snd (um_put k v m)) = sum_list (map snd m) - um_get 0 m k + v"
proof (induction m)
  case (Cons kv m)
  then have "um_ok m" "fst kv \<notin> set (um_keys m)" by (auto simp: um_ok_def um_keys_def)
  with Cons show ?case
    by (cases kv) (auto simp: um_put_def um_get_def um_find_def um_keys_def algebra_simps split: option.splits)
qed (simp add: um_put_def um_get_def)

lemma telemetry_ok_step: "telemetry_ok s \<Longrightarrow> telemetry_ok (record_telemetry op s)"
  by (cases op) (auto simp: telemetry_ok_def empty_telemetry_def Let_def um_ok_put sum_put algebra_simps)

lemma telemetry_ok_run: "telemetry_ok s \<Longrightarrow> telemetry_ok (fold record_telemetry ops s)"
  by (induction ops arbitrary: s) (auto simp: telemetry_ok_step)

lemma telemetry_ok_empty: "telemetry_ok empty_telemetry"
  by (simp add: telemetry_ok_def empty_telemetry_def)

section \<open>Properties\<close>

text \<open>After any sequence of calls on fresh counters, the recorded runs of all providers add up,
  modulo \<open>2 ^ 64\<close>, to the recorded successes and failures, and there is one counter per provider and
  one per node type.\<close>

theorem telemetry_adds_up:
  "sum_list (map snd (tm_provider_runs (fold record_telemetry ops empty_telemetry)))
     = tm_provider_successes (fold record_telemetry ops empty_telemetry)
       + tm_provider_failures (fold record_telemetry ops empty_telemetry)
   \<and> distinct (map fst (tm_provider_runs (fold record_telemetry ops empty_telemetry)))
   \<and> distinct (map fst (tm_nodes_by_type (fold record_telemetry ops empty_telemetry)))"
  using telemetry_ok_run [OF telemetry_ok_empty, of ops]
  by (simp add: telemetry_ok_def um_ok_def um_keys_def)

end
