(* ===== verification/TF_Json.thy ===== *)
theory TF_Json
  imports TF_Text
begin

text \<open>
  The JSON value, its writer and its parser (\<open>json.hpp\<close>).

  The parser keeps a position in the text; here it keeps the text that is left. Its depth argument
  counts up to \<open>max_depth\<close>; here \<open>levels\<close> counts the levels that are left, so that
  \<open>levels = max_depth + 1 - depth\<close>, and no level is left when the depth exceeds the bound. The two
  loops over the elements of an array and the members of an object run on fuel: one unit per comma,
  and the length of the text is enough (\<open>parse_total\<close>).

  \<open>fail\<close>, the only function that sets \<open>err_\<close> and \<open>msg_\<close>, is called nowhere. So where the code
  returns \<open>err_\<close>, it returns \<open>ParseError::None\<close>, and the value that was to be filled is still null.

  Arrays and objects are shared pointers in the code. The program fills each of them before it is
  stored and never changes it afterwards, so they are trees here; \<open>TF_Store\<close> shows that this is right.
\<close>

unbundle bit_operations_syntax

section \<open>Values\<close>

datatype json =
    J_Null
  | J_Bool bool
  | J_Int "64 word"
  | J_Uint "64 word"
  | J_Double f64
  | J_String string
  | J_Array "json list"
  | J_Object "(string \<times> json) list"

fun j_is_null :: "json \<Rightarrow> bool" where
  "j_is_null J_Null = True"
| "j_is_null _ = False"

fun j_is_number :: "json \<Rightarrow> bool" where
  "j_is_number (J_Int _) = True"
| "j_is_number (J_Uint _) = True"
| "j_is_number (J_Double _) = True"
| "j_is_number _ = False"

text \<open>The typed accessors; \<open>None\<close> when the value is of another kind.\<close>

fun j_as_bool :: "json \<Rightarrow> bool option" where
  "j_as_bool (J_Bool b) = Some b"
| "j_as_bool _ = None"

fun j_as_string :: "json \<Rightarrow> string option" where
  "j_as_string (J_String s) = Some s"
| "j_as_string _ = None"

fun j_as_array :: "json \<Rightarrow> json list option" where
  "j_as_array (J_Array a) = Some a"
| "j_as_array _ = None"

fun j_as_object :: "json \<Rightarrow> json omap option" where
  "j_as_object (J_Object m) = Some m"
| "j_as_object _ = None"

definition j_find :: "json \<Rightarrow> string \<Rightarrow> json option" where
  "j_find v k = (case j_as_object v of None \<Rightarrow> None | Some m \<Rightarrow> om_find m k)"

text \<open>\<open>number()\<close> and \<open>integer()\<close>. The conversion of a double that lies outside the range of
  \<open>int64_t\<close> is undefined in C++; \<open>ub\<close> stands for whatever it gives.\<close>

fun j_number :: "json \<Rightarrow> f64" where
  "j_number (J_Int i) = f64_of_int (sint i)"
| "j_number (J_Uint u) = f64_of_int (uint u)"
| "j_number (J_Double d) = d"
| "j_number _ = F_Fin 0"

definition trunc :: "rat \<Rightarrow> int" where
  "trunc q = (if q < 0 then - \<lfloor>- q\<rfloor> else \<lfloor>q\<rfloor>)"

definition f64_to_i64 :: "(f64 \<Rightarrow> 64 word) \<Rightarrow> f64 \<Rightarrow> 64 word" where
  "f64_to_i64 ub d =
     (if f64_finite d \<and> - (2 ^ 63) \<le> trunc (f64_val d) \<and> trunc (f64_val d) < 2 ^ 63
      then of_int (trunc (f64_val d)) else ub d)"

fun j_integer :: "(f64 \<Rightarrow> 64 word) \<Rightarrow> json \<Rightarrow> 64 word" where
  "j_integer ub (J_Int i) = i"
| "j_integer ub (J_Uint u) = u"
| "j_integer ub (J_Double d) = f64_to_i64 ub d"
| "j_integer ub _ = 0"

section \<open>The writer\<close>

datatype write_mode = WM_Compact | WM_Pretty

definition indent :: "write_mode \<Rightarrow> nat \<Rightarrow> string" where
  "indent mode d = (case mode of WM_Compact \<Rightarrow> [] | WM_Pretty \<Rightarrow> CHR 0x0A # concat (replicate d ''  ''))"

text \<open>Trailing zeros are stripped, then a trailing point.\<close>

definition strip_zeros :: "string \<Rightarrow> string" where
  "strip_zeros s = (let t = rev (dropWhile (\<lambda>c. c = CHR ''0'') (rev s)) in
     if t \<noteq> [] \<and> last t = CHR ''.'' then butlast t else t)"

definition write_double :: "f64 \<Rightarrow> string" where
  "write_double d =
     (if d = F_NaN then ''null''
      else if d = F_PInf then ''1e9999''
      else if d = F_NInf then ''-1e9999''
      else (let s = f64_to_string d in if CHR ''.'' \<in> set s then strip_zeros s else s))"

definition write_char :: "char \<Rightarrow> string" where
  "write_char c =
     (if c = CHR 0x22 then [CHR 0x5C, CHR 0x22]
      else if c = CHR 0x5C then [CHR 0x5C, CHR 0x5C]
      else if c = CHR 0x0A then [CHR 0x5C, CHR ''n'']
      else if c = CHR 0x0D then [CHR 0x5C, CHR ''r'']
      else if c = CHR 0x09 then [CHR 0x5C, CHR ''t'']
      else if c = CHR 0x08 then [CHR 0x5C, CHR ''b'']
      else if c = CHR 0x0C then [CHR 0x5C, CHR ''f'']
      else if c < CHR 0x20
      then CHR 0x5C # ''u00'' @ [''0123456789abcdef'' ! (of_char c div 16), ''0123456789abcdef'' ! (of_char c mod 16)]
      else [c])"

definition write_string :: "string \<Rightarrow> string" where
  "write_string s = CHR 0x22 # concat (map write_char s) @ [CHR 0x22]"

fun commas :: "string list \<Rightarrow> string" where
  "commas [] = []"
| "commas [s] = s"
| "commas (s # t # ts) = s @ CHR '','' # commas (t # ts)"

fun write_value :: "write_mode \<Rightarrow> nat \<Rightarrow> json \<Rightarrow> string" where
  "write_value mode depth J_Null = ''null''"
| "write_value mode depth (J_Bool b) = (if b then ''true'' else ''false'')"
| "write_value mode depth (J_Int i) = int_to_string (sint i)"
| "write_value mode depth (J_Uint u) = dec_digits (unat u)"
| "write_value mode depth (J_Double d) = write_double d"
| "write_value mode depth (J_String s) = write_string s"
| "write_value mode depth (J_Array a) =
     CHR ''['' # commas (map (\<lambda>v. indent mode (Suc depth) @ write_value mode (Suc depth) v) a)
     @ (if a = [] then [] else indent mode depth) @ '']''"
| "write_value mode depth (J_Object m) =
     CHR ''{'' # commas (map (\<lambda>(k, v). indent mode (Suc depth) @ write_string k @ '':''
         @ (if mode = WM_Pretty then '' '' else []) @ write_value mode (Suc depth) v) m)
     @ (if m = [] then [] else indent mode depth) @ ''}''"

definition dump :: "json \<Rightarrow> write_mode \<Rightarrow> string" where
  "dump v mode = write_value mode 0 v"

section \<open>The parser\<close>

datatype parse_error =
    PE_None | PE_UnexpectedChar | PE_UnexpectedEnd | PE_TrailGarbage | PE_DepthExceeded | PE_SizeExceeded
  | PE_InvalidNumber | PE_InvalidEscape | PE_InvalidUtf8

record parse_options =
  po_max_depth :: nat
  po_max_nodes :: nat
  po_max_string_bytes :: nat
  po_allow_nan_inf :: bool

definition default_options :: parse_options where
  "default_options = \<lparr> po_max_depth = 128, po_max_nodes = 4 * 2 ^ 20, po_max_string_bytes = 2 ^ 24,
     po_allow_nan_inf = False \<rparr>"

record parse_result =
  jr_value :: json
  jr_error :: parse_error
  jr_consumed :: nat
  jr_message :: string

record jstate =
  js_rest :: string
  js_nodes :: nat

definition is_ws :: "char \<Rightarrow> bool" where
  "is_ws c \<longleftrightarrow> c \<in> {CHR 0x20, CHR 0x09, CHR 0x0A, CHR 0x0D}"

definition skip_ws :: "string \<Rightarrow> string" where
  "skip_ws s = dropWhile is_ws s"

definition match_word :: "string \<Rightarrow> string \<Rightarrow> string option" where
  "match_word word s = (if take (length word) s = word then Some (drop (length word) s) else None)"

text \<open>Strings.\<close>

text \<open>The bytes that \<open>append_utf8\<close> appends.\<close>

definition utf8 :: "32 word \<Rightarrow> string" where
  "utf8 cp =
     (let byte = (\<lambda>w :: 32 word. char_of (unat (w AND 0xFF))) in
      if cp \<le> 0x7F then [byte cp]
      else if cp \<le> 0x7FF then [byte (0xC0 OR drop_bit 6 cp), byte (0x80 OR (cp AND 0x3F))]
      else if cp \<le> 0xFFFF
      then [byte (0xE0 OR drop_bit 12 cp), byte (0x80 OR (drop_bit 6 cp AND 0x3F)), byte (0x80 OR (cp AND 0x3F))]
      else [byte (0xF0 OR drop_bit 18 cp), byte (0x80 OR (drop_bit 12 cp AND 0x3F)),
            byte (0x80 OR (drop_bit 6 cp AND 0x3F)), byte (0x80 OR (cp AND 0x3F))])"

definition escape_value :: "char \<Rightarrow> char option" where
  "escape_value e =
     (if e \<in> {CHR 0x22, CHR 0x5C, CHR ''/''} then Some e
      else if e = CHR ''b'' then Some CHR 0x08
      else if e = CHR ''f'' then Some CHR 0x0C
      else if e = CHR ''n'' then Some CHR 0x0A
      else if e = CHR ''r'' then Some CHR 0x0D
      else if e = CHR ''t'' then Some CHR 0x09
      else None)"

definition hex_digit32 :: "char \<Rightarrow> 32 word option" where
  "hex_digit32 h =
     (if CHR ''0'' \<le> h \<and> h \<le> CHR ''9'' then Some (of_nat (of_char h - 48))
      else if CHR ''a'' \<le> h \<and> h \<le> CHR ''f'' then Some (of_nat (of_char h - 97 + 10))
      else if CHR ''A'' \<le> h \<and> h \<le> CHR ''F'' then Some (of_nat (of_char h - 65 + 10))
      else None)"

fun hex_number :: "32 word \<Rightarrow> string \<Rightarrow> 32 word option" where
  "hex_number cp [] = Some cp"
| "hex_number cp (h # hs) = (case hex_digit32 h of None \<Rightarrow> None | Some d \<Rightarrow> hex_number (cp * 16 + d) hs)"

text \<open>One character of a string, plain or escaped: the bytes it stands for, or nothing when the code
  returns false, and the text left.\<close>

definition read_char :: "char \<Rightarrow> string \<Rightarrow> string option \<times> string" where
  "read_char c cs =
     (if c = CHR 0x5C then
        (if cs = [] then (None, [])
         else (case escape_value (hd cs) of
             Some b \<Rightarrow> (Some [b], tl cs)
           | None \<Rightarrow>
               if hd cs = CHR ''u'' \<and> 5 \<le> length cs
               then (case hex_number 0 (take 4 (tl cs)) of
                   None \<Rightarrow> (None, cs)
                 | Some cp \<Rightarrow> (Some (utf8 cp), drop 5 cs))
               else (None, cs)))
      else if CHR 0x80 \<le> c then (None, c # cs)
      else (Some [c], cs))"

lemma read_char_length:
  "length (snd (read_char c cs)) \<le> Suc (length cs)"
  "fst (read_char c cs) \<noteq> None \<Longrightarrow> length (snd (read_char c cs)) \<le> length cs"
  by (auto simp: read_char_def split: option.splits if_splits)

text \<open>The loop of \<open>parse_string\<close>; \<open>buf\<close> is what was read so far.\<close>

function string_loop :: "nat \<Rightarrow> string \<Rightarrow> string \<Rightarrow> string option \<times> string" where
  "string_loop mx buf [] = (None, [])"
| "string_loop mx buf (c # cs) =
     (if c = CHR 0x22 then (Some buf, cs)
      else (case read_char c cs of
          (None, r) \<Rightarrow> (None, r)
        | (Some bs, r) \<Rightarrow> if mx < length (buf @ bs) then (None, r) else string_loop mx (buf @ bs) r))"
  by pat_completeness auto
termination
proof (relation "measure (\<lambda>(mx, buf, s). length s)", goal_cases)
  case (2 mx buf c cs x y bs)
  then have "fst (read_char c cs) \<noteq> None" and "snd (read_char c cs) = y" by (auto simp flip: \<open>(x, y) = _\<close>)
  then show ?case using read_char_length(2) [of c cs] by simp
qed simp

definition parse_string :: "parse_options \<Rightarrow> string \<Rightarrow> string option \<times> string" where
  "parse_string opt s =
     (if starts_with {CHR 0x22} s then string_loop (po_max_string_bytes opt) [] (tl s) else (None, s))"

text \<open>Numbers: first the extent of the token, then its value.\<close>

definition scan_point :: "string \<Rightarrow> bool \<times> string" where
  "scan_point s = (if starts_with {CHR ''.''} s then (True, dropWhile is_digit (tl s)) else (False, s))"

definition scan_exponent :: "string \<Rightarrow> bool \<times> string" where
  "scan_exponent s =
     (if starts_with {CHR ''e'', CHR ''E''} s
      then (True, dropWhile is_digit (if starts_with {CHR ''+'', CHR ''-''} (tl s) then tl (tl s) else tl s))
      else (False, s))"

definition scan_number :: "string \<Rightarrow> bool \<times> string" where
  "scan_number s =
     (let s1 = (if starts_with {CHR ''-''} s then tl s else s);
          (dbl1, s2) = scan_point (dropWhile is_digit s1);
          (dbl2, s3) = scan_exponent s2
      in (dbl1 \<or> dbl2, s3))"

definition token_value :: "bool \<Rightarrow> string \<Rightarrow> parse_error \<times> json" where
  "token_value is_double tok =
     (if is_double
      then (let (d, left) = strtod tok in if left \<noteq> [] then (PE_InvalidNumber, J_Null) else (PE_None, J_Double d))
      else (let (ll, left) = strtoll tok in
        if left \<noteq> [] then (PE_InvalidNumber, J_Null)
        else if hd tok = CHR ''-'' then (PE_None, J_Int (of_int ll)) else (PE_None, J_Uint (of_int ll))))"

definition special_number :: "parse_options \<Rightarrow> string \<Rightarrow> parse_error \<times> json \<times> string" where
  "special_number opt s =
     (let try_match = (\<lambda>w w'. case match_word w s of None \<Rightarrow> match_word w' s | Some r \<Rightarrow> Some r) in
      case try_match ''NaN'' ''nan'' of
        Some r \<Rightarrow> if po_allow_nan_inf opt then (PE_None, J_Double F_NaN, r) else (PE_InvalidNumber, J_Null, r)
      | None \<Rightarrow> (case try_match ''Inf'' ''inf'' of
          Some r \<Rightarrow> if po_allow_nan_inf opt then (PE_None, J_Double F_PInf, r) else (PE_InvalidNumber, J_Null, r)
        | None \<Rightarrow> (PE_InvalidNumber, J_Null, s)))"

definition parse_number :: "parse_options \<Rightarrow> string \<Rightarrow> parse_error \<times> json \<times> string" where
  "parse_number opt s =
     (if starts_with {CHR ''+'', CHR ''I'', CHR ''N''} s then special_number opt s
      else (let (dbl, rest) = scan_number s; tok = take (length s - length rest) s in
        if tok = [] then (PE_InvalidNumber, J_Null, rest)
        else (let (e, v) = token_value dbl tok in (e, v, rest))))"

text \<open>Arrays and objects; \<open>child\<close> parses a value one level deeper.\<close>

type_synonym parse_outcome = "(parse_error \<times> json \<times> jstate) option"

definition skip_state :: "jstate \<Rightarrow> jstate" where
  "skip_state st = st \<lparr> js_rest := skip_ws (js_rest st) \<rparr>"

definition step_state :: "jstate \<Rightarrow> jstate" where
  "step_state st = st \<lparr> js_rest := tl (js_rest st) \<rparr>"

fun array_loop :: "nat \<Rightarrow> (jstate \<Rightarrow> parse_outcome) \<Rightarrow> json list \<Rightarrow> jstate \<Rightarrow> parse_outcome" where
  "array_loop 0 child arr st = None"
| "array_loop (Suc fuel) child arr st =
     (let st = skip_state st in
      if js_rest st = [] then Some (PE_UnexpectedEnd, J_Null, st)
      else (case child st of
          None \<Rightarrow> None
        | Some (e, v, st) \<Rightarrow>
            if e \<noteq> PE_None then Some (e, J_Null, st)
            else (let arr = arr @ [v]; st = skip_state st in
              if js_rest st = [] then Some (PE_UnexpectedEnd, J_Null, st)
              else if hd (js_rest st) = CHR '','' then array_loop fuel child arr (step_state st)
              else if hd (js_rest st) = CHR '']'' then Some (PE_None, J_Array arr, step_state st)
              else Some (PE_UnexpectedChar, J_Null, st))))"

definition parse_array :: "(jstate \<Rightarrow> parse_outcome) \<Rightarrow> jstate \<Rightarrow> parse_outcome" where
  "parse_array child st =
     (let st = skip_state (step_state st) in
      if starts_with {CHR '']''} (js_rest st) then Some (PE_None, J_Array [], step_state st)
      else array_loop (Suc (length (js_rest st))) child [] st)"

fun object_loop ::
  "nat \<Rightarrow> parse_options \<Rightarrow> (jstate \<Rightarrow> parse_outcome) \<Rightarrow> json omap \<Rightarrow> jstate \<Rightarrow> parse_outcome" where
  "object_loop 0 opt child obj st = None"
| "object_loop (Suc fuel) opt child obj st =
     (let st = skip_state st in
      if \<not> starts_with {CHR 0x22} (js_rest st) then Some (PE_UnexpectedChar, J_Null, st)
      else (case parse_string opt (js_rest st) of
          (None, r) \<Rightarrow> Some (PE_None, J_Null, st \<lparr> js_rest := r \<rparr>)
        | (Some key, r) \<Rightarrow>
            (let st = skip_state (st \<lparr> js_rest := r \<rparr>) in
             if \<not> starts_with {CHR '':''} (js_rest st) then Some (PE_UnexpectedChar, J_Null, st)
             else (case child (skip_state (step_state st)) of
                 None \<Rightarrow> None
               | Some (e, v, st) \<Rightarrow>
                   if e \<noteq> PE_None then Some (e, J_Null, st)
                   else (let obj = om_put key v obj; st = skip_state st in
                     if js_rest st = [] then Some (PE_UnexpectedEnd, J_Null, st)
                     else if hd (js_rest st) = CHR '','' then object_loop fuel opt child obj (step_state st)
                     else if hd (js_rest st) = CHR ''}'' then Some (PE_None, J_Object obj, step_state st)
                     else Some (PE_UnexpectedChar, J_Null, st))))))"

definition parse_object :: "parse_options \<Rightarrow> (jstate \<Rightarrow> parse_outcome) \<Rightarrow> jstate \<Rightarrow> parse_outcome" where
  "parse_object opt child st =
     (let st = skip_state (step_state st) in
      if starts_with {CHR ''}''} (js_rest st) then Some (PE_None, J_Object [], step_state st)
      else object_loop (Suc (length (js_rest st))) opt child [] st)"

definition parse_word :: "string \<Rightarrow> json \<Rightarrow> jstate \<Rightarrow> parse_outcome" where
  "parse_word word v st =
     (case match_word word (js_rest st) of
        Some r \<Rightarrow> Some (PE_None, v, st \<lparr> js_rest := r \<rparr>)
      | None \<Rightarrow> Some (PE_UnexpectedChar, J_Null, st))"

definition dispatch :: "parse_options \<Rightarrow> (jstate \<Rightarrow> parse_outcome) \<Rightarrow> jstate \<Rightarrow> parse_outcome" where
  "dispatch opt child st =
     (let c = hd (js_rest st) in
      if c = CHR ''{'' then parse_object opt child st
      else if c = CHR ''['' then parse_array child st
      else if c = CHR 0x22 then
        (case parse_string opt (js_rest st) of
           (None, r) \<Rightarrow> Some (PE_None, J_Null, st \<lparr> js_rest := r \<rparr>)
         | (Some s, r) \<Rightarrow> Some (PE_None, J_String s, st \<lparr> js_rest := r \<rparr>))
      else if c = CHR ''t'' then parse_word ''true'' (J_Bool True) st
      else if c = CHR ''f'' then parse_word ''false'' (J_Bool False) st
      else if c = CHR ''n'' then parse_word ''null'' J_Null st
      else if c = CHR ''-'' \<or> is_digit c \<or> c = CHR ''+'' \<or> c = CHR ''I'' \<or> c = CHR ''N''
      then (let (e, v, r) = parse_number opt (js_rest st) in Some (e, v, st \<lparr> js_rest := r \<rparr>))
      else Some (PE_UnexpectedChar, J_Null, st))"

primrec parse_value :: "parse_options \<Rightarrow> nat \<Rightarrow> jstate \<Rightarrow> parse_outcome" where
  "parse_value opt 0 = (\<lambda>st. Some (PE_DepthExceeded, J_Null, st))"
| "parse_value opt (Suc levels) = (\<lambda>st.
     let st = st \<lparr> js_nodes := Suc (js_nodes st) \<rparr> in
     if po_max_nodes opt < js_nodes st then Some (PE_SizeExceeded, J_Null, st)
     else let st = skip_state st in
     if js_rest st = [] then Some (PE_UnexpectedEnd, J_Null, st)
     else dispatch opt (parse_value opt levels) st)"

definition parse :: "string \<Rightarrow> parse_options \<Rightarrow> parse_result option" where
  "parse text opt =
     (case parse_value opt (Suc (po_max_depth opt)) \<lparr> js_rest = text, js_nodes = 0 \<rparr> of
        None \<Rightarrow> None
      | Some (e, v, st) \<Rightarrow>
          if e \<noteq> PE_None
          then Some \<lparr> jr_value = J_Null, jr_error = e, jr_consumed = length text - length (js_rest st), jr_message = [] \<rparr>
          else (let r = skip_ws (js_rest st) in
            if r \<noteq> []
            then Some \<lparr> jr_value = J_Null, jr_error = PE_TrailGarbage, jr_consumed = length text - length r,
                   jr_message = ''trailing garbage after JSON value'' \<rparr>
            else Some \<lparr> jr_value = v, jr_error = PE_None, jr_consumed = length text - length r, jr_message = [] \<rparr>))"

section \<open>The parser returns, and what it accepts is within the bounds\<close>

text \<open>Nesting below a value, number of values, bounds on its strings, and well-formed objects.\<close>

fun json_depth :: "json \<Rightarrow> nat" where
  "json_depth (J_Array a) = foldr (\<lambda>v d. max (Suc (json_depth v)) d) a 0"
| "json_depth (J_Object m) = foldr (\<lambda>(k, v) d. max (Suc (json_depth v)) d) m 0"
| "json_depth _ = 0"

fun json_nodes :: "json \<Rightarrow> nat" where
  "json_nodes (J_Array a) = Suc (sum_list (map json_nodes a))"
| "json_nodes (J_Object m) = Suc (sum_list (map (\<lambda>(k, v). json_nodes v) m))"
| "json_nodes _ = 1"

fun json_ok :: "nat \<Rightarrow> json \<Rightarrow> bool" where
  "json_ok mx (J_String s) \<longleftrightarrow> length s \<le> mx"
| "json_ok mx (J_Array a) \<longleftrightarrow> list_all (json_ok mx) a"
| "json_ok mx (J_Object m) \<longleftrightarrow> om_ok m \<and> list_all (\<lambda>(k, v). length k \<le> mx \<and> json_ok mx v) m"
| "json_ok mx _ \<longleftrightarrow> True"

lemma depth_Array: "json_depth (J_Array a) \<le> Suc lv \<longleftrightarrow> (\<forall>v \<in> set a. json_depth v \<le> lv)"
  by (induction a) auto

lemma depth_Object: "json_depth (J_Object m) \<le> Suc lv \<longleftrightarrow> (\<forall>(k, v) \<in> set m. json_depth v \<le> lv)"
  by (induction m) auto

lemma depth_Array_0: "json_depth (J_Array a) \<le> 0 \<longleftrightarrow> a = []"
  by (cases a) auto

lemma depth_Object_0: "json_depth (J_Object m) \<le> 0 \<longleftrightarrow> m = []"
  by (cases m) auto

text \<open>What a parser at some level keeps: it reads on, it counts every value it makes, and the value it
  makes is within the bounds.\<close>

definition sound_at :: "parse_options \<Rightarrow> nat \<Rightarrow> jstate \<Rightarrow> parse_outcome \<Rightarrow> bool" where
  "sound_at opt levels st out \<longleftrightarrow> (\<exists>e v st'. out = Some (e, v, st')
     \<and> length (js_rest st') \<le> length (js_rest st) \<and> js_nodes st \<le> js_nodes st'
     \<and> (e = PE_None \<longrightarrow> json_depth v < levels \<and> json_ok (po_max_string_bytes opt) v
          \<and> js_nodes st + json_nodes v \<le> js_nodes st' \<and> js_nodes st' \<le> po_max_nodes opt))"

lemma skip_ws_length: "length (skip_ws s) \<le> length s"
  by (simp add: skip_ws_def length_dropWhile_le)

lemma skip_state_simps [simp]:
  "js_nodes (skip_state st) = js_nodes st" "js_rest (skip_state st) = skip_ws (js_rest st)"
  "js_nodes (step_state st) = js_nodes st" "js_rest (step_state st) = tl (js_rest st)"
  by (simp_all add: skip_state_def step_state_def)

lemma string_loop_sound:
  assumes "string_loop mx buf s = (t, r)" and "length buf \<le> mx"
  shows "length r \<le> length s \<and> (\<forall>x. t = Some x \<longrightarrow> length x \<le> mx)"
  using assms
proof (induction mx buf s arbitrary: t r rule: string_loop.induct)
  case (2 mx buf c cs)
  obtain x y where rc: "read_char c cs = (x, y)" by (cases "read_char c cs")
  have len: "length y \<le> Suc (length cs)" using read_char_length(1) [of c cs] rc by simp
  show ?case
  proof (cases "c = CHR 0x22")
    case True
    then show ?thesis using "2.prems" by auto
  next
    case quote: False
    show ?thesis
    proof (cases x)
      case None
      then show ?thesis using "2.prems" rc len quote by simp
    next
      case (Some bs)
      then show ?thesis using "2.prems" "2.IH" [OF quote rc [symmetric] Some] rc len quote
        by (auto split: if_splits)
    qed
  qed
qed simp

lemma parse_string_sound:
  "length (snd (parse_string opt s)) \<le> length s"
  "fst (parse_string opt s) = Some t \<Longrightarrow> length t \<le> po_max_string_bytes opt"
proof -
  obtain t' r where l: "string_loop (po_max_string_bytes opt) [] (tl s) = (t', r)"
    by (cases "string_loop (po_max_string_bytes opt) [] (tl s)")
  from string_loop_sound [OF l] show "length (snd (parse_string opt s)) \<le> length s"
    and "fst (parse_string opt s) = Some t \<Longrightarrow> length t \<le> po_max_string_bytes opt"
    by (auto simp: parse_string_def l split: if_splits)
qed

lemma scan_number_length: "length (snd (scan_number s)) \<le> length s"
proof -
  have d: "length (dropWhile is_digit t) \<le> length t" for t by (rule length_dropWhile_le)
  have d1: "length (dropWhile is_digit (tl t)) \<le> length t" for t using d [of "tl t"] by simp
  have d2: "length (dropWhile is_digit (tl (tl t))) \<le> length t" for t using d [of "tl (tl t)"] by simp
  have p: "length (snd (scan_point t)) \<le> length t" for t
    by (simp add: scan_point_def d1)
  have e: "length (snd (scan_exponent t)) \<le> length t" for t
    by (simp add: scan_exponent_def d1 d2)
  let ?s1 = "if starts_with {CHR ''-''} s then tl s else s"
  have "length (snd (scan_exponent (snd (scan_point (dropWhile is_digit ?s1))))) \<le> length ?s1"
    using e [of "snd (scan_point (dropWhile is_digit ?s1))"] p [of "dropWhile is_digit ?s1"] d [of ?s1] by linarith
  moreover have "length ?s1 \<le> length s" by simp
  ultimately show ?thesis by (simp add: scan_number_def Let_def case_prod_beta)
qed

text \<open>A number is a value without parts.\<close>

fun json_atom :: "json \<Rightarrow> bool" where
  "json_atom (J_String s) \<longleftrightarrow> False"
| "json_atom (J_Array a) \<longleftrightarrow> False"
| "json_atom (J_Object m) \<longleftrightarrow> False"
| "json_atom _ \<longleftrightarrow> True"

lemma atom_simps: "json_atom v \<Longrightarrow> json_depth v = 0 \<and> json_nodes v = 1 \<and> json_ok mx v"
  by (cases v) auto

lemma token_value_atom: "json_atom (snd (token_value dbl tok))"
  by (simp add: token_value_def case_prod_beta)

lemma match_word_length: "match_word w s = Some r \<Longrightarrow> length r \<le> length s"
  by (auto simp: match_word_def split: if_splits)

lemma special_number_sound:
  "length (snd (snd (special_number opt s))) \<le> length s \<and> json_atom (fst (snd (special_number opt s)))"
  by (auto simp: special_number_def Let_def split: option.splits dest: match_word_length)

lemma parse_number_sound:
  "length (snd (snd (parse_number opt s))) \<le> length s \<and> json_atom (fst (snd (parse_number opt s)))"
  using special_number_sound [of opt s] scan_number_length [of s]
  by (simp add: parse_number_def Let_def case_prod_beta token_value_atom)

lemma om_put_set: "set (om_put k v m) \<subseteq> insert (k, v) (set m)"
  by (induction k v m rule: om_put.induct) auto

lemma om_put_sum: "sum_list (map (\<lambda>(k, v). f v) (om_put k v m)) \<le> sum_list (map (\<lambda>(k, v). f v) m) + (f v :: nat)"
  by (induction k v m rule: om_put.induct) auto

lemma array_loop_sound:
  assumes child: "\<And>st. sound_at opt levels st (child st)"
    and "length (js_rest st) < fuel"
    and "\<forall>v \<in> set arr. json_depth v < levels \<and> json_ok (po_max_string_bytes opt) v"
    and "n0 + Suc (sum_list (map json_nodes arr)) \<le> js_nodes st" and "js_nodes st \<le> po_max_nodes opt"
    and "length (js_rest st) \<le> length (js_rest st0)" and "js_nodes st0 = n0"
  shows "sound_at opt (Suc levels) st0 (array_loop fuel child arr st)"
  using assms(2-6)
proof (induction fuel arbitrary: arr st)
  case (Suc fuel)
  let ?st1 = "skip_state st"
  have l1: "length (js_rest ?st1) \<le> length (js_rest st)" by (simp add: skip_ws_length)
  show ?case
  proof (cases "js_rest ?st1 = []")
    case True
    then show ?thesis using Suc.prems assms(7) by (simp add: sound_at_def Let_def)
  next
    case False
    obtain e v st2 where c: "child ?st1 = Some (e, v, st2)"
      and l2: "length (js_rest st2) \<le> length (js_rest ?st1)" "js_nodes ?st1 \<le> js_nodes st2"
      and v: "e = PE_None \<Longrightarrow> json_depth v < levels \<and> json_ok (po_max_string_bytes opt) v
          \<and> js_nodes ?st1 + json_nodes v \<le> js_nodes st2 \<and> js_nodes st2 \<le> po_max_nodes opt"
      using child [of ?st1] unfolding sound_at_def by blast
    let ?st3 = "skip_state st2"
    have l3: "length (js_rest ?st3) \<le> length (js_rest st2)" by (simp add: skip_ws_length)
    show ?thesis
    proof (cases "e = PE_None \<and> js_rest ?st3 \<noteq> []")
      case False
      then show ?thesis
        using Suc.prems assms(7) l1 l2 l3 \<open>js_rest ?st1 \<noteq> []\<close> by (auto simp: sound_at_def Let_def c)
    next
      case True
      note v = v [OF conjunct1 [OF True]]
      have l4: "length (tl (js_rest ?st3)) < length (js_rest ?st3)" using True by simp
      have depth: "json_depth (J_Array (arr @ [v])) \<le> levels"
      proof (cases levels)
        case 0
        then show ?thesis using v by simp
      next
        case (Suc lv)
        then show ?thesis using v Suc.prems(2) by (simp only: depth_Array) (auto simp: less_Suc_eq_le)
      qed
      consider "hd (js_rest ?st3) = CHR '',''" | "hd (js_rest ?st3) = CHR '']''"
        | "hd (js_rest ?st3) \<notin> {CHR '','', CHR '']''}" by blast
      then show ?thesis
      proof cases
        case 1
        have "sound_at opt (Suc levels) st0 (array_loop fuel child (arr @ [v]) (step_state ?st3))"
          using Suc.prems v l1 l2 l3 l4 by (intro Suc.IH) auto
        then show ?thesis using \<open>js_rest ?st1 \<noteq> []\<close> True 1 by (simp add: Let_def c)
      next
        case 2
        have "json_ok (po_max_string_bytes opt) (J_Array (arr @ [v]))"
          using v Suc.prems(2) by (simp add: list_all_iff)
        then show ?thesis
          using Suc.prems assms(7) v l1 l2 l3 l4 \<open>js_rest ?st1 \<noteq> []\<close> True 2 depth
          by (simp add: sound_at_def Let_def c less_Suc_eq_le del: json_depth.simps json_ok.simps)
      next
        case 3
        then show ?thesis
          using Suc.prems assms(7) l1 l2 l3 \<open>js_rest ?st1 \<noteq> []\<close> True by (auto simp: sound_at_def Let_def c)
      qed
    qed
  qed
qed simp

text \<open>The same for objects.\<close>

lemma object_loop_sound:
  assumes child: "\<And>st. sound_at opt levels st (child st)"
    and "length (js_rest st) < fuel"
    and "om_ok obj" and "\<forall>(k, v) \<in> set obj. json_depth v < levels \<and> length k \<le> po_max_string_bytes opt \<and> json_ok (po_max_string_bytes opt) v"
    and "n0 + Suc (sum_list (map (\<lambda>(k, v). json_nodes v) obj)) \<le> js_nodes st" and "js_nodes st \<le> po_max_nodes opt"
    and "length (js_rest st) \<le> length (js_rest st0)" and "js_nodes st0 = n0"
  shows "sound_at opt (Suc levels) st0 (object_loop fuel opt child obj st)"
  using assms(2-7)
proof (induction fuel arbitrary: obj st)
  case (Suc fuel)
  let ?st1 = "skip_state st"
  have l1: "length (js_rest ?st1) \<le> length (js_rest st)" by (simp add: skip_ws_length)
  obtain t r where ps: "parse_string opt (js_rest ?st1) = (t, r)" by (cases "parse_string opt (js_rest ?st1)")
  have lr: "length r \<le> length (js_rest ?st1)" and lt: "t = Some key \<Longrightarrow> length key \<le> po_max_string_bytes opt" for key
    using parse_string_sound [of opt "js_rest ?st1"] ps by auto
  let ?st2 = "skip_state (?st1 \<lparr> js_rest := r \<rparr>)"
  have l2: "length (js_rest ?st2) \<le> length (js_rest ?st1)" using skip_ws_length [of r] lr by simp
  show ?case
  proof (cases "starts_with {CHR 0x22} (js_rest ?st1) \<and> t \<noteq> None \<and> starts_with {CHR '':''} (js_rest ?st2)")
    case False
    then show ?thesis
      using Suc.prems assms(8) l1 lr l2 ps by (auto simp: sound_at_def Let_def split: option.splits)
  next
    case T1: True
    then obtain key where key: "t = Some key" by blast
    let ?st3 = "skip_state (step_state ?st2)"
    have l3: "length (js_rest ?st3) \<le> length (js_rest ?st2)"
      using skip_ws_length [of "tl (js_rest ?st2)"] by simp
    obtain e v st4 where c: "child ?st3 = Some (e, v, st4)"
      and l4: "length (js_rest st4) \<le> length (js_rest ?st3)" "js_nodes ?st3 \<le> js_nodes st4"
      and v: "e = PE_None \<Longrightarrow> json_depth v < levels \<and> json_ok (po_max_string_bytes opt) v
          \<and> js_nodes ?st3 + json_nodes v \<le> js_nodes st4 \<and> js_nodes st4 \<le> po_max_nodes opt"
      using child [of ?st3] unfolding sound_at_def by blast
    let ?st5 = "skip_state st4"
    have l5: "length (js_rest ?st5) \<le> length (js_rest st4)" by (simp add: skip_ws_length)
    note run = T1 ps key c
    note lens = l1 l2 l3 l4 l5
    show ?thesis
    proof (cases "e = PE_None \<and> js_rest ?st5 \<noteq> []")
      case False
      then show ?thesis
        using Suc.prems assms(8) lens T1 ps key by (auto simp: sound_at_def Let_def c)
    next
      case T2: True
      note v = v [OF conjunct1 [OF T2]]
      let ?obj = "om_put key v obj"
      have l6: "length (tl (js_rest ?st5)) < length (js_rest ?st5)" using T2 by simp
      have parts: "\<forall>(k, v) \<in> set ?obj. json_depth v < levels \<and> length k \<le> po_max_string_bytes opt
          \<and> json_ok (po_max_string_bytes opt) v"
        using om_put_set [of key v obj] v Suc.prems(3) lt [OF key] by blast
      have ok: "om_ok ?obj" by (rule om_ok_put [OF Suc.prems(2)])
      have sum: "sum_list (map (\<lambda>(k, v). json_nodes v) ?obj)
          \<le> sum_list (map (\<lambda>(k, v). json_nodes v) obj) + json_nodes v"
        by (rule om_put_sum)
      have depth: "json_depth (J_Object ?obj) \<le> levels"
      proof (cases levels)
        case 0
        then show ?thesis using v by simp
      next
        case (Suc lv)
        then show ?thesis using parts by (simp only: depth_Object less_Suc_eq_le) blast
      qed
      consider "hd (js_rest ?st5) = CHR '',''" | "hd (js_rest ?st5) = CHR ''}''"
        | "hd (js_rest ?st5) \<notin> {CHR '','', CHR ''}''}" by blast
      then show ?thesis
      proof cases
        case 1
        have "sound_at opt (Suc levels) st0 (object_loop fuel opt child ?obj (step_state ?st5))"
          using Suc.prems v lens l6 sum by (intro Suc.IH ok parts) auto
        then show ?thesis using T1 T2 1 ps key by (simp add: Let_def c)
      next
        case 2
        have "json_ok (po_max_string_bytes opt) (J_Object ?obj)"
          using ok parts by (auto simp: list_all_iff)
        then show ?thesis
          using Suc.prems assms(8) v lens l6 sum T1 T2 2 depth ps key
          by (simp add: sound_at_def Let_def c less_Suc_eq_le del: json_depth.simps json_ok.simps)
      next
        case 3
        then show ?thesis
          using Suc.prems assms(8) lens T1 T2 ps key by (auto simp: sound_at_def Let_def c)
      qed
    qed
  qed
qed simp

lemma parse_array_sound:
  assumes "\<And>st. sound_at opt levels st (child st)"
    and st: "js_nodes st = Suc (js_nodes st0)" "js_nodes st \<le> po_max_nodes opt" "length (js_rest st) \<le> length (js_rest st0)"
  shows "sound_at opt (Suc levels) st0 (parse_array child st)"
proof -
  let ?st = "skip_state (step_state st)"
  have l: "length (js_rest ?st) \<le> length (js_rest st)" using skip_ws_length [of "tl (js_rest st)"] by simp
  have "sound_at opt (Suc levels) st0 (array_loop (Suc (length (js_rest ?st))) child [] ?st)"
    using st l by (intro array_loop_sound [OF assms(1), of _ _ _ "js_nodes st0"]) auto
  moreover have "sound_at opt (Suc levels) st0 (Some (PE_None, J_Array [], step_state ?st))"
    using st l by (simp add: sound_at_def)
  ultimately show ?thesis by (simp add: parse_array_def Let_def)
qed

lemma parse_object_sound:
  assumes "\<And>st. sound_at opt levels st (child st)"
    and st: "js_nodes st = Suc (js_nodes st0)" "js_nodes st \<le> po_max_nodes opt" "length (js_rest st) \<le> length (js_rest st0)"
  shows "sound_at opt (Suc levels) st0 (parse_object opt child st)"
proof -
  let ?st = "skip_state (step_state st)"
  have l: "length (js_rest ?st) \<le> length (js_rest st)" using skip_ws_length [of "tl (js_rest st)"] by simp
  have "sound_at opt (Suc levels) st0 (object_loop (Suc (length (js_rest ?st))) opt child [] ?st)"
    using st l by (intro object_loop_sound [OF assms(1), of _ _ _ "js_nodes st0"]) (auto simp: om_ok_def)
  moreover have "sound_at opt (Suc levels) st0 (Some (PE_None, J_Object [], step_state ?st))"
    using st l by (simp add: sound_at_def om_ok_def)
  ultimately show ?thesis by (simp add: parse_object_def Let_def)
qed

lemma parse_word_sound:
  assumes "json_atom v" and st: "js_nodes st = Suc (js_nodes st0)" "js_nodes st \<le> po_max_nodes opt"
    "length (js_rest st) \<le> length (js_rest st0)"
  shows "sound_at opt (Suc levels) st0 (parse_word w v st)"
  using st atom_simps [OF assms(1)]
  by (auto simp: parse_word_def sound_at_def dest!: match_word_length split: option.splits)

lemma dispatch_sound:
  assumes child: "\<And>st. sound_at opt levels st (child st)"
    and st: "js_nodes st = Suc (js_nodes st0)" "js_nodes st \<le> po_max_nodes opt" "length (js_rest st) \<le> length (js_rest st0)"
  shows "sound_at opt (Suc levels) st0 (dispatch opt child st)"
proof -
  obtain t r where ps: "parse_string opt (js_rest st) = (t, r)" by (cases "parse_string opt (js_rest st)")
  have lt: "length r \<le> length (js_rest st)" "t = Some x \<Longrightarrow> length x \<le> po_max_string_bytes opt" for x
    using parse_string_sound [of opt "js_rest st"] ps by auto
  have str: "sound_at opt (Suc levels) st0
    (case t of None \<Rightarrow> Some (PE_None, J_Null, st \<lparr> js_rest := r \<rparr>) | Some s \<Rightarrow> Some (PE_None, J_String s, st \<lparr> js_rest := r \<rparr>))"
    using st lt by (auto simp: sound_at_def split: option.splits)
  obtain e v q where pn: "parse_number opt (js_rest st) = (e, v, q)" by (cases "parse_number opt (js_rest st)")
  have num: "sound_at opt (Suc levels) st0 (Some (e, v, st \<lparr> js_rest := q \<rparr>))"
    using st parse_number_sound [of opt "js_rest st"] atom_simps [of v] by (auto simp: sound_at_def pn)
  have bad: "sound_at opt (Suc levels) st0 (Some (PE_UnexpectedChar, J_Null, st))"
    using st by (simp add: sound_at_def)
  show ?thesis
    unfolding dispatch_def Let_def ps pn prod.case
    by (simp add: parse_array_sound [OF child st] parse_object_sound [OF child st] parse_word_sound [OF _ st] num bad)
      (use str in \<open>cases t; simp\<close>)
qed

lemma parse_value_sound: "sound_at opt levels st (parse_value opt levels st)"
proof (induction levels arbitrary: st)
  case 0
  then show ?case by (simp add: sound_at_def)
next
  case (Suc levels)
  let ?st = "st \<lparr> js_nodes := Suc (js_nodes st) \<rparr>"
  have l: "length (skip_ws (js_rest st)) \<le> length (js_rest st)" by (rule skip_ws_length)
  have "sound_at opt (Suc levels) st (dispatch opt (parse_value opt levels) (skip_state ?st))"
    if "js_nodes ?st \<le> po_max_nodes opt"
    by (rule dispatch_sound [OF Suc]) (use that l in simp_all)
  then show ?case using l by (auto simp: Let_def sound_at_def)
qed

text \<open>The parser returns; what it accepts is read to the end and within the bounds.\<close>

lemma parse_sound:
  "\<exists>r. parse text opt = Some r \<and> jr_consumed r \<le> length text
    \<and> (jr_error r = PE_None \<longrightarrow> jr_consumed r = length text \<and> json_depth (jr_value r) \<le> po_max_depth opt
        \<and> json_nodes (jr_value r) \<le> po_max_nodes opt \<and> json_ok (po_max_string_bytes opt) (jr_value r))
    \<and> (jr_error r \<noteq> PE_None \<longrightarrow> jr_value r = J_Null)"
proof -
  obtain e v st where p: "parse_value opt (Suc (po_max_depth opt)) \<lparr> js_rest = text, js_nodes = 0 \<rparr> = Some (e, v, st)"
    and *: "length (js_rest st) \<le> length text" "e = PE_None \<Longrightarrow> json_depth v < Suc (po_max_depth opt)
      \<and> json_ok (po_max_string_bytes opt) v \<and> json_nodes v \<le> js_nodes st \<and> js_nodes st \<le> po_max_nodes opt"
    using parse_value_sound [of opt "Suc (po_max_depth opt)" "\<lparr> js_rest = text, js_nodes = 0 \<rparr>"]
    unfolding sound_at_def by auto
  show ?thesis
  proof (cases "e = PE_None")
    case True
    then show ?thesis using *
      by (cases "skip_ws (js_rest st) = []") (simp_all add: parse_def p Let_def less_Suc_eq_le del: parse_value.simps)
  next
    case False
    then show ?thesis by (simp add: parse_def p del: parse_value.simps)
  qed
qed

text \<open>C17: the parser returns for every text and every options, without reading beyond the text, and a
  text that it accepts has been read to its end.\<close>

theorem parse_total:
  "\<exists>r. parse text opt = Some r \<and> jr_consumed r \<le> length text \<and> (jr_error r = PE_None \<longrightarrow> jr_consumed r = length text)"
  using parse_sound [of "text" opt] by blast

theorem parse_total_witness:
  "\<exists>r. parse (CHR ''['' # replicate 1000 CHR '' '') default_options = Some r"
  using parse_total [of "CHR ''['' # replicate 1000 CHR '' ''" default_options] by blast

end
