(* ===== verification/TF_JsonText.thy ===== *)
theory TF_JsonText
  imports TF_Json
begin

text \<open>
  Reading back what the writer of \<open>json.hpp\<close> wrote.

  The lemmas go through the parts of a document, strings, numbers, arrays, objects: each is read as
  itself, and what follows it stays. A number keeps its text, not its kind: \<open>reread\<close> says what
  becomes of a value.
\<close>

section \<open>Reading back what was written\<close>

subsection \<open>Strings\<close>

definition ascii :: "string \<Rightarrow> bool" where
  "ascii s \<longleftrightarrow> (\<forall>c \<in> set s. c < CHR 0x80)"

lemma hex_digit32_nth:
  assumes "d < 16"
  shows "hex_digit32 (''0123456789abcdef'' ! d) = Some (of_nat d)"
proof -
  have "\<forall>d \<in> set [0..<16]. hex_digit32 (''0123456789abcdef'' ! d) = Some (of_nat d)"
    by (simp add: upt_conv_Cons hex_digit32_def less_eq_char_def)
  then show ?thesis using assms by auto
qed

lemma control_chars:
  assumes "c < CHR 0x20"
  shows "hex_number 0 [CHR ''0'', CHR ''0'', ''0123456789abcdef'' ! (of_char c div 16), ''0123456789abcdef'' ! (of_char c mod 16)]
      = Some (of_nat (of_char c))"
    and "utf8 (of_nat (of_char c)) = [c]"
proof -
  let ?n = "of_char c :: nat"
  have n: "?n < 32" using assms by (simp add: less_char_def)
  have zero: "hex_digit32 CHR ''0'' = Some 0" by (simp add: hex_digit32_def less_eq_char_def)
  have "of_nat (?n div 16) * 16 + of_nat (?n mod 16) = (of_nat (?n div 16 * 16 + ?n mod 16) :: 32 word)"
    by (simp only: of_nat_add of_nat_mult of_nat_numeral)
  also have "\<dots> = of_nat ?n" by (simp only: div_mult_mod_eq)
  finally have "of_nat (?n div 16) * 16 + of_nat (?n mod 16) = (of_nat ?n :: 32 word)" .
  moreover have "?n div 16 < 16" "?n mod 16 < 16" using n by auto
  ultimately show "hex_number 0 [CHR ''0'', CHR ''0'', ''0123456789abcdef'' ! (of_char c div 16), ''0123456789abcdef'' ! (of_char c mod 16)]
      = Some (of_nat (of_char c))"
    by (simp add: zero hex_digit32_nth)
  have u: "unat (of_nat ?n :: 32 word) = ?n" using n by (simp add: unat_of_nat)
  have "(of_nat ?n :: 32 word) \<le> 0x7F" using n by (simp add: word_le_nat_alt u)
  moreover have "unat (of_nat ?n AND 0xFF :: 32 word) = ?n"
  proof -
    have "take_bit 8 ?n = ?n" using n by (intro take_bit_nat_eq_self) simp
    then have "?n AND mask 8 = ?n" by (simp only: take_bit_eq_mask)
    moreover have "mask 8 = (255 :: nat)" by (simp add: mask_eq_exp_minus_1)
    ultimately have "?n AND 255 = ?n" by simp
    then show ?thesis by (simp add: unsigned_and_eq u)
  qed
  ultimately show "utf8 (of_nat (of_char c)) = [c]" by (simp add: utf8_def Let_def)
qed

lemma read_written_char:
  assumes "c < CHR 0x80"
  shows "\<exists>d ds. write_char c = d # ds \<and> d \<noteq> CHR 0x22 \<and> read_char d (ds @ rest) = (Some [c], rest)"
proof (cases "c \<in> {CHR 0x22, CHR 0x5C, CHR 0x0A, CHR 0x0D, CHR 0x09, CHR 0x08, CHR 0x0C}")
  case True
  then show ?thesis by (auto simp: write_char_def read_char_def escape_value_def)
next
  case False
  show ?thesis
  proof (cases "c < CHR 0x20")
    case True
    have "escape_value CHR ''u'' = None" by (simp add: escape_value_def)
    then show ?thesis using True False by (simp add: write_char_def read_char_def control_chars del: hex_number.simps)
  next
    case F: False
    then show ?thesis using False assms by (simp add: write_char_def read_char_def not_le)
  qed
qed

lemma string_loop_written:
  "ascii s \<Longrightarrow> length buf + length s \<le> mx \<Longrightarrow>
     string_loop mx buf (concat (map write_char s) @ CHR 0x22 # rest) = (Some (buf @ s), rest)"
proof (induction s arbitrary: buf)
  case (Cons c s)
  then have "c < CHR 0x80" by (simp add: ascii_def)
  then obtain d ds where w: "write_char c = d # ds" "d \<noteq> CHR 0x22"
    and r: "read_char d (ds @ concat (map write_char s) @ CHR 0x22 # rest) = (Some [c], concat (map write_char s) @ CHR 0x22 # rest)"
    using read_written_char by blast
  show ?case using Cons by (simp add: w r ascii_def)
qed simp

lemma parse_string_written:
  "ascii s \<Longrightarrow> length s \<le> po_max_string_bytes opt \<Longrightarrow> parse_string opt (write_string s @ rest) = (Some s, rest)"
  by (simp add: parse_string_def write_string_def starts_with_def string_loop_written)

subsection \<open>Numbers\<close>

lemma all_digits:
  assumes "list_all is_digit ds"
  shows "takeWhile is_digit ds = ds" and "dropWhile is_digit ds = []"
  using assms by (simp_all add: list_all_iff)

text \<open>A text that no longer token can start: what follows a value in a written document.\<close>

definition number_end :: "string \<Rightarrow> bool" where
  "number_end s \<longleftrightarrow> s = [] \<or> \<not> is_digit (hd s) \<and> hd s \<notin> {CHR ''.'', CHR ''e'', CHR ''E''}"

definition sign_text :: "bool \<Rightarrow> string" where
  "sign_text neg = (if neg then ''-'' else [])"

definition number_text :: "bool \<Rightarrow> string \<Rightarrow> string \<Rightarrow> string" where
  "number_text neg ds fs = sign_text neg @ ds @ (if fs = [] then [] else CHR ''.'' # fs)"

lemma not_digit [simp]: "\<not> is_digit CHR ''-''" "\<not> is_digit CHR ''.''" "\<not> is_digit CHR ''e''"
  "\<not> is_digit CHR ''+''" "\<not> is_digit CHR ''I''" "\<not> is_digit CHR ''N''" "\<not> is_digit CHR 0x22"
  "\<not> is_digit CHR ''{''" "\<not> is_digit CHR ''[''" "\<not> is_digit CHR ''t''" "\<not> is_digit CHR ''f''" "\<not> is_digit CHR ''n''"
  "\<not> is_digit CHR '',''" "\<not> is_digit CHR '']''" "\<not> is_digit CHR ''}''" "\<not> is_digit CHR 0x0A"
  by (simp_all add: is_digit_iff)

lemma digit_not:
  "is_digit c \<Longrightarrow> c \<notin> {CHR ''-'', CHR ''.'', CHR ''e'', CHR ''E'', CHR ''+'', CHR ''I'', CHR ''N'', CHR 0x22, CHR ''{'',
     CHR ''['', CHR ''t'', CHR ''f'', CHR ''n'', CHR '','', CHR '']'', CHR ''}'', CHR 0x0A, CHR 0x20, CHR 0x09, CHR 0x0D}"
  by (auto simp: is_digit_iff)

lemma scan_number_written:
  assumes ds: "list_all is_digit ds" "ds \<noteq> []" and fs: "list_all is_digit fs" and rest: "number_end rest"
  shows "scan_number (number_text neg ds fs @ rest) = (fs \<noteq> [], rest)"
proof -
  have e: "scan_exponent rest = (False, rest)"
    using rest by (auto simp: scan_exponent_def starts_with_def number_end_def)
  have hd: "starts_with {CHR ''-''} (ds @ xs) = False" for xs
    using ds digit_not [of "hd ds"] by (cases ds) (auto simp: starts_with_def)
  have nd: "rest = [] \<or> \<not> is_digit (hd rest)" using rest by (auto simp: number_end_def)
  have p: "scan_point ((if fs = [] then [] else CHR ''.'' # fs) @ rest) = (fs \<noteq> [], rest)"
    using rest take_digits(2) [OF fs nd] by (auto simp: scan_point_def starts_with_def number_end_def)
  have d: "dropWhile is_digit (ds @ (if fs = [] then [] else CHR ''.'' # fs) @ rest)
      = (if fs = [] then [] else CHR ''.'' # fs) @ rest"
    by (rule take_digits(2) [OF ds(1)]) (use nd in auto)
  have s: "(if starts_with {CHR ''-''} (number_text neg ds fs @ rest) then tl (number_text neg ds fs @ rest)
      else number_text neg ds fs @ rest) = ds @ (if fs = [] then [] else CHR ''.'' # fs) @ rest"
    by (cases neg) (simp_all add: number_text_def sign_text_def hd, simp add: starts_with_def)
  show ?thesis unfolding scan_number_def Let_def s d p prod.case e by simp
qed

lemma number_head:
  assumes ds: "list_all is_digit ds" "ds \<noteq> []"
  shows "hd (number_text neg ds fs) = CHR ''-'' \<and> neg \<or> is_digit (hd (number_text neg ds fs)) \<and> \<not> neg"
    and "number_text neg ds fs \<noteq> []"
  using ds by (cases ds; auto simp: number_text_def sign_text_def)+

lemma parse_number_written:
  assumes ds: "list_all is_digit ds" "ds \<noteq> []" and fs: "list_all is_digit fs" and rest: "number_end rest"
  shows "parse_number opt (number_text neg ds fs @ rest)
    = (let (e, v) = token_value (fs \<noteq> []) (number_text neg ds fs) in (e, v, rest))"
proof -
  have "hd (number_text neg ds fs @ rest) \<notin> {CHR ''+'', CHR ''I'', CHR ''N''}"
    using number_head [OF ds, of neg fs] digit_not [of "hd (number_text neg ds fs)"] by auto
  then have "\<not> starts_with {CHR ''+'', CHR ''I'', CHR ''N''} (number_text neg ds fs @ rest)"
    by (simp add: starts_with_def)
  then show ?thesis
    using number_head(2) [OF ds, of neg fs]
    by (simp add: parse_number_def scan_number_written [OF assms])
qed

lemma strtoll_written:
  assumes ds: "list_all is_digit ds" "ds \<noteq> []"
  shows "strtoll (number_text neg ds []) = (clamp_i64 (if neg then - int (dec_value ds) else int (dec_value ds)), [])"
proof -
  have hd: "starts_with {CHR ''-''} ds = False"
    using ds digit_not [of "hd ds"] by (cases ds) (auto simp: starts_with_def)
  show ?thesis
    using ds hd
    by (cases neg) (simp_all add: strtoll_def number_text_def sign_text_def starts_with_def Let_def all_digits)
qed

lemma strtod_written:
  assumes ds: "list_all is_digit ds" "ds \<noteq> []" and fs: "list_all is_digit fs" "fs \<noteq> []"
  shows "snd (strtod (number_text neg ds fs)) = []"
proof -
  have hd: "starts_with {CHR ''-''} (ds @ xs) = False" for xs
    using ds digit_not [of "hd ds"] by (cases ds) (auto simp: starts_with_def)
  have d: "takeWhile is_digit (ds @ CHR ''.'' # fs) = ds" "dropWhile is_digit (ds @ CHR ''.'' # fs) = CHR ''.'' # fs"
    by (rule take_digits [OF ds(1)]; simp)+
  have p: "starts_with {CHR ''.''} (CHR ''.'' # fs)" by (simp add: starts_with_def)
  note f = all_digits [OF fs(1)]
  have e: "read_exponent [] = (0, [])" by (simp add: read_exponent_def starts_with_def)
  show ?thesis
    using ds fs
    by (cases neg) (simp_all add: strtod_def number_text_def sign_text_def hd d p f e Let_def, simp add: starts_with_def d p f e)
qed

lemma int_text: "int_to_string i = number_text (i < 0) (dec_digits (nat \<bar>i\<bar>)) []"
  by (simp add: int_to_string_def number_text_def sign_text_def)

lemma clamp_i64_id: "- (2 ^ 63) \<le> i \<Longrightarrow> i < 2 ^ 63 \<Longrightarrow> clamp_i64 i = i"
  by (simp add: clamp_i64_def)

lemma sint_bounds: "- (2 ^ 63) \<le> sint (w :: 64 word)" "sint (w :: 64 word) < 2 ^ 63"
  using sint_greater_eq [of w] sint_less [of w] by simp_all

text \<open>What a written number is read as.\<close>

definition reread_int :: "64 word \<Rightarrow> json" where
  "reread_int i = (if sint i < 0 then J_Int i else J_Uint i)"

definition reread_uint :: "64 word \<Rightarrow> json" where
  "reread_uint u = J_Uint (of_int (min (uint u) (2 ^ 63 - 1)))"

lemma token_int:
  "token_value False (int_to_string (sint i)) = (PE_None, reread_int i)"
proof -
  let ?ds = "dec_digits (nat \<bar>sint i\<bar>)"
  have "(if sint i < 0 then - int (dec_value ?ds) else int (dec_value ?ds)) = sint i" by simp
  then have "strtoll (int_to_string (sint i)) = (sint i, [])"
    unfolding int_text by (simp only: strtoll_written [OF dec_digits_digits dec_digits_ne] clamp_i64_id [OF sint_bounds])
  moreover have "hd (int_to_string (sint i)) = CHR ''-'' \<longleftrightarrow> sint i < 0"
    using dec_digits_hd [of "nat (sint i)"] by (auto simp: int_to_string_def)
  ultimately show ?thesis by (simp add: token_value_def reread_int_def)
qed

lemma token_uint: "token_value False (dec_digits (unat u)) = (PE_None, reread_uint u)"
proof -
  have t: "dec_digits (unat u) = number_text False (dec_digits (unat u)) []"
    by (simp add: number_text_def sign_text_def)
  have "strtoll (dec_digits (unat u)) = (clamp_i64 (int (unat u)), [])"
    by (subst t) (simp add: strtoll_written [OF dec_digits_digits dec_digits_ne])
  moreover have "clamp_i64 (int (unat u)) = min (uint u) (2 ^ 63 - 1)"
    by (simp add: clamp_i64_def min_def max_def) (use uint_ge_0 [of u] in linarith)
  moreover have "hd (dec_digits (unat u)) \<noteq> CHR ''-''" using dec_digits_hd [of "unat u"] by auto
  ultimately show ?thesis by (simp add: token_value_def reread_uint_def)
qed

text \<open>Doubles. The finite ones are written with six decimals, then stripped.\<close>

definition reread_double :: "f64 \<Rightarrow> json" where
  "reread_double d =
     (if d = F_NaN then J_Null
      else if f64_isinf d then J_Double d
      else (let s = write_double d in
        if CHR ''.'' \<in> set s then J_Double (fst (strtod s))
        else if hd s = CHR ''-'' then J_Int (of_int (fst (strtoll s))) else J_Uint (of_int (fst (strtoll s)))))"

lemma fixed6_text:
  assumes "0 \<le> q"
  shows "\<exists>ds fs. fixed6 q = number_text False ds fs \<and> list_all is_digit ds \<and> ds \<noteq> [] \<and> list_all is_digit fs \<and> fs \<noteq> []"
proof (intro exI conjI)
  let ?m = "nat (round_even (q * 1000000))"
  let ?fs = "pad_left 6 (dec_digits (?m mod 1000000))"
  have ne: "?fs \<noteq> []" by (simp add: pad_left_def)
  then show "fixed6 q = number_text False (dec_digits (?m div 1000000)) ?fs"
    by (simp add: fixed6_def number_text_def sign_text_def Let_def)
  show "list_all is_digit ?fs" by (rule pad_left_digits [OF dec_digits_digits])
  show "?fs \<noteq> []" by (rule ne)
qed (simp_all add: dec_digits_digits)

lemma number_text_neg: "CHR ''-'' # number_text False ds fs = number_text True ds fs"
  by (simp add: number_text_def sign_text_def)

lemma finite_text:
  assumes "f64_finite d"
  shows "\<exists>neg ds fs. f64_to_string d = number_text neg ds fs \<and> list_all is_digit ds \<and> ds \<noteq> []
    \<and> list_all is_digit fs \<and> fs \<noteq> []"
  using assms
proof (cases rule: f64_finite_cases)
  case 1
  have "f64_to_string d = number_text True ''0'' ''000000''" by (simp add: 1 number_text_def sign_text_def)
  moreover have "list_all is_digit ''0'' \<and> list_all is_digit ''000000''" by (simp add: is_digit_iff)
  ultimately show ?thesis by blast
next
  case (2 q)
  show ?thesis
  proof (cases "q < 0")
    case True
    then obtain ds fs where *: "fixed6 (- q) = number_text False ds fs" "list_all is_digit ds" "ds \<noteq> []"
      "list_all is_digit fs" "fs \<noteq> []" using fixed6_text [of "- q"] by auto
    then have "f64_to_string d = number_text True ds fs" using 2 True by (simp add: number_text_neg)
    with * show ?thesis by blast
  next
    case False
    then show ?thesis using fixed6_text [of q] 2 by auto
  qed
qed

lemma strip_written:
  assumes ds: "list_all is_digit ds" and fs: "list_all is_digit fs" "fs \<noteq> []"
  shows "\<exists>gs. strip_zeros (number_text neg ds fs) = number_text neg ds gs \<and> list_all is_digit gs"
proof -
  let ?P = "\<lambda>c. c = CHR ''0''" and ?h = "sign_text neg @ ds"
  have r: "rev (number_text neg ds fs) = rev fs @ CHR ''.'' # rev ?h"
    using fs by (simp add: number_text_def)
  show ?thesis
  proof (cases "\<forall>c \<in> set fs. c = CHR ''0''")
    case True
    then have "dropWhile ?P (rev fs @ CHR ''.'' # rev ?h) = CHR ''.'' # rev ?h"
      by (subst dropWhile_append2) auto
    then have "strip_zeros (number_text neg ds fs) = ?h"
      unfolding strip_zeros_def r by (simp add: Let_def butlast_append)
    then show ?thesis by (intro exI [of _ "[]"]) (simp add: number_text_def)
  next
    case False
    then obtain x where x: "x \<in> set fs" "x \<noteq> CHR ''0''" by blast
    define gs where "gs = rev (dropWhile ?P (rev fs))"
    have d: "dropWhile ?P (rev fs @ CHR ''.'' # rev ?h) = rev gs @ CHR ''.'' # rev ?h"
      using x by (simp add: gs_def dropWhile_append1)
    have "set gs \<subseteq> set fs" unfolding gs_def by (auto dest: set_dropWhileD)
    then have digits: "list_all is_digit gs" using fs(1) by (auto simp: list_all_iff)
    have ne: "gs \<noteq> []" using x by (auto simp: gs_def)
    then have "is_digit (last gs)" using digits by (simp add: list_all_iff)
    then have "last gs \<noteq> CHR ''.''" by auto
    then have "strip_zeros (number_text neg ds fs) = number_text neg ds gs"
      unfolding strip_zeros_def r d using ne by (simp add: Let_def number_text_def)
    then show ?thesis using digits by blast
  qed
qed

lemma point_in_text:
  assumes "list_all is_digit ds" and "list_all is_digit fs"
  shows "CHR ''.'' \<in> set (number_text neg ds fs) \<longleftrightarrow> fs \<noteq> []"
  using assms digit_not [of "CHR ''.''"] by (auto simp: number_text_def sign_text_def list_all_iff)

lemma double_text:
  assumes "f64_finite d"
  shows "\<exists>neg ds fs. write_double d = number_text neg ds fs \<and> list_all is_digit ds \<and> ds \<noteq> [] \<and> list_all is_digit fs"
proof -
  obtain neg ds fs where t: "f64_to_string d = number_text neg ds fs"
    and ds: "list_all is_digit ds" "ds \<noteq> []" and fs: "list_all is_digit fs" "fs \<noteq> []"
    using finite_text [OF assms] by blast
  have "write_double d = strip_zeros (number_text neg ds fs)"
    using assms point_in_text [OF ds(1) fs(1), of neg] fs
    by (simp add: write_double_def t Let_def f64_finite_def f64_isinf_def)
  then show ?thesis using strip_written [OF ds(1) fs, of neg] ds by auto
qed

lemma token_double:
  assumes "f64_finite d"
  shows "token_value (CHR ''.'' \<in> set (write_double d)) (write_double d) = (PE_None, reread_double d)"
proof -
  obtain neg ds fs where t: "write_double d = number_text neg ds fs"
    and ds: "list_all is_digit ds" "ds \<noteq> []" and fs: "list_all is_digit fs"
    using double_text [OF assms] by blast
  have nz: "d \<noteq> F_NaN" "\<not> f64_isinf d" using assms by (simp_all add: f64_finite_def)
  show ?thesis
  proof (cases "fs = []")
    case True
    then show ?thesis using point_in_text [OF ds(1) fs, of neg] strtoll_written [OF ds, of neg]
      by (simp add: token_value_def t nz reread_double_def Let_def case_prod_beta)
  next
    case False
    then show ?thesis using point_in_text [OF ds(1) fs, of neg] strtod_written [OF ds fs, of neg]
      by (simp add: token_value_def t nz reread_double_def Let_def case_prod_beta)
  qed
qed

lemma f64_round_huge:
  assumes "f64_limit \<le> q"
  shows "f64_round q = F_PInf"
proof -
  have pos: "0 < f64_limit" by (simp add: f64_limit_def)
  have lim: "f64_limit = of_int 1 * 2 powi 1024" by (simp add: f64_limit_def power_int_def)
  have "rnd_val f64_limit = f64_limit" by (rule rnd_val_exact [OF lim]) auto
  then have "f64_limit \<le> rnd_val q" using rnd_val_mono [OF pos assms] by simp
  then show ?thesis using pos assms by (simp add: f64_round_def round_pos_val)
qed

lemma infinity_read:
  assumes "1024 \<le> n"
  shows "f64_round (10 powi int n) = F_PInf"
proof (rule f64_round_huge)
  have "(2 :: rat) ^ 1024 \<le> 10 ^ 1024" by (rule power_mono) simp_all
  also have "\<dots> \<le> 10 ^ n" by (rule power_increasing) (use assms in simp_all)
  finally show "f64_limit \<le> 10 powi int n" by (simp only: f64_limit_def power_int_of_nat)
qed

lemma digit_chars: "is_digit CHR ''0''" "is_digit CHR ''1''" "is_digit CHR ''9''"
  by (simp_all add: is_digit_iff)

lemma infinity_token:
  assumes "number_end rest"
  shows "parse_number opt (sign_text neg @ ''1e9999'' @ rest)
    = (PE_None, J_Double (if neg then F_NInf else F_PInf), rest)"
proof -
  have s: "scan_number (sign_text neg @ ''1e9999'' @ rest) = (True, rest)"
    using assms by (cases neg)
      (auto simp: scan_number_def sign_text_def scan_point_def scan_exponent_def starts_with_def digit_chars
        number_end_def dropWhile_eq_self_iff)
  have e: "read_exponent ''e9999'' = (9999, [])"
    by (simp add: read_exponent_def starts_with_def digit_chars dec_value_def digit_value_def)
  have "f64_round (10 powi 9999) = F_PInf"
    using infinity_read [of 9999] by (simp only: of_nat_numeral)
  then have "strtod (sign_text neg @ ''1e9999'') = (if neg then F_NInf else F_PInf, [])"
    by (cases neg) (simp_all add: strtod_def sign_text_def starts_with_def digit_chars e Let_def dec_value_def
      digit_value_def del: power_int_numeral)
  then show ?thesis using s
    by (cases neg) (simp_all add: parse_number_def token_value_def starts_with_def sign_text_def)
qed

subsection \<open>Documents\<close>

text \<open>What a document is read as: a number keeps its text, not its kind.\<close>

fun reread :: "json \<Rightarrow> json" where
  "reread (J_Int i) = reread_int i"
| "reread (J_Uint u) = reread_uint u"
| "reread (J_Double d) = reread_double d"
| "reread (J_Array a) = J_Array (map reread a)"
| "reread (J_Object m) = J_Object (map (\<lambda>(k, v). (k, reread v)) m)"
| "reread v = v"

fun json_ascii :: "json \<Rightarrow> bool" where
  "json_ascii (J_String s) \<longleftrightarrow> ascii s"
| "json_ascii (J_Array a) \<longleftrightarrow> list_all json_ascii a"
| "json_ascii (J_Object m) \<longleftrightarrow> list_all (\<lambda>(k, v). ascii k \<and> json_ascii v) m"
| "json_ascii _ \<longleftrightarrow> True"

definition blank :: "string \<Rightarrow> bool" where
  "blank s \<longleftrightarrow> list_all is_ws s"

lemma blank_indent: "blank (indent mode d)"
  by (induction d) (auto simp: blank_def indent_def is_ws_def split: write_mode.splits)

definition text_start :: "string \<Rightarrow> bool" where
  "text_start s \<longleftrightarrow> s \<noteq> [] \<and> \<not> is_ws (hd s) \<and> hd s \<noteq> CHR '']''"

lemma skip_blank:
  assumes "blank ws" and "s = [] \<or> \<not> is_ws (hd s)"
  shows "skip_ws (ws @ s) = s"
  using assms by (induction ws) (auto simp: skip_ws_def blank_def dropWhile_eq_self_iff)

lemma digit_start:
  assumes "list_all is_digit ds" "ds \<noteq> []"
  shows "text_start (number_text neg ds fs @ rest)"
  using number_head [OF assms, of neg fs] digit_not [of "hd (number_text neg ds fs)"]
  by (auto simp: text_start_def is_ws_def)

lemma double_start: "text_start (write_double d @ rest)"
proof (cases "f64_finite d")
  case True
  then obtain neg ds fs where "write_double d = number_text neg ds fs" "list_all is_digit ds" "ds \<noteq> []"
    using double_text by blast
  then show ?thesis by (simp add: digit_start)
next
  case False
  then show ?thesis
    by (auto simp: f64_finite_def f64_isinf_def write_double_def text_start_def is_ws_def)
qed

lemma write_start: "text_start (write_value mode d v @ rest)"
proof (cases v)
  case (J_Int i)
  then show ?thesis by (simp add: int_text digit_start [OF dec_digits_digits dec_digits_ne])
next
  case (J_Uint u)
  have "dec_digits (unat u) = number_text False (dec_digits (unat u)) []"
    by (simp add: number_text_def sign_text_def)
  then show ?thesis using J_Uint digit_start [OF dec_digits_digits dec_digits_ne, of False "unat u" "[]" rest] by simp
next
  case (J_Double x)
  then show ?thesis by (simp add: double_start)
qed (auto simp: text_start_def is_ws_def write_string_def)

definition reads_back :: "parse_options \<Rightarrow> nat \<Rightarrow> write_mode \<Rightarrow> json \<Rightarrow> bool" where
  "reads_back opt lv mode v \<longleftrightarrow> (\<forall>ws d n rest. blank ws \<longrightarrow> number_end rest \<longrightarrow> n + json_nodes v \<le> po_max_nodes opt \<longrightarrow>
     parse_value opt lv \<lparr> js_rest = ws @ write_value mode d v @ rest, js_nodes = n \<rparr>
       = Some (PE_None, reread v, \<lparr> js_rest = rest, js_nodes = n + json_nodes v \<rparr>))"

lemma blank_Nil [simp]: "blank []"
  by (simp add: blank_def)

lemma reads_backD:
  "reads_back opt lv mode v \<Longrightarrow> blank ws \<Longrightarrow> number_end rest \<Longrightarrow> n + json_nodes v \<le> po_max_nodes opt \<Longrightarrow>
     parse_value opt lv \<lparr> js_rest = ws @ write_value mode d v @ rest, js_nodes = n \<rparr>
       = Some (PE_None, reread v, \<lparr> js_rest = rest, js_nodes = n + json_nodes v \<rparr>)"
  by (simp add: reads_back_def)

lemma number_end_punct: "number_end (CHR '','' # s)" "number_end (CHR '']'' # s)" "number_end (CHR ''}'' # s)" "number_end []"
  by (simp_all add: number_end_def)

lemma number_end_indent: "number_end s \<Longrightarrow> number_end (indent mode d @ s)"
  by (simp add: indent_def number_end_def split: write_mode.splits)

lemma commas_Cons: "commas (s # ts) = s @ (if ts = [] then [] else CHR '','' # commas ts)"
  by (cases ts) auto

lemma array_loop_written:
  assumes child: "\<And>v. v \<in> set a \<Longrightarrow> reads_back opt lv mode v"
    and "length a \<le> fuel" and "a \<noteq> []" and "n + sum_list (map json_nodes a) \<le> po_max_nodes opt" and "blank ws"
  shows "array_loop fuel (parse_value opt lv) arr
      \<lparr> js_rest = commas (map (\<lambda>v. indent mode d @ write_value mode d v) a) @ ws @ CHR '']'' # rest, js_nodes = n \<rparr>
    = Some (PE_None, J_Array (arr @ map reread a), \<lparr> js_rest = rest, js_nodes = n + sum_list (map json_nodes a) \<rparr>)"
  using assms
proof (induction a arbitrary: fuel arr n)
  case (Cons v a)
  obtain f where f: "fuel = Suc f" using Cons.prems(2) by (cases fuel) auto
  define tail where "tail = (if a = [] then [] else CHR '','' # commas (map (\<lambda>v. indent mode d @ write_value mode d v) a)) @ ws @ CHR '']'' # rest"
  have doc: "commas (map (\<lambda>v. indent mode d @ write_value mode d v) (v # a)) @ ws @ CHR '']'' # rest
      = indent mode d @ write_value mode d v @ tail"
    by (simp add: commas_Cons tail_def)
  have start: "text_start (write_value mode d v @ tail)" by (rule write_start)
  then have skip: "skip_ws (indent mode d @ write_value mode d v @ tail) = write_value mode d v @ tail"
    by (intro skip_blank blank_indent) (simp add: text_start_def)
  have tail_end: "number_end tail"
  proof (cases "a = []")
    case True
    then show ?thesis using \<open>blank ws\<close>
      by (cases ws) (auto simp: tail_def number_end_def blank_def is_ws_def is_digit_iff)
  qed (simp add: tail_def number_end_def)
  have v: "parse_value opt lv \<lparr> js_rest = write_value mode d v @ tail, js_nodes = n \<rparr>
      = Some (PE_None, reread v, \<lparr> js_rest = tail, js_nodes = n + json_nodes v \<rparr>)"
    using reads_backD [OF Cons.prems(1) [of v], of "[]" tail n d] tail_end Cons.prems(4) by simp
  show ?case
  proof (cases "a = []")
    case True
    then have tail: "skip_ws tail = CHR '']'' # rest"
      by (simp add: tail_def) (rule skip_blank [OF \<open>blank ws\<close>], simp add: is_ws_def)
    show ?thesis
      using start v unfolding doc f
      by (simp add: True skip tail skip_state_def step_state_def text_start_def Let_def)
  next
    case False
    then have tail: "skip_ws tail = CHR '','' # commas (map (\<lambda>v. indent mode d @ write_value mode d v) a) @ ws @ CHR '']'' # rest"
      by (simp add: tail_def skip_ws_def is_ws_def)
    then show ?thesis
      using start v False Cons.IH [of f "n + json_nodes v" "arr @ [reread v]"] Cons.prems f
      unfolding doc f
      by (simp add: skip skip_state_def step_state_def text_start_def Let_def add.assoc)
  qed
qed simp

lemma om_put_last:
  assumes "om_ok (m @ [(k, w)])"
  shows "om_put k v m = m @ [(k, v)]"
  using assms
proof (induction m)
  case (Cons a m)
  obtain k' v' where a: "a = (k', v')" by (cases a)
  have "k' < k" using Cons.prems by (simp add: om_ok_def sorted_wrt_append a)
  moreover have "om_put k v m = m @ [(k, v)]" using Cons by (simp add: om_ok_def)
  ultimately show ?case by (auto simp: a)
qed simp

text \<open>One member of an object, as it is written.\<close>

definition write_member :: "write_mode \<Rightarrow> nat \<Rightarrow> string \<times> json \<Rightarrow> string" where
  "write_member mode d kv = indent mode d @ write_string (fst kv) @ '':'' @ (if mode = WM_Pretty then '' '' else [])
     @ write_value mode d (snd kv)"

lemma write_object: "write_value mode d (J_Object m) = CHR ''{'' # commas (map (write_member mode (Suc d)) m)
     @ (if m = [] then [] else indent mode d) @ ''}''"
proof -
  have "write_member mode (Suc d) = (\<lambda>(k, v). indent mode (Suc d) @ write_string k @ '':''
      @ (if mode = WM_Pretty then '' '' else []) @ write_value mode (Suc d) v)"
    by (auto simp: write_member_def)
  then show ?thesis by simp
qed

lemma object_loop_written:
  assumes "\<And>kv. kv \<in> set m \<Longrightarrow> reads_back opt lv mode (snd kv) \<and> ascii (fst kv) \<and> length (fst kv) \<le> po_max_string_bytes opt"
    and "length m \<le> fuel" and "m \<noteq> []" and "n + sum_list (map (\<lambda>kv. json_nodes (snd kv)) m) \<le> po_max_nodes opt" and "blank ws"
    and "om_ok (obj @ map (\<lambda>kv. (fst kv, reread (snd kv))) m)"
  shows "object_loop fuel opt (parse_value opt lv) obj
      \<lparr> js_rest = commas (map (write_member mode d) m) @ ws @ CHR ''}'' # rest, js_nodes = n \<rparr>
    = Some (PE_None, J_Object (obj @ map (\<lambda>kv. (fst kv, reread (snd kv))) m),
        \<lparr> js_rest = rest, js_nodes = n + sum_list (map (\<lambda>kv. json_nodes (snd kv)) m) \<rparr>)"
  using assms
proof (induction m arbitrary: fuel obj n)
  case (Cons kv m)
  obtain k v where kv: "kv = (k, v)" by (cases kv)
  obtain f where f: "fuel = Suc f" using Cons.prems(2) by (cases fuel) auto
  define tail where "tail = (if m = [] then [] else CHR '','' # commas (map (write_member mode d) m)) @ ws @ CHR ''}'' # rest"
  define gap where "gap = (if mode = WM_Pretty then '' '' else [])"
  have doc: "commas (map (write_member mode d) (kv # m)) @ ws @ CHR ''}'' # rest
      = indent mode d @ write_string k @ CHR '':'' # gap @ write_value mode d v @ tail"
    by (simp add: commas_Cons tail_def write_member_def kv gap_def)
  have k: "ascii k" "length k \<le> po_max_string_bytes opt" using Cons.prems(1) [of kv] by (simp_all add: kv)
  have skip1: "skip_ws (indent mode d @ write_string k @ s) = write_string k @ s" for s
    by (rule skip_blank [OF blank_indent]) (simp add: write_string_def is_ws_def)
  have quote: "starts_with {CHR 0x22} (write_string k @ s)" for s
    by (simp add: starts_with_def write_string_def)
  have skip2: "skip_ws (CHR '':'' # s) = CHR '':'' # s" for s by (simp add: skip_ws_def is_ws_def)
  have start: "text_start (write_value mode d v @ tail)" by (rule write_start)
  have skip3: "skip_ws (gap @ write_value mode d v @ tail) = write_value mode d v @ tail"
    by (rule skip_blank) (use start in \<open>auto simp: text_start_def gap_def blank_def is_ws_def\<close>)
  have tail_end: "number_end tail"
  proof (cases "m = []")
    case True
    then show ?thesis using \<open>blank ws\<close>
      by (cases ws) (auto simp: tail_def number_end_def blank_def is_ws_def is_digit_iff)
  qed (simp add: tail_def number_end_def)
  have v: "parse_value opt lv \<lparr> js_rest = write_value mode d v @ tail, js_nodes = n \<rparr>
      = Some (PE_None, reread v, \<lparr> js_rest = tail, js_nodes = n + json_nodes v \<rparr>)"
    using Cons.prems(1) [of kv] reads_backD [of opt lv mode v "[]" tail n d] tail_end Cons.prems(4) by (simp add: kv)
  have put: "om_put k (reread v) obj = obj @ [(k, reread v)]"
    by (rule om_put_last [of _ _ "reread v"]) (use Cons.prems(6) in \<open>simp add: kv om_ok_def sorted_wrt_append\<close>)
  note run = skip1 quote skip2 skip3 parse_string_written [OF k] v put
  show ?case
  proof (cases "m = []")
    case True
    then have tail: "skip_ws tail = CHR ''}'' # rest"
      by (simp add: tail_def) (rule skip_blank [OF \<open>blank ws\<close>], simp add: is_ws_def)
    show ?thesis
      unfolding doc f
      by (simp add: True kv run tail skip_state_def step_state_def Let_def, simp add: starts_with_def)
  next
    case False
    then have tail: "skip_ws tail = CHR '','' # commas (map (write_member mode d) m) @ ws @ CHR ''}'' # rest"
      by (simp add: tail_def skip_ws_def is_ws_def)
    have "object_loop f opt (parse_value opt lv) (obj @ [(k, reread v)])
        \<lparr> js_rest = commas (map (write_member mode d) m) @ ws @ CHR ''}'' # rest, js_nodes = n + json_nodes v \<rparr>
      = Some (PE_None, J_Object ((obj @ [(k, reread v)]) @ map (\<lambda>kv. (fst kv, reread (snd kv))) m),
        \<lparr> js_rest = rest, js_nodes = n + json_nodes v + sum_list (map (\<lambda>kv. json_nodes (snd kv)) m) \<rparr>)"
      using Cons.prems False by (intro Cons.IH) (simp_all add: f kv)
    then show ?thesis
      unfolding doc f
      by (simp add: kv run tail skip_state_def step_state_def Let_def add.assoc, simp add: starts_with_def)
  qed
qed simp

lemma nodes_pos: "0 < json_nodes v"
  by (cases v) simp_all

lemma reads_back_dispatch:
  assumes "\<And>d n rest. number_end rest \<Longrightarrow> n + json_nodes v \<le> po_max_nodes opt \<Longrightarrow>
     dispatch opt (parse_value opt lv) \<lparr> js_rest = write_value mode d v @ rest, js_nodes = Suc n \<rparr>
       = Some (PE_None, reread v, \<lparr> js_rest = rest, js_nodes = n + json_nodes v \<rparr>)"
  shows "reads_back opt (Suc lv) mode v"
  unfolding reads_back_def
proof (intro allI impI)
  fix ws d n rest
  assume ws: "blank ws" and rest: "number_end rest" and n: "n + json_nodes v \<le> po_max_nodes opt"
  have start: "text_start (write_value mode d v @ rest)" by (rule write_start)
  have "skip_ws (ws @ write_value mode d v @ rest) = write_value mode d v @ rest"
    by (rule skip_blank [OF ws]) (use start in \<open>simp add: text_start_def\<close>)
  moreover have "Suc n \<le> po_max_nodes opt" using n nodes_pos [of v] by linarith
  ultimately show "parse_value opt (Suc lv) \<lparr> js_rest = ws @ write_value mode d v @ rest, js_nodes = n \<rparr>
       = Some (PE_None, reread v, \<lparr> js_rest = rest, js_nodes = n + json_nodes v \<rparr>)"
    using start assms [OF rest n, of d]
    by (simp add: skip_state_def Let_def text_start_def)
qed

lemma dispatch_number:
  assumes "\<And>rest. number_end rest \<Longrightarrow> parse_number opt (t @ rest) = (PE_None, v, rest)"
    and "t \<noteq> []" and "hd t = CHR ''-'' \<or> is_digit (hd t)" and "number_end rest"
  shows "dispatch opt child \<lparr> js_rest = t @ rest, js_nodes = n \<rparr> = Some (PE_None, v, \<lparr> js_rest = rest, js_nodes = n \<rparr>)"
proof -
  have "hd (t @ rest) = hd t" using assms(2) by simp
  moreover have "hd t \<notin> {CHR ''{'', CHR ''['', CHR 0x22, CHR ''t'', CHR ''f'', CHR ''n''}"
    using assms(3) digit_not [of "hd t"] by auto
  moreover have "hd t = CHR ''-'' \<or> is_digit (hd t) \<or> hd t = CHR ''+'' \<or> hd t = CHR ''I'' \<or> hd t = CHR ''N''"
    using assms(3) by blast
  ultimately show ?thesis
    unfolding dispatch_def Let_def jstate.simps assms(1) [OF assms(4)] by simp
qed

lemma reads_back_atom:
  assumes "json_atom v"
  shows "reads_back opt (Suc lv) mode v"
proof (rule reads_back_dispatch)
  fix d n rest
  assume rest: "number_end rest"
  have num: "dispatch opt (parse_value opt lv) \<lparr> js_rest = t @ rest, js_nodes = Suc n \<rparr>
      = Some (PE_None, w, \<lparr> js_rest = rest, js_nodes = Suc n \<rparr>)"
    if t: "t = number_text neg ds fs" "list_all is_digit ds" "ds \<noteq> []" "list_all is_digit fs"
      and w: "token_value (fs \<noteq> []) t = (PE_None, w)" for t neg ds fs w
  proof (rule dispatch_number [OF _ _ _ rest])
    show "parse_number opt (t @ r) = (PE_None, w, r)" if "number_end r" for r
      using parse_number_written [OF t(2-4) that, of opt neg] w by (simp add: t(1))
    show "t \<noteq> []" "hd t = CHR ''-'' \<or> is_digit (hd t)" using number_head [OF t(2,3), of neg fs] t(1) by auto
  qed
  show "dispatch opt (parse_value opt lv) \<lparr> js_rest = write_value mode d v @ rest, js_nodes = Suc n \<rparr>
       = Some (PE_None, reread v, \<lparr> js_rest = rest, js_nodes = n + json_nodes v \<rparr>)"
  proof (cases v)
    case J_Null
    then show ?thesis by (simp add: dispatch_def parse_word_def match_word_def)
  next
    case (J_Bool b)
    then show ?thesis by (cases b) (simp_all add: dispatch_def parse_word_def match_word_def)
  next
    case (J_Int i)
    then show ?thesis using num [OF int_text [of "sint i"] dec_digits_digits dec_digits_ne] token_int [of i] by simp
  next
    case (J_Uint u)
    have "dec_digits (unat u) = number_text False (dec_digits (unat u)) []"
      by (simp add: number_text_def sign_text_def)
    from num [OF this dec_digits_digits dec_digits_ne] show ?thesis using J_Uint token_uint [of u] by simp
  next
    case (J_Double x)
    have inf: "dispatch opt (parse_value opt lv) \<lparr> js_rest = write_double x @ rest, js_nodes = Suc n \<rparr>
        = Some (PE_None, J_Double x, \<lparr> js_rest = rest, js_nodes = Suc n \<rparr>)"
      if "x = (if neg then F_NInf else F_PInf)" for neg
    proof -
      have "write_double x = sign_text neg @ ''1e9999''"
        by (cases neg) (simp_all add: that write_double_def sign_text_def)
      moreover have "dispatch opt (parse_value opt lv) \<lparr> js_rest = (sign_text neg @ ''1e9999'') @ rest, js_nodes = Suc n \<rparr>
          = Some (PE_None, J_Double x, \<lparr> js_rest = rest, js_nodes = Suc n \<rparr>)"
        by (rule dispatch_number [OF _ _ _ rest])
          (use infinity_token that in \<open>auto simp: sign_text_def digit_chars\<close>)
      ultimately show ?thesis by simp
    qed
    consider "x = F_NaN" | "x = F_PInf" | "x = F_NInf" | "f64_finite x"
      by (cases x) (auto simp: f64_finite_def f64_isinf_def)
    then show ?thesis
    proof cases
      case 1
      then show ?thesis using J_Double
        by (simp add: write_double_def reread_double_def dispatch_def parse_word_def match_word_def)
    next
      case 2
      then show ?thesis using inf [of False] J_Double by (simp add: reread_double_def f64_isinf_def)
    next
      case 3
      then show ?thesis using inf [of True] J_Double by (simp add: reread_double_def f64_isinf_def)
    next
      case 4
      obtain neg ds fs where t: "write_double x = number_text neg ds fs"
        and ds: "list_all is_digit ds" "ds \<noteq> []" "list_all is_digit fs"
        using double_text [OF 4] by blast
      have "token_value (fs \<noteq> []) (write_double x) = (PE_None, reread_double x)"
        using token_double [OF 4] point_in_text [OF ds(1,3), of neg] by (simp add: t)
      from num [OF t ds this] show ?thesis using J_Double by simp
    qed
  qed (use assms in auto)
qed

text \<open>Every document within the bounds, whatever it contains, is read back.\<close>

lemma reread_keys: "om_ok m \<Longrightarrow> om_ok (map (\<lambda>kv. (fst kv, f (snd kv))) m)"
  by (simp add: om_ok_def comp_def)

lemma skip_idem [simp]: "skip_state (skip_state st) = skip_state st"
  by (simp add: skip_state_def skip_ws_def)

lemma array_loop_skip: "array_loop (Suc fuel) child arr (skip_state st) = array_loop (Suc fuel) child arr st"
  by simp

lemma object_loop_skip: "object_loop (Suc fuel) opt child obj (skip_state st) = object_loop (Suc fuel) opt child obj st"
  by simp

lemma commas_length: "length ts \<le> Suc (length (commas ts))"
  by (induction ts rule: commas.induct) auto

text \<open>The first element starts behind blanks; the length of the text is enough fuel.\<close>

lemma commas_skip:
  assumes "ts \<noteq> []" and "\<And>t. t \<in> set ts \<Longrightarrow> \<exists>b u. t = b @ u \<and> blank b \<and> (\<forall>x. text_start (u @ x))"
  shows "\<exists>u. skip_ws (commas ts @ s) = u \<and> u \<noteq> [] \<and> hd u \<noteq> CHR '']'' \<and> length ts \<le> Suc (length u)"
proof -
  obtain t ts' where ts: "ts = t # ts'" using assms(1) by (cases ts) auto
  obtain b u where t: "t = b @ u" "blank b" "\<forall>x. text_start (u @ x)" using assms(2) [of t] ts by auto
  let ?tail = "(if ts' = [] then [] else CHR '','' # commas ts') @ s"
  have start: "text_start (u @ ?tail)" using t(3) by blast
  have "skip_ws (commas ts @ s) = skip_ws (b @ (u @ ?tail))" by (simp add: ts t(1) commas_Cons)
  also have "\<dots> = u @ ?tail"
    by (rule skip_blank [OF t(2)]) (use start in \<open>simp add: text_start_def\<close>)
  finally have "skip_ws (commas ts @ s) = u @ ?tail" .
  moreover have "length ts \<le> Suc (length (u @ ?tail))" using commas_length [of ts'] by (simp add: ts)
  ultimately show ?thesis using start unfolding text_start_def by blast
qed

lemma parse_array_written:
  assumes "a \<noteq> []" and "\<And>v. v \<in> set a \<Longrightarrow> reads_back opt lv mode v" and "n + sum_list (map json_nodes a) \<le> po_max_nodes opt"
  shows "parse_array (parse_value opt lv) \<lparr> js_rest = write_value mode d (J_Array a) @ rest, js_nodes = n \<rparr>
    = Some (PE_None, reread (J_Array a), \<lparr> js_rest = rest, js_nodes = n + sum_list (map json_nodes a) \<rparr>)"
proof -
  let ?ts = "map (\<lambda>v. indent mode (Suc d) @ write_value mode (Suc d) v) a"
  let ?text = "commas ?ts @ indent mode d @ CHR '']'' # rest"
  have ex: "\<exists>u. skip_ws ?text = u \<and> u \<noteq> [] \<and> hd u \<noteq> CHR '']'' \<and> length ?ts \<le> Suc (length u)"
  proof (rule commas_skip)
    show "\<exists>b u. t = b @ u \<and> blank b \<and> (\<forall>x. text_start (u @ x))" if t: "t \<in> set ?ts" for t
    proof -
      obtain v where "t = indent mode (Suc d) @ write_value mode (Suc d) v" using t by auto
      then show ?thesis using blank_indent write_start by blast
    qed
  qed (use assms(1) in simp)
  then obtain u where u: "skip_ws ?text = u" "u \<noteq> []" "hd u \<noteq> CHR '']''" "length a \<le> Suc (length u)" by auto
  have "array_loop (Suc (length u)) (parse_value opt lv) [] \<lparr> js_rest = ?text, js_nodes = n \<rparr>
    = Some (PE_None, J_Array ([] @ map reread a), \<lparr> js_rest = rest, js_nodes = n + sum_list (map json_nodes a) \<rparr>)"
    using array_loop_written [OF assms(2) u(4) assms(1,3) blank_indent, where arr = "[]" and d = "Suc d"] by simp
  then have loop: "array_loop (Suc (length u)) (parse_value opt lv) [] \<lparr> js_rest = u, js_nodes = n \<rparr>
    = Some (PE_None, reread (J_Array a), \<lparr> js_rest = rest, js_nodes = n + sum_list (map json_nodes a) \<rparr>)"
    using array_loop_skip [of "length u" "parse_value opt lv" "[]" "\<lparr> js_rest = ?text, js_nodes = n \<rparr>"]
    by (simp only: skip_state_def jstate.simps u(1) append_Nil reread.simps)
  have step: "step_state \<lparr> js_rest = write_value mode d (J_Array a) @ rest, js_nodes = n \<rparr> = \<lparr> js_rest = ?text, js_nodes = n \<rparr>"
    using assms(1) by (simp add: step_state_def)
  have skip: "skip_state \<lparr> js_rest = ?text, js_nodes = n \<rparr> = \<lparr> js_rest = u, js_nodes = n \<rparr>"
    by (simp only: skip_state_def jstate.simps u(1))
  have "\<not> starts_with {CHR '']''} u" using u(2,3) by (simp add: starts_with_def)
  then show ?thesis by (simp only: parse_array_def Let_def step skip jstate.simps loop if_False)
qed

lemma parse_object_written:
  assumes "m \<noteq> []" and "om_ok m"
    and "\<And>kv. kv \<in> set m \<Longrightarrow> reads_back opt lv mode (snd kv) \<and> ascii (fst kv) \<and> length (fst kv) \<le> po_max_string_bytes opt"
    and "n + sum_list (map (\<lambda>kv. json_nodes (snd kv)) m) \<le> po_max_nodes opt"
  shows "parse_object opt (parse_value opt lv) \<lparr> js_rest = write_value mode d (J_Object m) @ rest, js_nodes = n \<rparr>
    = Some (PE_None, reread (J_Object m), \<lparr> js_rest = rest, js_nodes = n + sum_list (map (\<lambda>kv. json_nodes (snd kv)) m) \<rparr>)"
proof -
  let ?ts = "map (write_member mode (Suc d)) m"
  let ?text = "commas ?ts @ indent mode d @ CHR ''}'' # rest"
  have ex: "\<exists>u. skip_ws ?text = u \<and> u \<noteq> [] \<and> hd u \<noteq> CHR '']'' \<and> length ?ts \<le> Suc (length u)"
  proof (rule commas_skip)
    show "\<exists>b u. t = b @ u \<and> blank b \<and> (\<forall>x. text_start (u @ x))" if t: "t \<in> set ?ts" for t
    proof -
      obtain kv where "t = indent mode (Suc d) @ (write_string (fst kv) @ '':'' @ (if mode = WM_Pretty then '' '' else [])
          @ write_value mode (Suc d) (snd kv))" using t by (auto simp: write_member_def)
      moreover have "text_start (write_string (fst kv) @ x)" for x
        by (simp add: text_start_def write_string_def is_ws_def)
      ultimately show ?thesis using blank_indent by (metis append_assoc)
    qed
  qed (use assms(1) in simp)
  then obtain u where u: "skip_ws ?text = u" "u \<noteq> []" "length m \<le> Suc (length u)" by auto
  have quote: "hd u = CHR 0x22"
  proof -
    obtain k v m' where m: "m = (k, v) # m'" using assms(1) by (cases m) auto
    have "skip_ws (indent mode (Suc d) @ write_string k @ x) = write_string k @ x" for x
      by (rule skip_blank [OF blank_indent]) (simp add: write_string_def is_ws_def)
    then show ?thesis using u(1) by (auto simp: m commas_Cons write_member_def write_string_def)
  qed
  have "object_loop (Suc (length u)) opt (parse_value opt lv) [] \<lparr> js_rest = ?text, js_nodes = n \<rparr>
    = Some (PE_None, J_Object ([] @ map (\<lambda>kv. (fst kv, reread (snd kv))) m),
        \<lparr> js_rest = rest, js_nodes = n + sum_list (map (\<lambda>kv. json_nodes (snd kv)) m) \<rparr>)"
    by (rule object_loop_written [OF assms(3) u(3) assms(1,4) blank_indent]) (simp_all add: reread_keys [OF assms(2)])
  then have loop: "object_loop (Suc (length u)) opt (parse_value opt lv) [] \<lparr> js_rest = u, js_nodes = n \<rparr>
    = Some (PE_None, reread (J_Object m), \<lparr> js_rest = rest, js_nodes = n + sum_list (map (\<lambda>kv. json_nodes (snd kv)) m) \<rparr>)"
    using object_loop_skip [of "length u" opt "parse_value opt lv" "[]" "\<lparr> js_rest = ?text, js_nodes = n \<rparr>"]
    by (simp only: skip_state_def jstate.simps u(1) append_Nil reread.simps case_prod_beta')
  have step: "step_state \<lparr> js_rest = write_value mode d (J_Object m) @ rest, js_nodes = n \<rparr> = \<lparr> js_rest = ?text, js_nodes = n \<rparr>"
    using assms(1) unfolding write_object by (simp add: step_state_def)
  have skip: "skip_state \<lparr> js_rest = ?text, js_nodes = n \<rparr> = \<lparr> js_rest = u, js_nodes = n \<rparr>"
    by (simp only: skip_state_def jstate.simps u(1))
  have "\<not> starts_with {CHR ''}''} u" using quote by (simp add: starts_with_def)
  then show ?thesis by (simp only: parse_object_def Let_def step skip jstate.simps loop if_False)
qed

lemma reads_back_all:
  "json_depth v \<le> lv \<Longrightarrow> json_ok (po_max_string_bytes opt) v \<Longrightarrow> json_ascii v \<Longrightarrow> reads_back opt (Suc lv) mode v"
proof (induction v arbitrary: lv)
  case (J_String s)
  show ?case
  proof (rule reads_back_dispatch)
    fix d n rest
    have "hd (write_string s @ rest) = CHR 0x22" by (simp add: write_string_def)
    then show "dispatch opt (parse_value opt lv) \<lparr> js_rest = write_value mode d (J_String s) @ rest, js_nodes = Suc n \<rparr>
       = Some (PE_None, reread (J_String s), \<lparr> js_rest = rest, js_nodes = n + json_nodes (J_String s) \<rparr>)"
      using parse_string_written [of s opt rest] J_String by (simp add: dispatch_def)
  qed
next
  case (J_Array a)
  show ?case
  proof (rule reads_back_dispatch)
    fix d n rest
    assume n: "n + json_nodes (J_Array a) \<le> po_max_nodes opt"
    show "dispatch opt (parse_value opt lv) \<lparr> js_rest = write_value mode d (J_Array a) @ rest, js_nodes = Suc n \<rparr>
       = Some (PE_None, reread (J_Array a), \<lparr> js_rest = rest, js_nodes = n + json_nodes (J_Array a) \<rparr>)"
    proof (cases "a = []")
      case True
      then show ?thesis
        by (simp add: dispatch_def parse_array_def skip_state_def step_state_def skip_ws_def is_ws_def starts_with_def)
    next
      case False
      then obtain l where l: "lv = Suc l" using J_Array.prems(1) depth_Array_0 [of a] by (cases lv) auto
      have "json_depth v \<le> l" if "v \<in> set a" for v
        using J_Array.prems(1) that unfolding l depth_Array by blast
      then have child: "reads_back opt lv mode v" if "v \<in> set a" for v
        unfolding l using J_Array.IH [OF that] J_Array.prems(2,3) that by (simp add: list_all_iff)
      show ?thesis
        using parse_array_written [OF False child, of "Suc n" d rest] n by (simp add: dispatch_def Let_def)
    qed
  qed
next
  case (J_Object m)
  show ?case
  proof (rule reads_back_dispatch)
    fix d n rest
    assume n: "n + json_nodes (J_Object m) \<le> po_max_nodes opt"
    show "dispatch opt (parse_value opt lv) \<lparr> js_rest = write_value mode d (J_Object m) @ rest, js_nodes = Suc n \<rparr>
       = Some (PE_None, reread (J_Object m), \<lparr> js_rest = rest, js_nodes = n + json_nodes (J_Object m) \<rparr>)"
    proof (cases "m = []")
      case True
      then show ?thesis
        by (simp add: dispatch_def parse_object_def skip_state_def step_state_def skip_ws_def is_ws_def starts_with_def)
    next
      case False
      then obtain l where l: "lv = Suc l" using J_Object.prems(1) depth_Object_0 [of m] by (cases lv) auto
      have "json_depth (snd kv) \<le> l" if "kv \<in> set m" for kv
        using J_Object.prems(1) that unfolding l depth_Object by fastforce
      then have child: "reads_back opt lv mode (snd kv) \<and> ascii (fst kv) \<and> length (fst kv) \<le> po_max_string_bytes opt"
        if "kv \<in> set m" for kv
        unfolding l using J_Object.IH [of kv "snd kv" l] J_Object.prems(2,3) that
        by (cases kv) (fastforce simp: list_all_iff)
      have ok: "om_ok m" using J_Object.prems(2) by simp
      show ?thesis
        using parse_object_written [OF False ok child, of "Suc n" d rest] n
        by (simp add: dispatch_def Let_def case_prod_beta')
    qed
  qed
qed (simp_all add: reads_back_atom)

lemma parse_dump:
  assumes "json_depth v \<le> po_max_depth opt" and "json_nodes v \<le> po_max_nodes opt"
    and "json_ok (po_max_string_bytes opt) v" and "json_ascii v"
  shows "parse (dump v mode) opt = Some \<lparr> jr_value = reread v, jr_error = PE_None,
     jr_consumed = length (dump v mode), jr_message = [] \<rparr>"
  using reads_backD [OF reads_back_all [OF assms(1,3,4)], of "[]" "[]" 0 mode 0] assms(2)
  by (simp add: parse_def dump_def number_end_punct skip_ws_def del: parse_value.simps)

section \<open>Properties\<close>

text \<open>Values that keep their kind: no doubles but the infinities, negative signed integers, and unsigned
  integers below $2^{63}$.\<close>

fun json_exact :: "json \<Rightarrow> bool" where
  "json_exact (J_Int i) \<longleftrightarrow> sint i < 0"
| "json_exact (J_Uint u) \<longleftrightarrow> uint u < 2 ^ 63"
| "json_exact (J_Double d) \<longleftrightarrow> f64_isinf d"
| "json_exact (J_Array a) \<longleftrightarrow> list_all json_exact a"
| "json_exact (J_Object m) \<longleftrightarrow> list_all (\<lambda>(k, v). json_exact v) m"
| "json_exact _ \<longleftrightarrow> True"

lemma reread_exact: "json_exact v \<Longrightarrow> reread v = v"
proof (induction v)
  case (J_Uint u)
  then show ?case by (simp add: reread_uint_def min_def)
next
  case (J_Array a)
  then show ?case by (simp add: list_all_iff map_idI)
next
  case (J_Object m)
  then show ?case by (auto simp: list_all_iff intro!: map_idI)
qed (auto simp: reread_int_def reread_double_def f64_isinf_def)

text \<open>The loop of \<open>parse_string\<close> on characters that need no escape.\<close>

lemma string_loop_plain:
  "\<forall>c \<in> set p. c < CHR 0x80 \<and> c \<noteq> CHR 0x22 \<and> c \<noteq> CHR 0x5C \<Longrightarrow> length buf + length p \<le> mx \<Longrightarrow>
     string_loop mx buf (p @ s) = string_loop mx (buf @ p) s"
proof (induction p arbitrary: buf)
  case (Cons c p)
  then have c: "c < CHR 0x80" "c \<noteq> CHR 0x22" "c \<noteq> CHR 0x5C" by simp_all
  then have "read_char c (p @ s) = (Some [c], p @ s)" by (simp add: read_char_def not_le)
  then show ?case using Cons.IH [of "buf @ [c]"] Cons.prems c by simp
qed simp

lemma parse_of_string:
  assumes "0 < po_max_nodes opt" and "string_loop (po_max_string_bytes opt) [] s = (None, r)" and "skip_ws r = r"
  shows "parse (CHR 0x22 # s) opt = Some (if r = []
    then \<lparr> jr_value = J_Null, jr_error = PE_None, jr_consumed = Suc (length s), jr_message = [] \<rparr>
    else \<lparr> jr_value = J_Null, jr_error = PE_TrailGarbage, jr_consumed = Suc (length s) - length r,
       jr_message = ''trailing garbage after JSON value'' \<rparr>)"
proof -
  have "skip_ws (CHR 0x22 # s) = CHR 0x22 # s" by (simp add: skip_ws_def is_ws_def)
  moreover have "skip_ws [] = []" by (simp add: skip_ws_def)
  ultimately show ?thesis
    using assms by (simp add: parse_def skip_state_def Let_def dispatch_def parse_string_def starts_with_def)
qed

lemma string_loop_written_prefix:
  "ascii p \<Longrightarrow> length buf + length p \<le> mx \<Longrightarrow>
     string_loop mx buf (concat (map write_char p) @ s) = string_loop mx (buf @ p) s"
proof (induction p arbitrary: buf)
  case (Cons c p)
  then have "c < CHR 0x80" by (simp add: ascii_def)
  then obtain d ds where w: "write_char c = d # ds" "d \<noteq> CHR 0x22"
    and r: "read_char d (ds @ concat (map write_char p) @ s) = (Some [c], concat (map write_char p) @ s)"
    using read_written_char by blast
  show ?case using Cons by (simp add: w r ascii_def)
qed simp


definition ex_json :: json where
  "ex_json = J_Object [(''a'', J_Array [J_Uint 5, J_Int (-1), J_Null]), (''b'', J_String [CHR 0x22, CHR 0x0A, CHR 0x01])]"

lemma ex_json_fits:
  "json_depth ex_json \<le> po_max_depth default_options" "json_nodes ex_json \<le> po_max_nodes default_options"
  "json_ok (po_max_string_bytes default_options) ex_json" "json_ascii ex_json"
  by (simp_all add: ex_json_def default_options_def om_ok_def ascii_def less_char_def)

lemma ex_json_exact: "json_exact ex_json"
  by (simp add: ex_json_def)


text \<open>C25: a value that the parser accepts is nested no deeper than the options allow, has no more values
  and no longer strings and keys than they allow, and the keys of its objects are unique and ordered.\<close>

theorem parse_bounded:
  assumes "parse text opt = Some r" and "jr_error r = PE_None"
  shows "json_depth (jr_value r) \<le> po_max_depth opt \<and> json_nodes (jr_value r) \<le> po_max_nodes opt
    \<and> json_ok (po_max_string_bytes opt) (jr_value r)"
  using parse_sound [of "text" opt] assms by auto

theorem parse_bounded_witness:
  "json_depth ex_json \<le> 128 \<and> json_nodes ex_json \<le> 4 * 2 ^ 20"
proof -
  obtain r where "parse (dump ex_json WM_Pretty) default_options = Some r" "jr_error r = PE_None" "jr_value r = ex_json"
    using parse_dump [OF ex_json_fits, of WM_Pretty] reread_exact [OF ex_json_exact] by simp
  then show ?thesis using parse_bounded [of "dump ex_json WM_Pretty" default_options r] by (simp add: default_options_def)
qed

text \<open>A string that is never closed is accepted as a whole document, with the value null.\<close>

theorem unterminated_string_accepted:
  assumes "0 < po_max_nodes opt" and "length s \<le> po_max_string_bytes opt"
    and "\<forall>c \<in> set s. c < CHR 0x80 \<and> c \<noteq> CHR 0x22 \<and> c \<noteq> CHR 0x5C"
  shows "parse (CHR 0x22 # s) opt = Some \<lparr> jr_value = J_Null, jr_error = PE_None, jr_consumed = Suc (length s), jr_message = [] \<rparr>"
  using parse_of_string [OF assms(1), of s "[]"] string_loop_plain [OF assms(3), of "[]" "po_max_string_bytes opt" "[]"] assms(2)
  by (simp add: skip_ws_def)

theorem unterminated_string_accepted_witness:
  "parse (CHR 0x22 # ''abc'') default_options = Some \<lparr> jr_value = J_Null, jr_error = PE_None, jr_consumed = 4, jr_message = [] \<rparr>"
proof -
  have "\<forall>c \<in> set ''abc''. c < CHR 0x80 \<and> c \<noteq> CHR 0x22 \<and> c \<noteq> CHR 0x5C" by (simp add: less_char_def)
  moreover have "0 < po_max_nodes default_options" by (simp add: default_options_def)
  moreover have "length ''abc'' \<le> po_max_string_bytes default_options" by (simp add: default_options_def)
  ultimately have "parse (CHR 0x22 # ''abc'') default_options = Some \<lparr> jr_value = J_Null, jr_error = PE_None,
      jr_consumed = Suc (length ''abc''), jr_message = [] \<rparr>"
    by (intro unterminated_string_accepted)
  then show ?thesis by simp
qed

text \<open>A string with a character outside ASCII is written as it is, and the parser rejects the text
  that the writer made of it.\<close>

theorem non_ascii_not_read_back:
  assumes "0 < po_max_nodes opt" and "ascii p" and "length p \<le> po_max_string_bytes opt" and "CHR 0x80 \<le> c"
  shows "\<exists>r. parse (dump (J_String (p @ c # q)) mode) opt = Some r \<and> jr_error r = PE_TrailGarbage"
proof -
  let ?r = "c # concat (map write_char q) @ [CHR 0x22]"
  have n: "128 \<le> (of_char c :: nat)" using assms(4) by (simp add: less_eq_char_def)
  then have ne: "c \<noteq> CHR 0x22" "c \<noteq> CHR 0x5C" "\<not> is_ws c" by (auto simp: is_ws_def)
  have "c \<notin> {CHR 0x0A, CHR 0x0D, CHR 0x09, CHR 0x08, CHR 0x0C}" using n by auto
  moreover have "\<not> c < CHR 0x20" using n by (simp add: less_char_def)
  ultimately have esc: "write_char c = [c]" using ne by (simp add: write_char_def)
  have "string_loop (po_max_string_bytes opt) [] (concat (map write_char p) @ ?r) = (None, ?r)"
    using string_loop_written_prefix [OF assms(2), of "[]" "po_max_string_bytes opt" ?r] assms(3,4) ne
    by (simp add: read_char_def)
  then show ?thesis
    using parse_of_string [OF assms(1), of "concat (map write_char p) @ ?r" ?r] ne
    by (simp add: dump_def write_string_def esc skip_ws_def)
qed

theorem non_ascii_not_read_back_witness:
  "\<exists>r. parse (dump (J_String ([CHR ''W''] @ CHR 0xC3 # [CHR 0xA9])) WM_Compact) default_options = Some r
     \<and> jr_error r = PE_TrailGarbage"
  by (rule non_ascii_not_read_back) (simp_all add: default_options_def ascii_def less_char_def less_eq_char_def)

end
