(* ===== verification/TF_Serialization.thy ===== *)
theory TF_Serialization
  imports TF_Snapshot TF_JsonText
begin

text \<open>
  Snapshots as JSON documents (\<open>serialization.cpp\<close>, \<open>serialization.hpp\<close>).

  \<open>deserialize_snapshot_json\<close> may throw a \<open>TopologyError\<close>, and \<open>std::bad_variant_access\<close> from
  \<open>as_string\<close>. The argument \<open>ub\<close> stands for the conversion of a double outside the range of
  \<open>int64_t\<close>, which C++ leaves undefined.
\<close>

section \<open>Writing\<close>

text \<open>An object, filled by one \<open>set\<close> after the other. (The calls of \<open>set\<close> on the shared objects of the program are
  in \<open>TF_Store\<close> and \<open>TF_Document\<close>.)\<close>

definition obj :: "(string \<times> json) list \<Rightarrow> json" where
  "obj kvs = J_Object (fold (\<lambda>(k, v). om_put k v) kvs [])"

fun property_to_json :: "property_value \<Rightarrow> json" where
  "property_to_json PV_Null = J_Null"
| "property_to_json (PV_Bool b) = J_Bool b"
| "property_to_json (PV_Int i) = J_Int i"
| "property_to_json (PV_Uint u) = J_Uint u"
| "property_to_json (PV_Double d) = J_Double d"
| "property_to_json (PV_String s) = J_String s"
| "property_to_json (PV_StringArray a) = J_Array (map J_String a)"
| "property_to_json (PV_IntArray a) = J_Array (map J_Int a)"

definition optional_uint :: "'a::len word option \<Rightarrow> json" where
  "optional_uint v = (case v of Some w \<Rightarrow> J_Uint (ucast w) | None \<Rightarrow> J_Null)"

definition native_to_json :: "native_identity \<Rightarrow> json" where
  "native_to_json n = obj
     [(''pci_domain'', optional_uint (ni_pci_domain n)), (''pci_bus'', optional_uint (ni_pci_bus n)),
      (''pci_device'', optional_uint (ni_pci_device n)), (''pci_function'', optional_uint (ni_pci_function n)),
      (''vendor_id'', optional_uint (ni_vendor_id n)), (''device_id'', optional_uint (ni_device_id n)),
      (''subsystem_id'', optional_uint (ni_subsystem_id n)),
      (''subsystem_vendor_id'', optional_uint (ni_subsystem_vendor_id n)),
      (''numa_node'', optional_uint (ni_numa_node n)), (''cpu_package'', optional_uint (ni_cpu_package n)),
      (''core_id'', optional_uint (ni_core_id n)), (''processor_group'', optional_uint (ni_processor_group n)),
      (''logical_processor_index'', optional_uint (ni_logical_processor_index n)),
      (''cuda_ordinal'', optional_uint (ni_cuda_ordinal n)), (''cuda_uuid'', J_String (ni_cuda_uuid n)),
      (''name'', J_String (ni_name n)), (''network_interface_name'', J_String (ni_network_interface_name n)),
      (''network_hardware_id'', J_String (ni_network_hardware_id n)), (''storage_id'', J_String (ni_storage_id n)),
      (''storage_device_path'', J_String (ni_storage_device_path n)), (''machine_name'', J_String (ni_machine_name n)),
      (''os_version'', J_String (ni_os_version n))]"

definition provenance_to_json :: "provenance \<Rightarrow> json" where
  "provenance_to_json p = obj
     [(''kind'', J_String (provenance_kind_to_string (pr_kind p))),
      (''confidence'', J_String (confidence_to_string (pr_confidence p))), (''provider'', J_String (pr_provider p)),
      (''api'', J_String (pr_api p)), (''detail'', J_String (pr_detail p)), (''timestamp_ms'', J_Int (pr_timestamp_ms p)),
      (''schema_version'', J_String (pr_schema_version p)), (''provider_version'', J_String (pr_provider_version p))]"

definition properties_to_json :: "property_map \<Rightarrow> json" where
  "properties_to_json ps = obj (map (\<lambda>(k, v). (k, property_to_json v)) ps)"

definition node_to_json :: "node_id \<Rightarrow> topology_node \<Rightarrow> json" where
  "node_to_json i n = obj
     [(''id'', J_String (to_hex i)), (''type'', J_String (node_type_to_string (n_type n))),
      (''category'', J_String (n_category n)), (''name'', J_String (n_name n)),
      (''display_name'', J_String (n_display_name n)), (''native'', native_to_json (n_native n)),
      (''capabilities'', J_Uint (n_capabilities n)), (''confidence'', J_String (confidence_to_string (n_confidence n))),
      (''provenance'', provenance_to_json (n_provenance n)), (''synthetic'', J_Bool (n_synthetic n)),
      (''properties'', properties_to_json (n_properties n))]"

text \<open>A field that is set only when the edge has it.\<close>

definition optional_field :: "string \<Rightarrow> ('a \<Rightarrow> json) \<Rightarrow> 'a option \<Rightarrow> (string \<times> json) list" where
  "optional_field k f v = (case v of Some x \<Rightarrow> [(k, f x)] | None \<Rightarrow> [])"

definition edge_to_json :: "topology_edge \<Rightarrow> json" where
  "edge_to_json e = obj
     ([(''source'', J_String (to_hex (e_source e))), (''target'', J_String (to_hex (e_target e))),
       (''type'', J_String (edge_type_to_string (e_type e))),
       (''direction'', J_String (edge_direction_to_string (e_direction e))),
       (''confidence'', J_String (confidence_to_string (e_confidence e))),
       (''provenance'', provenance_to_json (e_provenance e))]
      @ optional_field ''width'' (\<lambda>w. J_Uint (scast w)) (e_width e)
      @ optional_field ''pcie_generation'' (\<lambda>w. J_Uint (scast w)) (e_pcie_generation e)
      @ optional_field ''bandwidth_bps'' J_Double (e_bandwidth_bytes_per_sec e)
      @ optional_field ''latency_ns'' J_Double (e_latency_ns e)
      @ [(''hop_count'', J_Int (scast (e_hop_count e)))]
      @ optional_field ''locality_score'' J_Double (e_locality_score e)
      @ [(''accessible'', J_Bool (e_accessible e))]
      @ optional_field ''peer_capability'' J_Uint (e_peer_capability e)
      @ [(''policy_version'', J_Uint (ucast (e_policy_version e))),
         (''properties'', properties_to_json (e_properties e))])"

text \<open>The edges are sorted by their ends and the number of their type. The order of edges that agree in
  all three is left open by \<open>std::sort\<close>; here it is the one they have in the snapshot.\<close>

fun edge_type_value :: "edge_type \<Rightarrow> nat" where
  "edge_type_value ET_CONTAINS = 0"
| "edge_type_value ET_ATTACHED_TO = 1"
| "edge_type_value ET_CONNECTED_TO = 2"
| "edge_type_value ET_LOCAL_TO = 3"
| "edge_type_value ET_PEER_TO = 4"
| "edge_type_value ET_SHARES_PARENT = 5"
| "edge_type_value ET_SHARES_NUMA = 6"
| "edge_type_value ET_ROUTES_THROUGH = 7"
| "edge_type_value ET_ACCESSIBLE_FROM = 8"
| "edge_type_value ET_AFFINE_TO = 9"

definition edge_before :: "topology_edge \<Rightarrow> topology_edge \<Rightarrow> bool" where
  "edge_before a b \<longleftrightarrow>
     (if e_source a \<noteq> e_source b then e_source a < e_source b
      else if e_target a \<noteq> e_target b then e_target a < e_target b
      else edge_type_value (e_type a) < edge_type_value (e_type b))"

definition kSnapshotSchemaVersion :: string where
  "kSnapshotSchemaVersion = ''1.0.0''"

definition format_name :: string where
  "format_name = ''topology_fabric_snapshot''"

definition validation_to_json :: "validation_result \<Rightarrow> json" where
  "validation_to_json v = obj
     [(''ok'', J_Bool (v_ok v)), (''errors'', J_Array (map J_String (v_errors v))),
      (''warnings'', J_Array (map J_String (v_warnings v)))]"

definition snapshot_to_json :: "topology_snapshot \<Rightarrow> json tresult" where
  "snapshot_to_json s =
     tbind (tmap (\<lambda>i. tbind (snap_node s i) (\<lambda>n. Inr (node_to_json i n))) (sort_by (<) (um_keys (s_nodes s))))
       (\<lambda>nodes. let m = s_metadata s in Inr (obj
         [(''schema'', J_String kSnapshotSchemaVersion), (''snapshot_id'', J_String (m_snapshot_id m)),
          (''generation'', J_Uint (m_generation m)), (''created_ms'', J_Int (m_created_ms m)),
          (''machine_identity'', J_String (m_machine_identity m)),
          (''provider_versions'', J_String (m_provider_versions m)), (''format'', J_String format_name),
          (''nodes'', J_Array nodes), (''edges'', J_Array (map edge_to_json (sort_by edge_before (s_edges s)))),
          (''warnings'', J_Array (map J_String (m_warnings m))),
          (''partial_discovery'', J_Bool (m_partial_discovery m)), (''synthetic'', J_Bool (m_synthetic m)),
          (''validation'', validation_to_json (s_validation s))]))"

definition serialize_snapshot_json :: "topology_snapshot \<Rightarrow> bool \<Rightarrow> string tresult" where
  "serialize_snapshot_json s pretty =
     tbind (snapshot_to_json s) (\<lambda>v. Inr (dump v (if pretty then WM_Pretty else WM_Compact)))"

section \<open>Reading\<close>

text \<open>What \<open>deserialize_snapshot_json\<close> may throw.\<close>

datatype exception = E_Topology terror | E_BadVariant

type_synonym 'a eresult = "exception + 'a"

fun ebind :: "'a eresult \<Rightarrow> ('a \<Rightarrow> 'b eresult) \<Rightarrow> 'b eresult" where
  "ebind (Inl e) f = Inl e"
| "ebind (Inr x) f = f x"

definition raise_code :: "error_code \<Rightarrow> string \<Rightarrow> 'a eresult" where
  "raise_code c msg = Inl (E_Topology (TopologyError c msg))"

fun all_strings :: "json list \<Rightarrow> string list eresult" where
  "all_strings [] = Inr []"
| "all_strings (v # vs) = (case j_as_string v of
     None \<Rightarrow> Inl E_BadVariant
   | Some s \<Rightarrow> ebind (all_strings vs) (\<lambda>ss. Inr (s # ss)))"

definition property_of_array :: "(f64 \<Rightarrow> 64 word) \<Rightarrow> json list \<Rightarrow> property_value eresult" where
  "property_of_array ub a =
     (if a \<noteq> [] \<and> j_as_string (hd a) \<noteq> None
      then ebind (all_strings a) (\<lambda>sv. Inr (PV_StringArray sv))
      else Inr (PV_IntArray (map (j_integer ub) a)))"

fun property_from_json :: "(f64 \<Rightarrow> 64 word) \<Rightarrow> json \<Rightarrow> property_value eresult" where
  "property_from_json ub J_Null = Inr PV_Null"
| "property_from_json ub (J_Bool b) = Inr (PV_Bool b)"
| "property_from_json ub (J_Int i) = Inr (PV_Int i)"
| "property_from_json ub (J_Uint u) = Inr (PV_Uint u)"
| "property_from_json ub (J_Double d) = Inr (PV_Double d)"
| "property_from_json ub (J_String s) = Inr (PV_String s)"
| "property_from_json ub (J_Array a) = property_of_array ub a"
| "property_from_json ub (J_Object m) = Inr PV_Null"

fun read_properties :: "(f64 \<Rightarrow> 64 word) \<Rightarrow> json omap \<Rightarrow> property_map \<Rightarrow> property_map eresult" where
  "read_properties ub [] ps = Inr ps"
| "read_properties ub ((k, v) # m) ps =
     ebind (property_from_json ub v) (\<lambda>pv. read_properties ub m (fst (om_emplace k pv ps)))"

text \<open>A field of an object when it has the wanted kind, otherwise the value that is there already.\<close>

definition string_field :: "json \<Rightarrow> string \<Rightarrow> string \<Rightarrow> string" where
  "string_field jo k d = (case j_find jo k of Some v \<Rightarrow> value_or (j_as_string v) d | None \<Rightarrow> d)"

definition bool_field :: "json \<Rightarrow> string \<Rightarrow> bool \<Rightarrow> bool" where
  "bool_field jo k d = (case j_find jo k of Some v \<Rightarrow> value_or (j_as_bool v) d | None \<Rightarrow> d)"

definition enum_field :: "json \<Rightarrow> string \<Rightarrow> (string \<Rightarrow> 'a) \<Rightarrow> 'a \<Rightarrow> 'a" where
  "enum_field jo k f d = (case j_find jo k of Some v \<Rightarrow> value_or (map_option f (j_as_string v)) d | None \<Rightarrow> d)"

definition number_field :: "json \<Rightarrow> string \<Rightarrow> (json \<Rightarrow> 'a) \<Rightarrow> 'a \<Rightarrow> 'a" where
  "number_field jo k f d = (case j_find jo k of Some v \<Rightarrow> if j_is_number v then f v else d | None \<Rightarrow> d)"

definition optional_number :: "json \<Rightarrow> string \<Rightarrow> (json \<Rightarrow> 'a) \<Rightarrow> 'a option" where
  "optional_number jo k f = number_field jo k (\<lambda>v. Some (f v)) None"

definition properties_field :: "(f64 \<Rightarrow> 64 word) \<Rightarrow> json \<Rightarrow> property_map eresult" where
  "properties_field ub jo = (case j_find jo ''properties'' of
     None \<Rightarrow> Inr []
   | Some v \<Rightarrow> (case j_as_object v of None \<Rightarrow> Inr [] | Some m \<Rightarrow> read_properties ub m []))"

text \<open>\<open>opt_u16\<close> and \<open>opt_u32\<close>.\<close>

definition opt_word :: "(f64 \<Rightarrow> 64 word) \<Rightarrow> json \<Rightarrow> string \<Rightarrow> 'a::len word option" where
  "opt_word ub jo k = (case j_find jo k of
     None \<Rightarrow> None | Some p \<Rightarrow> if j_is_null p then None else Some (ucast (j_integer ub p)))"

definition native_from_json :: "(f64 \<Rightarrow> 64 word) \<Rightarrow> json \<Rightarrow> native_identity" where
  "native_from_json ub jo =
     (if j_as_object jo = None then default_native
      else \<lparr> ni_pci_domain = opt_word ub jo ''pci_domain'', ni_pci_bus = opt_word ub jo ''pci_bus'',
        ni_pci_device = opt_word ub jo ''pci_device'', ni_pci_function = opt_word ub jo ''pci_function'',
        ni_vendor_id = opt_word ub jo ''vendor_id'', ni_device_id = opt_word ub jo ''device_id'',
        ni_subsystem_id = opt_word ub jo ''subsystem_id'',
        ni_subsystem_vendor_id = opt_word ub jo ''subsystem_vendor_id'',
        ni_numa_node = opt_word ub jo ''numa_node'', ni_cpu_package = opt_word ub jo ''cpu_package'',
        ni_core_id = opt_word ub jo ''core_id'', ni_processor_group = opt_word ub jo ''processor_group'',
        ni_logical_processor_index = opt_word ub jo ''logical_processor_index'',
        ni_cuda_ordinal = opt_word ub jo ''cuda_ordinal'', ni_cuda_uuid = string_field jo ''cuda_uuid'' [],
        ni_name = string_field jo ''name'' [], ni_network_interface_name = string_field jo ''network_interface_name'' [],
        ni_network_hardware_id = string_field jo ''network_hardware_id'' [], ni_storage_id = string_field jo ''storage_id'' [],
        ni_storage_device_path = string_field jo ''storage_device_path'' [],
        ni_machine_name = string_field jo ''machine_name'' [], ni_os_version = string_field jo ''os_version'' [] \<rparr>)"

definition provenance_from_json :: "(f64 \<Rightarrow> 64 word) \<Rightarrow> json \<Rightarrow> provenance" where
  "provenance_from_json ub jo =
     (if j_as_object jo = None then provenance_unknown
      else (let p = provenance_unknown in
        \<lparr> pr_kind = enum_field jo ''kind'' provenance_kind_from_string (pr_kind p),
          pr_confidence = enum_field jo ''confidence'' confidence_from_string (pr_confidence p),
          pr_provider = string_field jo ''provider'' (pr_provider p), pr_api = string_field jo ''api'' (pr_api p),
          pr_detail = string_field jo ''detail'' (pr_detail p),
          pr_timestamp_ms = number_field jo ''timestamp_ms'' (j_integer ub) (pr_timestamp_ms p),
          pr_schema_version = string_field jo ''schema_version'' (pr_schema_version p),
          pr_provider_version = string_field jo ''provider_version'' (pr_provider_version p) \<rparr>))"

definition id_field :: "json \<Rightarrow> string \<Rightarrow> node_id option" where
  "id_field jo k = (case j_find jo k of None \<Rightarrow> None
     | Some v \<Rightarrow> (case j_as_string v of None \<Rightarrow> None | Some s \<Rightarrow> try_from_hex s))"

definition node_from_json :: "(f64 \<Rightarrow> 64 word) \<Rightarrow> json \<Rightarrow> topology_node eresult" where
  "node_from_json ub nv =
     (if j_as_object nv = None then raise_code EC_MALFORMED_DATA ''node entry must be object''
      else (case id_field nv ''id'' of
          None \<Rightarrow> raise_code EC_MALFORMED_DATA ''node missing/invalid id''
        | Some i \<Rightarrow> (let d = default_node in
            ebind (properties_field ub nv) (\<lambda>ps. Inr
              \<lparr> n_id = i, n_type = enum_field nv ''type'' node_type_from_string (n_type d),
                n_category = string_field nv ''category'' (n_category d), n_name = string_field nv ''name'' (n_name d),
                n_display_name = string_field nv ''display_name'' (n_display_name d),
                n_native = (case j_find nv ''native'' of Some v \<Rightarrow> native_from_json ub v | None \<Rightarrow> n_native d),
                n_capabilities = number_field nv ''capabilities'' (j_integer ub) (n_capabilities d),
                n_properties = ps,
                n_provenance = (case j_find nv ''provenance'' of
                    Some v \<Rightarrow> provenance_from_json ub v | None \<Rightarrow> n_provenance d),
                n_confidence = enum_field nv ''confidence'' confidence_from_string (n_confidence d),
                n_synthetic = bool_field nv ''synthetic'' (n_synthetic d) \<rparr>))))"

definition edge_from_json :: "(f64 \<Rightarrow> 64 word) \<Rightarrow> json \<Rightarrow> topology_edge eresult" where
  "edge_from_json ub ev =
     (if j_as_object ev = None then raise_code EC_MALFORMED_DATA ''edge entry must be object''
      else (case (id_field ev ''source'', id_field ev ''target'') of
          (Some s, Some t) \<Rightarrow> (let d = default_edge in
            ebind (properties_field ub ev) (\<lambda>ps. Inr
              \<lparr> e_source = s, e_target = t, e_type = enum_field ev ''type'' edge_type_from_string (e_type d),
                e_direction = enum_field ev ''direction'' edge_direction_from_string (e_direction d),
                e_provenance = (case j_find ev ''provenance'' of
                    Some v \<Rightarrow> provenance_from_json ub v | None \<Rightarrow> e_provenance d),
                e_confidence = enum_field ev ''confidence'' confidence_from_string (e_confidence d),
                e_width = optional_number ev ''width'' (\<lambda>v. ucast (j_integer ub v)),
                e_pcie_generation = optional_number ev ''pcie_generation'' (\<lambda>v. ucast (j_integer ub v)),
                e_bandwidth_bytes_per_sec = optional_number ev ''bandwidth_bps'' j_number,
                e_latency_ns = optional_number ev ''latency_ns'' j_number,
                e_hop_count = number_field ev ''hop_count'' (\<lambda>v. ucast (j_integer ub v)) (e_hop_count d),
                e_locality_score = optional_number ev ''locality_score'' j_number,
                e_accessible = bool_field ev ''accessible'' (e_accessible d),
                e_peer_capability = optional_number ev ''peer_capability'' (j_integer ub),
                e_policy_version = number_field ev ''policy_version'' (\<lambda>v. ucast (j_integer ub v)) (e_policy_version d),
                e_properties = ps \<rparr>))
        | _ \<Rightarrow> raise_code EC_MALFORMED_DATA ''edge missing/invalid endpoint''))"

fun read_nodes :: "(f64 \<Rightarrow> 64 word) \<Rightarrow> bounds \<Rightarrow> nat \<Rightarrow> json list \<Rightarrow> snapshot_builder \<Rightarrow> snapshot_builder eresult" where
  "read_nodes ub bounds cnt [] b = Inr b"
| "read_nodes ub bounds cnt (nv # nvs) b =
     (if b_max_nodes bounds < Suc cnt then raise_code EC_OVERSIZED ''node count exceeds bound''
      else ebind (node_from_json ub nv) (\<lambda>n. read_nodes ub bounds (Suc cnt) nvs (fst (add_node n b))))"

fun read_edges :: "(f64 \<Rightarrow> 64 word) \<Rightarrow> bounds \<Rightarrow> nat \<Rightarrow> json list \<Rightarrow> snapshot_builder \<Rightarrow> snapshot_builder eresult" where
  "read_edges ub bounds cnt [] b = Inr b"
| "read_edges ub bounds cnt (ev # evs) b =
     (if b_max_edges bounds < Suc cnt then raise_code EC_OVERSIZED ''edge count exceeds bound''
      else ebind (edge_from_json ub ev) (\<lambda>e. read_edges ub bounds (Suc cnt) evs (fst (add_edge e b))))"

definition read_metadata :: "(f64 \<Rightarrow> 64 word) \<Rightarrow> json \<Rightarrow> snapshot_metadata" where
  "read_metadata ub doc = (let d = default_metadata in
     \<lparr> m_snapshot_id = string_field doc ''snapshot_id'' (m_snapshot_id d),
       m_generation = number_field doc ''generation'' (j_integer ub) (m_generation d),
       m_created_ms = number_field doc ''created_ms'' (j_integer ub) (m_created_ms d),
       m_machine_identity = string_field doc ''machine_identity'' (m_machine_identity d),
       m_schema_version = string_field doc ''schema'' kSnapshotSchemaVersion,
       m_provider_versions = string_field doc ''provider_versions'' (m_provider_versions d),
       m_partial_discovery = bool_field doc ''partial_discovery'' (m_partial_discovery d),
       m_synthetic = bool_field doc ''synthetic'' (m_synthetic d),
       m_warnings = (case j_find doc ''warnings'' of
           Some v \<Rightarrow> (case j_as_array v of Some a \<Rightarrow> List.map_filter j_as_string a | None \<Rightarrow> [])
         | None \<Rightarrow> []) \<rparr>)"

definition array_field :: "json \<Rightarrow> string \<Rightarrow> json list option" where
  "array_field jo k = (case j_find jo k of None \<Rightarrow> None | Some v \<Rightarrow> j_as_array v)"

definition build_from_json :: "(f64 \<Rightarrow> 64 word) \<Rightarrow> json \<Rightarrow> bounds \<Rightarrow> topology_snapshot eresult" where
  "build_from_json ub doc bounds =
     (if j_as_object doc = None then raise_code EC_MALFORMED_DATA ''snapshot root must be an object''
      else if string_field doc ''format'' [] \<noteq> format_name
      then raise_code EC_MALFORMED_DATA ''not a topology_fabric_snapshot document''
      else (case array_field doc ''nodes'' of
          None \<Rightarrow> raise_code EC_MALFORMED_DATA ''snapshot missing nodes array''
        | Some nodes \<Rightarrow> ebind (read_nodes ub bounds 0 nodes (new_builder bounds)) (\<lambda>b.
            (case array_field doc ''edges'' of
                None \<Rightarrow> raise_code EC_MALFORMED_DATA ''snapshot missing edges array''
              | Some edges \<Rightarrow> ebind (read_edges ub bounds 0 edges b) (\<lambda>b.
                  (case take_snapshot (set_metadata (read_metadata ub doc) b) of
                      Inl e \<Rightarrow> Inl (E_Topology e)
                    | Inr (b, s) \<Rightarrow> Inr s))))))"

definition deserialize_snapshot_json ::
  "(f64 \<Rightarrow> 64 word) \<Rightarrow> string \<Rightarrow> bounds \<Rightarrow> topology_snapshot eresult option" where
  "deserialize_snapshot_json ub json_text bounds =
     (case parse json_text default_options of
        None \<Rightarrow> None
      | Some r \<Rightarrow> Some
          (if jr_error r \<noteq> PE_None then raise_code EC_MALFORMED_DATA (''malformed JSON: '' @ jr_message r)
           else if b_max_snapshot_bytes bounds < length json_text
           then raise_code EC_OVERSIZED ''serialized snapshot exceeds bound''
           else build_from_json ub (jr_value r) bounds))"

text \<open>\<open>import_synthetic_json\<close> leaves the flag as the document has it.\<close>

definition import_synthetic_json ::
  "(f64 \<Rightarrow> 64 word) \<Rightarrow> string \<Rightarrow> bounds \<Rightarrow> topology_snapshot eresult option" where
  "import_synthetic_json ub json_text bounds = deserialize_snapshot_json ub json_text bounds"

section \<open>Objects\<close>

lemma obj_object: "obj kvs = J_Object (fold (\<lambda>(k, v). om_put k v) kvs [])"
  by (simp add: obj_def)

lemma om_ok_fold: "om_ok m \<Longrightarrow> om_ok (fold (\<lambda>(k, v). om_put k v) kvs m)"
  by (induction kvs arbitrary: m) (auto simp: om_ok_put)

lemma om_find_fold: "om_ok m \<Longrightarrow> om_find (fold (\<lambda>(k, v). om_put k v) kvs m) k
    = (case map_of (rev kvs) k of Some v \<Rightarrow> Some v | None \<Rightarrow> om_find m k)"
proof (induction kvs arbitrary: m)
  case (Cons kv kvs)
  then show ?case
    by (cases kv) (simp add: om_ok_put om_find_put map_add_def split: option.splits)
qed simp

lemma om_ok_Nil [simp]: "om_ok []"
  by (simp add: om_ok_def)

lemma om_find_Nil [simp]: "om_find [] k = None"
  by (simp add: om_find_def)

lemma j_find_obj: "j_find (obj kvs) k = map_of (rev kvs) k"
  by (simp add: j_find_def obj_object om_find_fold split: option.splits)

lemma obj_is_object [simp]: "j_as_object (obj kvs) \<noteq> None"
  by (simp add: obj_object)

lemma fold_put_set: "set (fold (\<lambda>(k, v). om_put k v) kvs m) \<subseteq> set kvs \<union> set m"
proof (induction kvs arbitrary: m)
  case (Cons kv kvs)
  obtain k v where "kv = (k, v)" by (cases kv)
  then show ?case using Cons [of "om_put k v m"] om_put_set [of k v m] by auto
qed simp

lemma om_put_map: "om_put k (f v) (map (\<lambda>(k, v). (k, f v)) m) = map (\<lambda>(k, v). (k, f v)) (om_put k v m)"
  by (induction k v m rule: om_put.induct) auto

lemma j_find_reread: "j_find (reread v) k = map_option reread (j_find v k)"
proof -
  have "map_of (map (\<lambda>(k, v). (k, reread v)) m) k = map_option reread (map_of m k)" for m
    by (induction m) auto
  then show ?thesis
    by (cases v) (simp_all add: j_find_def om_find_def reread_int_def reread_uint_def reread_double_def Let_def)
qed

lemma reread_object: "j_as_object (reread v) = None \<longleftrightarrow> j_as_object v = None"
  by (cases v) (simp_all add: reread_int_def reread_uint_def reread_double_def Let_def)

lemma optional_lookup: "map_of (rev (optional_field k f v)) k' = (if k' = k then map_option f v else None)"
  by (cases v) (auto simp: optional_field_def)

section \<open>Numbers\<close>

lemma integer_reread_int [simp]: "j_integer ub (reread_int i) = i"
  by (simp add: reread_int_def)

lemma number_reread_int [simp]: "j_is_number (reread_int i)"
  by (simp add: reread_int_def)

lemma reread_uint_small: "uint u < 2 ^ 63 \<Longrightarrow> reread_uint u = J_Uint u"
  by (simp add: reread_uint_def min_def)

lemma ucast_small: "LENGTH('a) \<le> 32 \<Longrightarrow> uint (ucast (w :: 'a::len word) :: 64 word) < 2 ^ 63"
proof -
  assume a: "LENGTH('a) \<le> 32"
  have "uint (ucast w :: 64 word) = uint w" by (rule uint_up_ucast) (use a in \<open>simp add: is_up\<close>)
  also have "\<dots> < 2 ^ LENGTH('a)" by (rule uint_lt2p)
  also have "\<dots> \<le> 2 ^ 63" by (rule power_increasing) (use a in simp_all)
  finally show ?thesis .
qed

lemma ucast_back: "LENGTH('a) \<le> 32 \<Longrightarrow> ucast (ucast (w :: 'a::len word) :: 64 word) = w"
  by (rule ucast_up_ucast_id) (simp add: is_up)

lemma opt_word_read:
  assumes "LENGTH('a) \<le> 32" and "j_find v k = Some (optional_uint (x :: 'a::len word option))"
  shows "opt_word ub (reread v) k = x"
proof (cases x)
  case (Some a)
  have "reread_uint (ucast a) = J_Uint (ucast a)" by (rule reread_uint_small [OF ucast_small [OF assms(1)]])
  then show ?thesis using assms(2) Some by (simp add: opt_word_def j_find_reread optional_uint_def ucast_back [OF assms(1)])
qed (use assms in \<open>simp add: opt_word_def j_find_reread optional_uint_def\<close>)

section \<open>Provenance and identity\<close>

lemmas field_defs = string_field_def bool_field_def enum_field_def number_field_def optional_number_def j_find_reread value_or_def

lemmas codecs = node_type_codec.dec_enc edge_type_codec.dec_enc edge_direction_codec.dec_enc
  provenance_kind_codec.dec_enc confidence_codec.dec_enc

lemma provenance_read: "provenance_from_json ub (reread (provenance_to_json p)) = p"
proof -
  let ?v = "provenance_to_json p"
  have f: "j_find ?v ''kind'' = Some (J_String (provenance_kind_to_string (pr_kind p)))"
    "j_find ?v ''confidence'' = Some (J_String (confidence_to_string (pr_confidence p)))"
    "j_find ?v ''provider'' = Some (J_String (pr_provider p))" "j_find ?v ''api'' = Some (J_String (pr_api p))"
    "j_find ?v ''detail'' = Some (J_String (pr_detail p))" "j_find ?v ''timestamp_ms'' = Some (J_Int (pr_timestamp_ms p))"
    "j_find ?v ''schema_version'' = Some (J_String (pr_schema_version p))"
    "j_find ?v ''provider_version'' = Some (J_String (pr_provider_version p))"
    by (simp_all add: provenance_to_json_def j_find_obj)
  obtain m where m: "j_as_object (reread ?v) = Some m"
    using reread_object [of ?v] obj_is_object unfolding provenance_to_json_def by blast
  show ?thesis
    by (simp add: m provenance_from_json_def Let_def field_defs f codecs)
qed

lemma native_read: "native_from_json ub (reread (native_to_json n)) = n"
proof -
  let ?v = "native_to_json n"
  note ev = native_to_json_def j_find_obj
  have w16: "j_find ?v ''pci_domain'' = Some (optional_uint (ni_pci_domain n))"
    "j_find ?v ''pci_bus'' = Some (optional_uint (ni_pci_bus n))"
    "j_find ?v ''pci_device'' = Some (optional_uint (ni_pci_device n))"
    "j_find ?v ''pci_function'' = Some (optional_uint (ni_pci_function n))"
    "j_find ?v ''vendor_id'' = Some (optional_uint (ni_vendor_id n))"
    "j_find ?v ''device_id'' = Some (optional_uint (ni_device_id n))"
    "j_find ?v ''subsystem_id'' = Some (optional_uint (ni_subsystem_id n))"
    "j_find ?v ''subsystem_vendor_id'' = Some (optional_uint (ni_subsystem_vendor_id n))"
    by (simp_all add: ev)
  have w32: "j_find ?v ''numa_node'' = Some (optional_uint (ni_numa_node n))"
    "j_find ?v ''cpu_package'' = Some (optional_uint (ni_cpu_package n))"
    "j_find ?v ''core_id'' = Some (optional_uint (ni_core_id n))"
    "j_find ?v ''processor_group'' = Some (optional_uint (ni_processor_group n))"
    "j_find ?v ''logical_processor_index'' = Some (optional_uint (ni_logical_processor_index n))"
    "j_find ?v ''cuda_ordinal'' = Some (optional_uint (ni_cuda_ordinal n))"
    by (simp_all add: ev)
  have str: "j_find ?v ''cuda_uuid'' = Some (J_String (ni_cuda_uuid n))"
    "j_find ?v ''name'' = Some (J_String (ni_name n))"
    "j_find ?v ''network_interface_name'' = Some (J_String (ni_network_interface_name n))"
    "j_find ?v ''network_hardware_id'' = Some (J_String (ni_network_hardware_id n))"
    "j_find ?v ''storage_id'' = Some (J_String (ni_storage_id n))"
    "j_find ?v ''storage_device_path'' = Some (J_String (ni_storage_device_path n))"
    "j_find ?v ''machine_name'' = Some (J_String (ni_machine_name n))"
    "j_find ?v ''os_version'' = Some (J_String (ni_os_version n))"
    by (simp_all add: ev)
  obtain m where m: "j_as_object (reread ?v) = Some m"
    using reread_object [of ?v] obj_is_object unfolding native_to_json_def by blast
  show ?thesis
    by (simp add: m native_from_json_def w16 [THEN opt_word_read [rotated]] w32 [THEN opt_word_read [rotated]] field_defs str)
qed

section \<open>Properties\<close>

text \<open>The property values that are read back as they are: an integer keeps its type only when its sign
  tells it, a double when its text does, and an empty string array becomes an empty integer array.\<close>

definition text_ok :: "string \<Rightarrow> bool" where
  "text_ok s \<longleftrightarrow> ascii s \<and> length s \<le> po_max_string_bytes default_options"

fun portable :: "property_value \<Rightarrow> bool" where
  "portable (PV_Int i) \<longleftrightarrow> sint i < 0"
| "portable (PV_Uint u) \<longleftrightarrow> uint u < 2 ^ 63"
| "portable (PV_Double d) \<longleftrightarrow> reread_double d = J_Double d"
| "portable (PV_String s) \<longleftrightarrow> text_ok s"
| "portable (PV_StringArray a) \<longleftrightarrow> a \<noteq> [] \<and> list_all text_ok a"
| "portable _ \<longleftrightarrow> True"

lemma all_strings_read: "all_strings (map J_String ss) = Inr ss"
  by (induction ss) simp_all

lemma property_read: "portable pv \<Longrightarrow> property_from_json ub (reread (property_to_json pv)) = Inr pv"
proof (cases pv)
  case (PV_StringArray a)
  moreover assume "portable pv"
  ultimately show ?thesis
    using all_strings_read [of a] by (cases a) (simp_all add: property_of_array_def comp_def)
next
  case (PV_IntArray a)
  have "\<not> (a \<noteq> [] \<and> j_as_string (reread_int (hd a)) \<noteq> None)" by (simp add: reread_int_def)
  then show ?thesis using PV_IntArray by (cases a) (simp_all add: property_of_array_def comp_def)
qed (simp_all add: reread_int_def reread_uint_small)

definition properties_ok :: "property_map \<Rightarrow> bool" where
  "properties_ok ps \<longleftrightarrow> om_ok ps \<and> (\<forall>(k, v) \<in> set ps. text_ok k \<and> portable v)"

lemma om_emplace_last:
  assumes "om_ok (m @ [(k, w)])"
  shows "fst (om_emplace k v m) = m @ [(k, v)]"
  using assms
proof (induction m)
  case (Cons a m)
  obtain k' v' where a: "a = (k', v')" by (cases a)
  have "k' < k" using Cons.prems by (simp add: om_ok_def sorted_wrt_append a)
  moreover have "fst (om_emplace k v m) = m @ [(k, v)]" using Cons by (simp add: om_ok_def)
  ultimately show ?case by (auto simp: a case_prod_beta Let_def)
qed simp

lemma obj_sorted: "om_ok kvs \<Longrightarrow> obj kvs = J_Object kvs"
proof -
  have "om_ok (m @ kvs) \<Longrightarrow> fold (\<lambda>(k, v). om_put k v) kvs m = m @ kvs" for m
  proof (induction kvs arbitrary: m)
    case (Cons kv kvs)
    obtain k v where kv: "kv = (k, v)" by (cases kv)
    have "om_put k v m = m @ [(k, v)]"
      by (rule om_put_last [of _ _ v]) (use Cons.prems in \<open>simp add: kv om_ok_def sorted_wrt_append\<close>)
    then show ?case using Cons.IH [of "m @ [(k, v)]"] Cons.prems by (simp add: kv)
  qed simp
  then show "om_ok kvs \<Longrightarrow> obj kvs = J_Object kvs" by (simp add: obj_object)
qed

lemma read_properties_read:
  "om_ok (qs @ ps) \<Longrightarrow> \<forall>(k, v) \<in> set ps. portable v \<Longrightarrow>
     read_properties ub (map (\<lambda>(k, v). (k, reread (property_to_json v))) ps) qs = Inr (qs @ ps)"
proof (induction ps arbitrary: qs)
  case (Cons kv ps)
  obtain k v where kv: "kv = (k, v)" by (cases kv)
  have "fst (om_emplace k v qs) = qs @ [(k, v)]"
    by (rule om_emplace_last [of _ _ v]) (use Cons.prems in \<open>simp add: kv om_ok_def sorted_wrt_append\<close>)
  moreover have "property_from_json ub (reread (property_to_json v)) = Inr v"
    using Cons.prems(2) by (simp add: kv property_read)
  ultimately show ?case using Cons.IH [of "qs @ [(k, v)]"] Cons.prems by (simp add: kv)
qed simp

lemma properties_read:
  assumes "j_find v ''properties'' = Some (properties_to_json ps)" and "properties_ok ps"
  shows "properties_field ub (reread v) = Inr ps"
proof -
  have "om_ok (map (\<lambda>(k, v). (k, property_to_json v)) ps)"
    using assms(2) by (simp add: properties_ok_def om_ok_def comp_def case_prod_beta')
  then have "reread (properties_to_json ps) = J_Object (map (\<lambda>(k, v). (k, reread (property_to_json v))) ps)"
    by (simp add: properties_to_json_def obj_sorted comp_def case_prod_beta')
  moreover have "read_properties ub (map (\<lambda>(k, v). (k, reread (property_to_json v))) ps) [] = Inr ([] @ ps)"
    by (rule read_properties_read) (use assms(2) in \<open>auto simp: properties_ok_def\<close>)
  ultimately show ?thesis
    using assms(1) by (simp add: properties_field_def j_find_reread)
qed

section \<open>Nodes and edges\<close>

definition provenance_ok :: "provenance \<Rightarrow> bool" where
  "provenance_ok p \<longleftrightarrow> text_ok (pr_provider p) \<and> text_ok (pr_api p) \<and> text_ok (pr_detail p)
     \<and> text_ok (pr_schema_version p) \<and> text_ok (pr_provider_version p)"

definition native_ok :: "native_identity \<Rightarrow> bool" where
  "native_ok n \<longleftrightarrow> text_ok (ni_cuda_uuid n) \<and> text_ok (ni_name n) \<and> text_ok (ni_network_interface_name n)
     \<and> text_ok (ni_network_hardware_id n) \<and> text_ok (ni_storage_id n) \<and> text_ok (ni_storage_device_path n)
     \<and> text_ok (ni_machine_name n) \<and> text_ok (ni_os_version n)"

definition node_ok :: "topology_node \<Rightarrow> bool" where
  "node_ok n \<longleftrightarrow> text_ok (n_category n) \<and> text_ok (n_name n) \<and> text_ok (n_display_name n) \<and> native_ok (n_native n)
     \<and> uint (n_capabilities n) < 2 ^ 63 \<and> provenance_ok (n_provenance n) \<and> properties_ok (n_properties n)"

lemma id_read: "j_find v k = Some (J_String (to_hex i)) \<Longrightarrow> id_field (reread v) k = Some i"
  by (simp add: id_field_def j_find_reread try_from_hex_to_hex)

lemma node_read:
  assumes "node_ok n"
  shows "node_from_json ub (reread (node_to_json i n)) = Inr (n \<lparr> n_id := i \<rparr>)"
proof -
  let ?v = "node_to_json i n"
  have f: "j_find ?v ''type'' = Some (J_String (node_type_to_string (n_type n)))"
    "j_find ?v ''category'' = Some (J_String (n_category n))" "j_find ?v ''name'' = Some (J_String (n_name n))"
    "j_find ?v ''display_name'' = Some (J_String (n_display_name n))"
    "j_find ?v ''native'' = Some (native_to_json (n_native n))"
    "j_find ?v ''capabilities'' = Some (J_Uint (n_capabilities n))"
    "j_find ?v ''confidence'' = Some (J_String (confidence_to_string (n_confidence n)))"
    "j_find ?v ''provenance'' = Some (provenance_to_json (n_provenance n))"
    "j_find ?v ''synthetic'' = Some (J_Bool (n_synthetic n))"
    by (simp_all add: node_to_json_def j_find_obj)
  have i: "j_find ?v ''id'' = Some (J_String (to_hex i))" and ps: "j_find ?v ''properties'' = Some (properties_to_json (n_properties n))"
    by (simp_all add: node_to_json_def j_find_obj)
  obtain m where m: "j_as_object (reread ?v) = Some m"
    using reread_object [of ?v] obj_is_object unfolding node_to_json_def by blast
  have "uint (n_capabilities n) < 2 ^ 63" "properties_ok (n_properties n)" using assms by (simp_all add: node_ok_def)
  note reads = reread_uint_small [OF this(1)] properties_read [OF ps this(2)] id_read [OF i]
  show ?thesis
    by (simp add: node_from_json_def m reads Let_def field_defs f codecs native_read provenance_read)
qed

text \<open>A double is kept when its written form has its value.\<close>

definition number_ok :: "f64 \<Rightarrow> bool" where
  "number_ok d \<longleftrightarrow> j_number (reread_double d) = d"

definition edge_ok :: "topology_edge \<Rightarrow> bool" where
  "edge_ok e \<longleftrightarrow> provenance_ok (e_provenance e) \<and> properties_ok (e_properties e)
     \<and> pred_option (\<lambda>w. 0 \<le> sint w) (e_width e) \<and> pred_option (\<lambda>w. 0 \<le> sint w) (e_pcie_generation e)
     \<and> pred_option number_ok (e_bandwidth_bytes_per_sec e) \<and> pred_option number_ok (e_latency_ns e)
     \<and> pred_option number_ok (e_locality_score e) \<and> pred_option (\<lambda>u. uint u < 2 ^ 63) (e_peer_capability e)"

lemma optional_read:
  assumes "j_find v k = map_option f x" and "\<And>y. x = Some y \<Longrightarrow> j_is_number (reread (f y)) \<and> g (reread (f y)) = y"
  shows "optional_number (reread v) k g = x"
  using assms by (cases x) (simp_all add: optional_number_def number_field_def j_find_reread)

lemma double_number: "number_ok d \<Longrightarrow> j_is_number (reread_double d) \<and> j_number (reread_double d) = d"
  by (auto simp: number_ok_def reread_double_def Let_def split: if_splits)

lemma scast_back: "ucast (scast w :: 64 word) = (w :: 32 word)"
  by (rule bit_word_eqI) (simp add: bit_simps)

lemma scast_small:
  assumes "0 \<le> sint (w :: 32 word)"
  shows "reread_uint (scast w) = J_Uint (scast w)" and "ucast (scast w :: 64 word) = w"
proof -
  have s: "scast w = (word_of_int (sint w) :: 64 word)" by (rule scast_eq)
  have b: "sint w < 2 ^ 31" using sint_less [of w] by simp
  have u: "uint (scast w :: 64 word) = sint w"
    unfolding s uint_word_of_int using assms b by (intro mod_pos_pos_trivial) simp_all
  show "reread_uint (scast w) = J_Uint (scast w)" by (rule reread_uint_small) (unfold u, use b in simp)
  show "ucast (scast w :: 64 word) = w" by (rule scast_back)
qed

lemma edge_read:
  assumes "edge_ok e"
  shows "edge_from_json ub (reread (edge_to_json e)) = Inr e"
proof -
  let ?v = "edge_to_json e"
  note ev = edge_to_json_def j_find_obj map_add_def optional_lookup
  have f: "j_find ?v ''type'' = Some (J_String (edge_type_to_string (e_type e)))"
    "j_find ?v ''direction'' = Some (J_String (edge_direction_to_string (e_direction e)))"
    "j_find ?v ''confidence'' = Some (J_String (confidence_to_string (e_confidence e)))"
    "j_find ?v ''provenance'' = Some (provenance_to_json (e_provenance e))"
    "j_find ?v ''hop_count'' = Some (J_Int (scast (e_hop_count e)))"
    "j_find ?v ''accessible'' = Some (J_Bool (e_accessible e))"
    "j_find ?v ''policy_version'' = Some (J_Uint (ucast (e_policy_version e)))"
    by (simp_all add: ev)
  have i: "j_find ?v ''source'' = Some (J_String (to_hex (e_source e)))"
    "j_find ?v ''target'' = Some (J_String (to_hex (e_target e)))"
    and ps: "j_find ?v ''properties'' = Some (properties_to_json (e_properties e))"
    by (simp_all add: ev)
  have opt: "j_find ?v ''width'' = map_option (\<lambda>w. J_Uint (scast w)) (e_width e)"
    "j_find ?v ''pcie_generation'' = map_option (\<lambda>w. J_Uint (scast w)) (e_pcie_generation e)"
    "j_find ?v ''bandwidth_bps'' = map_option J_Double (e_bandwidth_bytes_per_sec e)"
    "j_find ?v ''latency_ns'' = map_option J_Double (e_latency_ns e)"
    "j_find ?v ''locality_score'' = map_option J_Double (e_locality_score e)"
    "j_find ?v ''peer_capability'' = map_option J_Uint (e_peer_capability e)"
    by (simp_all add: ev split: option.splits)
  obtain m where m: "j_as_object (reread ?v) = Some m"
    using reread_object [of ?v] obj_is_object unfolding edge_to_json_def by blast
  have ok: "properties_ok (e_properties e)" using assms by (simp add: edge_ok_def)
  have hop: "ucast (scast (e_hop_count e) :: 64 word) = e_hop_count e"
    by (rule scast_back)
  have policy: "reread_uint (ucast (e_policy_version e)) = J_Uint (ucast (e_policy_version e))"
    by (rule reread_uint_small [OF ucast_small]) simp
  have pv: "ucast (ucast (e_policy_version e) :: 64 word) = e_policy_version e"
    by (rule ucast_back) simp
  have opts: "optional_number (reread ?v) ''width'' (\<lambda>v. ucast (j_integer ub v)) = e_width e"
    "optional_number (reread ?v) ''pcie_generation'' (\<lambda>v. ucast (j_integer ub v)) = e_pcie_generation e"
    "optional_number (reread ?v) ''bandwidth_bps'' j_number = e_bandwidth_bytes_per_sec e"
    "optional_number (reread ?v) ''latency_ns'' j_number = e_latency_ns e"
    "optional_number (reread ?v) ''locality_score'' j_number = e_locality_score e"
    "optional_number (reread ?v) ''peer_capability'' (j_integer ub) = e_peer_capability e"
    by (rule optional_read [OF opt(1)] optional_read [OF opt(2)] optional_read [OF opt(3)] optional_read [OF opt(4)]
        optional_read [OF opt(5)] optional_read [OF opt(6)],
        use assms in \<open>auto simp: edge_ok_def scast_small reread_uint_small dest: double_number\<close>)+
  note reads = properties_read [OF ps ok] id_read [OF i(1)] id_read [OF i(2)] opts
  show ?thesis
    by (simp add: edge_from_json_def m reads Let_def field_defs f codecs provenance_read hop policy pv del: optional_number_def)
qed

end
