(* ===== verification/TF_SnapshotText.thy ===== *)
theory TF_SnapshotText
  imports TF_Serialization
begin

text \<open>
  What reading a written snapshot gives.

  The codec of every part of a snapshot is an interpretation of one interface, \<open>json_codec\<close>: a written
  value, after the changes that writing and parsing make to a JSON value, is decoded as the value it was
  written from, and it fits the limits of the parser. Where the format loses something the value is not
  \<open>ok\<close>: characters beyond ASCII, numbers beyond 63 bits, integers that are not negative, doubles with
  more than six decimals, strings beyond the parser's limit, empty arrays of strings.
\<close>

section \<open>Every document is within the bounds of the parser\<close>

definition fits :: "nat \<Rightarrow> json \<Rightarrow> bool" where
  "fits lv v \<longleftrightarrow> json_depth v \<le> lv \<and> json_ok (po_max_string_bytes default_options) v \<and> json_ascii v"

lemma fits_atom [simp]: "fits lv J_Null" "fits lv (J_Bool b)" "fits lv (J_Int i)" "fits lv (J_Uint u)" "fits lv (J_Double d)"
  by (simp_all add: fits_def)

lemma fits_string [simp]: "fits lv (J_String s) \<longleftrightarrow> text_ok s"
  by (auto simp: fits_def text_ok_def)

lemma fits_array: "(\<And>v. v \<in> set a \<Longrightarrow> fits lv v) \<Longrightarrow> fits (Suc lv) (J_Array a)"
  unfolding fits_def depth_Array by (simp add: list_all_iff)

lemma fits_object: "om_ok m \<Longrightarrow> (\<And>k v. (k, v) \<in> set m \<Longrightarrow> text_ok k \<and> fits lv v) \<Longrightarrow> fits (Suc lv) (J_Object m)"
  unfolding fits_def depth_Object by (auto simp: list_all_iff text_ok_def)

lemma fits_mono: "fits lv v \<Longrightarrow> lv \<le> lv' \<Longrightarrow> fits lv' v"
  by (simp add: fits_def)

lemma fits_obj:
  assumes "\<And>k v. (k, v) \<in> set kvs \<Longrightarrow> text_ok k \<and> fits lv v"
  shows "fits (Suc lv) (obj kvs)"
  unfolding obj_object
proof (rule fits_object)
  show "om_ok (fold (\<lambda>(k, v). om_put k v) kvs [])" by (rule om_ok_fold) simp
  show "text_ok k \<and> fits lv v" if "(k, v) \<in> set (fold (\<lambda>(k, v). om_put k v) kvs [])" for k v
    using that fold_put_set [of kvs "[]"] assms by auto
qed

text \<open>Short texts: the keys and the names of the enumerations.\<close>

definition short :: "string \<Rightarrow> bool" where
  "short s \<longleftrightarrow> list_all (\<lambda>c. c < CHR 0x80) s \<and> length s \<le> 40"

lemma short_ok: "short s \<Longrightarrow> text_ok s"
  by (simp add: short_def text_ok_def ascii_def list_all_iff default_options_def)

lemma short_names: "short (provenance_kind_to_string k)" "short (confidence_to_string c)" "short (node_type_to_string t)"
  "short (edge_type_to_string u)" "short (edge_direction_to_string d)"
proof -
  show "short (provenance_kind_to_string k)" by (cases k; simp add: short_def less_char_def)
  show "short (confidence_to_string c)" by (cases c; simp add: short_def less_char_def)
  show "short (node_type_to_string t)" by (cases t; simp add: short_def less_char_def)
  show "short (edge_type_to_string u)" by (cases u; simp add: short_def less_char_def)
  show "short (edge_direction_to_string d)" by (cases d; simp add: short_def less_char_def)
qed

lemmas text_names = short_names [THEN short_ok]

lemma fits_optional_uint [simp]: "fits lv (optional_uint v)"
  by (simp add: optional_uint_def split: option.splits)

text \<open>An object whose keys are short literals.\<close>

lemma fits_record:
  assumes "list_all (\<lambda>kv. short (fst kv)) kvs" and "list_all (\<lambda>kv. fits lv (snd kv)) kvs"
  shows "fits (Suc lv) (obj kvs)"
proof (rule fits_obj)
  show "text_ok k \<and> fits lv v" if "(k, v) \<in> set kvs" for k v
    using assms that short_ok [of k] by (fastforce simp: list_all_iff)
qed

lemma fits_provenance: "provenance_ok p \<Longrightarrow> fits 1 (provenance_to_json p)"
  unfolding provenance_to_json_def One_nat_def
  by (rule fits_record) (simp_all add: short_def less_char_def, simp_all add: provenance_ok_def text_names)

lemma fits_native: "native_ok n \<Longrightarrow> fits 1 (native_to_json n)"
  unfolding native_to_json_def One_nat_def
  by (rule fits_record) (simp_all add: short_def less_char_def, simp_all add: native_ok_def)

lemma fits_property: "portable v \<Longrightarrow> fits 1 (property_to_json v)"
  unfolding One_nat_def by (cases v) (auto intro!: fits_array simp: list_all_iff)

lemma fits_properties: "properties_ok ps \<Longrightarrow> fits 2 (properties_to_json ps)"
  unfolding properties_to_json_def numeral_2_eq_2
  by (rule fits_obj) (auto simp: properties_ok_def fits_property [unfolded One_nat_def])

lemma text_ok_hex [simp]: "text_ok (to_hex i)"
proof -
  have "\<forall>c \<in> set (to_hex i). hex_digit_val c \<noteq> None"
    using hex_texts_setw by (cases i) (auto simp: to_hex_def hex_texts_def)
  then have "\<forall>c \<in> set (to_hex i). c < CHR 0x80"
    by (auto simp: hex_digit_val_def less_char_def Let_def split: if_splits)
  then show ?thesis by (simp add: text_ok_def ascii_def length_to_hex default_options_def)
qed

lemma fits_node: "node_ok n \<Longrightarrow> fits 3 (node_to_json i n)"
proof -
  assume ok: "node_ok n"
  have "fits 2 (native_to_json (n_native n))" "fits 2 (provenance_to_json (n_provenance n))" "fits 2 (properties_to_json (n_properties n))"
    using ok fits_native [of "n_native n"] fits_provenance [of "n_provenance n"] fits_properties [of "n_properties n"]
    by (auto simp: node_ok_def intro: fits_mono)
  then have "fits (Suc 2) (node_to_json i n)"
    unfolding node_to_json_def
    by (intro fits_record) (simp_all add: short_def less_char_def, use ok in \<open>simp_all add: node_ok_def text_names\<close>)
  then show ?thesis by simp
qed

lemma optional_all: "list_all P (optional_field k f v) \<longleftrightarrow> (\<forall>x. v = Some x \<longrightarrow> P (k, f x))"
  by (auto simp: optional_field_def split: option.splits)

lemma fits_edge: "edge_ok e \<Longrightarrow> fits 3 (edge_to_json e)"
proof -
  assume ok: "edge_ok e"
  have "fits 2 (provenance_to_json (e_provenance e))" "fits 2 (properties_to_json (e_properties e))"
    using ok fits_provenance [of "e_provenance e"] fits_properties [of "e_properties e"]
    by (auto simp: edge_ok_def intro: fits_mono)
  then have "fits (Suc 2) (edge_to_json e)"
    unfolding edge_to_json_def
    by (intro fits_record) (simp_all add: optional_all short_def less_char_def, use ok in \<open>simp_all add: edge_ok_def text_names\<close>)
  then show ?thesis by simp
qed

section \<open>Records that are written and read\<close>

text \<open>The contract of a record: reading its document, as the parser yields it, gives the record back,
  and its document is within the bounds of the parser.\<close>

locale json_codec =
  fixes enc :: "'a \<Rightarrow> json" and dec :: "json \<Rightarrow> 'a eresult" and ok :: "'a \<Rightarrow> bool" and lv :: nat
  assumes dec_enc: "ok x \<Longrightarrow> dec (reread (enc x)) = Inr x"
    and enc_fits: "ok x \<Longrightarrow> fits lv (enc x)"
begin

text \<open>The same through the text.\<close>

lemma text_read:
  assumes "ok x" and "lv \<le> po_max_depth default_options" and "json_nodes (enc x) \<le> po_max_nodes default_options"
  shows "\<exists>r. parse (dump (enc x) mode) default_options = Some r \<and> jr_error r = PE_None \<and> dec (jr_value r) = Inr x"
proof -
  have "fits lv (enc x)" by (rule enc_fits [OF assms(1)])
  then have "json_depth (enc x) \<le> po_max_depth default_options" "json_ok (po_max_string_bytes default_options) (enc x)"
    "json_ascii (enc x)" using assms(2) by (simp_all add: fits_def)
  from parse_dump [OF this(1) assms(3) this(2,3), of mode] show ?thesis
    using dec_enc [OF assms(1)] by simp
qed

lemma enc_inj: "ok x \<Longrightarrow> ok y \<Longrightarrow> enc x = enc y \<Longrightarrow> x = y"
  using dec_enc by (metis sum.inject(2))

lemma array_fits: "list_all ok xs \<Longrightarrow> fits (Suc lv) (J_Array (map enc xs))"
  by (rule fits_array) (auto simp: list_all_iff enc_fits)

end

interpretation provenance_json: json_codec provenance_to_json "\<lambda>v. Inr (provenance_from_json ub v)" provenance_ok 1
  for ub by unfold_locales (auto simp: provenance_read intro: fits_provenance [unfolded One_nat_def])

interpretation native_json: json_codec native_to_json "\<lambda>v. Inr (native_from_json ub v)" native_ok 1
  for ub by unfold_locales (auto simp: native_read intro: fits_native [unfolded One_nat_def])

interpretation property_json: json_codec property_to_json "property_from_json ub" portable 1
  for ub by unfold_locales (auto simp: property_read intro: fits_property [unfolded One_nat_def])

interpretation node_json: json_codec "\<lambda>n. node_to_json (n_id n) n" "node_from_json ub" node_ok 3
  for ub by unfold_locales (simp_all add: node_read fits_node)

interpretation edge_json: json_codec edge_to_json "edge_from_json ub" edge_ok 3
  for ub by unfold_locales (simp_all add: edge_read fits_edge)

section \<open>Snapshots\<close>

definition messages_ok :: "string list \<Rightarrow> bool" where
  "messages_ok ms \<longleftrightarrow> list_all text_ok ms"

definition metadata_ok :: "snapshot_metadata \<Rightarrow> bool" where
  "metadata_ok m \<longleftrightarrow> text_ok (m_snapshot_id m) \<and> uint (m_generation m) < 2 ^ 63 \<and> text_ok (m_machine_identity m)
     \<and> text_ok (m_provider_versions m) \<and> messages_ok (m_warnings m)"

definition snapshot_ok :: "topology_snapshot \<Rightarrow> bool" where
  "snapshot_ok s \<longleftrightarrow> metadata_ok (s_metadata s) \<and> messages_ok (v_errors (s_validation s))
     \<and> messages_ok (v_warnings (s_validation s)) \<and> (\<forall>p \<in> set (s_nodes s). node_ok (snd p)) \<and> list_all edge_ok (s_edges s)"

text \<open>The nodes in the order of their ids, which is the order of the document.\<close>

definition id_order :: "topology_snapshot \<Rightarrow> node_id list" where
  "id_order s = sort_by (<) (um_keys (s_nodes s))"

definition nodes_by_id :: "topology_snapshot \<Rightarrow> topology_node list" where
  "nodes_by_id s = map (\<lambda>i. the (um_find (s_nodes s) i)) (id_order s)"

definition document :: "topology_snapshot \<Rightarrow> json" where
  "document s = obj
     [(''schema'', J_String kSnapshotSchemaVersion), (''snapshot_id'', J_String (m_snapshot_id (s_metadata s))),
      (''generation'', J_Uint (m_generation (s_metadata s))), (''created_ms'', J_Int (m_created_ms (s_metadata s))),
      (''machine_identity'', J_String (m_machine_identity (s_metadata s))),
      (''provider_versions'', J_String (m_provider_versions (s_metadata s))), (''format'', J_String format_name),
      (''nodes'', J_Array (map (\<lambda>n. node_to_json (n_id n) n) (nodes_by_id s))),
      (''edges'', J_Array (map edge_to_json (sort_by edge_before (s_edges s)))),
      (''warnings'', J_Array (map J_String (m_warnings (s_metadata s)))),
      (''partial_discovery'', J_Bool (m_partial_discovery (s_metadata s))),
      (''synthetic'', J_Bool (m_synthetic (s_metadata s))), (''validation'', validation_to_json (s_validation s))]"

lemma id_order_mem: "i \<in> set (id_order s) \<longleftrightarrow> um_find (s_nodes s) i \<noteq> None"
  by (simp add: id_order_def um_find_None_iff)

lemma id_order_node:
  assumes "snapshot_wf s" and "i \<in> set (id_order s)"
  shows "\<exists>n. um_find (s_nodes s) i = Some n \<and> n_id n = i \<and> (i, n) \<in> set (s_nodes s)"
proof -
  obtain n where n: "um_find (s_nodes s) i = Some n" using assms(2) by (auto simp: id_order_mem)
  then have "(i, n) \<in> set (s_nodes s)" using assms(1) by (simp add: um_find_mem snapshot_wf_def)
  then show ?thesis using n assms(1) by (force simp: snapshot_wf_def)
qed

lemma nodes_by_id_ids: "snapshot_wf s \<Longrightarrow> map n_id (nodes_by_id s) = id_order s"
  using id_order_node [of s] by (force simp: nodes_by_id_def comp_def intro!: map_idI)

lemma nodes_by_id_ok: "snapshot_wf s \<Longrightarrow> snapshot_ok s \<Longrightarrow> list_all node_ok (nodes_by_id s)"
  using id_order_node [of s] by (fastforce simp: nodes_by_id_def list_all_iff snapshot_ok_def)

lemma snapshot_document: "snapshot_wf s \<Longrightarrow> snapshot_to_json s = Inr (document s)"
proof -
  assume wf: "snapshot_wf s"
  let ?g = "\<lambda>i. node_to_json i (the (um_find (s_nodes s) i))"
  have "tmap (\<lambda>i. tbind (snap_node s i) (\<lambda>n. Inr (node_to_json i n))) (id_order s) = Inr (map ?g (id_order s))"
    by (rule tmap_all_Inr) (use id_order_node [OF wf] in \<open>fastforce simp: snap_node_def\<close>)
  moreover have "map ?g (id_order s) = map (\<lambda>n. node_to_json (n_id n) n) (nodes_by_id s)"
    using id_order_node [OF wf] by (force simp: nodes_by_id_def)
  ultimately show ?thesis by (simp add: snapshot_to_json_def document_def id_order_def Let_def)
qed

lemma fits_messages: "messages_ok ms \<Longrightarrow> fits (Suc lv) (J_Array (map J_String ms))"
  by (rule fits_array) (auto simp: messages_ok_def list_all_iff)

lemma fits_document:
  assumes "snapshot_wf s" and "snapshot_ok s"
  shows "fits 5 (document s)"
proof -
  have n: "fits 4 (J_Array (map (\<lambda>n. node_to_json (n_id n) n) (nodes_by_id s)))"
    using node_json.array_fits [OF nodes_by_id_ok [OF assms]] by simp
  have "list_all edge_ok (sort_by edge_before (s_edges s))" using assms(2) by (simp add: snapshot_ok_def list_all_iff)
  then have e: "fits 4 (J_Array (map edge_to_json (sort_by edge_before (s_edges s))))"
    using edge_json.array_fits by simp
  have v: "fits (Suc 3) (validation_to_json (s_validation s))"
    unfolding validation_to_json_def
    by (rule fits_record)
      (use assms(2) fits_messages [of _ 2] in \<open>simp_all add: short_def less_char_def snapshot_ok_def\<close>)
  have w: "fits (Suc 3) (J_Array (map J_String (m_warnings (s_metadata s))))"
    by (rule fits_messages) (use assms(2) in \<open>simp add: snapshot_ok_def metadata_ok_def\<close>)
  have t: "text_ok kSnapshotSchemaVersion" "text_ok format_name"
    by (auto simp: kSnapshotSchemaVersion_def format_name_def short_def less_char_def intro!: short_ok)
  have "fits (Suc 4) (document s)"
    unfolding document_def
    by (rule fits_record)
      (simp add: short_def less_char_def, use assms(2) n e v w t in \<open>simp add: snapshot_ok_def metadata_ok_def\<close>)
  then show ?thesis by simp
qed

section \<open>The builder\<close>

lemma add_node_fold:
  assumes "\<not> bd_taken b" and "distinct (map fst (bd_nodes b) @ map n_id ns)"
    and "length (bd_nodes b) + length ns \<le> b_max_nodes (bd_bounds b)"
  shows "fold (\<lambda>n b. fst (add_node n b)) ns b = b \<lparr> bd_nodes := bd_nodes b @ map (\<lambda>n. (n_id n, n)) ns \<rparr>"
  using assms
proof (induction ns arbitrary: b)
  case (Cons n ns)
  have "\<not> um_count (bd_nodes b) (n_id n)"
    using Cons.prems(2) by (auto simp: um_count_iff um_keys_def)
  then have "fst (add_node n b) = b \<lparr> bd_nodes := bd_nodes b @ [(n_id n, n)] \<rparr>"
    using Cons.prems(1,3) by (simp add: add_node_def um_emplace_def)
  then show ?case using Cons.IH [of "b \<lparr> bd_nodes := bd_nodes b @ [(n_id n, n)] \<rparr>"] Cons.prems by simp
qed simp

lemma add_edge_fold:
  assumes "\<not> bd_taken b" and "length (bd_edges b) + length es \<le> b_max_edges (bd_bounds b)"
  shows "fold (\<lambda>e b. fst (add_edge e b)) es b = b \<lparr> bd_edges := bd_edges b @ es \<rparr>"
  using assms
proof (induction es arbitrary: b)
  case (Cons e es)
  have "fst (add_edge e b) = b \<lparr> bd_edges := bd_edges b @ [e] \<rparr>"
    using Cons.prems by (simp add: add_edge_def)
  then show ?case using Cons.IH [of "b \<lparr> bd_edges := bd_edges b @ [e] \<rparr>"] Cons.prems by simp
qed simp

lemma read_nodes_read:
  assumes "list_all node_ok ns" and "c + length ns \<le> b_max_nodes bnd"
  shows "read_nodes ub bnd c (map (\<lambda>n. reread (node_to_json (n_id n) n)) ns) b = Inr (fold (\<lambda>n b. fst (add_node n b)) ns b)"
  using assms
proof (induction ns arbitrary: c b)
  case (Cons n ns)
  then show ?case by (simp add: node_json.dec_enc)
qed simp

lemma read_edges_read:
  assumes "list_all edge_ok es" and "c + length es \<le> b_max_edges bnd"
  shows "read_edges ub bnd c (map (\<lambda>e. reread (edge_to_json e)) es) b = Inr (fold (\<lambda>e b. fst (add_edge e b)) es b)"
  using assms
proof (induction es arbitrary: c b)
  case (Cons e es)
  then show ?case by (simp add: edge_json.dec_enc)
qed simp

lemma metadata_read:
  assumes "metadata_ok (s_metadata s)"
  shows "read_metadata ub (reread (document s)) = (s_metadata s) \<lparr> m_schema_version := kSnapshotSchemaVersion \<rparr>"
proof -
  let ?v = "document s"
  have f: "j_find ?v ''schema'' = Some (J_String kSnapshotSchemaVersion)"
    "j_find ?v ''snapshot_id'' = Some (J_String (m_snapshot_id (s_metadata s)))"
    "j_find ?v ''generation'' = Some (J_Uint (m_generation (s_metadata s)))"
    "j_find ?v ''created_ms'' = Some (J_Int (m_created_ms (s_metadata s)))"
    "j_find ?v ''machine_identity'' = Some (J_String (m_machine_identity (s_metadata s)))"
    "j_find ?v ''provider_versions'' = Some (J_String (m_provider_versions (s_metadata s)))"
    "j_find ?v ''warnings'' = Some (J_Array (map J_String (m_warnings (s_metadata s))))"
    "j_find ?v ''partial_discovery'' = Some (J_Bool (m_partial_discovery (s_metadata s)))"
    "j_find ?v ''synthetic'' = Some (J_Bool (m_synthetic (s_metadata s)))"
    by (simp_all add: document_def j_find_obj)
  have "List.map_filter j_as_string (map (\<lambda>s. J_String s) ws) = ws" for ws
    by (induction ws) (simp_all add: map_filter_simps)
  then show ?thesis
    using assms by (simp add: read_metadata_def Let_def field_defs f metadata_ok_def reread_uint_small comp_def)
qed

text \<open>A document is read back as its snapshot, the nodes in the order of their ids.\<close>

definition read_back :: "bounds \<Rightarrow> topology_snapshot \<Rightarrow> snapshot_builder" where
  "read_back bnd s = (new_builder bnd)
     \<lparr> bd_nodes := map (\<lambda>n. (n_id n, n)) (nodes_by_id s), bd_edges := sort_by edge_before (s_edges s),
       bd_metadata := (s_metadata s) \<lparr> m_schema_version := kSnapshotSchemaVersion \<rparr> \<rparr>"

lemma id_order_distinct: "snapshot_wf s \<Longrightarrow> distinct (id_order s)"
  using mset_eq_imp_distinct_iff [of "id_order s" "um_keys (s_nodes s)"]
  by (simp add: id_order_def snapshot_wf_def um_ok_def)

lemma build_document:
  assumes wf: "snapshot_wf s" and ok: "snapshot_ok s"
    and n: "length (s_nodes s) \<le> b_max_nodes bnd" and e: "length (s_edges s) \<le> b_max_edges bnd"
  shows "build_from_json ub (reread (document s)) bnd
    = (case take_snapshot (read_back bnd s) of Inl x \<Rightarrow> Inl (E_Topology x) | Inr (b, s') \<Rightarrow> Inr s')"
proof -
  let ?v = "document s" and ?es = "sort_by edge_before (s_edges s)"
  have len: "length (nodes_by_id s) = length (s_nodes s)" by (simp add: nodes_by_id_def id_order_def um_keys_def)
  have f: "j_find ?v ''format'' = Some (J_String format_name)"
    "j_find ?v ''nodes'' = Some (J_Array (map (\<lambda>n. node_to_json (n_id n) n) (nodes_by_id s)))"
    "j_find ?v ''edges'' = Some (J_Array (map edge_to_json ?es))"
    by (simp_all add: document_def j_find_obj)
  obtain m where m: "j_as_object (reread ?v) = Some m"
    using reread_object [of ?v] obj_is_object unfolding document_def by blast
  have nodes: "read_nodes ub bnd 0 (map (\<lambda>n. reread (node_to_json (n_id n) n)) (nodes_by_id s)) (new_builder bnd)
      = Inr ((new_builder bnd) \<lparr> bd_nodes := map (\<lambda>n. (n_id n, n)) (nodes_by_id s) \<rparr>)"
    using read_nodes_read [OF nodes_by_id_ok [OF wf ok], of 0 bnd ub "new_builder bnd"] n
      add_node_fold [of "new_builder bnd" "nodes_by_id s"] id_order_distinct [OF wf] nodes_by_id_ids [OF wf]
    by (simp add: len new_builder_def)
  have "list_all edge_ok ?es" using ok by (simp add: snapshot_ok_def list_all_iff)
  then have edges: "read_edges ub bnd 0 (map (\<lambda>e. reread (edge_to_json e)) ?es) b
      = Inr (b \<lparr> bd_edges := ?es \<rparr>)" if "\<not> bd_taken b" "bd_edges b = []" "bd_bounds b = bnd" for b
    using read_edges_read [of ?es 0 bnd ub b] add_edge_fold [of b ?es] e that by simp
  have edges': "read_edges ub bnd 0 (map (\<lambda>e. reread (edge_to_json e)) ?es)
      ((new_builder bnd) \<lparr> bd_nodes := map (\<lambda>n. (n_id n, n)) (nodes_by_id s) \<rparr>)
      = Inr ((new_builder bnd) \<lparr> bd_nodes := map (\<lambda>n. (n_id n, n)) (nodes_by_id s), bd_edges := ?es \<rparr>)"
    by (rule edges) (simp_all add: new_builder_def)
  have meta: "metadata_ok (s_metadata s)" using ok by (simp add: snapshot_ok_def)
  show ?thesis
    by (simp add: build_from_json_def m field_defs array_field_def f comp_def nodes edges' metadata_read [OF meta]
      read_back_def set_metadata_def)
qed

lemma nodes_by_id_find: "snapshot_wf s \<Longrightarrow> um_find (map (\<lambda>n. (n_id n, n)) (nodes_by_id s)) i = um_find (s_nodes s) i"
proof -
  assume wf: "snapshot_wf s"
  have "map (\<lambda>n. (n_id n, n)) (nodes_by_id s) = map (\<lambda>i. (i, the (um_find (s_nodes s) i))) (id_order s)"
    using id_order_node [OF wf] by (force simp: nodes_by_id_def)
  then show ?thesis
    using id_order_mem [of i s] by (auto simp: um_find_def map_of_map_keys map_of_map_restrict)
qed

text \<open>Whatever is read comes from a builder within the bounds, and nothing but the documented errors
  and a wrong variant is thrown.\<close>

definition reader_error :: "exception \<Rightarrow> bool" where
  "reader_error x \<longleftrightarrow> x = E_BadVariant \<or> (\<exists>msg. x = E_Topology (TopologyError EC_MALFORMED_DATA msg))
     \<or> (\<exists>msg. x = E_Topology (TopologyError EC_OVERSIZED msg))"

lemma ebind_Inl: "ebind m f = Inl x \<longleftrightarrow> m = Inl x \<or> (\<exists>y. m = Inr y \<and> f y = Inl x)"
  by (cases m) auto

lemma ebind_Inr: "ebind m f = Inr z \<longleftrightarrow> (\<exists>y. m = Inr y \<and> f y = Inr z)"
  by (cases m) auto

lemma raise_error [simp]: "raise_code c msg = Inl x \<longleftrightarrow> x = E_Topology (TopologyError c msg)" "raise_code c msg \<noteq> Inr y"
  by (auto simp: raise_code_def)

lemma all_strings_error: "all_strings vs = Inl x \<Longrightarrow> x = E_BadVariant"
  by (induction vs) (auto simp: ebind_Inl split: option.splits)

lemma property_error: "property_from_json ub v = Inl x \<Longrightarrow> x = E_BadVariant"
  by (cases v) (auto simp: property_of_array_def ebind_Inl dest: all_strings_error split: if_splits)

lemma read_properties_error: "read_properties ub m ps = Inl x \<Longrightarrow> x = E_BadVariant"
  by (induction ub m ps rule: read_properties.induct) (auto simp: ebind_Inl dest: property_error)

lemma properties_error: "properties_field ub v = Inl x \<Longrightarrow> x = E_BadVariant"
  by (auto simp: properties_field_def dest: read_properties_error split: option.splits)

lemma node_error: "node_from_json ub v = Inl x \<Longrightarrow> reader_error x"
  by (auto simp: node_from_json_def reader_error_def ebind_Inl Let_def dest: properties_error split: if_splits option.splits)

lemma edge_error: "edge_from_json ub v = Inl x \<Longrightarrow> reader_error x"
  by (auto simp: edge_from_json_def reader_error_def ebind_Inl Let_def dest: properties_error split: if_splits option.splits)

lemma read_nodes_error: "read_nodes ub bnd c vs b = Inl x \<Longrightarrow> reader_error x"
  by (induction ub bnd c vs b rule: read_nodes.induct)
    (auto simp: ebind_Inl reader_error_def dest: node_error [unfolded reader_error_def] split: if_splits)

lemma read_edges_error: "read_edges ub bnd c vs b = Inl x \<Longrightarrow> reader_error x"
  by (induction ub bnd c vs b rule: read_edges.induct)
    (auto simp: ebind_Inl reader_error_def dest: edge_error [unfolded reader_error_def] split: if_splits)

text \<open>The builder that is filled while reading.\<close>

definition filled :: "bounds \<Rightarrow> snapshot_builder \<Rightarrow> bool" where
  "filled bnd b \<longleftrightarrow> (\<exists>ops. b = fold run_op ops (new_builder bnd)
     \<and> set ops \<subseteq> range Op_add_node \<union> range Op_add_edge \<union> range Op_set_metadata)"

lemma filled_step:
  assumes "filled bnd b" and "op \<in> range Op_add_node \<union> range Op_add_edge \<union> range Op_set_metadata"
  shows "filled bnd (run_op op b)"
proof -
  obtain ops where "b = fold run_op ops (new_builder bnd)"
    and "set ops \<subseteq> range Op_add_node \<union> range Op_add_edge \<union> range Op_set_metadata"
    using assms(1) unfolding filled_def by blast
  then show ?thesis using assms(2) unfolding filled_def by (intro exI [of _ "ops @ [op]"]) simp
qed

lemma filled_new: "filled bnd (new_builder bnd)"
  unfolding filled_def by (intro exI [of _ "[]"]) simp

lemma read_nodes_filled: "read_nodes ub bnd c vs b = Inr b' \<Longrightarrow> filled bd b \<Longrightarrow> filled bd b'"
proof (induction ub bnd c vs b rule: read_nodes.induct)
  case (2 ub bnd c nv nvs b)
  then show ?case using filled_step [of bd b "Op_add_node _"] by (auto simp: ebind_Inr split: if_splits)
qed simp

lemma read_edges_filled: "read_edges ub bnd c vs b = Inr b' \<Longrightarrow> filled bd b \<Longrightarrow> filled bd b'"
proof (induction ub bnd c vs b rule: read_edges.induct)
  case (2 ub bnd c ev evs b)
  then show ?case using filled_step [of bd b "Op_add_edge _"] by (auto simp: ebind_Inr split: if_splits)
qed simp

lemma filled_bounds: "filled bnd b \<Longrightarrow> \<not> bd_taken b \<and> bd_bounds b = bnd \<and> v_errors (bd_validation b) = []
    \<and> length (bd_nodes b) \<le> b_max_nodes bnd \<and> length (bd_edges b) \<le> b_max_edges bnd \<and> builder_reach b"
proof -
  have "set ops \<subseteq> range Op_add_node \<union> range Op_add_edge \<union> range Op_set_metadata \<Longrightarrow>
      \<not> bd_taken b \<and> bd_bounds b = bnd \<and> v_errors (bd_validation b) = []
       \<and> length (bd_nodes b) \<le> b_max_nodes bnd \<and> length (bd_edges b) \<le> b_max_edges bnd \<Longrightarrow>
      b' = fold run_op ops b \<Longrightarrow> \<not> bd_taken b' \<and> bd_bounds b' = bnd \<and> v_errors (bd_validation b') = []
       \<and> length (bd_nodes b') \<le> b_max_nodes bnd \<and> length (bd_edges b') \<le> b_max_edges bnd" for ops b b'
  proof (induction ops arbitrary: b)
    case (Cons op ops)
    have "\<not> bd_taken (run_op op b) \<and> bd_bounds (run_op op b) = bnd \<and> v_errors (bd_validation (run_op op b)) = []
       \<and> length (bd_nodes (run_op op b)) \<le> b_max_nodes bnd \<and> length (bd_edges (run_op op b)) \<le> b_max_edges bnd"
      using Cons.prems(1,2)
      by (auto simp: add_node_def add_edge_def set_metadata_def add_warning_def Let_def um_emplace_def case_prod_beta
          split: if_splits)
    then show ?case using Cons.IH [of "run_op op b"] Cons.prems by simp
  qed simp
  from this [OF _ _ refl, of _ "new_builder bnd"] show "filled bnd b \<Longrightarrow> ?thesis"
    by (auto simp: filled_def new_builder_def default_validation_def
        intro: builder_reach_ops [OF builder_reach.fresh, of _ bnd, unfolded new_builder_def default_validation_def])
qed

lemma filled_take: "filled bnd b \<Longrightarrow> \<exists>b' s. take_snapshot b = Inr (b', s)"
  using filled_bounds [of bnd b] by (simp add: take_snapshot_def Let_def)

lemma filled_read:
  assumes "read_nodes ub bnd c vs (new_builder bnd) = Inr b1" and "read_edges ub bnd d ws b1 = Inr b2"
  shows "filled bnd (set_metadata m b2)"
  using filled_step [OF read_edges_filled [OF assms(2) read_nodes_filled [OF assms(1) filled_new]], of "Op_set_metadata m"]
  by simp

lemma reader_error_raise [simp]:
  "reader_error (E_Topology (TopologyError c msg)) \<longleftrightarrow> c = EC_MALFORMED_DATA \<or> c = EC_OVERSIZED"
  by (auto simp: reader_error_def)

lemma build_cases:
  "(\<exists>x. build_from_json ub v bnd = Inl x \<and> reader_error x)
   \<or> (\<exists>b b' s. filled bnd b \<and> take_snapshot b = Inr (b', s) \<and> build_from_json ub v bnd = Inr s)"
proof (cases "array_field v ''nodes''")
  case None
  then show ?thesis by (simp add: build_from_json_def raise_code_def)
next
  case nodes: (Some vs)
  show ?thesis
  proof (cases "read_nodes ub bnd 0 vs (new_builder bnd)")
    case (Inl x)
    then show ?thesis using read_nodes_error [OF Inl] nodes by (simp add: build_from_json_def raise_code_def)
  next
    case r: (Inr b1)
    show ?thesis
    proof (cases "array_field v ''edges''")
      case None
      then show ?thesis using nodes r by (simp add: build_from_json_def raise_code_def)
    next
      case edges: (Some ws)
      show ?thesis
      proof (cases "read_edges ub bnd 0 ws b1")
        case (Inl x)
        then show ?thesis using read_edges_error [OF Inl] nodes edges r by (simp add: build_from_json_def raise_code_def)
      next
        case (Inr b2)
        note f = filled_read [OF r Inr, of "read_metadata ub v"]
        obtain b' s where "take_snapshot (set_metadata (read_metadata ub v) b2) = Inr (b', s)"
          using filled_take [OF f] by blast
        then show ?thesis using f nodes edges r Inr
          by (auto simp: build_from_json_def raise_code_def)
      qed
    qed
  qed
qed

lemma build_error: "build_from_json ub v bnd = Inl x \<Longrightarrow> reader_error x"
  using build_cases [of ub v bnd] by auto

lemma build_steps:
  assumes "build_from_json ub v bnd = Inr s"
  shows "\<exists>b b'. filled bnd b \<and> take_snapshot b = Inr (b', s)"
  using build_cases [of ub v bnd] assms by auto

lemma build_made:
  assumes "build_from_json ub v bnd = Inr s"
  shows "made_snapshot s \<and> s_bounds s = bnd \<and> length (s_nodes s) \<le> b_max_nodes bnd \<and> length (s_edges s) \<le> b_max_edges bnd"
proof -
  obtain b b' where b: "filled bnd b" and t: "take_snapshot b = Inr (b', s)" using build_steps [OF assms] by blast
  note fb = filled_bounds [OF b]
  have "made_snapshot s" unfolding made_snapshot_def using fb t by blast
  moreover have "s_bounds s = bnd \<and> s_nodes s = bd_nodes b \<and> s_edges s = bd_edges b"
    using t fb by (auto simp: take_snapshot_def Let_def split: if_splits)
  ultimately show ?thesis using fb by simp
qed

lemma deserialize_result:
  "\<exists>r. deserialize_snapshot_json ub jt bnd = Some r \<and> (\<forall>x. r = Inl x \<longrightarrow> reader_error x)
     \<and> (\<forall>s. r = Inr s \<longrightarrow> made_snapshot s \<and> s_bounds s = bnd \<and> length jt \<le> b_max_snapshot_bytes bnd
          \<and> length (s_nodes s) \<le> b_max_nodes bnd \<and> length (s_edges s) \<le> b_max_edges bnd)"
proof -
  obtain r where r: "parse jt default_options = Some r" using parse_sound [of jt default_options] by blast
  show ?thesis
    using build_error [of ub "jr_value r" bnd] build_made [of ub "jr_value r" bnd]
    by (auto simp: deserialize_snapshot_json_def r reader_error_def)
qed

lemma read_back_result:
  assumes wf: "snapshot_wf s" and made: "builder_reach (read_back bnd s)"
  shows "\<exists>b s'. take_snapshot (read_back bnd s) = Inr (b, s') \<and> (\<forall>i. um_find (s_nodes s') i = um_find (s_nodes s) i)
    \<and> s_edges s' = sort_by edge_before (s_edges s)
    \<and> s_metadata s' = (s_metadata s) \<lparr> m_schema_version := kSnapshotSchemaVersion \<rparr>
    \<and> (graph_ok (s_nodes s) (s_edges s) \<longrightarrow> v_ok (s_validation s'))"
proof -
  let ?b = "read_back bnd s"
  have f: "bd_taken ?b = False" "bd_nodes ?b = map (\<lambda>n. (n_id n, n)) (nodes_by_id s)"
    "bd_edges ?b = sort_by edge_before (s_edges s)" "bd_validation ?b = default_validation"
    "bd_metadata ?b = (s_metadata s) \<lparr> m_schema_version := kSnapshotSchemaVersion \<rparr>"
    by (simp_all add: read_back_def new_builder_def)
  obtain b' s' where t: "take_snapshot ?b = Inr (b', s')" by (simp add: take_snapshot_def f Let_def)
  have find: "um_find (bd_nodes ?b) = um_find (s_nodes s)"
    by (intro ext) (simp only: f nodes_by_id_find [OF wf])
  have bwf: "um_ok (bd_nodes ?b)" using builder_reach_wf [OF made] by (simp add: builder_wf_def)
  have "set (bd_nodes ?b) = set (s_nodes s)"
    using um_find_mem [OF bwf] um_find_mem [OF wf_ok [OF wf]] by (auto simp: find)
  then have "graph_ok (s_nodes s) (s_edges s) \<longleftrightarrow> graph_ok (bd_nodes ?b) (bd_edges ?b)"
    by (simp add: graph_ok_def known_ends_def keys_apart_def contains_rel_def find f(3))
  then have "graph_ok (s_nodes s) (s_edges s) \<longrightarrow> v_ok (s_validation s')"
    using take_snapshot_ok(4) [OF builder_reach_wf [OF made] t] by (simp add: f default_validation_def)
  moreover have "s_nodes s' = bd_nodes ?b" "s_edges s' = bd_edges ?b" "s_metadata s' = bd_metadata ?b"
    using t by (auto simp: take_snapshot_def f Let_def)
  ultimately show ?thesis using t find f(3,5) by simp
qed

lemma run_add_nodes: "fold run_op (map Op_add_node ns) b = fold (\<lambda>n b. fst (add_node n b)) ns b"
  by (induction ns arbitrary: b) simp_all

lemma run_add_edges: "fold run_op (map Op_add_edge es) b = fold (\<lambda>e b. fst (add_edge e b)) es b"
  by (induction es arbitrary: b) simp_all

lemma deserialize_written:
  assumes wf: "snapshot_wf s" and ok: "snapshot_ok s"
    and n: "length (s_nodes s) \<le> b_max_nodes bnd" and e: "length (s_edges s) \<le> b_max_edges bnd"
    and size: "json_nodes (document s) \<le> po_max_nodes default_options" and len: "length (dump (document s) mode) \<le> b_max_snapshot_bytes bnd"
  shows "\<exists>s'. deserialize_snapshot_json ub (dump (document s) mode) bnd = Some (Inr s')
    \<and> (\<forall>i. um_find (s_nodes s') i = um_find (s_nodes s) i)
    \<and> s_edges s' = sort_by edge_before (s_edges s)
    \<and> s_metadata s' = (s_metadata s) \<lparr> m_schema_version := kSnapshotSchemaVersion \<rparr>
    \<and> (graph_ok (s_nodes s) (s_edges s) \<longrightarrow> v_ok (s_validation s'))"
proof -
  have "json_depth (document s) \<le> po_max_depth default_options" "json_ok (po_max_string_bytes default_options) (document s)"
    "json_ascii (document s)"
    using fits_document [OF wf ok] by (simp_all add: fits_def default_options_def)
  note p = parse_dump [OF this(1) size this(2,3), of mode]
  have "builder_reach (read_back bnd s)"
  proof -
    let ?n = "(new_builder bnd) \<lparr> bd_nodes := map (\<lambda>n. (n_id n, n)) (nodes_by_id s) \<rparr>"
    let ?e = "?n \<lparr> bd_edges := sort_by edge_before (s_edges s) \<rparr>"
    have len: "length (nodes_by_id s) = length (s_nodes s)" by (simp add: nodes_by_id_def id_order_def um_keys_def)
    have "fold (\<lambda>n b. fst (add_node n b)) (nodes_by_id s) (new_builder bnd) = ?n"
      using add_node_fold [of "new_builder bnd" "nodes_by_id s"] n id_order_distinct [OF wf] nodes_by_id_ids [OF wf]
      by (simp add: len new_builder_def)
    then have "?n = fold run_op (map Op_add_node (nodes_by_id s)) (new_builder bnd)"
      by (simp add: run_add_nodes)
    then have n': "builder_reach ?n" by (metis builder_reach_ops builder_reach.fresh)
    have "fold (\<lambda>e b. fst (add_edge e b)) (sort_by edge_before (s_edges s)) ?n = ?e"
      using add_edge_fold [of ?n "sort_by edge_before (s_edges s)"] e by (simp add: new_builder_def)
    then have "?e = fold run_op (map Op_add_edge (sort_by edge_before (s_edges s))) ?n"
      by (simp add: run_add_edges)
    then have "builder_reach ?e" using n' by (metis builder_reach_ops)
    from builder_reach.step [OF this, of "Op_set_metadata ((s_metadata s) \<lparr> m_schema_version := kSnapshotSchemaVersion \<rparr>)"]
    show ?thesis by (simp add: read_back_def set_metadata_def)
  qed
  from read_back_result [OF wf this] obtain b s' where t: "take_snapshot (read_back bnd s) = Inr (b, s')"
    and s': "\<forall>i. um_find (s_nodes s') i = um_find (s_nodes s) i" "s_edges s' = sort_by edge_before (s_edges s)"
      "s_metadata s' = (s_metadata s) \<lparr> m_schema_version := kSnapshotSchemaVersion \<rparr>"
      "graph_ok (s_nodes s) (s_edges s) \<longrightarrow> v_ok (s_validation s')" by blast
  have "deserialize_snapshot_json ub (dump (document s) mode) bnd = Some (Inr s')"
    using build_document [OF wf ok n e, of ub] len by (simp add: deserialize_snapshot_json_def p t)
  then show ?thesis using s' by blast
qed

text \<open>How many values a document has.\<close>

definition nodes_in :: "json omap \<Rightarrow> nat" where
  "nodes_in m = (\<Sum>(k, v) \<leftarrow> m. json_nodes v)"

lemma nodes_in_simps [simp]: "nodes_in [] = 0" "nodes_in ((k, v) # m) = json_nodes v + nodes_in m"
  by (simp_all add: nodes_in_def)

lemma nodes_in_put: "nodes_in (om_put k v m) \<le> json_nodes v + nodes_in m"
  by (induction k v m rule: om_put.induct) auto

lemma json_nodes_obj: "json_nodes (obj kvs) \<le> Suc (nodes_in kvs)"
proof -
  have "nodes_in (fold (\<lambda>(k, v). om_put k v) kvs m) \<le> nodes_in kvs + nodes_in m" for m
  proof (induction kvs arbitrary: m)
    case (Cons kv kvs)
    obtain k v where kv: "kv = (k, v)" by (cases kv)
    show ?case using nodes_in_put [of k v m] Cons.IH [of "om_put k v m"] unfolding kv by simp
  qed simp
  from this [of "[]"] show ?thesis by (simp add: obj_object nodes_in_def)
qed

section \<open>Properties\<close>

text \<open>C5: whatever text it is given, \<open>deserialize_snapshot_json\<close> returns: it throws a malformed-data or an
  oversized error or the variant exception of an array, or it yields a snapshot that was made with the
  builder, under the caller's bounds and within them.\<close>

theorem deserialize_guarded:
  "\<exists>r. deserialize_snapshot_json ub jt bnd = Some r \<and>
    (case r of Inl x \<Rightarrow> reader_error x
     | Inr s \<Rightarrow> made_snapshot s \<and> s_bounds s = bnd \<and> length jt \<le> b_max_snapshot_bytes bnd
         \<and> length (s_nodes s) \<le> b_max_nodes bnd \<and> length (s_edges s) \<le> b_max_edges bnd)"
  using deserialize_result [of ub jt bnd] by (auto split: sum.splits)

text \<open>A document with one node that has the property \<open>a\<close>, an array of a string and null.\<close>

definition ex_mixed :: json where
  "ex_mixed = J_Object [(''format'', J_String format_name), (''nodes'', J_Array [J_Object
     [(''id'', J_String (''00000000000000000000000000000000'')),
      (''properties'', J_Object [(''a'', J_Array [J_String ''x'', J_Null])])]])]"

lemma ex_mixed_read: "parse (dump ex_mixed WM_Compact) default_options = Some
    \<lparr> jr_value = ex_mixed, jr_error = PE_None, jr_consumed = length (dump ex_mixed WM_Compact), jr_message = [] \<rparr>"
proof -
  have "json_depth ex_mixed \<le> po_max_depth default_options" "json_nodes ex_mixed \<le> po_max_nodes default_options"
    "json_ok (po_max_string_bytes default_options) ex_mixed" "json_ascii ex_mixed" "json_exact ex_mixed"
    by (simp_all add: ex_mixed_def format_name_def default_options_def om_ok_def ascii_def less_char_def)
  then show ?thesis using parse_dump [of ex_mixed default_options WM_Compact] reread_exact [of ex_mixed] by simp
qed

lemma ex_mixed_rejected:
  "deserialize_snapshot_json ub (dump ex_mixed WM_Compact) default_bounds = Some (Inl E_BadVariant)"
proof -
  have len: "length (dump ex_mixed WM_Compact) \<le> b_max_snapshot_bytes default_bounds"
  proof -
    have "length (dump ex_mixed WM_Compact) \<le> 200" by code_simp
    then show ?thesis by (simp add: default_bounds_def)
  qed
  let ?n = "J_Object [(''id'', J_String ''00000000000000000000000000000000''),
      (''properties'', J_Object [(''a'', J_Array [J_String ''x'', J_Null])])]"
  have "node_from_json ub ?n = Inl E_BadVariant"
  proof -
    have "to_hex (NodeId 0 0) = ''00000000000000000000000000000000''" by code_simp
    then have "try_from_hex ''00000000000000000000000000000000'' = Some (NodeId 0 0)"
      using try_from_hex_to_hex [of "NodeId 0 0"] by simp
    then have "id_field ?n ''id'' = Some (NodeId 0 0)" by (simp add: id_field_def j_find_def om_find_def)
    moreover have "properties_field ub ?n = Inl E_BadVariant"
      by (simp add: properties_field_def property_of_array_def j_find_def om_find_def)
    ultimately show ?thesis by (simp add: node_from_json_def Let_def)
  qed
  moreover have "string_field ex_mixed ''format'' [] = format_name" "array_field ex_mixed ''nodes'' = Some [?n]"
    by (simp_all add: field_defs array_field_def ex_mixed_def j_find_def om_find_def)
  moreover have "j_as_object ex_mixed \<noteq> None" by (simp add: ex_mixed_def)
  ultimately have "build_from_json ub ex_mixed default_bounds = Inl E_BadVariant"
    by (auto simp: build_from_json_def default_bounds_def)
  then show ?thesis using len by (simp add: deserialize_snapshot_json_def ex_mixed_read)
qed


end
