(* ===== verification/TF_Runtime.thy ===== *)
theory TF_Runtime
  imports TF_Merge TF_Diff TF_Registry TF_Telemetry TF_SnapshotText
begin

text \<open>
  The runtime (\<open>runtime.cpp\<close>, \<open>runtime.hpp\<close>): discovery, generations, the published snapshot, import.

  A discovery holds its mutex throughout, and the registry, the telemetry and the published snapshot are
  changed by atomic operations, so a run of the runtime is a sequence of calls.

  What a discovery takes from outside is the record \<open>outside\<close>: what the providers answer or which
  \<open>std::exception\<close> they throw, the clocks, the random numbers, and the orders in which the hash maps of
  the merge are enumerated.
\<close>

section \<open>The state\<close>

record 'p runtime =
  rt_bounds :: bounds
  rt_registry :: "'p registry"
  rt_telemetry :: telemetry
  rt_current :: "topology_snapshot option"
  rt_counter :: "64 word"

definition new_runtime :: "bounds \<Rightarrow> 'p runtime" where
  "new_runtime bnd = \<lparr> rt_bounds = bnd, rt_registry = empty_registry, rt_telemetry = empty_telemetry,
     rt_current = None, rt_counter = 0 \<rparr>"

definition record_on :: "telemetry_op \<Rightarrow> 'p runtime \<Rightarrow> 'p runtime" where
  "record_on op rt = rt \<lparr> rt_telemetry := record_telemetry op (rt_telemetry rt) \<rparr>"

text \<open>The built-in providers come from their factories; the one for CUDA is compiled in on demand.\<close>

definition register_builtin_providers ::
  "('p \<Rightarrow> string) \<Rightarrow> 'p \<Rightarrow> 'p \<Rightarrow> 'p \<Rightarrow> 'p option \<Rightarrow> 'p \<Rightarrow> 'p \<Rightarrow> 'p runtime \<Rightarrow> 'p runtime" where
  "register_builtin_providers pname host cpu_numa pci cuda storage network rt =
     rt \<lparr> rt_registry := fold (\<lambda>p r. fst (register_provider pname (Some p) r))
       ([host, cpu_numa, pci] @ (case cuda of Some c \<Rightarrow> [c] | None \<Rightarrow> []) @ [storage, network]) (rt_registry rt) \<rparr>"

record discovery_context =
  dc_bounds :: bounds
  dc_warnings :: "string list"
  dc_started_ms :: "64 word"
  dc_allow_measurement :: bool

text \<open>The random words and the time of creation are given for every number of a snapshot.\<close>

record 'p outside =
  os_name :: "'p \<Rightarrow> string"
  os_discover :: "'p \<Rightarrow> discovery_context \<Rightarrow> string + contribution"
  os_provider_ms :: "'p \<Rightarrow> f64"
  os_started_ms :: "64 word"
  os_created_ms :: "64 word \<Rightarrow> 64 word"
  os_random :: "64 word \<Rightarrow> 32 word \<times> 32 word \<times> 32 word \<times> 32 word"
  os_discovery_ms :: f64
  os_walk_groups :: "(string \<times> member list) list \<Rightarrow> (string \<times> member list) list"
  os_walk_ids :: "(string \<times> node_id) list \<Rightarrow> (string \<times> node_id) list"
  os_walk_nodes :: "(node_id \<times> topology_node) list \<Rightarrow> (node_id \<times> topology_node) list"

section \<open>The providers' turn\<close>

definition default_contribution :: contribution where
  "default_contribution = \<lparr> ct_provider = [], ct_version = [], ct_nodes = [], ct_edges = [], ct_warnings = [],
     ct_partial = False, ct_success = False \<rparr>"

definition ask_provider :: "'p outside \<Rightarrow> discovery_context \<Rightarrow> 'p \<Rightarrow> contribution" where
  "ask_provider os ctx p = (case os_discover os p ctx of
     Inr c \<Rightarrow> c
   | Inl what \<Rightarrow> default_contribution \<lparr> ct_success := False, ct_partial := True,
       ct_warnings := [''provider threw: '' @ what] \<rparr>)"

definition provider_turn ::
  "'p outside \<Rightarrow> discovery_context \<Rightarrow> 'p \<Rightarrow> telemetry \<times> contribution list \<times> bool \<Rightarrow> telemetry \<times> contribution list \<times> bool" where
  "provider_turn os ctx p tcp =
     (let cont = ask_provider os ctx p; ms = os_provider_ms os p;
          t = record_telemetry (T_provider_run (os_name os p) (ct_success cont) ms) (fst tcp);
          t = record_telemetry (T_provider_time ms) t;
          t = (if ct_partial cont then record_telemetry T_partial_discovery t else t)
      in (t, fst (snd tcp) @ [cont], snd (snd tcp) \<or> ct_partial cont))"

section \<open>The machine\<close>

definition machine_id :: "(node_id \<times> topology_node) list \<Rightarrow> node_id" where
  "machine_id nodes = (case find (\<lambda>p. n_type (snd p) = NT_MACHINE) nodes of
     Some p \<Rightarrow> fst p | None \<Rightarrow> kNullNodeId)"

definition is_resource :: "topology_node \<Rightarrow> bool" where
  "is_resource n \<longleftrightarrow> n_type n = NT_ACCELERATOR \<or> n_type n = NT_STORAGE_DEVICE \<or> n_type n = NT_NETWORK_INTERFACE
     \<or> n_type n = NT_PCI_ROOT \<or> n_type n = NT_PCI_DEVICE"

definition has_parent :: "topology_edge list \<Rightarrow> node_id set" where
  "has_parent edges = set (map e_target (filter (\<lambda>e. e_type e = ET_CONTAINS \<or> e_type e = ET_ATTACHED_TO) edges))"

definition attach_edge :: "node_id \<Rightarrow> node_id \<Rightarrow> topology_edge" where
  "attach_edge m i = default_edge \<lparr> e_source := m, e_target := i, e_type := ET_CONTAINS, e_direction := ED_DIRECTED,
     e_provenance := provenance_inferred ''merge'' ''machine attach'' CF_MEDIUM ''resource placed under machine'',
     e_confidence := CF_MEDIUM \<rparr>"

definition attach_resources :: "(node_id \<times> topology_node) list \<Rightarrow> topology_edge list \<Rightarrow> topology_edge list" where
  "attach_resources nodes edges =
     (let m = machine_id nodes in
      if m = kNullNodeId then edges
      else edges @ map (\<lambda>p. attach_edge m (fst p))
        (filter (\<lambda>p. fst p \<noteq> m \<and> is_resource (snd p) \<and> fst p \<notin> has_parent edges) nodes))"

definition machine_identity_of :: "(node_id \<times> topology_node) list \<Rightarrow> string" where
  "machine_identity_of nodes =
     (let name = (case find (\<lambda>p. n_type (snd p) = NT_MACHINE) nodes of Some p \<Rightarrow> n_name (snd p) | None \<Rightarrow> [])
      in if name = [] then ''unknown-machine'' else name)"

definition provider_versions_of :: "contribution list \<Rightarrow> string" where
  "provider_versions_of cs =
     foldl (\<lambda>s c. (if s \<noteq> [] then s @ '';'' else s) @ ct_provider c @ ''='' @ ct_version c) [] cs"

section \<open>Building and publishing\<close>

definition uuid_hex :: "32 word \<times> 32 word \<times> 32 word \<times> 32 word \<Rightarrow> string" where
  "uuid_hex r = (case r of (r1, r2, r3, r4) \<Rightarrow>
     to_hex (NodeId (push_bit 32 (ucast r1) XOR ucast r2) (push_bit 32 (ucast r3) XOR ucast r4)))"

definition snapshot_id_text :: "64 word \<Rightarrow> 32 word \<times> 32 word \<times> 32 word \<times> 32 word \<Rightarrow> string" where
  "snapshot_id_text cnt r = ''snap-'' @ dec_digits (unat cnt) @ ''-'' @ uuid_hex r"

record build_input =
  bi_nodes :: "(node_id \<times> topology_node) list"
  bi_edges :: "topology_edge list"
  bi_machine_identity :: string
  bi_provider_versions :: string
  bi_partial :: bool
  bi_warnings :: "string list"

definition build_snapshot ::
  "'p outside \<Rightarrow> build_input \<Rightarrow> 64 word \<Rightarrow> bool \<Rightarrow> 'p runtime \<Rightarrow> ('p runtime \<times> topology_snapshot) tresult" where
  "build_snapshot os bi gen synthetic rt =
     (let cnt = rt_counter rt + 1;
          meta = default_metadata \<lparr> m_snapshot_id := snapshot_id_text cnt (os_random os cnt), m_generation := gen,
            m_created_ms := os_created_ms os cnt, m_machine_identity := bi_machine_identity bi,
            m_provider_versions := bi_provider_versions bi, m_partial_discovery := bi_partial bi,
            m_synthetic := synthetic, m_warnings := bi_warnings bi \<rparr>;
          b = fold (\<lambda>p b. fst (add_node (snd p) b)) (bi_nodes bi) (new_builder (rt_bounds rt));
          b = fold (\<lambda>e b. fst (add_edge e b)) (bi_edges bi) b
      in tbind (take_snapshot (set_metadata meta b)) (\<lambda>bs. Inr (rt \<lparr> rt_counter := cnt \<rparr>, snd bs)))"

text \<open>The generation of a discovery, and the runtime after the provisional snapshot it may need.\<close>

definition next_generation :: "'p outside \<Rightarrow> build_input \<Rightarrow> 'p runtime \<Rightarrow> ('p runtime \<times> 64 word) tresult" where
  "next_generation os bi rt =
     (case rt_current rt of
        None \<Rightarrow> Inr (rt, 1)
      | Some prev \<Rightarrow>
          let g = m_generation (s_metadata prev) in
          tbind (build_snapshot os bi g False rt) (\<lambda>(rt, provisional).
            if td_material_change (compare_snapshots prev provisional)
            then Inr (record_on T_generation_change rt, g + 1) else Inr (rt, g)))"

definition count_types :: "topology_snapshot \<Rightarrow> (node_type, 64 word) umap" where
  "count_types s = fold (\<lambda>p m. um_put (n_type (snd p)) (um_get 0 m (n_type (snd p)) + 1) m) (s_nodes s) []"

definition record_snapshot :: "topology_snapshot \<Rightarrow> 'p runtime \<Rightarrow> 'p runtime" where
  "record_snapshot s rt =
     (let rt = record_on (T_nodes (of_nat (length (s_nodes s)))) rt;
          rt = record_on (T_edges (of_nat (length (s_edges s)))) rt;
          rt = fold (\<lambda>(t, c). record_on (T_node_type t c)) (count_types s) rt;
          rt = record_on T_snapshot_created rt
      in if \<not> v_ok (s_validation s)
         then record_on (T_validation_failures (of_nat (length (v_errors (s_validation s))))) rt else rt)"

definition discover :: "'p outside \<Rightarrow> 'p runtime \<Rightarrow> ('p runtime \<times> topology_snapshot) tresult" where
  "discover os rt =
     (let rt = record_on T_discovery_run rt;
          ctx = \<lparr> dc_bounds = rt_bounds rt, dc_warnings = [], dc_started_ms = os_started_ms os, dc_allow_measurement = False \<rparr>;
          (t, contributions, any_partial) =
            fold (provider_turn os ctx) (registry_all (rt_registry rt)) (rt_telemetry rt, [], False);
          rt = rt \<lparr> rt_telemetry := t \<rparr>;
          all_warnings = [];
          merged = merge_contributions (os_walk_groups os) (os_walk_ids os) contributions (rt_bounds rt);
          nodes = os_walk_nodes os (mg_nodes merged);
          bi = \<lparr> bi_nodes = nodes, bi_edges = attach_resources nodes (mg_edges merged),
                 bi_machine_identity = machine_identity_of nodes,
                 bi_provider_versions = provider_versions_of contributions, bi_partial = any_partial,
                 bi_warnings = all_warnings \<rparr>;
          rt = record_on (T_merge_conflicts (of_nat (length (mg_conflicts merged)))) rt
      in tbind (next_generation os bi rt) (\<lambda>(rt, gen).
         tbind (build_snapshot os bi gen False rt) (\<lambda>(rt, snap).
           Inr ((record_on (T_discovery_time (os_discovery_ms os)) (record_snapshot snap rt)) \<lparr> rt_current := Some snap \<rparr>,
                snap))))"

definition runtime_generation :: "'p runtime \<Rightarrow> 64 word" where
  "runtime_generation rt = (case rt_current rt of Some s \<Rightarrow> m_generation (s_metadata s) | None \<Rightarrow> 0)"

definition runtime_diff :: "topology_snapshot \<Rightarrow> topology_snapshot \<Rightarrow> topology_diff" where
  "runtime_diff before after = compare_snapshots before after"

definition runtime_serialize :: "topology_snapshot \<Rightarrow> bool \<Rightarrow> string tresult" where
  "runtime_serialize s pretty = serialize_snapshot_json s pretty"

section \<open>Import\<close>

text \<open>Whatever is thrown is counted and thrown again.\<close>

definition count_import :: "'a eresult option \<Rightarrow> 'p runtime \<Rightarrow> ('p runtime \<times> 'a eresult) option" where
  "count_import r rt = map_option (\<lambda>r. (record_on (T_imported_snapshot (\<not> isl r)) rt, r)) r"

definition runtime_deserialize ::
  "(f64 \<Rightarrow> 64 word) \<Rightarrow> string \<Rightarrow> 'p runtime \<Rightarrow> ('p runtime \<times> topology_snapshot eresult) option" where
  "runtime_deserialize ub jt rt = count_import (deserialize_snapshot_json ub jt (rt_bounds rt)) rt"

definition force_synthetic :: "bounds \<Rightarrow> topology_snapshot \<Rightarrow> topology_snapshot eresult" where
  "force_synthetic bnd s =
     (if m_synthetic (s_metadata s) then Inr s
      else (let b = set_metadata ((s_metadata s) \<lparr> m_synthetic := True \<rparr>) (new_builder bnd);
                b = fold (\<lambda>p b. fst (add_node (snd p) b)) (s_nodes s) b;
                b = fold (\<lambda>e b. fst (add_edge e b)) (s_edges s) b
            in case take_snapshot b of Inl e \<Rightarrow> Inl (E_Topology e) | Inr bs \<Rightarrow> Inr (snd bs)))"

definition import_synthetic ::
  "(f64 \<Rightarrow> 64 word) \<Rightarrow> string \<Rightarrow> 'p runtime \<Rightarrow> ('p runtime \<times> topology_snapshot eresult) option" where
  "import_synthetic ub jt rt =
     count_import (map_option (\<lambda>r. ebind r (force_synthetic (rt_bounds rt)))
       (deserialize_snapshot_json ub jt (rt_bounds rt))) rt"

section \<open>What a discovery is made of\<close>

definition context_of :: "'p outside \<Rightarrow> 'p runtime \<Rightarrow> discovery_context" where
  "context_of os rt = \<lparr> dc_bounds = rt_bounds rt, dc_warnings = [], dc_started_ms = os_started_ms os,
     dc_allow_measurement = False \<rparr>"

definition answers :: "'p outside \<Rightarrow> 'p runtime \<Rightarrow> contribution list" where
  "answers os rt = map (ask_provider os (context_of os rt)) (registry_all (rt_registry rt))"

definition merged_of :: "'p outside \<Rightarrow> 'p runtime \<Rightarrow> merged_graph" where
  "merged_of os rt = merge_contributions (os_walk_groups os) (os_walk_ids os) (answers os rt) (rt_bounds rt)"

definition nodes_of :: "'p outside \<Rightarrow> 'p runtime \<Rightarrow> (node_id \<times> topology_node) list" where
  "nodes_of os rt = os_walk_nodes os (mg_nodes (merged_of os rt))"

definition edges_of :: "'p outside \<Rightarrow> 'p runtime \<Rightarrow> topology_edge list" where
  "edges_of os rt = attach_resources (nodes_of os rt) (mg_edges (merged_of os rt))"

definition input_of :: "'p outside \<Rightarrow> 'p runtime \<Rightarrow> build_input" where
  "input_of os rt = \<lparr> bi_nodes = nodes_of os rt, bi_edges = edges_of os rt,
     bi_machine_identity = machine_identity_of (nodes_of os rt),
     bi_provider_versions = provider_versions_of (answers os rt), bi_partial = list_ex ct_partial (answers os rt),
     bi_warnings = [] \<rparr>"

definition walks_ok :: "'p outside \<Rightarrow> bool" where
  "walks_ok os \<longleftrightarrow> rearranges (os_walk_groups os) \<and> rearranges (os_walk_ids os) \<and> rearranges (os_walk_nodes os)"

lemma record_on_simps [simp]:
  "rt_bounds (record_on op rt) = rt_bounds rt" "rt_registry (record_on op rt) = rt_registry rt"
  "rt_current (record_on op rt) = rt_current rt" "rt_counter (record_on op rt) = rt_counter rt"
  "rt_telemetry (record_on op rt) = record_telemetry op (rt_telemetry rt)"
  by (simp_all add: record_on_def)

lemma record_snapshot_simps [simp]:
  "rt_bounds (record_snapshot s rt) = rt_bounds rt" "rt_registry (record_snapshot s rt) = rt_registry rt"
  "rt_current (record_snapshot s rt) = rt_current rt" "rt_counter (record_snapshot s rt) = rt_counter rt"
proof -
  have f: "rt_bounds (fold (\<lambda>(t, c). record_on (T_node_type t c)) xs rt) = rt_bounds rt
    \<and> rt_registry (fold (\<lambda>(t, c). record_on (T_node_type t c)) xs rt) = rt_registry rt
    \<and> rt_current (fold (\<lambda>(t, c). record_on (T_node_type t c)) xs rt) = rt_current rt
    \<and> rt_counter (fold (\<lambda>(t, c). record_on (T_node_type t c)) xs rt) = rt_counter rt" for xs and rt :: "'p runtime"
    by (induction xs arbitrary: rt) auto
  show "rt_bounds (record_snapshot s rt) = rt_bounds rt" "rt_registry (record_snapshot s rt) = rt_registry rt"
    "rt_current (record_snapshot s rt) = rt_current rt" "rt_counter (record_snapshot s rt) = rt_counter rt"
    by (simp_all add: record_snapshot_def Let_def f)
qed

lemma turns_answers:
  "snd (fold (provider_turn os ctx) ps (t, cs, b))
   = (cs @ map (ask_provider os ctx) ps, b \<or> list_ex ct_partial (map (ask_provider os ctx) ps))"
  by (induction ps arbitrary: t cs b) (auto simp: provider_turn_def Let_def)

text \<open>The runtime when the providers have answered.\<close>

definition asked :: "'p outside \<Rightarrow> 'p runtime \<Rightarrow> 'p runtime" where
  "asked os rt = record_on (T_merge_conflicts (of_nat (length (mg_conflicts (merged_of os rt)))))
     (rt \<lparr> rt_telemetry := fst (fold (provider_turn os (context_of os rt)) (registry_all (rt_registry rt))
        (record_telemetry T_discovery_run (rt_telemetry rt), [], False)) \<rparr>)"

lemma discover_eq:
  "discover os rt = tbind (next_generation os (input_of os rt) (asked os rt)) (\<lambda>(rt', gen).
     tbind (build_snapshot os (input_of os rt) gen False rt') (\<lambda>(rt', snap).
       Inr ((record_on (T_discovery_time (os_discovery_ms os)) (record_snapshot snap rt')) \<lparr> rt_current := Some snap \<rparr>, snap)))"
proof -
  let ?f = "fold (provider_turn os (context_of os rt)) (registry_all (rt_registry rt))
    (record_telemetry T_discovery_run (rt_telemetry rt), [], False)"
  have f: "?f = (fst ?f, answers os rt, list_ex ct_partial (answers os rt))"
    by (rule prod_eqI) (simp_all add: turns_answers answers_def)
  have c: "\<lparr> dc_bounds = rt_bounds rt, dc_warnings = [], dc_started_ms = os_started_ms os, dc_allow_measurement = False \<rparr>
    = context_of os rt" by (simp add: context_of_def)
  have r: "(record_on T_discovery_run rt) \<lparr> rt_telemetry := t \<rparr> = rt \<lparr> rt_telemetry := t \<rparr>" for t
    by (simp add: record_on_def)
  show ?thesis
    unfolding discover_def Let_def record_on_simps c r
    by (subst f) (simp add: merged_of_def [symmetric] nodes_of_def [symmetric] edges_of_def [symmetric]
        input_of_def [symmetric] asked_def)
qed

lemma asked_simps [simp]:
  "rt_bounds (asked os rt) = rt_bounds rt" "rt_registry (asked os rt) = rt_registry rt"
  "rt_current (asked os rt) = rt_current rt" "rt_counter (asked os rt) = rt_counter rt"
  by (simp_all add: asked_def)

section \<open>Building a snapshot\<close>

lemma add_edges_cut:
  assumes "\<not> bd_taken b"
  shows "bd_edges (fold (\<lambda>e b. fst (add_edge e b)) es b) = bd_edges b @ take (b_max_edges (bd_bounds b) - length (bd_edges b)) es
    \<and> bd_nodes (fold (\<lambda>e b. fst (add_edge e b)) es b) = bd_nodes b"
  using assms
proof (induction es arbitrary: b)
  case (Cons e es)
  show ?case
  proof (cases "b_max_edges (bd_bounds b) \<le> length (bd_edges b)")
    case True
    then show ?thesis using Cons.IH [of "fst (add_edge e b)"] Cons.prems by (simp add: add_edge_def)
  next
    case False
    then have "take (b_max_edges (bd_bounds b) - length (bd_edges b)) (e # es)
        = e # take (b_max_edges (bd_bounds b) - Suc (length (bd_edges b))) es"
      by (metis Suc_diff_Suc not_le take_Suc_Cons)
    then show ?thesis using Cons.IH [of "fst (add_edge e b)"] Cons.prems False by (simp add: add_edge_def)
  qed
qed simp

lemma fold_nodes: "fold (\<lambda>p b. fst (add_node (snd p) b)) ps b = fold (\<lambda>n b. fst (add_node n b)) (map snd ps) b"
  by (induction ps arbitrary: b) simp_all

lemma filled_add: "filled bd b \<Longrightarrow> filled bd (fst (add_node n b))" "filled bd b \<Longrightarrow> filled bd (fst (add_edge e b))"
  "filled bd b \<Longrightarrow> filled bd (set_metadata m b)"
  using filled_step [of bd b "Op_add_node n"] filled_step [of bd b "Op_add_edge e"] filled_step [of bd b "Op_set_metadata m"]
  by simp_all

lemma filled_nodes: "filled bd b \<Longrightarrow> filled bd (fold (\<lambda>n b. fst (add_node n b)) ns b)"
  by (induction ns arbitrary: b) (simp_all add: filled_add)

lemma filled_edges: "filled bd b \<Longrightarrow> filled bd (fold (\<lambda>e b. fst (add_edge e b)) es b)"
  by (induction es arbitrary: b) (simp_all add: filled_add)

lemma filled_made:
  assumes "filled bnd b"
  shows "\<exists>b' s. take_snapshot b = Inr (b', s) \<and> made_snapshot s \<and> s_bounds s = bnd \<and> s_nodes s = bd_nodes b
    \<and> s_edges s = bd_edges b \<and> s_metadata s = bd_metadata b"
proof -
  note fb = filled_bounds [OF assms]
  obtain b' s where t: "take_snapshot b = Inr (b', s)" using filled_take [OF assms] by blast
  then have "made_snapshot s" using fb unfolding made_snapshot_def by blast
  then show ?thesis using t fb by (auto simp: take_snapshot_def Let_def split: if_splits)
qed

text \<open>Nodes with unique ids within the bound.\<close>

definition nodes_fit :: "bounds \<Rightarrow> (node_id \<times> topology_node) list \<Rightarrow> bool" where
  "nodes_fit bnd ps \<longleftrightarrow> um_ok ps \<and> length ps \<le> b_max_nodes bnd \<and> (\<forall>p \<in> set ps. n_id (snd p) = fst p)"

lemma fit_nodes_fold:
  assumes "nodes_fit bnd ps" and "\<not> bd_taken b" and "bd_nodes b = []" and "bd_bounds b = bnd"
  shows "fold (\<lambda>n b. fst (add_node n b)) (map snd ps) b = b \<lparr> bd_nodes := ps \<rparr>"
proof -
  have ids: "map n_id (map snd ps) = um_keys ps" and pairs: "map (\<lambda>n. (n_id n, n)) (map snd ps) = ps"
    using assms(1) by (simp_all add: nodes_fit_def um_keys_def map_idI)
  have "fold (\<lambda>n b. fst (add_node n b)) (map snd ps) b = b \<lparr> bd_nodes := bd_nodes b @ map (\<lambda>n. (n_id n, n)) (map snd ps) \<rparr>"
    by (rule add_node_fold) (use assms ids in \<open>simp_all add: nodes_fit_def um_ok_def\<close>)
  then show ?thesis unfolding pairs by (simp add: assms(3))
qed

definition built_metadata :: "'p outside \<Rightarrow> build_input \<Rightarrow> 64 word \<Rightarrow> bool \<Rightarrow> 64 word \<Rightarrow> snapshot_metadata" where
  "built_metadata os bi gen synthetic cnt =
     default_metadata \<lparr> m_snapshot_id := snapshot_id_text cnt (os_random os cnt), m_generation := gen,
       m_created_ms := os_created_ms os cnt, m_machine_identity := bi_machine_identity bi,
       m_provider_versions := bi_provider_versions bi, m_partial_discovery := bi_partial bi,
       m_synthetic := synthetic, m_warnings := bi_warnings bi \<rparr>"

lemma build_snapshot_made:
  "\<exists>s. build_snapshot os bi gen synthetic rt = Inr (rt \<lparr> rt_counter := rt_counter rt + 1 \<rparr>, s)
    \<and> made_snapshot s \<and> s_bounds s = rt_bounds rt
    \<and> s_metadata s = built_metadata os bi gen synthetic (rt_counter rt + 1)
    \<and> (nodes_fit (rt_bounds rt) (bi_nodes bi) \<longrightarrow> s_nodes s = bi_nodes bi
         \<and> s_edges s = take (b_max_edges (rt_bounds rt)) (bi_edges bi))"
proof -
  let ?n = "fold (\<lambda>n b. fst (add_node n b)) (map snd (bi_nodes bi)) (new_builder (rt_bounds rt))"
  let ?e = "fold (\<lambda>e b. fst (add_edge e b)) (bi_edges bi) ?n"
  let ?m = "built_metadata os bi gen synthetic (rt_counter rt + 1)"
  have "filled (rt_bounds rt) (set_metadata ?m ?e)" by (intro filled_add filled_edges filled_nodes filled_new)
  from filled_made [OF this] obtain b' s where s: "take_snapshot (set_metadata ?m ?e) = Inr (b', s)" "made_snapshot s"
    "s_bounds s = rt_bounds rt" "s_nodes s = bd_nodes ?e" "s_edges s = bd_edges ?e" "s_metadata s = ?m"
    by (auto simp: set_metadata_def)
  have "bd_nodes ?e = bi_nodes bi \<and> bd_edges ?e = take (b_max_edges (rt_bounds rt)) (bi_edges bi)"
    if "nodes_fit (rt_bounds rt) (bi_nodes bi)"
    using fit_nodes_fold [OF that, of "new_builder (rt_bounds rt)"]
      add_edges_cut [of "(new_builder (rt_bounds rt)) \<lparr> bd_nodes := bi_nodes bi \<rparr>" "bi_edges bi"]
    by (simp add: new_builder_def)
  then show ?thesis
    using s by (simp add: build_snapshot_def Let_def fold_nodes built_metadata_def [symmetric])
qed

section \<open>The outcome of a discovery\<close>

lemma nodes_of_fit:
  assumes "walks_ok os"
  shows "nodes_fit (rt_bounds rt) (nodes_of os rt)"
proof -
  let ?b = "rt_bounds rt" and ?cs = "answers os rt"
  have inv: "nodes_inv (b_max_nodes ?b) (set (the_groups (b_max_nodes ?b) ?cs)) (merge_state (os_walk_groups os) ?cs ?b)"
    using assms by (intro merge_state_inv) (simp add: walks_ok_def)
  have w: "mset (nodes_of os rt) = mset (mg_nodes (merged_of os rt))"
    using assms by (simp add: walks_ok_def rearranges_def nodes_of_def)
  have "mset (um_keys (nodes_of os rt)) = mset (um_keys (mg_nodes (merged_of os rt)))"
    unfolding um_keys_def mset_map w ..
  then have "um_ok (nodes_of os rt) \<longleftrightarrow> um_ok (mg_nodes (merged_of os rt))"
    unfolding um_ok_def by (rule mset_eq_imp_distinct_iff)
  moreover have "um_ok (mg_nodes (merged_of os rt))" using inv by (simp add: nodes_inv_def merged_of_def merge_contributions_eq)
  ultimately have "um_ok (nodes_of os rt)" by simp
  moreover have "length (nodes_of os rt) \<le> b_max_nodes ?b" using inv mset_eq_length [OF w]
    by (simp add: nodes_inv_def merged_of_def merge_contributions_eq)
  moreover have "n_id (snd p) = fst p" if "p \<in> set (nodes_of os rt)" for p
  proof -
    have "p \<in> set (mg_nodes (merged_of os rt))" using that mset_eq_setD [OF w] by simp
    then show ?thesis using inv by (fastforce simp: nodes_inv_def merged_of_def merge_contributions_eq)
  qed
  ultimately show ?thesis by (simp add: nodes_fit_def)
qed

lemma material_graph:
  assumes "s_nodes s = s_nodes t" and "s_edges s = s_edges t"
  shows "td_material_change (compare_snapshots p s) = td_material_change (compare_snapshots p t)"
  using assms by (simp add: compare_snapshots_def raw_events_def Let_def)

definition generation_after :: "topology_snapshot option \<Rightarrow> topology_snapshot \<Rightarrow> 64 word" where
  "generation_after prev s = (case prev of None \<Rightarrow> 1
     | Some p \<Rightarrow> m_generation (s_metadata p) + (if td_material_change (compare_snapshots p s) then 1 else 0))"

definition spent_numbers :: "'p runtime \<Rightarrow> 64 word" where
  "spent_numbers rt = (if rt_current rt = None then 1 else 2)"

lemma discover_shape:
  assumes "walks_ok os"
  shows "\<exists>rt' s. discover os rt = Inr (rt', s) \<and> rt_current rt' = Some s \<and> rt_bounds rt' = rt_bounds rt
    \<and> rt_registry rt' = rt_registry rt \<and> rt_counter rt' = rt_counter rt + spent_numbers rt
    \<and> made_snapshot s \<and> s_bounds s = rt_bounds rt \<and> s_nodes s = nodes_of os rt
    \<and> s_edges s = take (b_max_edges (rt_bounds rt)) (edges_of os rt)
    \<and> s_metadata s = built_metadata os (input_of os rt) (generation_after (rt_current rt) s) False (rt_counter rt')"
proof (cases "rt_current rt")
  case None
  have n: "next_generation os (input_of os rt) (asked os rt) = Inr (asked os rt, 1)"
    by (simp add: next_generation_def None)
  obtain s where s: "build_snapshot os (input_of os rt) 1 False (asked os rt)
      = Inr ((asked os rt) \<lparr> rt_counter := rt_counter rt + 1 \<rparr>, s)"
    "made_snapshot s" "s_bounds s = rt_bounds rt" "s_metadata s = built_metadata os (input_of os rt) 1 False (rt_counter rt + 1)"
    "s_nodes s = nodes_of os rt" "s_edges s = take (b_max_edges (rt_bounds rt)) (edges_of os rt)"
    using build_snapshot_made [of os "input_of os rt" 1 False "asked os rt"] nodes_of_fit [OF assms, of rt]
    by (auto simp: input_of_def)
  then show ?thesis by (simp add: discover_eq n None generation_after_def spent_numbers_def)
next
  case (Some prev)
  let ?g = "m_generation (s_metadata prev)"
  obtain p where p: "build_snapshot os (input_of os rt) ?g False (asked os rt)
      = Inr ((asked os rt) \<lparr> rt_counter := rt_counter rt + 1 \<rparr>, p)"
    "s_nodes p = nodes_of os rt" "s_edges p = take (b_max_edges (rt_bounds rt)) (edges_of os rt)"
    using build_snapshot_made [of os "input_of os rt" ?g False "asked os rt"] nodes_of_fit [OF assms, of rt]
    by (auto simp: input_of_def)
  obtain rt2 gen where n: "next_generation os (input_of os rt) (asked os rt) = Inr (rt2, gen)"
    and gen: "gen = ?g + (if td_material_change (compare_snapshots prev p) then 1 else 0)"
    and rt2: "rt_bounds rt2 = rt_bounds rt" "rt_registry rt2 = rt_registry rt" "rt_counter rt2 = rt_counter rt + 1"
    by (cases "td_material_change (compare_snapshots prev p)") (simp_all add: next_generation_def Some p(1) Let_def)
  obtain s where s: "build_snapshot os (input_of os rt) gen False rt2 = Inr (rt2 \<lparr> rt_counter := rt_counter rt2 + 1 \<rparr>, s)"
    "made_snapshot s" "s_bounds s = rt_bounds rt" "s_metadata s = built_metadata os (input_of os rt) gen False (rt_counter rt2 + 1)"
    "s_nodes s = nodes_of os rt" "s_edges s = take (b_max_edges (rt_bounds rt)) (edges_of os rt)"
    using build_snapshot_made [of os "input_of os rt" gen False rt2] nodes_of_fit [OF assms, of rt]
    by (auto simp: input_of_def rt2)
  have "gen = generation_after (rt_current rt) s"
    using material_graph [of s p prev] s(5,6) p(2,3) by (simp add: gen generation_after_def Some)
  then show ?thesis using s by (simp add: discover_eq n rt2 Some spent_numbers_def)
qed

lemma discover_parts:
  assumes "walks_ok os" and "discover os rt = Inr (rt', s)"
  shows "rt_current rt' = Some s" and "rt_bounds rt' = rt_bounds rt" and "rt_registry rt' = rt_registry rt"
    and "rt_counter rt' = rt_counter rt + spent_numbers rt" and "made_snapshot s" and "s_bounds s = rt_bounds rt"
    and "s_nodes s = nodes_of os rt" and "s_edges s = take (b_max_edges (rt_bounds rt)) (edges_of os rt)"
    and "s_metadata s = built_metadata os (input_of os rt) (generation_after (rt_current rt) s) False (rt_counter rt')"
  using discover_shape [OF assms(1), of rt] assms(2) by auto

section \<open>The machine as a parent\<close>

lemma machine_found: "machine_id ps \<noteq> kNullNodeId \<Longrightarrow> \<exists>n. (machine_id ps, n) \<in> set ps \<and> n_type n = NT_MACHINE"
proof -
  assume "machine_id ps \<noteq> kNullNodeId"
  then obtain p where p: "find (\<lambda>p. n_type (snd p) = NT_MACHINE) ps = Some p" and i: "machine_id ps = fst p"
    by (auto simp: machine_id_def split: option.splits)
  have "p \<in> set ps" "n_type (snd p) = NT_MACHINE"
    using p nth_mem by (auto simp: find_Some_iff)
  then show ?thesis unfolding i by (metis prod.collapse)
qed

lemma attach_edge_simps [simp]:
  "e_source (attach_edge m i) = m" "e_target (attach_edge m i) = i" "e_type (attach_edge m i) = ET_CONTAINS"
  by (simp_all add: attach_edge_def)

lemma attach_parent:
  assumes "machine_id ps \<noteq> kNullNodeId" and "(i, n) \<in> set ps" and "is_resource n" and "i \<noteq> machine_id ps"
  shows "\<exists>e \<in> set (attach_resources ps es). e_target e = i \<and> (e_type e = ET_CONTAINS \<or> e_type e = ET_ATTACHED_TO)"
proof (cases "i \<in> has_parent es")
  case True
  then show ?thesis using assms(1) by (auto simp: has_parent_def attach_resources_def Let_def)
next
  case False
  then have "attach_edge (machine_id ps) i \<in> set (attach_resources ps es)"
    using assms by (force simp: attach_resources_def Let_def)
  then show ?thesis by force
qed

lemma contains_attached:
  "\<exists>A. machine_id ps \<notin> A \<and> contains_rel (attach_resources ps es) = contains_rel es \<union> {machine_id ps} \<times> A"
proof (cases "machine_id ps = kNullNodeId")
  case True
  then show ?thesis by (intro exI [of _ "{}"]) (simp add: attach_resources_def)
next
  case False
  let ?A = "fst ` {p \<in> set ps. fst p \<noteq> machine_id ps \<and> is_resource (snd p) \<and> fst p \<notin> has_parent es}"
  have "contains_rel (attach_resources ps es) = contains_rel es \<union> {machine_id ps} \<times> ?A"
    using False by (force simp: contains_rel_def attach_resources_def Let_def)
  moreover have "machine_id ps \<notin> ?A" by auto
  ultimately show ?thesis by blast
qed

lemma acyclic_star:
  assumes "acyclic r" and "m \<notin> Range r" and "m \<notin> A"
  shows "acyclic (r \<union> {m} \<times> A)"
proof -
  let ?r = "r \<union> {m} \<times> A"
  have no_m: "(x, m) \<notin> ?r\<^sup>+" for x using assms(2,3) by (auto elim: tranclE)
  have "(x, y) \<in> ?r\<^sup>+ \<Longrightarrow> x \<noteq> m \<Longrightarrow> (x, y) \<in> r\<^sup>+" for x y
  proof (induction rule: trancl_induct)
    case (step y z)
    have "y \<noteq> m" using step.hyps(1) no_m by blast
    then show ?case using step by (auto intro: trancl_into_trancl)
  qed auto
  then show ?thesis using assms(1) no_m unfolding acyclic_def by blast
qed

lemma attach_acyclic:
  assumes "acyclic (contains_rel es)" and "machine_id ps \<notin> Range (contains_rel es)"
  shows "acyclic (contains_rel (attach_resources ps es))"
  using contains_attached [of ps es] acyclic_star [OF assms] by auto

section \<open>Discovering the same again\<close>

definition one_machine :: "topology_snapshot \<Rightarrow> bool" where
  "one_machine s \<longleftrightarrow> length (filter (\<lambda>p. n_type (snd p) = NT_MACHINE) (s_nodes s)) \<le> 1"

lemma find_filter: "find P xs = (case filter P xs of [] \<Rightarrow> None | x # _ \<Rightarrow> Some x)"
  by (induction xs) auto

lemma machine_unique:
  assumes "mset ps = mset qs" and "length (filter (\<lambda>p. n_type (snd p) = NT_MACHINE) ps) \<le> 1"
  shows "find (\<lambda>p. n_type (snd p) = NT_MACHINE) ps = find (\<lambda>p. n_type (snd p) = NT_MACHINE) qs"
proof -
  let ?m = "\<lambda>p. n_type (snd p) = NT_MACHINE"
  have m: "mset (filter ?m ps) = mset (filter ?m qs)" using assms(1) by (simp add: mset_filter)
  have "filter ?m ps = filter ?m qs"
  proof (cases "filter ?m ps")
    case Nil
    then have "mset (filter ?m qs) = {#}" unfolding m [symmetric] by (simp only: mset.simps(1))
    then show ?thesis unfolding Nil mset_zero_iff by (rule sym)
  next
    case (Cons x xs)
    then have "filter ?m ps = [x]" using assms(2) by simp
    then show ?thesis using m by (metis mset_single_iff_right mset.simps)
  qed
  then show ?thesis by (simp only: find_filter)
qed

lemma attach_same:
  assumes "mset ps = mset qs" and "machine_id ps = machine_id qs"
  shows "mset (attach_resources ps es) = mset (attach_resources qs es)"
  using assms by (simp add: attach_resources_def Let_def mset_filter)

text \<open>A snapshot whose numbers can be compared, and another one with the same nodes and edges in any order.\<close>

lemma same_again:
  assumes "comparable s" and "mset (s_nodes t) = mset (s_nodes s)" and "mset (s_edges t) = mset (s_edges s)"
  shows "same_topology s t" and "um_ok (s_nodes t)" and "um_find (s_nodes t) = um_find (s_nodes s)"
proof -
  have keys: "mset (um_keys (s_nodes t)) = mset (um_keys (s_nodes s))" unfolding um_keys_def mset_map assms(2) ..
  have ok: "um_ok (s_nodes s)" using assms(1) by (simp add: comparable_def)
  then show t: "um_ok (s_nodes t)" using mset_eq_imp_distinct_iff [OF keys] by (simp add: um_ok_def)
  have "um_find (s_nodes t) i = Some n \<longleftrightarrow> um_find (s_nodes s) i = Some n" for i n
    using mset_eq_setD [OF assms(2)] by (simp add: um_find_mem ok t)
  then show f: "um_find (s_nodes t) = um_find (s_nodes s)" by (metis option.exhaust ext)
  have e: "set (s_edges t) = set (s_edges s)" using mset_eq_setD [OF assms(3)] .
  have "\<not> link_changed e e" if "e \<in> set (s_edges s)" for e
    using assms(1) that by (auto simp: comparable_def edge_numbers_def link_changed_def opt_f64_ne_same)
  moreover have "find (\<lambda>ae. edge_key ae = edge_key e) (s_edges s) = Some e" if "e \<in> set (s_edges s)" for e
    using assms(1) that by (intro find_key) (simp_all add: comparable_def)
  ultimately have "same_links (s_edges s) (s_edges t)" by (auto simp: same_links_def e)
  moreover have "same_facts n n" for n by (simp add: same_facts_def locality_changed_def)
  ultimately show "same_topology s t"
    using mset_eq_setD [OF keys] by (auto simp: same_topology_def f e)
qed

lemma rediscovery:
  assumes "walks_ok os" and "walks_ok os'" and "discover os rt = Inr (rt1, s1)" and "discover os' rt1 = Inr (rt2, s2)"
    and same: "answers os' rt1 = answers os rt" and "refs_agree (answers os rt)"
    and "one_machine s1" and "comparable s1" and room: "length (s_edges s1) < b_max_edges (rt_bounds rt)"
  shows "m_generation (s_metadata s2) = m_generation (s_metadata s1)
    \<and> um_find (s_nodes s2) = um_find (s_nodes s1) \<and> mset (s_edges s2) = mset (s_edges s1)"
proof -
  note d1 = discover_parts [OF assms(1,3)] and d2 = discover_parts [OF assms(2,4)]
  have merged: "merged_of os' rt1 = merged_of os rt"
    using assms(1,2,6) by (simp add: merged_of_def same d1(2) walks_ok_def merge_walk)
  have nodes: "mset (nodes_of os' rt1) = mset (nodes_of os rt)"
    using assms(1,2) by (simp add: nodes_of_def merged walks_ok_def rearranges_def)
  have "machine_id (nodes_of os rt) = machine_id (nodes_of os' rt1)"
    using machine_unique [OF nodes [symmetric]] assms(7) by (simp add: machine_id_def one_machine_def d1(7))
  then have edges: "mset (edges_of os' rt1) = mset (edges_of os rt)"
    by (simp add: edges_of_def merged attach_same [OF nodes])
  have full: "s_edges s1 = edges_of os rt" using room by (simp add: d1(8))
  then have "s_edges s2 = edges_of os' rt1"
    using room mset_eq_length [OF edges] by (simp add: d2(8) d1(2))
  then have "mset (s_edges s2) = mset (s_edges s1)" by (simp add: full edges)
  moreover have "mset (s_nodes s2) = mset (s_nodes s1)" by (simp add: d1(7) d2(7) nodes)
  ultimately have again: "same_topology s1 s2" "um_ok (s_nodes s2)" "um_find (s_nodes s2) = um_find (s_nodes s1)"
    "mset (s_edges s2) = mset (s_edges s1)"
    using same_again [OF assms(8)] by blast+
  then have "generation_after (rt_current rt1) s2 = m_generation (s_metadata s1)"
    using not_material_iff [OF again(2), of s1] by (simp add: generation_after_def d1(1))
  then show ?thesis using again by (simp add: d2(9) built_metadata_def)
qed

section \<open>Telemetry of a discovery\<close>

fun quiet :: "telemetry_op \<Rightarrow> bool" where
  "quiet (T_provider_run _ _ _) \<longleftrightarrow> False"
| "quiet (T_provider_time _) \<longleftrightarrow> False"
| "quiet T_reset \<longleftrightarrow> False"
| "quiet _ \<longleftrightarrow> True"

lemma quiet_total: "list_all quiet ops \<Longrightarrow>
    tm_provider_total_ms (fold record_telemetry ops t) = tm_provider_total_ms t"
proof (induction ops arbitrary: t)
  case (Cons op ops)
  then have "tm_provider_total_ms (record_telemetry op t) = tm_provider_total_ms t" by (cases op) auto
  then show ?case using Cons by simp
qed simp

definition quietly :: "telemetry \<Rightarrow> telemetry \<Rightarrow> bool" where
  "quietly t t' \<longleftrightarrow> (\<exists>ops. t' = fold record_telemetry ops t \<and> list_all quiet ops)"

lemma quietly_refl: "quietly t t"
  unfolding quietly_def by (intro exI [of _ "[]"]) simp

lemma quietly_step: "quietly t t' \<Longrightarrow> quiet op \<Longrightarrow> quietly t (record_telemetry op t')"
proof -
  assume "quietly t t'" and q: "quiet op"
  then obtain ops where "t' = fold record_telemetry ops t" "list_all quiet ops" unfolding quietly_def by blast
  then show ?thesis using q unfolding quietly_def by (intro exI [of _ "ops @ [op]"]) simp
qed

lemma quietly_on: "quietly t (rt_telemetry rt) \<Longrightarrow> quiet op \<Longrightarrow> quietly t (rt_telemetry (record_on op rt))"
  by (simp add: quietly_step del: record_telemetry.simps)

lemma quietly_types: "quietly t (rt_telemetry rt) \<Longrightarrow>
    quietly t (rt_telemetry (fold (\<lambda>(u, c). record_on (T_node_type u c)) xs rt))"
proof (induction xs arbitrary: rt)
  case (Cons uc xs)
  show ?case using Cons.IH [OF quietly_on [OF Cons.prems]] by (cases uc) simp
qed simp

lemma quietly_record: "quietly t (rt_telemetry rt) \<Longrightarrow> quietly t (rt_telemetry (record_snapshot s rt))"
  by (auto simp: record_snapshot_def Let_def simp del: record_telemetry.simps intro!: quietly_step quietly_types)

lemma build_telemetry: "build_snapshot os bi gen syn rt = Inr (rt', s) \<Longrightarrow> rt_telemetry rt' = rt_telemetry rt"
  using build_snapshot_made [of os bi gen syn rt] by auto

lemma next_generation_telemetry:
  assumes "next_generation os bi rt = Inr (rt', gen)"
  shows "quietly (rt_telemetry rt) (rt_telemetry rt')"
proof (cases "rt_current rt")
  case None
  then show ?thesis using assms by (simp add: next_generation_def quietly_refl)
next
  case (Some prev)
  obtain p where "build_snapshot os bi (m_generation (s_metadata prev)) False rt = Inr (rt \<lparr> rt_counter := rt_counter rt + 1 \<rparr>, p)"
    using build_snapshot_made by blast
  then show ?thesis using assms quietly_refl quietly_step [OF quietly_refl, of T_generation_change]
    by (auto simp: next_generation_def Some Let_def simp del: record_telemetry.simps split: if_splits)
qed

lemma discover_telemetry:
  assumes "discover os rt = Inr (rt', s)"
  shows "quietly (rt_telemetry (asked os rt)) (rt_telemetry rt')"
proof -
  obtain rt2 gen where n: "next_generation os (input_of os rt) (asked os rt) = Inr (rt2, gen)"
    using assms unfolding discover_eq by (cases "next_generation os (input_of os rt) (asked os rt)") auto
  obtain rt3 where b: "build_snapshot os (input_of os rt) gen False rt2 = Inr (rt3, s)"
    and rt': "rt' = (record_on (T_discovery_time (os_discovery_ms os)) (record_snapshot s rt3)) \<lparr> rt_current := Some s \<rparr>"
    using assms unfolding discover_eq n by (cases "build_snapshot os (input_of os rt) gen False rt2") auto
  have "quietly (rt_telemetry (asked os rt)) (rt_telemetry rt3)"
    using next_generation_telemetry [OF n] by (simp add: build_telemetry [OF b])
  from quietly_step [OF quietly_record [OF this]] show ?thesis by (simp add: rt' del: record_telemetry.simps)
qed

lemma turns_total:
  "tm_provider_total_ms (fst (fold (provider_turn os ctx) ps (t, cs, b)))
   = foldl (\<lambda>x p. f64_add (f64_add x (os_provider_ms os p)) (os_provider_ms os p)) (tm_provider_total_ms t) ps"
  by (induction ps arbitrary: t cs b) (simp_all add: provider_turn_def Let_def)

lemma turns_ok: "telemetry_ok t \<Longrightarrow> telemetry_ok (fst (fold (provider_turn os ctx) ps (t, cs, b)))"
  by (induction ps arbitrary: t cs b) (auto simp: provider_turn_def Let_def telemetry_ok_step simp del: record_telemetry.simps)

lemma discover_telemetry_ok:
  assumes "discover os rt = Inr (rt', s)" and "telemetry_ok (rt_telemetry rt)"
  shows "telemetry_ok (rt_telemetry rt')"
proof -
  have "telemetry_ok (rt_telemetry (asked os rt))"
    using assms(2) by (simp add: asked_def telemetry_ok_step turns_ok del: record_telemetry.simps)
  then show ?thesis using discover_telemetry [OF assms(1)] telemetry_ok_run by (auto simp: quietly_def)
qed

section \<open>Imported snapshots\<close>

lemma made_fits:
  assumes "made_snapshot s" and "length (s_nodes s) \<le> b_max_nodes bnd"
  shows "nodes_fit bnd (s_nodes s)"
  using made_wf [OF assms(1)] assms(2) by (simp add: nodes_fit_def snapshot_wf_def)

lemma made_graph_ok: "made_snapshot s \<Longrightarrow> v_ok (s_validation s) \<Longrightarrow> graph_ok (s_nodes s) (s_edges s)"
  using take_snapshot_ok builder_reach_wf unfolding made_snapshot_def by metis

lemma force_synthetic_made:
  assumes "made_snapshot s" and "s_bounds s = bnd" and "length (s_nodes s) \<le> b_max_nodes bnd" and "length (s_edges s) \<le> b_max_edges bnd"
  shows "\<exists>t. force_synthetic bnd s = Inr t \<and> made_snapshot t \<and> s_bounds t = bnd \<and> s_nodes t = s_nodes s \<and> s_edges t = s_edges s
    \<and> s_metadata t = (s_metadata s) \<lparr> m_synthetic := True \<rparr> \<and> (v_ok (s_validation s) \<longrightarrow> v_ok (s_validation t))"
proof (cases "m_synthetic (s_metadata s)")
  case True
  then show ?thesis using assms by (simp add: force_synthetic_def)
next
  case False
  let ?m = "set_metadata ((s_metadata s) \<lparr> m_synthetic := True \<rparr>) (new_builder bnd)"
  let ?n = "fold (\<lambda>n b. fst (add_node n b)) (map snd (s_nodes s)) ?m"
  let ?e = "fold (\<lambda>e b. fst (add_edge e b)) (s_edges s) ?n"
  have n: "?n = ?m \<lparr> bd_nodes := s_nodes s \<rparr>"
    by (rule fit_nodes_fold [OF made_fits [OF assms(1,3)]]) (simp_all add: set_metadata_def new_builder_def)
  have e: "?e = ?m \<lparr> bd_nodes := s_nodes s, bd_edges := s_edges s \<rparr>"
    using add_edge_fold [of ?n "s_edges s"] assms(4) unfolding n by (simp add: set_metadata_def new_builder_def)
  let ?b = "?m \<lparr> bd_nodes := s_nodes s, bd_edges := s_edges s \<rparr>"
  have "filled bnd ?e" by (intro filled_edges filled_nodes filled_add filled_new)
  then have f: "filled bnd ?b" unfolding e .
  have b: "bd_nodes ?b = s_nodes s" "bd_edges ?b = s_edges s" "v_errors (bd_validation ?b) = []"
      "bd_metadata ?b = (s_metadata s) \<lparr> m_synthetic := True \<rparr>"
    using filled_bounds [OF f] by (simp_all add: set_metadata_def)
  obtain b' t where t: "take_snapshot ?b = Inr (b', t)" "made_snapshot t" "s_bounds t = bnd"
      "s_nodes t = bd_nodes ?b" "s_edges t = bd_edges ?b" "s_metadata t = bd_metadata ?b"
    using filled_made [OF f] by blast
  have "builder_wf ?b" using filled_bounds [OF f] builder_reach_wf by blast
  then have "v_ok (s_validation t)" if "v_ok (s_validation s)"
    using take_snapshot_ok(4) [OF _ t(1)] made_graph_ok [OF assms(1) that] b by simp
  moreover have "force_synthetic bnd s = Inr t" using False t(1) by (simp add: force_synthetic_def Let_def fold_nodes e)
  ultimately show ?thesis using t(2-6) unfolding b by blast
qed

lemma import_result:
  "\<exists>r. import_synthetic ub jt rt = Some (record_on (T_imported_snapshot (\<not> isl r)) rt, r)
    \<and> (case deserialize_snapshot_json ub jt (rt_bounds rt) of
         None \<Rightarrow> False
       | Some (Inl x) \<Rightarrow> r = Inl x
       | Some (Inr s) \<Rightarrow> \<exists>t. r = Inr t \<and> made_snapshot t \<and> s_bounds t = rt_bounds rt \<and> s_nodes t = s_nodes s
           \<and> s_edges t = s_edges s \<and> s_metadata t = (s_metadata s) \<lparr> m_synthetic := True \<rparr>
           \<and> (v_ok (s_validation s) \<longrightarrow> v_ok (s_validation t)))"
proof -
  obtain d where d: "deserialize_snapshot_json ub jt (rt_bounds rt) = Some d"
    and ok: "\<forall>s. d = Inr s \<longrightarrow> made_snapshot s \<and> s_bounds s = rt_bounds rt
      \<and> length (s_nodes s) \<le> b_max_nodes (rt_bounds rt) \<and> length (s_edges s) \<le> b_max_edges (rt_bounds rt)"
    using deserialize_result [of ub jt "rt_bounds rt"] by blast
  show ?thesis
  proof (cases d)
    case (Inl x)
    then show ?thesis by (simp add: import_synthetic_def count_import_def d)
  next
    case (Inr s)
    then obtain t where "force_synthetic (rt_bounds rt) s = Inr t" "made_snapshot t" "s_bounds t = rt_bounds rt" "s_nodes t = s_nodes s"
      "s_edges t = s_edges s" "s_metadata t = (s_metadata s) \<lparr> m_synthetic := True \<rparr>"
      "v_ok (s_validation s) \<longrightarrow> v_ok (s_validation t)"
      using force_synthetic_made [of s "rt_bounds rt"] ok by blast
    then show ?thesis using Inr by (simp add: import_synthetic_def count_import_def d)
  qed
qed

end
