(* ===== verification/TF_Runs.thy ===== *)
theory TF_Runs
  imports TF_Runtime
begin

text \<open>
  Runs of the runtime: the states that sequences of calls can bring about, with the snapshots that the
  discoveries published, and the properties of discovery, publication and import.
\<close>

section \<open>Runs\<close>

text \<open>The runtimes that calls can bring about, each with the snapshots its discoveries published. Clients
  reach the registry and the telemetry through the runtime.\<close>

inductive runtime_run ::
  "(f64 \<Rightarrow> 64 word) \<Rightarrow> ('p \<Rightarrow> string) \<Rightarrow> bounds \<Rightarrow> 'p runtime \<Rightarrow> topology_snapshot list \<Rightarrow> bool"
  for ub pname bnd where
  run_new: "runtime_run ub pname bnd (new_runtime bnd) []"
| run_providers: "runtime_run ub pname bnd rt pub \<Longrightarrow>
    runtime_run ub pname bnd (rt \<lparr> rt_registry := run_registry pname op (rt_registry rt) \<rparr>) pub"
| run_counters: "runtime_run ub pname bnd rt pub \<Longrightarrow> runtime_run ub pname bnd (record_on call rt) pub"
| run_discover: "runtime_run ub pname bnd rt pub \<Longrightarrow> walks_ok os \<Longrightarrow> os_name os = pname \<Longrightarrow>
    discover os rt = Inr (rt', s) \<Longrightarrow> runtime_run ub pname bnd rt' (pub @ [s])"
| run_deserialize: "runtime_run ub pname bnd rt pub \<Longrightarrow> runtime_deserialize ub jt rt = Some (rt', r) \<Longrightarrow>
    runtime_run ub pname bnd rt' pub"
| run_import: "runtime_run ub pname bnd rt pub \<Longrightarrow> import_synthetic ub jt rt = Some (rt', r) \<Longrightarrow>
    runtime_run ub pname bnd rt' pub"

definition published :: "topology_snapshot list \<Rightarrow> nat \<Rightarrow> bool" where
  "published pub k \<longleftrightarrow> made_snapshot (pub ! k)
     \<and> (\<exists>r. m_snapshot_id (s_metadata (pub ! k)) = snapshot_id_text (of_nat (2 * k + 1)) r)
     \<and> m_generation (s_metadata (pub ! k)) = generation_after (if k = 0 then None else Some (pub ! (k - 1))) (pub ! k)"

definition run_inv :: "bounds \<Rightarrow> 'p runtime \<Rightarrow> topology_snapshot list \<Rightarrow> bool" where
  "run_inv bnd rt pub \<longleftrightarrow> rt_bounds rt = bnd \<and> rt_current rt = (if pub = [] then None else Some (last pub))
     \<and> rt_counter rt = (if pub = [] then 0 else of_nat (2 * length pub) - 1)
     \<and> registry_ok (rt_registry rt) \<and> telemetry_ok (rt_telemetry rt)
     \<and> (\<forall>k < length pub. published pub k \<and> s_bounds (pub ! k) = bnd)"

lemma counted:
  assumes "count_import d rt = Some (rt', r)"
  shows "rt' = record_on (T_imported_snapshot (\<not> isl r)) rt"
  using assms by (auto simp: count_import_def)

lemma run_inv_record: "run_inv bnd rt pub \<Longrightarrow> run_inv bnd (record_on op rt) pub"
  by (simp add: run_inv_def telemetry_ok_step del: record_telemetry.simps)

lemma published_append: "k < length pub \<Longrightarrow> published (pub @ [s]) k \<longleftrightarrow> published pub k"
  by (cases k) (auto simp: published_def nth_append)

lemma run_inv_discover:
  assumes inv: "run_inv bnd rt pub" and w: "walks_ok os" and d: "discover os rt = Inr (rt', s)"
  shows "run_inv bnd rt' (pub @ [s])"
proof -
  note parts = discover_parts [OF w d]
  have cnt: "rt_counter rt' = of_nat (2 * length pub + 1)"
    using inv by (auto simp: run_inv_def parts(4) spent_numbers_def)
  have last: "pub \<noteq> [] \<Longrightarrow> last pub = pub ! (length pub - 1)" by (rule last_conv_nth)
  have "rt_current rt = (if length pub = 0 then None else Some ((pub @ [s]) ! (length pub - 1)))"
    using inv last by (simp add: run_inv_def nth_append)
  then have "m_generation (s_metadata s) = generation_after (if length pub = 0 then None else Some ((pub @ [s]) ! (length pub - 1))) s"
    by (simp add: parts(9) built_metadata_def)
  moreover have "m_snapshot_id (s_metadata s) = snapshot_id_text (of_nat (2 * length pub + 1)) (os_random os (rt_counter rt'))"
    by (simp add: parts(9) built_metadata_def cnt)
  ultimately have "published (pub @ [s]) (length pub)"
    using parts(5) unfolding published_def nth_append_length by blast
  moreover have "s_bounds s = bnd" using inv parts(6) by (simp add: run_inv_def)
  ultimately have "\<forall>k < length (pub @ [s]). published (pub @ [s]) k \<and> s_bounds ((pub @ [s]) ! k) = bnd"
    using inv by (auto simp: run_inv_def less_Suc_eq published_append nth_append)
  then show ?thesis
    using inv parts(1-3) cnt discover_telemetry_ok [OF d] by (auto simp: run_inv_def)
qed

lemma run_invariant: "runtime_run ub pname bnd rt pub \<Longrightarrow> run_inv bnd rt pub"
proof (induction rule: runtime_run.induct)
  case run_new
  then show ?case
    by (simp add: run_inv_def new_runtime_def telemetry_ok_empty registry_ok_def empty_registry_def um_ok_def um_keys_def)
next
  case (run_providers rt pub op)
  then show ?case by (simp add: run_inv_def registry_ok_step)
next
  case (run_counters rt pub call)
  then show ?case by (simp add: run_inv_record)
next
  case (run_discover rt pub os rt' s)
  then show ?case using run_inv_discover by blast
next
  case (run_deserialize rt pub jt rt' r)
  then show ?case using counted by (fastforce simp: runtime_deserialize_def intro: run_inv_record)
next
  case (run_import rt pub jt rt' r)
  then show ?case using counted by (fastforce simp: import_synthetic_def intro: run_inv_record)
qed

lemma published_generation:
  assumes inv: "run_inv bnd rt pub" and small: "length pub < 2 ^ 64" and "k < length pub"
  shows "1 \<le> unat (m_generation (s_metadata (pub ! k))) \<and> unat (m_generation (s_metadata (pub ! k))) \<le> Suc k"
  using assms(3)
proof (induction k)
  case 0
  then show ?case using inv by (simp add: run_inv_def published_def generation_after_def)
next
  case (Suc k)
  let ?g = "m_generation (s_metadata (pub ! k))"
  have g: "1 \<le> unat ?g" "unat ?g \<le> Suc k" using Suc by simp_all
  then have "unat (?g + 1) = Suc (unat ?g)"
    using small Suc.prems by (simp add: unat_word_ariths)
  moreover have "m_generation (s_metadata (pub ! Suc k)) = ?g \<or> m_generation (s_metadata (pub ! Suc k)) = ?g + 1"
    using inv Suc.prems by (simp add: run_inv_def published_def generation_after_def)
  ultimately show ?case using g by auto
qed

lemma published_step:
  assumes inv: "run_inv bnd rt pub" and small: "length pub < 2 ^ 64" and "Suc k < length pub"
  shows "unat (m_generation (s_metadata (pub ! Suc k))) = unat (m_generation (s_metadata (pub ! k)))
    + (if td_material_change (compare_snapshots (pub ! k) (pub ! Suc k)) then 1 else 0)"
proof -
  let ?g = "m_generation (s_metadata (pub ! k))"
  have "unat ?g \<le> Suc k" using published_generation [OF inv small, of k] assms(3) by simp
  then have "unat (?g + 1) = Suc (unat ?g)" using small assms(3) by (simp add: unat_word_ariths)
  then show ?thesis using inv assms(3) by (simp add: run_inv_def published_def generation_after_def)
qed

text \<open>The number can be read from the text of a snapshot's id.\<close>

lemma snapshot_id_number: "snapshot_id_text a r = snapshot_id_text b q \<Longrightarrow> a = b"
proof -
  have digits: "takeWhile is_digit (dec_digits n @ CHR 0x2D # xs) = dec_digits n" for n xs
    using dec_digits_digits [of n] by (simp add: takeWhile_append list_all_iff is_digit_def)
  assume "snapshot_id_text a r = snapshot_id_text b q"
  then have "dec_digits (unat a) @ CHR 0x2D # uuid_hex r = dec_digits (unat b) @ CHR 0x2D # uuid_hex q"
    by (simp add: snapshot_id_text_def)
  then have "dec_digits (unat a) = dec_digits (unat b)" using digits by metis
  then have "unat a = unat b" using dec_value_digits by metis
  then show ?thesis by (simp add: word_unat_eq_iff)
qed

lemma published_ids:
  assumes inv: "run_inv bnd rt pub" and small: "2 * length pub < 2 ^ 64"
  shows "distinct (map (m_snapshot_id \<circ> s_metadata) pub)"
proof -
  have numbers: "\<exists>r. m_snapshot_id (s_metadata (pub ! k)) = snapshot_id_text (of_nat (2 * k + 1)) r" if "k < length pub" for k
    using inv that unfolding run_inv_def published_def by blast
  have "m_snapshot_id (s_metadata (pub ! i)) \<noteq> m_snapshot_id (s_metadata (pub ! j))" if "i < j" "j < length pub" for i j
  proof -
    obtain r q where "m_snapshot_id (s_metadata (pub ! i)) = snapshot_id_text (of_nat (2 * i + 1)) r"
      "m_snapshot_id (s_metadata (pub ! j)) = snapshot_id_text (of_nat (2 * j + 1)) q"
      using numbers [of i] numbers [of j] \<open>i < j\<close> \<open>j < length pub\<close> by auto
    moreover have "(of_nat (2 * i + 1) :: 64 word) \<noteq> of_nat (2 * j + 1)"
    proof -
      have "unat (of_nat n :: 64 word) = n" if "n < 2 ^ 64" for n
        using that by (simp add: unat_of_nat)
      from this [of "2 * i + 1"] this [of "2 * j + 1"] show ?thesis
        using \<open>i < j\<close> \<open>j < length pub\<close> small by auto
    qed
    ultimately show ?thesis using snapshot_id_number by metis
  qed
  then show ?thesis by (auto simp: distinct_conv_nth) (metis linorder_neqE_nat)
qed

section \<open>An example\<close>

text \<open>One provider, which finds a machine and a storage device and warns.\<close>

definition ex_provider :: contribution where
  "ex_provider = (ex_contribution [ex_offer ''a'' NT_MACHINE ''m'' CF_HIGH, ex_offer ''d'' NT_STORAGE_DEVICE ''n'' CF_HIGH] [])
     \<lparr> ct_provider := ''demo'', ct_version := ''1'', ct_warnings := [''slow''] \<rparr>"

definition ex_outside :: "contribution outside" where
  "ex_outside = \<lparr> os_name = ct_provider, os_discover = \<lambda>p ctx. Inr p, os_provider_ms = \<lambda>p. F_Fin 2, os_started_ms = 0,
     os_created_ms = \<lambda>k. 0, os_random = \<lambda>k. (0, 0, 0, 0), os_discovery_ms = F_Fin 3,
     os_walk_groups = \<lambda>xs. xs, os_walk_ids = \<lambda>xs. xs, os_walk_nodes = rev \<rparr>"

definition ex_runtime :: "contribution runtime" where
  "ex_runtime = (new_runtime default_bounds) \<lparr> rt_registry := run_registry ct_provider (R_Register (Some ex_provider)) empty_registry \<rparr>"

definition ex_machine :: node_id where
  "ex_machine = merge_ids ''type:machine:m''"

definition ex_storage :: node_id where
  "ex_storage = merge_ids ''type:storage_device:n''"

lemma ex_machine_id: "ex_machine \<noteq> kNullNodeId"
  unfolding ex_machine_def by code_simp

lemma ex_ids_differ: "ex_machine \<noteq> ex_storage"
  unfolding ex_machine_def ex_storage_def by code_simp

lemma ex_walks: "walks_ok ex_outside"
  by (simp add: walks_ok_def rearranges_def ex_outside_def)

lemma registry_single: "registry_all (fst (register_provider pname (Some p) empty_registry)) = [p]"
  by (simp add: register_provider_def empty_registry_def registry_all_def Let_def um_find_def um_put_def List.map_filter_def)

lemma ex_all: "registry_all (rt_registry ex_runtime) = [ex_provider]"
  unfolding ex_runtime_def by (simp add: registry_single)

lemma ex_answers: "rt_registry rt = rt_registry ex_runtime \<Longrightarrow> answers ex_outside rt = [ex_provider]"
  by (simp add: answers_def ex_all ask_provider_def) (simp add: ex_outside_def)

definition ex_group :: "string \<Rightarrow> contributed_node \<Rightarrow> nat \<Rightarrow> string \<times> member list" where
  "ex_group key n k = (key, [\<lparr> mb_node = n, mb_ci = 0, mb_idx = k \<rparr>])"

definition ex_machine_node :: topology_node where
  "ex_machine_node = merged_node ''type:machine:m'' [\<lparr> mb_node = ex_offer ''a'' NT_MACHINE ''m'' CF_HIGH, mb_ci = 0, mb_idx = 0 \<rparr>]"

definition ex_storage_node :: topology_node where
  "ex_storage_node = merged_node ''type:storage_device:n''
     [\<lparr> mb_node = ex_offer ''d'' NT_STORAGE_DEVICE ''n'' CF_HIGH, mb_ci = 0, mb_idx = 1 \<rparr>]"

lemma ex_storage_key: "group_key (ex_offer r NT_STORAGE_DEVICE name c) = ''type:storage_device:'' @ name"
proof -
  have "canonical_key default_native = []" by code_simp
  then show ?thesis by (simp add: group_key_def ex_offer_def Let_def)
qed

lemma ex_groups:
  "the_groups (b_max_nodes default_bounds) [ex_provider] =
     [(''type:machine:m'', [\<lparr> mb_node = ex_offer ''a'' NT_MACHINE ''m'' CF_HIGH, mb_ci = 0, mb_idx = 0 \<rparr>]),
      (''type:storage_device:n'', [\<lparr> mb_node = ex_offer ''d'' NT_STORAGE_DEVICE ''n'' CF_HIGH, mb_ci = 0, mb_idx = 1 \<rparr>])]"
  by (simp add: the_groups_def ex_provider_def ex_contribution_def ex_keys_of ex_storage_key um_push_def um_put_def um_get_def
      um_find_def default_bounds_def Let_def)

lemma ex_state: "mg_nodes (fst (merge_state (\<lambda>xs. xs) [ex_provider] default_bounds)) =
    [(ex_machine, ex_machine_node), (ex_storage, ex_storage_node)]"
  using ex_ids_differ unfolding merge_state_def ex_groups
  by (simp add: merge_group_simps best_first_def default_bounds_def um_emplace_def um_count_iff um_keys_def
      ex_machine_def [symmetric] ex_storage_def [symmetric] ex_machine_node_def ex_storage_node_def less_char_def)

lemma ex_merge:
  assumes "rt_registry rt = rt_registry ex_runtime" and "rt_bounds rt = default_bounds"
  shows "mg_nodes (merged_of ex_outside rt) = [(ex_machine, ex_machine_node), (ex_storage, ex_storage_node)]"
    and "mg_edges (merged_of ex_outside rt) = []"
proof -
  have w: "os_walk_groups ex_outside = (\<lambda>xs. xs)" by (simp add: ex_outside_def)
  show "mg_nodes (merged_of ex_outside rt) = [(ex_machine, ex_machine_node), (ex_storage, ex_storage_node)]"
    using ex_state by (simp add: merged_of_def ex_answers [OF assms(1)] assms(2) merge_contributions_eq w)
  show "mg_edges (merged_of ex_outside rt) = []"
    by (simp add: merged_of_def ex_answers [OF assms(1)] merge_contributions_eq merge_edges_def ex_provider_def ex_contribution_def)
qed

lemma ex_parts_of:
  assumes "rt_registry rt = rt_registry ex_runtime" and "rt_bounds rt = default_bounds"
  shows "nodes_of ex_outside rt = [(ex_storage, ex_storage_node), (ex_machine, ex_machine_node)]"
    and "edges_of ex_outside rt = [attach_edge ex_machine ex_storage]"
proof -
  show n: "nodes_of ex_outside rt = [(ex_storage, ex_storage_node), (ex_machine, ex_machine_node)]"
    by (simp add: nodes_of_def ex_merge(1) [OF assms]) (simp add: ex_outside_def)
  have "n_type ex_machine_node = NT_MACHINE" "n_type ex_storage_node = NT_STORAGE_DEVICE"
    by (simp_all add: ex_machine_node_def ex_storage_node_def merged_node_def Let_def best_type_def ex_offer_def)
  then show "edges_of ex_outside rt = [attach_edge ex_machine ex_storage]"
    using ex_ids_differ ex_machine_id
    by (simp add: edges_of_def n ex_merge(2) [OF assms] attach_resources_def machine_id_def is_resource_def has_parent_def)
qed

lemma ex_runtime_parts: "rt_bounds ex_runtime = default_bounds" "rt_current ex_runtime = None"
  by (simp_all add: ex_runtime_def new_runtime_def)

lemma ex_discovery:
  obtains rt s where "discover ex_outside ex_runtime = Inr (rt, s)" "s_nodes s = [(ex_storage, ex_storage_node), (ex_machine, ex_machine_node)]"
    "s_edges s = [attach_edge ex_machine ex_storage]" "rt_registry rt = rt_registry ex_runtime" "rt_bounds rt = default_bounds"
proof -
  obtain rt s where d: "discover ex_outside ex_runtime = Inr (rt, s)" using discover_shape [OF ex_walks] by blast
  note parts = discover_parts [OF ex_walks d] and ex = ex_parts_of [OF refl ex_runtime_parts(1)]
  show ?thesis
    by (rule that [OF d]) (simp_all add: parts ex ex_runtime_parts, simp add: default_bounds_def)
qed

lemma ex_comparable:
  assumes "made_snapshot s" and "s_nodes s = [(ex_storage, ex_storage_node), (ex_machine, ex_machine_node)]"
    and "s_edges s = [attach_edge ex_machine ex_storage]"
  shows "comparable s" and "one_machine s"
proof -
  let ?ok = "\<lambda>n. om_ok (n_properties n) \<and> (\<forall>(k, v) \<in> set (n_properties n). v \<noteq> PV_Double F_NaN)"
  have props: "?ok ex_machine_node" "?ok ex_storage_node"
    by (auto simp: ex_machine_node_def ex_storage_node_def merged_node_def Let_def merged_properties_def
        add_properties_def ex_offer_def om_ok_def less_char_def)
  have edge: "edge_numbers (attach_edge m i)" for m i
    by (simp add: edge_numbers_def attach_edge_def default_edge_def)
  have "\<forall>(i, n) \<in> set (s_nodes s). ?ok n" unfolding assms(2) using props by simp
  then show "comparable s"
    using wf_ok [OF made_wf [OF assms(1)]] unfolding comparable_def assms(3) by (simp add: edge)
  have "n_type ex_storage_node = NT_STORAGE_DEVICE"
    by (simp add: ex_storage_node_def merged_node_def Let_def best_type_def ex_offer_def)
  then show "one_machine s" by (simp add: one_machine_def assms(2))
qed

lemma ex_refs: "refs_agree [ex_provider]"
  by (simp add: refs_agree_def ex_provider_def ex_contribution_def ex_offer_def key_of_def)

section \<open>Properties\<close>

text \<open>C4: a discovery never throws. It publishes a snapshot made under the runtime's bounds, whose nodes are
  exactly those of the merge of the providers' answers; its generation is 1 for the first snapshot, and
  otherwise that of the snapshot before, plus one exactly when the comparison of the two finds a material
  change; it is marked partial exactly when an answer is.\<close>

theorem discovery_publishes:
  assumes "walks_ok os"
  shows "\<exists>rt' s. discover os rt = Inr (rt', s) \<and> rt_current rt' = Some s \<and> made_snapshot s \<and> s_bounds s = rt_bounds rt
    \<and> mset (s_nodes s) = mset (mg_nodes (merged_of os rt))
    \<and> m_generation (s_metadata s) = (case rt_current rt of None \<Rightarrow> 1
        | Some p \<Rightarrow> m_generation (s_metadata p) + (if td_material_change (compare_snapshots p s) then 1 else 0))
    \<and> m_partial_discovery (s_metadata s) = list_ex ct_partial (answers os rt)
    \<and> (rt_registry rt' = rt_registry rt \<and> rt_bounds rt' = rt_bounds rt)"
proof -
  obtain rt' s where d: "discover os rt = Inr (rt', s)" using discover_shape [OF assms] by blast
  note parts = discover_parts [OF assms d]
  show ?thesis
    using assms by (intro exI [of _ rt'] exI [of _ s])
      (simp add: d parts(1-3,5-7), simp add: parts(9) built_metadata_def input_of_def generation_after_def nodes_of_def
        walks_ok_def rearranges_def)
qed

theorem discovery_publishes_witness:
  "\<exists>rt s. discover ex_outside ex_runtime = Inr (rt, s) \<and> m_generation (s_metadata s) = 1"
  using discovery_publishes [OF ex_walks, of ex_runtime] by (auto simp: ex_runtime_parts)

text \<open>C24: unless the bound on edges cuts some, every accelerator, storage device, network interface, PCI root
  or PCI device of a published snapshot that has a machine has a parent over a containment or an attachment
  edge. Attaching makes no containment cycle when no contributed edge contains the machine.\<close>

theorem discovery_attaches:
  assumes "walks_ok os" and "discover os rt = Inr (rt', s)" and "length (s_edges s) < b_max_edges (rt_bounds rt)"
    and "machine_id (s_nodes s) \<noteq> kNullNodeId"
  shows "(\<forall>i n. find_node s i = Some n \<longrightarrow> is_resource n \<longrightarrow> i \<noteq> machine_id (s_nodes s) \<longrightarrow>
      (\<exists>e \<in> set (s_edges s). e_target e = i \<and> (e_type e = ET_CONTAINS \<or> e_type e = ET_ATTACHED_TO)))
    \<and> (acyclic (contains_rel (mg_edges (merged_of os rt)))
        \<longrightarrow> machine_id (s_nodes s) \<notin> Range (contains_rel (mg_edges (merged_of os rt)))
        \<longrightarrow> acyclic (contains_rel (s_edges s)))"
proof -
  note parts = discover_parts [OF assms(1,2)]
  have e: "s_edges s = attach_resources (s_nodes s) (mg_edges (merged_of os rt))"
    using assms(3) by (simp add: parts(7,8) edges_of_def)
  have "(i, n) \<in> set (s_nodes s)" if "find_node s i = Some n" for i n
    using that um_find_mem [OF wf_ok [OF made_wf [OF parts(5)]]] by (simp add: find_node_def)
  then show ?thesis using attach_parent [OF assms(4)] attach_acyclic unfolding e by blast
qed

theorem discovery_attaches_witness:
  "\<exists>rt s. discover ex_outside ex_runtime = Inr (rt, s) \<and> (\<exists>e \<in> set (s_edges s). e_target e = ex_storage)"
proof -
  obtain rt s where d: "discover ex_outside ex_runtime = Inr (rt, s)"
    and n: "s_nodes s = [(ex_storage, ex_storage_node), (ex_machine, ex_machine_node)]"
    and e: "s_edges s = [attach_edge ex_machine ex_storage]" by (rule ex_discovery)
  have t: "n_type ex_machine_node = NT_MACHINE" "n_type ex_storage_node = NT_STORAGE_DEVICE"
    by (simp_all add: ex_machine_node_def ex_storage_node_def merged_node_def Let_def best_type_def ex_offer_def)
  then have m: "machine_id (s_nodes s) = ex_machine" by (simp add: n machine_id_def)
  have "find_node s ex_storage = Some ex_storage_node" by (simp add: find_node_def n um_find_def)
  then show ?thesis
    using discovery_attaches [OF ex_walks d] d t ex_machine_id ex_ids_differ
    by (auto simp: m e ex_runtime_parts default_bounds_def is_resource_def)
qed



text \<open>C19: in every run of the runtime in which fewer than \<open>2 ^ 63\<close> snapshots are published, the snapshots
  have different ids, whatever the random numbers are; the first has generation 1, the generation rises by
  one exactly at a material change; the last one is the current snapshot, and all of them were made under
  the bounds of the runtime.\<close>

theorem publication_history:
  assumes "runtime_run ub pname bnd rt pub" and "length pub < 2 ^ 63"
  shows "distinct (map (m_snapshot_id \<circ> s_metadata) pub)
    \<and> (\<forall>k < length pub. made_snapshot (pub ! k) \<and> s_bounds (pub ! k) = bnd)
    \<and> rt_current rt = (if pub = [] then None else Some (last pub))
    \<and> (pub \<noteq> [] \<longrightarrow> unat (m_generation (s_metadata (hd pub))) = 1)
    \<and> (\<forall>k. Suc k < length pub \<longrightarrow> unat (m_generation (s_metadata (pub ! Suc k))) = unat (m_generation (s_metadata (pub ! k)))
         + (if td_material_change (compare_snapshots (pub ! k) (pub ! Suc k)) then 1 else 0))"
proof -
  note inv = run_invariant [OF assms(1)]
  have "pub \<noteq> [] \<Longrightarrow> m_generation (s_metadata (hd pub)) = 1"
    using inv by (simp add: run_inv_def published_def generation_after_def hd_conv_nth)
  moreover have "\<forall>k < length pub. made_snapshot (pub ! k) \<and> s_bounds (pub ! k) = bnd"
    using inv by (simp add: run_inv_def published_def)
  moreover have "rt_current rt = (if pub = [] then None else Some (last pub))" using inv unfolding run_inv_def by blast
  moreover have "2 * length pub < 2 ^ 64" "length pub < 2 ^ 64" using assms(2) by simp_all
  ultimately show ?thesis using published_ids [OF inv] published_step [OF inv] by simp
qed

theorem publication_history_witness:
  "\<exists>rt s. runtime_run (\<lambda>d. 0) (ct_provider :: contribution \<Rightarrow> string) default_bounds rt [s] \<and> rt_current rt = Some s
     \<and> unat (m_generation (s_metadata s)) = 1"
proof -
  have "runtime_run (\<lambda>d. 0) ct_provider default_bounds ex_runtime []"
    using run_providers [OF run_new, of "\<lambda>d. 0" ct_provider default_bounds "R_Register (Some ex_provider)"]
    by (simp add: ex_runtime_def new_runtime_def)
  moreover obtain rt s where d: "discover ex_outside ex_runtime = Inr (rt, s)" using discover_shape [OF ex_walks] by blast
  moreover have "os_name ex_outside = ct_provider" by (simp add: ex_outside_def)
  ultimately have r: "runtime_run (\<lambda>d. 0) ct_provider default_bounds rt ([] @ [s])"
    using run_discover [OF _ ex_walks] by blast
  have "rt_current rt = Some s \<and> unat (m_generation (s_metadata s)) = 1"
    using publication_history [OF r] by simp
  then show ?thesis using r by auto
qed

text \<open>\<open>import_synthetic\<close> returns on every text. It throws exactly what reading the document throws, and
  counts a rejected import; otherwise it yields a snapshot marked synthetic, with the nodes and edges of
  the document, valid when the document's snapshot is, and counts an import. \<open>import_synthetic_json\<close>
  marks nothing.\<close>

theorem import_marks_synthetic:
  "\<exists>r. import_synthetic ub jt rt = Some (record_on (T_imported_snapshot (\<not> isl r)) rt, r)
    \<and> (case deserialize_snapshot_json ub jt (rt_bounds rt) of
         None \<Rightarrow> False
       | Some (Inl x) \<Rightarrow> r = Inl x
       | Some (Inr s) \<Rightarrow> import_synthetic_json ub jt (rt_bounds rt) = Some (Inr s)
           \<and> (\<exists>t. r = Inr t \<and> made_snapshot t \<and> m_synthetic (s_metadata t) \<and> s_nodes t = s_nodes s \<and> s_edges t = s_edges s
             \<and> (\<not> v_ok (s_validation s) \<or> v_ok (s_validation t))))"
proof -
  let ?d = "deserialize_snapshot_json ub jt (rt_bounds rt)"
  obtain r where r: "import_synthetic ub jt rt = Some (record_on (T_imported_snapshot (\<not> isl r)) rt, r)"
    and d: "case ?d of None \<Rightarrow> False | Some (Inl x) \<Rightarrow> r = Inl x
       | Some (Inr s) \<Rightarrow> \<exists>t. r = Inr t \<and> made_snapshot t \<and> s_bounds t = rt_bounds rt \<and> s_nodes t = s_nodes s
           \<and> s_edges t = s_edges s \<and> s_metadata t = (s_metadata s) \<lparr> m_synthetic := True \<rparr>
           \<and> (v_ok (s_validation s) \<longrightarrow> v_ok (s_validation t))"
    using import_result [of ub jt rt] by blast
  consider x where "?d = Some (Inl x)" | s where "?d = Some (Inr s)"
    using deserialize_result [of ub jt "rt_bounds rt"] by (metis sum.exhaust)
  then show ?thesis
  proof cases
    case 1
    then show ?thesis using r d by auto
  next
    case 2
    then obtain t where "r = Inr t" "made_snapshot t" "s_nodes t = s_nodes s" "s_edges t = s_edges s"
      "s_metadata t = (s_metadata s) \<lparr> m_synthetic := True \<rparr>" "\<not> v_ok (s_validation s) \<or> v_ok (s_validation t)"
      using d by auto
    then have "\<exists>t. r = Inr t \<and> made_snapshot t \<and> m_synthetic (s_metadata t) \<and> s_nodes t = s_nodes s \<and> s_edges t = s_edges s
        \<and> (\<not> v_ok (s_validation s) \<or> v_ok (s_validation t))"
      by (intro exI [of _ t]) simp
    then show ?thesis using r 2 by (intro exI [of _ r]) (simp add: import_synthetic_json_def)
  qed
qed

theorem import_marks_synthetic_witness:
  "\<exists>rt r. import_synthetic (\<lambda>d. 0) (dump ex_mixed WM_Compact) (new_runtime default_bounds :: contribution runtime) = Some (rt, r)
     \<and> r = Inl E_BadVariant \<and> tm_malformed_imports_rejected (rt_telemetry rt) = 1"
  using import_marks_synthetic [of "\<lambda>d. 0" "dump ex_mixed WM_Compact" "new_runtime default_bounds :: contribution runtime"]
  by (auto simp: ex_mixed_rejected new_runtime_def empty_telemetry_def)

text \<open>A discovery adds the time of every provider to the provider total twice, once in
  \<open>record_provider_run\<close> and once in \<open>add_provider_time\<close>; and the messages of providers and of the merge
  do not reach the published snapshot, whose list of warnings is empty.\<close>

theorem provider_time_doubled:
  assumes "walks_ok os" and "discover os rt = Inr (rt', s)"
  shows "tm_provider_total_ms (rt_telemetry rt') =
      foldl (\<lambda>x p. f64_add (f64_add x (os_provider_ms os p)) (os_provider_ms os p))
        (tm_provider_total_ms (rt_telemetry rt)) (registry_all (rt_registry rt))
    \<and> m_warnings (s_metadata s) = []"
proof -
  obtain ops where "rt_telemetry rt' = fold record_telemetry ops (rt_telemetry (asked os rt))" "list_all quiet ops"
    using discover_telemetry [OF assms(2)] unfolding quietly_def by blast
  then have "tm_provider_total_ms (rt_telemetry rt') = tm_provider_total_ms (rt_telemetry (asked os rt))"
    by (simp add: quiet_total)
  then show ?thesis using discover_parts(9) [OF assms]
    by (simp add: asked_def turns_total built_metadata_def input_of_def)
qed

theorem provider_time_doubled_witness:
  "\<exists>rt s. discover ex_outside ex_runtime = Inr (rt, s) \<and> os_provider_ms ex_outside ex_provider = F_Fin 2
     \<and> tm_provider_total_ms (rt_telemetry rt) = f64_add (f64_add (F_Fin 0) (F_Fin 2)) (F_Fin 2)
     \<and> ct_warnings ex_provider \<noteq> [] \<and> m_warnings (s_metadata s) = []"
proof -
  obtain rt s where d: "discover ex_outside ex_runtime = Inr (rt, s)" using discover_shape [OF ex_walks] by blast
  have "tm_provider_total_ms (rt_telemetry ex_runtime) = F_Fin 0" "os_provider_ms ex_outside ex_provider = F_Fin 2"
    by (simp_all add: ex_runtime_def new_runtime_def empty_telemetry_def) (simp add: ex_outside_def)
  then show ?thesis using provider_time_doubled [OF ex_walks d] d by (simp add: ex_all ex_provider_def)
qed

end
