(* ===== verification/TF_Platform.thy ===== *)
theory TF_Platform
  imports TF_Merge
begin

text \<open>
  The providers that read flat facts from the operating system: \<open>host.cpp\<close>, \<open>storage.cpp\<close>,
  \<open>network.cpp\<close>, and the answers of all providers on other systems than Windows.

  What the Windows calls yield is an argument: a record of their answers, in which \<open>None\<close> stands for a
  call that fails. Texts are given as \<open>widen_to_utf8\<close> yields them.
\<close>

section \<open>What the providers share\<close>

definition default_cnode :: contributed_node where
  "default_cnode = \<lparr> cn_ref = [], cn_type = NT_UNKNOWN, cn_category = [], cn_name = [], cn_native = default_native,
     cn_capabilities = CAP_NONE, cn_properties = [], cn_provenance = provenance_unknown, cn_synthetic = False \<rparr>"

definition default_cedge :: contributed_edge where
  "default_cedge = \<lparr> ce_from_ref = [], ce_to_ref = [], ce_type = ET_CONNECTED_TO, ce_direction = ED_DIRECTED,
     ce_provenance = provenance_unknown, ce_confidence = CF_UNKNOWN, ce_width = None, ce_pcie_generation = None,
     ce_bandwidth_bytes_per_sec = None, ce_latency_ns = None, ce_hop_count = 0, ce_peer_capability = None,
     ce_properties = [] \<rparr>"

definition empty_contribution :: "string \<Rightarrow> contribution" where
  "empty_contribution name = \<lparr> ct_provider = name, ct_version = ''1.0.0'', ct_nodes = [], ct_edges = [], ct_warnings = [],
     ct_partial = False, ct_success = False \<rparr>"

definition gave_up :: "string \<Rightarrow> string \<Rightarrow> contribution" where
  "gave_up name warning = (empty_contribution name) \<lparr> ct_warnings := [warning], ct_partial := True, ct_success := False \<rparr>"

text \<open>One \<open>emplace\<close> after the other.\<close>

definition emplaced :: "(string \<times> property_value) list \<Rightarrow> property_map" where
  "emplaced kvs = fold (\<lambda>(k, v) m. fst (om_emplace k v m)) kvs []"

definition cap_union :: "capability list \<Rightarrow> capability" where
  "cap_union cs = foldl cap_add CAP_NONE cs"

definition machine_ref :: "string \<Rightarrow> string" where
  "machine_ref machine = ''machine:'' @ machine"

text \<open>The code of the last error and the text the system has for it.\<close>

type_synonym os_error = "32 word \<times> string option"

definition last_error :: "string \<Rightarrow> os_error \<Rightarrow> string" where
  "last_error api err = api @ '' failed (error '' @ dec_digits (unat (fst err)) @ ''): '' @ value_or (snd err) ''<no message>''"

section \<open>Other systems than Windows\<close>

definition host_elsewhere :: contribution where
  "host_elsewhere = gave_up ''host'' ''host provider is only implemented on Windows''"

definition cpu_numa_elsewhere :: contribution where
  "cpu_numa_elsewhere = gave_up ''cpu_numa'' ''cpu_numa provider only implemented on Windows''"

definition pci_elsewhere :: contribution where
  "pci_elsewhere = gave_up ''pci'' ''pci provider only implemented on Windows''"

definition cuda_elsewhere :: contribution where
  "cuda_elsewhere = gave_up ''cuda'' ''CUDA provider only supported on Windows''"

definition storage_elsewhere :: contribution where
  "storage_elsewhere = gave_up ''storage'' ''storage provider only implemented on Windows''"

definition network_elsewhere :: contribution where
  "network_elsewhere = gave_up ''network'' ''network provider only implemented on Windows''"

section \<open>The host\<close>

record memory_status =
  ms_total :: "64 word"
  ms_available :: "64 word"
  ms_load :: "32 word"

record host_answers =
  ha_dns_hostname :: "string option"
  ha_computer_name :: "string option"
  ha_version :: "(32 word \<times> 32 word \<times> 32 word) option"
  ha_groups :: "32 word"
  ha_logical :: "32 word"
  ha_memory :: "memory_status option"

definition host_machine :: "host_answers \<Rightarrow> string" where
  "host_machine a = (case ha_dns_hostname a of Some s \<Rightarrow> s | None \<Rightarrow> value_or (ha_computer_name a) [])"

definition host_os :: "host_answers \<Rightarrow> string" where
  "host_os a = (case ha_version a of
     None \<Rightarrow> ''windows''
   | Some (major, minor, build) \<Rightarrow> ''windows '' @ dec_digits (unat major) @ ''.'' @ dec_digits (unat minor) @ ''.''
       @ dec_digits (unat build))"

definition host_discover :: "host_answers \<Rightarrow> contribution" where
  "host_discover a =
     (let machine = host_machine a; os = host_os a;
          node = default_cnode \<lparr> cn_ref := machine_ref machine, cn_type := NT_MACHINE,
            cn_name := (if machine = [] then ''machine'' else machine),
            cn_native := default_native \<lparr> ni_machine_name := machine, ni_os_version := os \<rparr>,
            cn_provenance := provenance_discovered ''windows.host''
              ''GetComputerNameEx/RtlGetVersion/GetActiveProcessorCount/GlobalMemoryStatusEx'' CF_HIGH ''10.0'' [],
            cn_capabilities := cap_union [CPU_ADDRESSABLE, NUMA_LOCAL, SHARED_MEMORY],
            cn_properties := emplaced
              ([(''os.version'', PV_String os), (''machine.name'', PV_String machine),
                (''processor.logical_count'', PV_Int (ucast (ha_logical a))),
                (''processor.group_count'', PV_Int (ucast (ha_groups a)))]
               @ (case ha_memory a of None \<Rightarrow> [] | Some m \<Rightarrow>
                   [(''memory.total_bytes'', PV_Uint (ms_total m)), (''memory.available_bytes'', PV_Uint (ms_available m)),
                    (''memory.usage_percent'', PV_Double (f64_of_int (uint (ms_load m))))])) \<rparr>
      in (empty_contribution ''host'') \<lparr> ct_nodes := [node], ct_partial := False, ct_success := True \<rparr>)"

section \<open>Storage\<close>

text \<open>\<open>GetVolumeInformationW\<close> is called twice: for label and serial number, and for the file system.\<close>

record volume =
  vo_total :: "64 word"
  vo_total_free :: "64 word"
  vo_label :: "(string \<times> 32 word) option"
  vo_filesystem :: string

definition volume_name_of :: "volume \<Rightarrow> string" where
  "volume_name_of v = (case vo_label v of
     None \<Rightarrow> []
   | Some (label, serial) \<Rightarrow> if label = [] \<and> serial \<noteq> 0 then ''vol-'' @ dec_digits (unat serial) else label)"

definition storage_provenance :: provenance where
  "storage_provenance = provenance_discovered ''windows.storage''
     ''GetLogicalDrives/GetDiskFreeSpaceEx/GetVolumeInformation'' CF_HIGH ''10.0'' []"

definition volume_node :: "char \<Rightarrow> volume \<Rightarrow> contributed_node" where
  "volume_node ch v =
     (let label = volume_name_of v in
      default_cnode \<lparr> cn_ref := ''storage:vol:'' @ [ch], cn_type := NT_STORAGE_DEVICE,
        cn_name := (if label = [] then ''Drive '' @ [ch] @ '':'' else label @ '' ('' @ [ch] @ '':)''),
        cn_native := default_native \<lparr> ni_storage_id := ''vol:'' @ [ch],
          ni_storage_device_path := [ch] @ '':'' @ [CHR 0x5C] \<rparr>,
        cn_provenance := storage_provenance, cn_capabilities := cap_union [STORAGE_BACKED, DMA_CAPABLE],
        cn_properties := emplaced
          ([(''storage.letter'', PV_String [ch]), (''storage.total_bytes'', PV_Uint (vo_total v)),
            (''storage.free_bytes'', PV_Uint (vo_total_free v))]
           @ (if label \<noteq> [] then [(''storage.volume_label'', PV_String label)] else [])
           @ (if vo_filesystem v \<noteq> [] then [(''storage.filesystem'', PV_String (vo_filesystem v))] else [])) \<rparr>)"

definition drive_letters :: "32 word \<Rightarrow> char list" where
  "drive_letters drives = map (\<lambda>i. char_of (65 + i)) (filter (\<lambda>i. bit drives i) [0..<26])"

text \<open>A letter whose \<open>GetDiskFreeSpaceExW\<close> fails is left out.\<close>

definition storage_discover :: "32 word \<Rightarrow> (char \<Rightarrow> volume option) \<Rightarrow> contribution" where
  "storage_discover drives volumes =
     (empty_contribution ''storage'')
       \<lparr> ct_nodes := List.map_filter (\<lambda>ch. map_option (volume_node ch) (volumes ch)) (drive_letters drives),
         ct_partial := True, ct_success := True \<rparr>"

section \<open>Network interfaces\<close>

datatype socket_address = SA_inet string | SA_inet6 string | SA_other

record adapter =
  ad_loopback :: bool
  ad_type :: "32 word"
  ad_ifindex :: "32 word"
  ad_friendly_name :: "string option"
  ad_description :: "string option"
  ad_physical_address :: "8 word list"
  ad_mtu :: "32 word"
  ad_oper_status :: "32 word"
  ad_addresses :: "socket_address list"

text \<open>
  \<open>mac_to_str\<close> fills a buffer of 64 bytes. \<open>snprintf\<close> writes at most \<open>64 - pos\<close> bytes, the terminating
  zero included, and returns 2 whatever it wrote; the colon is written without a check. The buffer and
  \<open>pos\<close> are the state of the loop; \<open>None\<close> is a write behind the buffer.
\<close>

definition write_bytes :: "nat \<Rightarrow> string \<Rightarrow> string \<Rightarrow> string" where
  "write_bytes pos s buf = take pos buf @ s @ drop (pos + length s) buf"

definition snprintf_byte :: "nat \<Rightarrow> 8 word \<Rightarrow> string \<Rightarrow> string option" where
  "snprintf_byte pos b buf =
     (if 64 < pos then None
      else if pos = 64 then Some buf
      else Some (write_bytes pos (take (63 - pos) (setw_hex 2 (unat b)) @ [CHR 0x00]) buf))"

fun mac_loop :: "8 word list \<Rightarrow> nat \<Rightarrow> string \<Rightarrow> string option" where
  "mac_loop [] pos buf = Some buf"
| "mac_loop (b # bs) pos buf =
     (case snprintf_byte pos b buf of
        None \<Rightarrow> None
      | Some buf \<Rightarrow>
          if bs = [] then Some buf
          else if 64 \<le> pos + 2 then None
          else mac_loop bs (pos + 3) (buf[pos + 2 := CHR '':'']))"

definition mac_to_str :: "8 word list \<Rightarrow> string option" where
  "mac_to_str addr = map_option (takeWhile (\<lambda>c. c \<noteq> CHR 0x00)) (mac_loop addr 0 (replicate 64 CHR 0x00))"

fun address_text :: "socket_address \<Rightarrow> string option" where
  "address_text (SA_inet host) = Some host"
| "address_text (SA_inet6 host) = Some host"
| "address_text SA_other = None"

definition network_provenance :: provenance where
  "network_provenance = provenance_discovered ''windows.network'' ''GetAdaptersAddresses'' CF_HIGH ''10.0'' []"

definition adapter_node :: "adapter \<Rightarrow> contributed_node option" where
  "adapter_node a =
     (let name = (case ad_friendly_name a of Some s \<Rightarrow> s | None \<Rightarrow> ''adapter-'' @ dec_digits (unat (ad_ifindex a)));
          desc = value_or (ad_description a) [];
          hardware = (if length (ad_physical_address a) \<le> 32 then mac_to_str (ad_physical_address a) else Some []);
          addrs = List.map_filter address_text (ad_addresses a)
      in map_option (\<lambda>hw. default_cnode \<lparr> cn_ref := ''net:'' @ dec_digits (unat (ad_ifindex a)),
           cn_type := NT_NETWORK_INTERFACE, cn_name := name,
           cn_native := default_native \<lparr> ni_network_interface_name := name, ni_network_hardware_id := hw \<rparr>,
           cn_provenance := network_provenance, cn_capabilities := cap_union [NETWORK_CONNECTED, DMA_CAPABLE],
           cn_properties := emplaced
             ([(''network.ifindex'', PV_Int (ucast (ad_ifindex a))), (''network.mtu'', PV_Int (ucast (ad_mtu a))),
               (''network.oper_status'', PV_Int (ucast (ad_oper_status a))), (''network.type'', PV_Int (ucast (ad_type a)))]
              @ (if desc \<noteq> [] then [(''network.description'', PV_String desc)] else [])
              @ (if addrs \<noteq> [] then [(''network.addresses'', PV_StringArray addrs)] else [])) \<rparr>) hardware)"

text \<open>The first call asks for the size of the buffer; the value is undefined when an address is written
  behind its buffer.\<close>

record network_answers =
  na_sized :: bool
  na_adapters :: "adapter list option"

definition network_discover :: "network_answers \<Rightarrow> contribution option" where
  "network_discover a =
     (if \<not> na_sized a then Some (gave_up ''network'' ''GetAdaptersAddresses enumeration empty'')
      else (case na_adapters a of
        None \<Rightarrow> Some (gave_up ''network'' ''GetAdaptersAddresses failed'')
      | Some adapters \<Rightarrow>
          map_option (\<lambda>nodes. (empty_contribution ''network'') \<lparr> ct_nodes := nodes, ct_partial := True, ct_success := True \<rparr>)
            (those (map adapter_node (filter (\<lambda>a. \<not> ad_loopback a) adapters)))))"

section \<open>Hardware addresses\<close>

definition byte_text :: "8 word \<Rightarrow> string" where
  "byte_text b = setw_hex 2 (unat b)"

fun mac_text :: "8 word list \<Rightarrow> string" where
  "mac_text [] = []"
| "mac_text [b] = byte_text b"
| "mac_text (b # bs) = byte_text b @ CHR '':'' # mac_text bs"

lemma byte_text_parts: "length (byte_text b) = 2" "CHR 0x00 \<notin> set (byte_text b)"
proof -
  have "unat b < 16 ^ 2" using unsigned_less [of b] by simp
  then have "length (hex_digits (unat b)) \<le> 2"
    using length_hex_digits [of "unat b" 1] by simp
  then have f: "byte_text b = hex_fixed 2 (unat b)" by (simp add: byte_text_def hex_digits_fixed)
  show "length (byte_text b) = 2" by (simp add: f)
  show "CHR 0x00 \<notin> set (byte_text b)"
    using hex_texts_setw [of 2 "unat b"] by (auto simp: byte_text_def hex_texts_def hex_digit_val_def)
qed

definition filled_buffer :: "string \<Rightarrow> string" where
  "filled_buffer s = s @ replicate (64 - length s) CHR 0x00"

lemma snprintf_filled:
  assumes "length s \<le> 63"
  shows "snprintf_byte (length s) b (filled_buffer s) = Some (filled_buffer (take 63 (s @ byte_text b)))"
proof -
  let ?h = "take (63 - length s) (byte_text b)"
  have h: "length ?h \<le> 63 - length s" by simp
  have "drop (length s + (length ?h + 1)) (filled_buffer s) = replicate (63 - length s - length ?h) CHR 0x00"
    by (simp add: filled_buffer_def)
  then have "write_bytes (length s) (?h @ [CHR 0x00]) (filled_buffer s)
      = s @ ?h @ CHR 0x00 # replicate (63 - length s - length ?h) CHR 0x00"
    by (simp add: write_bytes_def filled_buffer_def)
  also have "CHR 0x00 # replicate (63 - length s - length ?h) CHR 0x00 = replicate (64 - length (s @ ?h)) CHR 0x00"
    using h assms by (simp add: Suc_diff_le flip: replicate_Suc)
  finally show ?thesis
    using assms by (simp add: snprintf_byte_def byte_text_def [symmetric] filled_buffer_def)
qed

lemma colon_filled:
  assumes "length s \<le> 61"
  shows "(filled_buffer (s @ byte_text b))[Suc (Suc (length s)) := CHR '':''] = filled_buffer (s @ byte_text b @ '':'')"
proof -
  have "replicate (62 - length s) CHR 0x00 = CHR 0x00 # replicate (61 - length s) (CHR 0x00 :: char)"
    using assms by (simp add: Suc_diff_le flip: replicate_Suc)
  then show ?thesis by (simp add: filled_buffer_def byte_text_parts list_update_append)
qed

lemma mac_loop_fits:
  assumes "bs \<noteq> []" and "length s + 3 * length bs \<le> 66"
  shows "mac_loop bs (length s) (filled_buffer s) = Some (filled_buffer (take 63 (s @ mac_text bs)))"
  using assms
proof (induction bs arbitrary: s rule: mac_text.induct)
  case (3 b c bs)
  then have short: "length s \<le> 60" by simp
  then have t: "take 63 (s @ byte_text b) = s @ byte_text b" by (simp add: byte_text_parts)
  have "mac_loop (c # bs) (length (s @ byte_text b @ '':'')) (filled_buffer (s @ byte_text b @ '':''))
      = Some (filled_buffer (take 63 ((s @ byte_text b @ '':'') @ mac_text (c # bs))))"
    using "3.prems" by (intro "3.IH") (simp_all add: byte_text_parts)
  then show ?case
    using short by (simp add: snprintf_filled t colon_filled byte_text_parts)
qed (simp_all add: snprintf_filled)

lemma mac_loop_overruns: "2 \<le> length bs \<Longrightarrow> 68 \<le> pos + 3 * length bs \<Longrightarrow> mac_loop bs pos buf = None"
proof (induction bs arbitrary: pos buf)
  case (Cons b bs)
  show ?case
  proof (cases "64 \<le> pos + 2")
    case True
    then show ?thesis using Cons.prems by (auto split: option.splits)
  next
    case False
    then have "mac_loop bs (pos + 3) (buf'[pos + 2 := CHR '':''])= None" for buf'
      using Cons.prems by (intro Cons.IH) auto
    then show ?thesis by (auto split: option.splits)
  qed
qed simp

lemma mac_text_nul: "CHR 0x00 \<notin> set (mac_text bs)"
  by (induction bs rule: mac_text.induct) (auto simp: byte_text_parts)

lemma mac_text_length: "bs \<noteq> [] \<Longrightarrow> length (mac_text bs) = 3 * length bs - 1"
  by (induction bs rule: mac_text.induct) (auto simp: byte_text_parts)

lemma takeWhile_filled: "CHR 0x00 \<notin> set s \<Longrightarrow> takeWhile (\<lambda>c. c \<noteq> CHR 0x00) (filled_buffer s) = s"
proof -
  assume "CHR 0x00 \<notin> set s"
  then have "\<forall>c \<in> set s. c \<noteq> CHR 0x00" by auto
  then show ?thesis by (simp add: filled_buffer_def takeWhile_append takeWhile_replicate)
qed

section \<open>Properties\<close>

text \<open>The buffer of \<open>mac_to_str\<close> holds addresses of up to 21 bytes; one of 22 bytes loses its last byte,
  and a longer one, up to the 32 bytes the caller lets through, is written behind the buffer.\<close>

theorem mac_to_str_buffer:
  "mac_to_str addr = (if 23 \<le> length addr then None else Some (take 63 (mac_text addr)))
   \<and> (length addr \<le> 21 \<longleftrightarrow> take 63 (mac_text addr) = mac_text addr)"
proof -
  have "mac_to_str addr = Some (take 63 (mac_text addr))" if "length addr < 23"
  proof (cases "addr = []")
    case True
    then show ?thesis by (simp add: mac_to_str_def)
  next
    case False
    have "filled_buffer [] = replicate 64 CHR 0x00" by (simp add: filled_buffer_def)
    then have "mac_loop addr 0 (replicate 64 CHR 0x00) = Some (filled_buffer (take 63 (mac_text addr)))"
      using mac_loop_fits [OF False, of "[]"] that by simp
    moreover have "CHR 0x00 \<notin> set (take 63 (mac_text addr))" using mac_text_nul in_set_takeD by metis
    ultimately show ?thesis by (simp add: mac_to_str_def takeWhile_filled)
  qed
  moreover have "mac_to_str addr = None" if "23 \<le> length addr"
    using that by (simp add: mac_to_str_def mac_loop_overruns)
  moreover have "length addr \<le> 21 \<longleftrightarrow> take 63 (mac_text addr) = mac_text addr"
    using mac_text_length [of addr] by (cases "addr = []") auto
  ultimately show ?thesis by simp
qed

end
