(* ===== verification/TF_Cpu.thy ===== *)
theory TF_Cpu
  imports TF_Platform
begin

text \<open>
  The provider for processors and NUMA nodes (\<open>cpu_numa.cpp\<close>).

  The buffer of \<open>GetLogicalProcessorInformationEx\<close> is the list of its records with their sizes; the walk
  stops behind a record of size zero. A set of processors is a list of group affinities: a group and a
  mask of its 64 processors.
\<close>

section \<open>The records\<close>

record group_affinity =
  ga_group :: "16 word"
  ga_mask :: "64 word"

datatype processor_info =
    PI_Core "group_affinity list"
  | PI_Package "group_affinity list"
  | PI_Numa "32 word" "group_affinity list"
  | PI_Other

record cpu_answers =
  ca_dns_hostname :: "string option"
  ca_records :: "os_error + (32 word \<times> processor_info) list"

record cpu_sets =
  cs_packages :: "group_affinity list list"
  cs_numa :: "(32 word \<times> group_affinity list) list"
  cs_cores :: "group_affinity list list"

fun parse_record :: "processor_info \<Rightarrow> cpu_sets \<Rightarrow> cpu_sets" where
  "parse_record (PI_Core affs) s = s \<lparr> cs_cores := cs_cores s @ [take 32 affs] \<rparr>"
| "parse_record (PI_Package affs) s = s \<lparr> cs_packages := cs_packages s @ [take 32 affs] \<rparr>"
| "parse_record (PI_Numa n affs) s = s \<lparr> cs_numa := cs_numa s @ [(n, take 32 affs)] \<rparr>"
| "parse_record PI_Other s = s"

fun parse_records :: "(32 word \<times> processor_info) list \<Rightarrow> cpu_sets \<Rightarrow> cpu_sets" where
  "parse_records [] s = s"
| "parse_records ((sz, r) # rs) s =
     (let s = parse_record r s in if sz = 0 then s else parse_records rs s)"

definition affinity_contains :: "group_affinity list \<Rightarrow> 16 word \<Rightarrow> 64 word \<Rightarrow> bool" where
  "affinity_contains affs grp m \<longleftrightarrow> list_ex (\<lambda>a. ga_group a = grp \<and> and (ga_mask a) m \<noteq> 0) affs"

text \<open>\<open>package_of\<close> and \<open>numa_of\<close>: the index of the first match, \<open>None\<close> for -1.\<close>

fun first_index :: "('a \<Rightarrow> bool) \<Rightarrow> nat \<Rightarrow> 'a list \<Rightarrow> nat option" where
  "first_index P i [] = None"
| "first_index P i (x # xs) = (if P x then Some i else first_index P (Suc i) xs)"

definition package_of :: "cpu_sets \<Rightarrow> 16 word \<Rightarrow> 64 word \<Rightarrow> nat option" where
  "package_of s grp m = first_index (\<lambda>affs. affinity_contains affs grp m) 0 (cs_packages s)"

definition numa_of :: "cpu_sets \<Rightarrow> 16 word \<Rightarrow> 64 word \<Rightarrow> nat option" where
  "numa_of s grp m = first_index (\<lambda>p. affinity_contains (snd p) grp m) 0 (cs_numa s)"

section \<open>Nodes and edges\<close>

definition cpu_provenance :: provenance where
  "cpu_provenance = provenance_discovered ''windows.cpu_numa'' ''GetLogicalProcessorInformationEx'' CF_AUTHORITATIVE ''10.0'' []"

definition cpu_contains :: "string \<Rightarrow> string \<Rightarrow> contributed_edge" where
  "cpu_contains fr tr = default_cedge \<lparr> ce_from_ref := fr, ce_to_ref := tr, ce_type := ET_CONTAINS,
     ce_direction := ED_DIRECTED, ce_provenance := cpu_provenance, ce_confidence := CF_HIGH \<rparr>"

definition cpu_local :: "string \<Rightarrow> string \<Rightarrow> contributed_edge" where
  "cpu_local fr tr = default_cedge \<lparr> ce_from_ref := fr, ce_to_ref := tr, ce_type := ET_LOCAL_TO,
     ce_direction := ED_UNDIRECTED, ce_provenance := cpu_provenance, ce_confidence := CF_MEDIUM \<rparr>"

type_synonym part = "contributed_node list \<times> contributed_edge list"

definition numa_ref :: "32 word \<Rightarrow> string" where
  "numa_ref n = ''numa:'' @ dec_digits (unat n)"

definition memory_ref :: "32 word \<Rightarrow> string" where
  "memory_ref n = ''memdom:'' @ dec_digits (unat n)"

definition package_ref :: "nat \<Rightarrow> string" where
  "package_ref i = ''pkg:'' @ dec_digits i"

definition core_ref :: "nat \<Rightarrow> string" where
  "core_ref i = ''core:'' @ dec_digits i"

definition thread_ref :: "16 word \<Rightarrow> nat \<Rightarrow> string" where
  "thread_ref grp k = ''thread:g'' @ dec_digits (unat grp) @ '':'' @ dec_digits k"

definition numa_part :: "string \<Rightarrow> 32 word \<Rightarrow> part" where
  "numa_part machine n =
     ([default_cnode \<lparr> cn_ref := numa_ref n, cn_type := NT_NUMA_NODE, cn_name := ''NUMA '' @ dec_digits (unat n),
         cn_native := default_native \<lparr> ni_numa_node := Some n \<rparr>, cn_provenance := cpu_provenance,
         cn_capabilities := cap_union [CPU_ADDRESSABLE, NUMA_LOCAL] \<rparr>,
       default_cnode \<lparr> cn_ref := memory_ref n, cn_type := NT_HOST_MEMORY_DOMAIN,
         cn_name := ''Host memory domain (NUMA '' @ dec_digits (unat n) @ '')'',
         cn_native := default_native \<lparr> ni_numa_node := Some n \<rparr>,
         cn_provenance := provenance_inferred ''windows.cpu_numa'' ''NUMA_NODE_RELATIONSHIP'' CF_MEDIUM
           ''host memory domain per NUMA node'',
         cn_capabilities := cap_union [CPU_ADDRESSABLE, NUMA_LOCAL, SHARED_MEMORY] \<rparr>],
      [cpu_contains machine (numa_ref n), cpu_contains (numa_ref n) (memory_ref n)])"

definition package_part :: "string \<Rightarrow> nat \<Rightarrow> part" where
  "package_part machine i =
     ([default_cnode \<lparr> cn_ref := package_ref i, cn_type := NT_CPU_PACKAGE, cn_name := ''CPU Package '' @ dec_digits i,
         cn_native := default_native \<lparr> ni_cpu_package := Some (of_nat i) \<rparr>, cn_provenance := cpu_provenance,
         cn_capabilities := cap_union [CPU_ADDRESSABLE, NUMA_LOCAL] \<rparr>],
      [cpu_contains machine (package_ref i)])"

definition thread_part :: "cpu_sets \<Rightarrow> nat \<Rightarrow> nat \<Rightarrow> 16 word \<times> nat \<Rightarrow> part" where
  "thread_part s ci counter gb =
     (let grp = fst gb; k = snd gb; one = push_bit k 1;
          numa = map_option (\<lambda>i. fst (cs_numa s ! i)) (numa_of s grp one)
      in ([default_cnode \<lparr> cn_ref := thread_ref grp k, cn_type := NT_CPU_THREAD, cn_name := ''CPU '' @ dec_digits counter,
             cn_native := default_native \<lparr> ni_logical_processor_index := Some (of_nat counter),
               ni_processor_group := Some (ucast grp), ni_core_id := Some (of_nat ci),
               ni_cpu_package := map_option of_nat (package_of s grp one), ni_numa_node := numa \<rparr>,
             cn_provenance := cpu_provenance, cn_capabilities := cap_union [CPU_ADDRESSABLE] \<rparr>],
          cpu_contains (core_ref ci) (thread_ref grp k)
            # (case numa of None \<Rightarrow> [] | Some n \<Rightarrow> [cpu_local (thread_ref grp k) (numa_ref n)])))"

text \<open>The logical processors of a core, in the order of the two inner loops.\<close>

definition core_bits :: "group_affinity list \<Rightarrow> (16 word \<times> nat) list" where
  "core_bits affs = concat (map (\<lambda>a. map (Pair (ga_group a)) (filter (\<lambda>k. and (ga_mask a) (push_bit k 1) \<noteq> 0) [0..<64])) affs)"

definition join_parts :: "part list \<Rightarrow> part" where
  "join_parts ps = (concat (map fst ps), concat (map snd ps))"

fun thread_parts :: "cpu_sets \<Rightarrow> nat \<Rightarrow> nat \<Rightarrow> (16 word \<times> nat) list \<Rightarrow> part list" where
  "thread_parts s ci counter [] = []"
| "thread_parts s ci counter (gb # gbs) = thread_part s ci counter gb # thread_parts s ci (Suc counter) gbs"

definition core_package :: "cpu_sets \<Rightarrow> group_affinity list \<Rightarrow> 32 word option" where
  "core_package s affs =
     (case List.map_filter (\<lambda>a. package_of s (ga_group a) (ga_mask a)) affs of [] \<Rightarrow> None | p # _ \<Rightarrow> Some (of_nat p))"

definition core_part :: "cpu_sets \<Rightarrow> string \<Rightarrow> nat \<Rightarrow> group_affinity list \<Rightarrow> part" where
  "core_part s machine ci affs =
     (let pkg = core_package s affs in
      ([default_cnode \<lparr> cn_ref := core_ref ci, cn_type := NT_CPU_CORE, cn_name := ''Core '' @ dec_digits ci,
          cn_provenance := cpu_provenance, cn_capabilities := cap_union [CPU_ADDRESSABLE],
          cn_native := default_native \<lparr> ni_core_id := Some (of_nat ci), ni_cpu_package := pkg \<rparr> \<rparr>],
       [cpu_contains (case pkg of Some p \<Rightarrow> ''pkg:'' @ dec_digits (unat p) | None \<Rightarrow> machine) (core_ref ci)]))"

fun core_parts :: "cpu_sets \<Rightarrow> string \<Rightarrow> nat \<Rightarrow> nat \<Rightarrow> group_affinity list list \<Rightarrow> part list" where
  "core_parts s machine ci counter [] = []"
| "core_parts s machine ci counter (affs # cores) =
     core_part s machine ci affs # thread_parts s ci counter (core_bits affs)
     @ core_parts s machine (Suc ci) (counter + length (core_bits affs)) cores"

definition cpu_parts :: "cpu_sets \<Rightarrow> string \<Rightarrow> part" where
  "cpu_parts s machine = join_parts
     (map (\<lambda>p. numa_part machine (fst p)) (cs_numa s) @ map (package_part machine) [0..<length (cs_packages s)]
      @ core_parts s machine 0 0 (cs_cores s))"

definition cpu_numa_discover :: "cpu_answers \<Rightarrow> contribution" where
  "cpu_numa_discover a =
     (let machine = machine_ref (value_or (ca_dns_hostname a) []) in
      case ca_records a of
        Inl err \<Rightarrow> (empty_contribution ''cpu_numa'') \<lparr> ct_warnings := [last_error ''GetLogicalProcessorInformationEx'' err], ct_partial := True \<rparr>
      | Inr rs \<Rightarrow>
          (let s = parse_records rs \<lparr> cs_packages = [], cs_numa = [], cs_cores = [] \<rparr>; part = cpu_parts s machine
           in (empty_contribution ''cpu_numa'') \<lparr> ct_nodes := fst part, ct_edges := snd part, ct_partial := False,
                ct_success := True \<rparr>))"

section \<open>Every node is contained once\<close>

definition contains_targets :: "contributed_edge list \<Rightarrow> string list" where
  "contains_targets es = map ce_to_ref (filter (\<lambda>e. ce_type e = ET_CONTAINS) es)"

definition one_parent :: "part \<Rightarrow> bool" where
  "one_parent p \<longleftrightarrow> contains_targets (snd p) = map cn_ref (fst p)"

lemma cpu_edge_simps [simp]:
  "ce_from_ref (cpu_contains f t) = f" "ce_to_ref (cpu_contains f t) = t" "ce_type (cpu_contains f t) = ET_CONTAINS"
  "ce_from_ref (cpu_local f t) = f" "ce_to_ref (cpu_local f t) = t" "ce_type (cpu_local f t) = ET_LOCAL_TO"
  by (simp_all add: cpu_contains_def cpu_local_def)

lemma one_parent_parts:
  "one_parent (numa_part m n)" "one_parent (package_part m i)" "one_parent (thread_part s ci c gb)" "one_parent (core_part s m ci affs)"
  by (simp_all add: one_parent_def contains_targets_def numa_part_def package_part_def thread_part_def core_part_def Let_def
      split: option.splits)

lemma one_parent_join: "(\<And>p. p \<in> set ps \<Longrightarrow> one_parent p) \<Longrightarrow> one_parent (join_parts ps)"
  by (induction ps) (auto simp: join_parts_def one_parent_def contains_targets_def)

lemma thread_parts_mem: "p \<in> set (thread_parts s ci c gbs) \<Longrightarrow> \<exists>k gb. gb \<in> set gbs \<and> p = thread_part s ci k gb"
  by (induction s ci c gbs rule: thread_parts.induct) auto

lemma core_parts_mem: "p \<in> set (core_parts s m ci c cores) \<Longrightarrow>
    \<exists>i < length cores. p = core_part s m (ci + i) (cores ! i)
      \<or> (\<exists>k gb. gb \<in> set (core_bits (cores ! i)) \<and> p = thread_part s (ci + i) k gb)"
proof (induction s m ci c cores rule: core_parts.induct)
  case (2 s m ci c affs cores)
  consider "p = core_part s m ci affs" | "p \<in> set (thread_parts s ci c (core_bits affs))"
    | "p \<in> set (core_parts s m (Suc ci) (c + length (core_bits affs)) cores)" using "2.prems" by auto
  then show ?case
  proof cases
    case 1
    then show ?thesis by (intro exI [of _ 0]) simp
  next
    case 2
    then show ?thesis using thread_parts_mem by (intro exI [of _ 0]) auto
  next
    case 3
    from "2.IH" [OF this] obtain i where "i < length cores"
      "p = core_part s m (Suc ci + i) (cores ! i) \<or> (\<exists>k gb. gb \<in> set (core_bits (cores ! i)) \<and> p = thread_part s (Suc ci + i) k gb)"
      by blast
    then show ?thesis by (intro exI [of _ "Suc i"]) simp
  qed
qed simp

lemma one_parent_cpu: "one_parent (cpu_parts s m)"
  unfolding cpu_parts_def by (rule one_parent_join) (auto simp: one_parent_parts dest!: core_parts_mem)

section \<open>Every edge joins known references\<close>

definition part_refs :: "part \<Rightarrow> string set" where
  "part_refs p = cn_ref ` set (fst p)"

lemma join_refs: "part_refs (join_parts ps) = (\<Union>p \<in> set ps. part_refs p)"
  by (auto simp: part_refs_def join_parts_def)

lemma first_index_range: "first_index P i xs = Some k \<Longrightarrow> i \<le> k \<and> k < i + length xs"
  by (induction P i xs rule: first_index.induct) (auto split: if_splits)

lemma core_parts_refs: "i < length cores \<Longrightarrow> \<exists>p \<in> set (core_parts s m ci c cores). core_ref (ci + i) \<in> part_refs p"
proof (induction cores arbitrary: i ci c)
  case (Cons affs cores)
  show ?case
  proof (cases i)
    case 0
    then show ?thesis by (force simp: part_refs_def core_part_def Let_def)
  next
    case (Suc j)
    then obtain p where "p \<in> set (core_parts s m (Suc ci) (c + length (core_bits affs)) cores)" "core_ref (Suc ci + j) \<in> part_refs p"
      using Cons.IH [of j "Suc ci" "c + length (core_bits affs)"] Cons.prems by auto
    then show ?thesis using Suc by (intro bexI [of _ p]) auto
  qed
qed simp

lemma cpu_refs:
  "i < length (cs_numa s) \<Longrightarrow> numa_ref (fst (cs_numa s ! i)) \<in> part_refs (cpu_parts s m)"
  "i < length (cs_packages s) \<Longrightarrow> package_ref i \<in> part_refs (cpu_parts s m)"
  "i < length (cs_cores s) \<Longrightarrow> core_ref i \<in> part_refs (cpu_parts s m)"
proof -
  show "numa_ref (fst (cs_numa s ! i)) \<in> part_refs (cpu_parts s m)" if "i < length (cs_numa s)"
  proof -
    have "numa_ref (fst (cs_numa s ! i)) \<in> part_refs (numa_part m (fst (cs_numa s ! i)))" by (simp add: part_refs_def numa_part_def)
    then show ?thesis using that unfolding cpu_parts_def join_refs by (auto intro!: bexI [of _ "cs_numa s ! i"])
  qed
  show "package_ref i \<in> part_refs (cpu_parts s m)" if "i < length (cs_packages s)"
  proof -
    have "package_ref i \<in> part_refs (package_part m i)" by (simp add: part_refs_def package_part_def)
    then show ?thesis using that unfolding cpu_parts_def join_refs by auto
  qed
  show "core_ref i \<in> part_refs (cpu_parts s m)" if "i < length (cs_cores s)"
    using core_parts_refs [OF that, of s m 0 0] unfolding cpu_parts_def join_refs by auto
qed

definition edges_known :: "string set \<Rightarrow> contributed_edge list \<Rightarrow> bool" where
  "edges_known R es \<longleftrightarrow> (\<forall>e \<in> set es. ce_from_ref e \<in> R \<and> ce_to_ref e \<in> R)"

lemma edges_known_concat: "(\<And>p. p \<in> set ps \<Longrightarrow> edges_known R (snd p)) \<Longrightarrow> edges_known R (concat (map snd ps))"
  by (auto simp: edges_known_def)

lemma core_package_range:
  assumes "core_package s affs = Some p" and "length (cs_packages s) < 2 ^ 32"
  shows "unat p < length (cs_packages s)"
proof -
  obtain i and a :: group_affinity where i: "package_of s (ga_group a) (ga_mask a) = Some i" and p: "p = of_nat i"
  proof -
    obtain i rest where ps: "List.map_filter (\<lambda>a. package_of s (ga_group a) (ga_mask a)) affs = i # rest" and p: "p = of_nat i"
      using assms(1) by (auto simp: core_package_def split: list.splits)
    have "i \<in> set (List.map_filter (\<lambda>a. package_of s (ga_group a) (ga_mask a)) affs)" by (simp add: ps)
    then obtain a :: group_affinity where "package_of s (ga_group a) (ga_mask a) = Some i" by (auto simp: map_filter_def)
    then show ?thesis using that p by blast
  qed
  have "i < length (cs_packages s)" using first_index_range i unfolding package_of_def by fastforce
  then show ?thesis using assms(2) by (simp add: p unat_of_nat)
qed

lemma thread_part_known:
  assumes "i < length (cs_cores s)" and "thread_part s i k gb \<in> set ps" and "cpu_parts s m = join_parts ps"
  shows "edges_known (insert m (part_refs (cpu_parts s m))) (snd (thread_part s i k gb))"
proof -
  let ?R = "part_refs (cpu_parts s m)"
  have own: "thread_ref (fst gb) (snd gb) \<in> ?R"
    using assms(2) unfolding assms(3) join_refs by (force simp: part_refs_def thread_part_def Let_def)
  have "numa_ref (fst (cs_numa s ! j)) \<in> ?R" if "numa_of s (fst gb) (push_bit (snd gb) 1) = Some j" for j
    using that first_index_range unfolding numa_of_def by (intro cpu_refs(1)) fastforce
  then show ?thesis
    using own cpu_refs(3) [OF assms(1)]
    by (auto simp: edges_known_def thread_part_def Let_def split: option.splits)
qed

lemma cpu_edges_known:
  assumes "length (cs_packages s) < 2 ^ 32"
  shows "edges_known (insert m (part_refs (cpu_parts s m))) (snd (cpu_parts s m))"
proof -
  let ?R = "insert m (part_refs (cpu_parts s m))"
  let ?ps = "map (\<lambda>p. numa_part m (fst p)) (cs_numa s) @ map (package_part m) [0..<length (cs_packages s)]
      @ core_parts s m 0 0 (cs_cores s)"
  have ps: "cpu_parts s m = join_parts ?ps" by (simp add: cpu_parts_def)
  have own: "part_refs p \<subseteq> ?R" if "p \<in> set ?ps" for p using that unfolding ps join_refs by blast
  have "edges_known ?R (snd p)" if p: "p \<in> set ?ps" for p
  proof -
    consider n where "p = numa_part m n" | i where "p = package_part m i"
      | i where "i < length (cs_cores s)" "p = core_part s m i (cs_cores s ! i)"
      | i k gb where "i < length (cs_cores s)" "p = thread_part s i k gb"
      using p by (auto dest!: core_parts_mem)
    then show ?thesis
    proof cases
      case 1
      then show ?thesis using own [OF p] by (auto simp: edges_known_def numa_part_def part_refs_def)
    next
      case 2
      then show ?thesis using own [OF p] by (auto simp: edges_known_def package_part_def part_refs_def)
    next
      case (3 i)
      have "package_ref (unat q) \<in> ?R" if "core_package s (cs_cores s ! i) = Some q" for q
        using cpu_refs(2) [OF core_package_range [OF that assms]] by blast
      then show ?thesis using own [OF p] 3(2)
        by (auto simp: edges_known_def core_part_def part_refs_def Let_def package_ref_def split: option.splits)
    next
      case (4 i k gb)
      then show ?thesis using thread_part_known [OF 4(1) _ ps] p by blast
    qed
  qed
  then have "edges_known ?R (concat (map snd ?ps))" by (rule edges_known_concat)
  moreover have "snd (cpu_parts s m) = concat (map snd ?ps)" by (simp add: cpu_parts_def join_parts_def)
  ultimately show ?thesis by (simp only:)
qed

section \<open>The logical processors\<close>

definition is_thread :: "contributed_node \<Rightarrow> bool" where
  "is_thread n \<longleftrightarrow> cn_type n = NT_CPU_THREAD"

lemma threads_of_core:
  "map (\<lambda>n. (cn_ref n, cn_name n, ni_logical_processor_index (cn_native n))) (concat (map fst (thread_parts s ci c gbs)))
   = map (\<lambda>(k, gb). (thread_ref (fst gb) (snd gb), ''CPU '' @ dec_digits k, Some (of_nat k))) (zip [c..<c + length gbs] gbs)"
proof (induction gbs arbitrary: c)
  case (Cons gb gbs)
  have "[c..<c + length (gb # gbs)] = c # [Suc c..<Suc c + length gbs]" 
    by (subst upt_conv_Cons) simp_all
  then show ?case using Cons.IH [of "Suc c"] by (simp add: thread_part_def Let_def)
qed simp

lemma threads_all: "filter is_thread (concat (map fst (thread_parts s ci c gbs))) = concat (map fst (thread_parts s ci c gbs))"
  by (induction s ci c gbs rule: thread_parts.induct) (simp_all add: is_thread_def thread_part_def Let_def)

definition thread_facts :: "contributed_node \<Rightarrow> string \<times> string \<times> 32 word option" where
  "thread_facts n = (cn_ref n, cn_name n, ni_logical_processor_index (cn_native n))"

definition numbered :: "nat \<Rightarrow> (16 word \<times> nat) list \<Rightarrow> (string \<times> string \<times> 32 word option) list" where
  "numbered c gbs = map (\<lambda>(k, gb). (thread_ref (fst gb) (snd gb), ''CPU '' @ dec_digits k, Some (of_nat k))) (zip [c..<c + length gbs] gbs)"

lemma numbered_append: "numbered c (xs @ ys) = numbered c xs @ numbered (c + length xs) ys"
proof -
  have "[c..<c + length (xs @ ys)] = [c..<c + length xs] @ [c + length xs..<c + length xs + length ys]"
    using upt_add_eq_append [of c "c + length xs" "length ys"] by (simp add: add.assoc)
  then show ?thesis by (simp add: numbered_def)
qed

lemma threads_of_cores:
  "map thread_facts (filter is_thread (concat (map fst (core_parts s m ci c cores)))) = numbered c (concat (map core_bits cores))"
proof (induction s m ci c cores rule: core_parts.induct)
  case (2 s m ci c affs cores)
  have "map thread_facts (concat (map fst (thread_parts s ci c (core_bits affs)))) = numbered c (core_bits affs)"
    using threads_of_core [of s ci c "core_bits affs"] by (simp add: thread_facts_def [abs_def] numbered_def)
  moreover have "filter is_thread (fst (core_part s m ci affs)) = []" by (simp add: core_part_def is_thread_def Let_def)
  ultimately show ?case using 2 by (simp add: threads_all numbered_append)
qed (simp add: numbered_def)

lemma cpu_threads:
  "map thread_facts (filter is_thread (fst (cpu_parts s m))) = numbered 0 (concat (map core_bits (cs_cores s)))"
proof -
  have "filter is_thread (concat (map fst (map (\<lambda>p. numa_part m (fst p)) ns))) = []" for ns
    by (induction ns) (simp_all add: numa_part_def is_thread_def)
  moreover have "filter is_thread (concat (map fst (map (package_part m) is))) = []" for "is"
    by (induction "is") (simp_all add: package_part_def is_thread_def)
  ultimately show ?thesis
    using threads_of_cores [of s m 0 0 "cs_cores s"] by (simp add: cpu_parts_def join_parts_def)
qed

section \<open>Properties\<close>

definition no_sets :: cpu_sets where
  "no_sets = \<lparr> cs_packages = [], cs_numa = [], cs_cores = [] \<rparr>"

lemma cpu_closed_parts:
  "contains_targets (ct_edges (cpu_numa_discover a)) = map cn_ref (ct_nodes (cpu_numa_discover a))"
  using one_parent_cpu
  by (cases "ca_records a") (simp_all add: cpu_numa_discover_def empty_contribution_def contains_targets_def one_parent_def Let_def)

lemma cpu_closed_edges:
  assumes "\<And>rs. ca_records a = Inr rs \<Longrightarrow> length (cs_packages (parse_records rs no_sets)) < 2 ^ 32"
  shows "edges_known (insert (machine_ref (value_or (ca_dns_hostname a) [])) (cn_ref ` set (ct_nodes (cpu_numa_discover a))))
    (ct_edges (cpu_numa_discover a))"
proof (cases "ca_records a")
  case (Inl err)
  then show ?thesis by (simp add: cpu_numa_discover_def empty_contribution_def edges_known_def)
next
  case (Inr rs)
  then show ?thesis using cpu_edges_known [OF assms [OF Inr]]
    by (simp add: cpu_numa_discover_def empty_contribution_def part_refs_def no_sets_def Let_def)
qed

text \<open>The contribution of the processor provider is a forest below the machine: every node is the target of one
  CONTAINS edge, in the order of the nodes, and every edge joins contributed references or the machine.\<close>

theorem cpu_numa_closed:
  assumes "\<And>rs. ca_records a = Inr rs \<Longrightarrow> length (cs_packages (parse_records rs no_sets)) < 2 ^ 32"
  shows "contains_targets (ct_edges (cpu_numa_discover a)) = map cn_ref (ct_nodes (cpu_numa_discover a))
    \<and> edges_known (insert (machine_ref (value_or (ca_dns_hostname a) [])) (cn_ref ` set (ct_nodes (cpu_numa_discover a))))
        (ct_edges (cpu_numa_discover a))"
  using cpu_closed_parts cpu_closed_edges [OF assms] by blast

definition small_cpu :: cpu_answers where
  "small_cpu = \<lparr> ca_dns_hostname = Some ''box'', ca_records = Inr
     [(48, PI_Core [\<lparr> ga_group = 0, ga_mask = 5 \<rparr>]), (48, PI_Numa 0 [\<lparr> ga_group = 0, ga_mask = 4 \<rparr>]),
      (48, PI_Package [\<lparr> ga_group = 0, ga_mask = 7 \<rparr>])] \<rparr>"

theorem cpu_numa_closed_witness:
  "contains_targets (ct_edges (cpu_numa_discover small_cpu)) = map cn_ref (ct_nodes (cpu_numa_discover small_cpu))
    \<and> edges_known (insert (machine_ref (value_or (ca_dns_hostname small_cpu) [])) (cn_ref ` set (ct_nodes (cpu_numa_discover small_cpu))))
        (ct_edges (cpu_numa_discover small_cpu))"
  by (rule cpu_numa_closed) (auto simp: small_cpu_def no_sets_def Let_def)

text \<open>The logical processors the provider reports are the set bits of the core masks, core after core, group after
  group and bit after bit, each named and numbered by its place in that order.\<close>

theorem cpu_threads_numbered:
  assumes "ca_records a = Inr rs"
  shows "map thread_facts (filter is_thread (ct_nodes (cpu_numa_discover a)))
    = numbered 0 (concat (map core_bits (cs_cores (parse_records rs no_sets))))"
  using assms cpu_threads by (simp add: cpu_numa_discover_def empty_contribution_def no_sets_def Let_def)

theorem cpu_threads_numbered_witness:
  "map thread_facts (filter is_thread (ct_nodes (cpu_numa_discover small_cpu)))
    = numbered 0 (core_bits [\<lparr> ga_group = 0, ga_mask = 5 \<rparr>])"
proof -
  have "ca_records small_cpu = Inr (projr (ca_records small_cpu))" by (simp add: small_cpu_def)
  from cpu_threads_numbered [OF this] show ?thesis by (simp add: small_cpu_def no_sets_def Let_def)
qed

end
