(* ===== verification/TF_Pci.thy ===== *)
theory TF_Pci
  imports TF_Cpu
begin

text \<open>
  The PCI provider (\<open>pci.cpp\<close>). What the configuration manager answers is a list of entries, one for
  each device identifier of its list: whether the device node is located, the identifier of its parent and its
  location text, each \<open>None\<close> when one of the calls for it fails; or the error, and whether it came from asking for
  the size of the list. The hash maps of the function are \<open>umap\<close>s.
\<close>

section \<open>Texts\<close>

text \<open>\<open>find\<close> and \<open>rfind\<close> of a string.\<close>

definition find_str :: "string \<Rightarrow> string \<Rightarrow> nat option" where
  "find_str k s = List.find (\<lambda>i. take (length k) (drop i s) = k) [0..<Suc (length s)]"

definition rfind_str :: "string \<Rightarrow> string \<Rightarrow> nat option" where
  "rfind_str k s = List.find (\<lambda>i. take (length k) (drop i s) = k) (rev [0..<Suc (length s)])"

definition hex16_digit :: "char \<Rightarrow> 32 word option" where
  "hex16_digit c = (let k = of_char c :: nat in
     if 48 \<le> k \<and> k \<le> 57 then Some (of_nat (k - 48))
     else if 97 \<le> k \<and> k \<le> 102 then Some (of_nat (k - 97 + 10))
     else if 65 \<le> k \<and> k \<le> 70 then Some (of_nat (k - 65 + 10))
     else None)"

fun hex16_loop :: "string \<Rightarrow> 32 word \<Rightarrow> 32 word option" where
  "hex16_loop [] v = Some v"
| "hex16_loop (c # cs) v = (case hex16_digit c of None \<Rightarrow> None | Some d \<Rightarrow> hex16_loop cs (v * 16 + d))"

definition parse_hex16 :: "string \<Rightarrow> 16 word option" where
  "parse_hex16 s = (if s = [] then None else
     case hex16_loop s 0 of None \<Rightarrow> None | Some v \<Rightarrow> if v > 0xFFFF then None else Some (ucast v))"

definition is_decimal :: "char \<Rightarrow> bool" where
  "is_decimal c \<longleftrightarrow> 48 \<le> (of_char c :: nat) \<and> (of_char c :: nat) \<le> 57"

text \<open>\<open>strtol\<close> is clamped to the range of \<open>long\<close>, which lies above the limit tested next.\<close>

definition strtol_digits :: "string \<Rightarrow> nat" where
  "strtol_digits ds = foldl (\<lambda>v c. v * 10 + (of_char c - 48)) 0 ds"

definition location_int :: "string \<Rightarrow> string \<Rightarrow> 16 word option" where
  "location_int s k =
     (case (if k = ''bus'' then rfind_str k s else find_str k s) of
        None \<Rightarrow> None
      | Some pos \<Rightarrow>
          (let tail = dropWhile (\<lambda>c. c = CHR '' '' \<or> c = CHR 0x09 \<or> c = CHR '':'') (drop (pos + length k) s);
               digits = takeWhile is_decimal tail; v = strtol_digits digits
           in if digits = [] \<or> v > 0xFFFF then None else Some (of_nat v)))"

definition parse_location :: "string \<Rightarrow> (16 word \<times> 16 word \<times> 16 word) option" where
  "parse_location s = (case (location_int s ''bus'', location_int s ''device'', location_int s ''function'') of
     (Some b, Some d, Some f) \<Rightarrow> Some (b, d, f) | _ \<Rightarrow> None)"

text \<open>The four hexadecimal digits behind a label of an identifier.\<close>

definition pci_id_field :: "string \<Rightarrow> string \<Rightarrow> 16 word option" where
  "pci_id_field label did = (case find_str label did of
     None \<Rightarrow> None
   | Some pos \<Rightarrow> if pos + length label + 4 \<le> length did then parse_hex16 (take 4 (drop (pos + length label) did)) else None)"

section \<open>The devices\<close>

record pci_entry =
  pe_id :: string
  pe_located :: "32 word option"
  pe_parent :: "string option"
  pe_location :: "string option"

record pci_answers =
  pa_dns_hostname :: "string option"
  pa_ids :: "(bool \<times> os_error) + pci_entry list"

record pci_maps =
  pm_devinsts :: "(string, 32 word) umap"
  pm_parent_of :: "(string, string) umap"
  pm_pci_ids :: "string list"
  pm_vendor :: "(string, 16 word) umap"
  pm_device :: "(string, 16 word) umap"
  pm_sub :: "(string, 16 word) umap"
  pm_bus :: "(string, 16 word) umap"
  pm_dev :: "(string, 16 word) umap"
  pm_func :: "(string, 16 word) umap"

definition no_maps :: pci_maps where
  "no_maps = \<lparr> pm_devinsts = [], pm_parent_of = [], pm_pci_ids = [], pm_vendor = [], pm_device = [], pm_sub = [],
     pm_bus = [], pm_dev = [], pm_func = [] \<rparr>"

definition put_some :: "'k \<Rightarrow> 'v option \<Rightarrow> ('k, 'v) umap \<Rightarrow> ('k, 'v) umap" where
  "put_some k v m = (case v of None \<Rightarrow> m | Some x \<Rightarrow> um_put k x m)"

definition read_entry :: "pci_entry \<Rightarrow> pci_maps \<Rightarrow> pci_maps" where
  "read_entry e m =
     (let did = pe_id e in
      if did = [] \<or> take 4 did \<noteq> ''PCI'' @ [CHR 0x5C] then m
      else case pe_located e of
        None \<Rightarrow> m
      | Some dev \<Rightarrow>
          (let loc = Option.bind (pe_location e) parse_location in
           m \<lparr> pm_devinsts := um_put did dev (pm_devinsts m), pm_pci_ids := pm_pci_ids m @ [did],
               pm_vendor := put_some did (pci_id_field ''VEN_'' did) (pm_vendor m),
               pm_device := put_some did (pci_id_field ''DEV_'' did) (pm_device m),
               pm_sub := put_some did (pci_id_field ''SUBSYS_'' did) (pm_sub m),
               pm_parent_of := put_some did (pe_parent e) (pm_parent_of m),
               pm_bus := put_some did (map_option fst loc) (pm_bus m),
               pm_dev := put_some did (map_option (fst \<circ> snd) loc) (pm_dev m),
               pm_func := put_some did (map_option (snd \<circ> snd) loc) (pm_func m) \<rparr>))"

definition read_entries :: "pci_entry list \<Rightarrow> pci_maps" where
  "read_entries es = fold read_entry es no_maps"

section \<open>Nodes and edges\<close>

definition pci_provenance :: provenance where
  "pci_provenance = provenance_discovered ''windows.pci'' ''CM_Get_Device_ID_List/CM_Get_Parent'' CF_HIGH ''10.0'' []"

definition pci_contains :: "string \<Rightarrow> string \<Rightarrow> contributed_edge" where
  "pci_contains fr tr = default_cedge \<lparr> ce_from_ref := fr, ce_to_ref := tr, ce_type := ET_CONTAINS,
     ce_direction := ED_DIRECTED, ce_provenance := pci_provenance, ce_confidence := CF_HIGH \<rparr>"

definition parents_seen :: "pci_maps \<Rightarrow> (string, bool) umap" where
  "parents_seen m = fold (\<lambda>(did, pid) seen. if um_count (pm_devinsts m) pid then um_put pid True seen else seen) (pm_parent_of m) []"

definition pci_parent :: "pci_maps \<Rightarrow> string \<Rightarrow> string option" where
  "pci_parent m did = (case um_find (pm_parent_of m) did of
     None \<Rightarrow> None | Some pid \<Rightarrow> if um_count (pm_devinsts m) pid then Some pid else None)"

definition pci_type :: "pci_maps \<Rightarrow> string \<Rightarrow> node_type" where
  "pci_type m did =
     (let has_parent = pci_parent m did \<noteq> None; is_parent = um_get False (parents_seen m) did in
      if is_parent \<and> \<not> has_parent then NT_PCI_ROOT else if is_parent then NT_PCI_BRIDGE else NT_PCI_DEVICE)"

definition pci_ref :: "string \<Rightarrow> string" where
  "pci_ref did = ''pci:'' @ did"

definition pci_node :: "pci_maps \<Rightarrow> string \<Rightarrow> contributed_node" where
  "pci_node m did = default_cnode \<lparr> cn_ref := pci_ref did, cn_type := pci_type m did, cn_name := ''PCI '' @ did,
     cn_native := default_native \<lparr> ni_vendor_id := um_find (pm_vendor m) did, ni_device_id := um_find (pm_device m) did,
       ni_subsystem_id := um_find (pm_sub m) did, ni_pci_domain := Some 0, ni_pci_bus := um_find (pm_bus m) did,
       ni_pci_device := um_find (pm_dev m) did, ni_pci_function := um_find (pm_func m) did \<rparr>,
     cn_provenance := pci_provenance, cn_capabilities := cap_union [PCI_CONNECTED, DMA_CAPABLE] \<rparr>"

definition pci_refs_of :: "pci_maps \<Rightarrow> (string, string) umap" where
  "pci_refs_of m = fold (\<lambda>did. um_put did (pci_ref did)) (pm_pci_ids m) []"

definition pci_edge :: "pci_maps \<Rightarrow> string \<Rightarrow> string \<Rightarrow> contributed_edge" where
  "pci_edge m machine did = (case pci_parent m did of
     Some pid \<Rightarrow> pci_contains (um_get [] (pci_refs_of m) pid) (um_get [] (pci_refs_of m) did)
   | None \<Rightarrow> pci_contains machine (um_get [] (pci_refs_of m) did))"

definition pci_discover :: "pci_answers \<Rightarrow> contribution" where
  "pci_discover a = (case pa_ids a of
     Inl (in_size, err) \<Rightarrow> (empty_contribution ''pci'')
       \<lparr> ct_warnings := [last_error (if in_size then ''CM_Get_Device_ID_List_SizeW'' else ''CM_Get_Device_ID_ListW'') err],
         ct_partial := True \<rparr>
   | Inr es \<Rightarrow>
       (let m = read_entries es; machine = machine_ref (value_or (pa_dns_hostname a) []) in
        (empty_contribution ''pci'') \<lparr> ct_nodes := map (pci_node m) (pm_pci_ids m),
          ct_edges := map (pci_edge m machine) (pm_pci_ids m), ct_partial := True, ct_success := True \<rparr>))"

section \<open>What the maps hold\<close>

definition maps_ok :: "pci_maps \<Rightarrow> bool" where
  "maps_ok m \<longleftrightarrow> set (um_keys (pm_devinsts m)) = set (pm_pci_ids m) \<and> set (um_keys (pm_parent_of m)) \<subseteq> set (pm_pci_ids m)
     \<and> um_ok (pm_parent_of m)"

lemma maps_ok_empty: "maps_ok no_maps"
  by (simp add: maps_ok_def no_maps_def)

lemma read_entry_ok: "maps_ok m \<Longrightarrow> maps_ok (read_entry e m)"
  by (auto simp: maps_ok_def read_entry_def Let_def put_some_def umap_simps split: option.splits)

lemma read_entries_ok: "maps_ok (read_entries es)"
proof -
  have "maps_ok m \<Longrightarrow> maps_ok (fold read_entry es m)" for m
    by (induction es arbitrary: m) (simp_all add: read_entry_ok)
  then show ?thesis by (simp add: read_entries_def maps_ok_empty)
qed

lemma pci_refs_find: "did \<in> set (pm_pci_ids m) \<Longrightarrow> um_get [] (pci_refs_of m) did = pci_ref did"
proof -
  have "um_get [] (fold (\<lambda>did. um_put did (pci_ref did)) ids rm) did = (if did \<in> set ids then pci_ref did else um_get [] rm did)" for ids rm
    by (induction ids arbitrary: rm) (auto simp: umap_simps)
  then show "did \<in> set (pm_pci_ids m) \<Longrightarrow> ?thesis" by (simp add: pci_refs_of_def)
qed

lemma pci_parent_known: "maps_ok m \<Longrightarrow> pci_parent m did = Some pid \<Longrightarrow> pid \<in> set (pm_pci_ids m)"
  by (auto simp: pci_parent_def maps_ok_def umap_simps split: option.splits if_splits)

lemma pci_parent_child: "maps_ok m \<Longrightarrow> pci_parent m did = Some pid \<Longrightarrow> did \<in> set (pm_pci_ids m)"
  by (auto simp: pci_parent_def maps_ok_def um_find_def um_keys_def dest!: map_of_SomeD split: option.splits if_splits)

lemma pci_edge_eq:
  "maps_ok m \<Longrightarrow> did \<in> set (pm_pci_ids m) \<Longrightarrow>
   pci_edge m machine did = pci_contains (case pci_parent m did of None \<Rightarrow> machine | Some pid \<Rightarrow> pci_ref pid) (pci_ref did)"
  using pci_parent_known by (auto simp: pci_edge_def pci_refs_find split: option.splits)

lemma parents_seen_iff:
  assumes "maps_ok m"
  shows "um_get False (parents_seen m) pid \<longleftrightarrow> (\<exists>did. pci_parent m did = Some pid)"
proof -
  have step: "um_get False (fold (\<lambda>(did, q) seen. if um_count (pm_devinsts m) q then um_put q True seen else seen) ps seen) pid
      \<longleftrightarrow> um_get False seen pid \<or> (\<exists>did. (did, pid) \<in> set ps \<and> um_count (pm_devinsts m) pid)" for ps seen
    by (induction ps arbitrary: seen) (auto simp: um_get_put split: if_splits)
  have "(did, pid) \<in> set (pm_parent_of m) \<longleftrightarrow> um_find (pm_parent_of m) did = Some pid" for did
    using assms by (simp add: maps_ok_def um_ok_def um_keys_def um_find_def)
  then show ?thesis unfolding parents_seen_def step by (auto simp: um_get_def pci_parent_def split: option.splits)
qed

section \<open>Properties\<close>

lemma pci_contains_simps [simp]:
  "ce_from_ref (pci_contains f t) = f" "ce_to_ref (pci_contains f t) = t" "ce_type (pci_contains f t) = ET_CONTAINS"
  by (simp_all add: pci_contains_def)

lemma pci_parts:
  assumes "pa_ids a = Inr es"
  shows "ct_nodes (pci_discover a) = map (pci_node (read_entries es)) (pm_pci_ids (read_entries es))"
    and "ct_edges (pci_discover a) = map (pci_edge (read_entries es) (machine_ref (value_or (pa_dns_hostname a) []))) (pm_pci_ids (read_entries es))"
  using assms by (simp_all add: pci_discover_def empty_contribution_def Let_def)

lemma pci_nothing:
  assumes "pa_ids a = Inl err"
  shows "ct_nodes (pci_discover a) = []" and "ct_edges (pci_discover a) = []"
  using assms by (simp_all add: pci_discover_def empty_contribution_def split: prod.splits)

lemma pci_closed_parts:
  "contains_targets (ct_edges (pci_discover a)) = map cn_ref (ct_nodes (pci_discover a))
    \<and> edges_known (insert (machine_ref (value_or (pa_dns_hostname a) [])) (cn_ref ` set (ct_nodes (pci_discover a))))
        (ct_edges (pci_discover a))"
proof (cases "pa_ids a")
  case (Inl err)
  then show ?thesis by (simp add: pci_nothing contains_targets_def edges_known_def)
next
  case (Inr es)
  define m where "m = read_entries es"
  have ok: "maps_ok m" by (simp add: m_def read_entries_ok)
  let ?M = "machine_ref (value_or (pa_dns_hostname a) [])"
  have edges: "map (pci_edge m ?M) (pm_pci_ids m)
      = map (\<lambda>did. pci_contains (case pci_parent m did of None \<Rightarrow> ?M | Some pid \<Rightarrow> pci_ref pid) (pci_ref did)) (pm_pci_ids m)"
    using pci_edge_eq [OF ok] by simp
  have node: "cn_ref (pci_node m did) = pci_ref did" for did by (simp add: pci_node_def)
  show ?thesis unfolding pci_parts [OF Inr] m_def [symmetric] edges
    using pci_parent_known [OF ok]
    by (auto simp: contains_targets_def edges_known_def node filter_map o_def image_image split: option.splits)
qed

text \<open>The contribution of the PCI provider is closed: every node is the target of one CONTAINS edge, in the order of
  the nodes, and every edge joins contributed references or the machine.\<close>

theorem pci_closed:
  "contains_targets (ct_edges (pci_discover a)) = map cn_ref (ct_nodes (pci_discover a))
    \<and> edges_known (insert (machine_ref (value_or (pa_dns_hostname a) [])) (cn_ref ` set (ct_nodes (pci_discover a))))
        (ct_edges (pci_discover a))"
  by (rule pci_closed_parts)

definition has_child :: "contributed_edge list \<Rightarrow> string \<Rightarrow> bool" where
  "has_child es r \<longleftrightarrow> list_ex (\<lambda>e. ce_from_ref e = r) es"

definition child_of :: "contributed_edge list \<Rightarrow> string \<Rightarrow> string \<Rightarrow> bool" where
  "child_of es p r \<longleftrightarrow> list_ex (\<lambda>e. ce_from_ref e = p \<and> ce_to_ref e = r) es"

text \<open>The type of a PCI node is what the contributed edges make of it: a device has no child, a root has a child and hangs
  below the machine, a bridge has a child and hangs below another PCI node.\<close>

theorem pci_types_from_edges:
  assumes "n \<in> set (ct_nodes (pci_discover a))"
  shows "cn_type n = (if \<not> has_child (ct_edges (pci_discover a)) (cn_ref n) then NT_PCI_DEVICE
    else if child_of (ct_edges (pci_discover a)) (machine_ref (value_or (pa_dns_hostname a) [])) (cn_ref n)
    then NT_PCI_ROOT else NT_PCI_BRIDGE)"
proof (cases "pa_ids a")
  case (Inl err)
  then show ?thesis using assms(1) by (simp add: pci_nothing)
next
  case (Inr es)
  define m where "m = read_entries es"
  have ok: "maps_ok m" by (simp add: m_def read_entries_ok)
  let ?M = "machine_ref (value_or (pa_dns_hostname a) [])"
  obtain did where did: "did \<in> set (pm_pci_ids m)" and n: "n = pci_node m did"
    using assms(1) by (auto simp: pci_parts [OF Inr] m_def)
  have ref: "cn_ref n = pci_ref did" by (simp add: n pci_node_def)
  have differ: "?M \<noteq> pci_ref x" "pci_ref x \<noteq> ?M" for x by (simp_all add: machine_ref_def pci_ref_def)
  have same: "pci_ref x = pci_ref y \<longleftrightarrow> x = y" for x y by (simp add: pci_ref_def)
  have child: "has_child (ct_edges (pci_discover a)) (cn_ref n) \<longleftrightarrow> (\<exists>x. pci_parent m x = Some did)"
    using pci_parent_child [OF ok]
    by (auto simp: has_child_def list_ex_iff pci_parts(2) [OF Inr] m_def [symmetric] pci_edge_eq [OF ok] ref differ same split: option.splits)
  have below: "child_of (ct_edges (pci_discover a)) ?M (cn_ref n) \<longleftrightarrow> pci_parent m did = None"
    using did by (auto simp: child_of_def list_ex_iff pci_parts(2) [OF Inr] m_def [symmetric] pci_edge_eq [OF ok] ref differ same
        split: option.splits)
  show ?thesis unfolding child below by (simp add: n pci_node_def pci_type_def parents_seen_iff [OF ok] Let_def)
qed

definition small_pci :: pci_answers where
  "small_pci = \<lparr> pa_dns_hostname = None, pa_ids = Inr
     [\<lparr> pe_id = ''PCI'' @ [CHR 0x5C] @ ''VEN_8086&DEV_1a2B'', pe_located = Some 1, pe_parent = Some ''ACPI'', pe_location = None \<rparr>,
      \<lparr> pe_id = ''PCI'' @ [CHR 0x5C] @ ''X'', pe_located = Some 2,
        pe_parent = Some (''PCI'' @ [CHR 0x5C] @ ''VEN_8086&DEV_1a2B''),
        pe_location = Some ''PCI bus 3, device 0, function 1'' \<rparr>] \<rparr>"

lemma read_entry_ids:
  "pm_pci_ids (read_entry e m) = pm_pci_ids m
    @ (if pe_id e = [] \<or> take 4 (pe_id e) \<noteq> ''PCI'' @ [CHR 0x5C] \<or> pe_located e = None then [] else [pe_id e])"
  by (simp add: read_entry_def Let_def split: option.splits)

lemma small_pci_maps:
  "pm_pci_ids (read_entries (projr (pa_ids small_pci))) = [''PCI'' @ [CHR 0x5C] @ ''VEN_8086&DEV_1a2B'', ''PCI'' @ [CHR 0x5C] @ ''X'']"
  by (simp add: read_entries_def small_pci_def read_entry_ids no_maps_def)

theorem pci_types_from_edges_witness:
  "cn_type (pci_node (read_entries (projr (pa_ids small_pci))) (''PCI'' @ [CHR 0x5C] @ ''X''))
   = (if \<not> has_child (ct_edges (pci_discover small_pci)) (pci_ref (''PCI'' @ [CHR 0x5C] @ ''X'')) then NT_PCI_DEVICE
    else if child_of (ct_edges (pci_discover small_pci)) (machine_ref (value_or (pa_dns_hostname small_pci) [])) (pci_ref (''PCI'' @ [CHR 0x5C] @ ''X''))
    then NT_PCI_ROOT else NT_PCI_BRIDGE)"
proof -
  let ?n = "pci_node (read_entries (projr (pa_ids small_pci))) (''PCI'' @ [CHR 0x5C] @ ''X'')"
  have "pa_ids small_pci = Inr (projr (pa_ids small_pci))" by (simp add: small_pci_def)
  from pci_parts(1) [OF this] have "?n \<in> set (ct_nodes (pci_discover small_pci))" by (simp add: small_pci_maps)
  moreover have "cn_ref ?n = pci_ref (''PCI'' @ [CHR 0x5C] @ ''X'')" by (simp add: pci_node_def)
  ultimately show ?thesis using pci_types_from_edges [of ?n small_pci] by simp
qed

lemma parse_hex16_examples: "parse_hex16 ''1a2B'' = Some 0x1A2B" "parse_hex16 ''12G4'' = None" "parse_hex16 [] = None"
  by (simp_all add: parse_hex16_def hex16_digit_def)

lemma location_int_example: "location_int ''PCI bus 3'' ''bus'' = Some 3"
  by (simp add: location_int_def rfind_str_def is_decimal_def strtol_digits_def upt_rec)

lemma location_missing: "find_str k s = None \<Longrightarrow> k \<noteq> ''bus'' \<Longrightarrow> location_int s k = None"
  by (simp add: location_int_def)

end
