(* ===== verification/TF_Cuda.thy ===== *)
theory TF_Cuda
  imports TF_Pci
begin

text \<open>
  The CUDA provider (\<open>cuda.cpp\<close>). The driver library is an argument: a record of the functions it
  exports, \<open>None\<close> for a symbol that is not found. A function that yields a value is \<open>None\<close> where its
  result code is not 0; where the code ignores the result code, it yields what the call leaves in the variable.
  \<open>cuDeviceGetPCIBusId\<close> only fills a buffer that is never read, and is left out. The functions are pure: a call
  with the same arguments has the same answer, in the loop over the pairs and in the loop over the devices. The flag
  that \<open>mark_available\<close> sets on the provider is read only by an accessor that nothing calls, and is left out.

  The value of the discovery is \<open>None\<close> where the code calls a missing function or reads \<open>devRefs\<close> out of
  bounds: its behaviour is undefined there.
\<close>

section \<open>The driver\<close>

record cuda_driver =
  cd_loaded :: bool
  cd_init :: "bool option"
  cd_count :: "int option option"
  cd_get :: "(nat \<Rightarrow> int option) option"
  cd_name :: "(int \<Rightarrow> string) option"
  cd_attribute :: "(int \<Rightarrow> nat \<Rightarrow> int) option"
  cd_total_mem :: "(int \<Rightarrow> 64 word) option"
  cd_compute_capability :: "(int \<Rightarrow> int \<times> int) option"
  cd_can_access_peer :: "(int \<Rightarrow> int \<Rightarrow> int option) option"
  cd_uuid :: "(int \<Rightarrow> 8 word list option) option"

text \<open>The initialization succeeds when \<open>cuInit\<close> is found and returns 0.\<close>

definition driver_ok :: "cuda_driver \<Rightarrow> bool" where
  "driver_ok d \<longleftrightarrow> cd_loaded d \<and> cd_init d = Some True \<and> cd_count d \<noteq> None"

definition get_attr :: "cuda_driver \<Rightarrow> int \<Rightarrow> nat \<Rightarrow> int" where
  "get_attr d dev k = (case cd_attribute d of None \<Rightarrow> 0 | Some f \<Rightarrow> f dev k)"

definition device_of :: "cuda_driver \<Rightarrow> nat \<Rightarrow> int option" where
  "device_of d i = (case cd_get d of None \<Rightarrow> None | Some f \<Rightarrow> f i)"

definition uuid_of :: "cuda_driver \<Rightarrow> int \<Rightarrow> 8 word list option" where
  "uuid_of d dev = (case cd_uuid d of None \<Rightarrow> None | Some f \<Rightarrow> f dev)"

section \<open>The peer matrix\<close>

definition peer :: "cuda_driver \<Rightarrow> nat \<Rightarrow> nat \<Rightarrow> bool" where
  "peer d i j = (case cd_can_access_peer d of
     None \<Rightarrow> False
   | Some f \<Rightarrow> (case (device_of d i, device_of d j) of
       (Some a, Some b) \<Rightarrow> (case f a b of Some acc \<Rightarrow> acc \<noteq> 0 | None \<Rightarrow> False)
     | _ \<Rightarrow> False))"

section \<open>The devices\<close>

definition cuda_provenance :: provenance where
  "cuda_provenance = provenance_discovered ''cuda'' ''cuDeviceGetCount/cuDeviceGetAttribute'' CF_AUTHORITATIVE ''driver'' []"

definition uuid_text :: "8 word list \<Rightarrow> string" where
  "uuid_text bs = concat (map (\<lambda>b. setw_hex 2 (unat b)) bs)"

definition cuda_ref :: "cuda_driver \<Rightarrow> nat \<Rightarrow> int \<Rightarrow> string" where
  "cuda_ref d ordinal dev = (case uuid_of d dev of
     Some bs \<Rightarrow> ''cuda:uuid:'' @ uuid_text bs | None \<Rightarrow> ''cuda:ord:'' @ dec_digits ordinal)"

definition cuda_capabilities :: "cuda_driver \<Rightarrow> nat \<Rightarrow> nat \<Rightarrow> int \<Rightarrow> capability" where
  "cuda_capabilities d n ordinal dev = cap_union
     ([DEVICE_ADDRESSABLE, DMA_CAPABLE]
      @ (if get_attr d dev 41 \<noteq> 0 then [CPU_ADDRESSABLE] else [])
      @ (if get_attr d dev 19 \<noteq> 0 then [STAGED_TRANSFER, DIRECT_TRANSFER] else [])
      @ (if get_attr d dev 83 \<noteq> 0 then [SHARED_MEMORY, COHERENT] else [])
      @ (if list_ex (peer d ordinal) [0..<n] then [PEER_ACCESS] else []))"

definition memory_plausible :: "64 word \<Rightarrow> bool" where
  "memory_plausible b \<longleftrightarrow> push_bit 30 1 < b \<and> b < push_bit 40 1 \<and> b \<noteq> 0xFFFFFFFF"

definition cuda_properties :: "cuda_driver \<Rightarrow> nat \<Rightarrow> int \<Rightarrow> int \<Rightarrow> int \<Rightarrow> 64 word \<Rightarrow> property_map" where
  "cuda_properties d ordinal dev major minor mem = emplaced
     ([(''cuda.ordinal'', PV_Int (of_nat ordinal)), (''cuda.compute_capability_major'', PV_Int (of_int major)),
       (''cuda.compute_capability_minor'', PV_Int (of_int minor))]
      @ (if memory_plausible mem then [(''cuda.total_memory'', PV_Uint mem)]
         else [(''cuda.total_memory_reported'', PV_Uint mem), (''cuda.total_memory_unreliable'', PV_Bool True)])
      @ [(''cuda.unified_addressing'', PV_Bool (get_attr d dev 41 \<noteq> 0)),
         (''cuda.managed_memory'', PV_Bool (get_attr d dev 83 \<noteq> 0)),
         (''cuda.async_engine_count'', PV_Int (of_int (get_attr d dev 40))),
         (''cuda.concurrent_kernels'', PV_Bool (get_attr d dev 31 \<noteq> 0)),
         (''cuda.can_map_host_memory'', PV_Bool (get_attr d dev 19 \<noteq> 0)),
         (''cuda.pageable_memory_access'', PV_Bool (get_attr d dev 88 \<noteq> 0))]
      @ (case uuid_of d dev of Some bs \<Rightarrow> [(''cuda.uuid'', PV_String (uuid_text bs))] | None \<Rightarrow> []))"

definition cuda_contains :: "string \<Rightarrow> contributed_edge" where
  "cuda_contains r = default_cedge \<lparr> ce_from_ref := r, ce_to_ref := r @ '':mem'', ce_type := ET_CONTAINS,
     ce_direction := ED_DIRECTED, ce_provenance := cuda_provenance, ce_confidence := CF_AUTHORITATIVE \<rparr>"

definition cuda_nodes :: "cuda_driver \<Rightarrow> nat \<Rightarrow> nat \<Rightarrow> int \<Rightarrow> string \<Rightarrow> int \<times> int \<Rightarrow> contributed_node list" where
  "cuda_nodes d n ordinal dev name cc =
     (let r = cuda_ref d ordinal dev; mem = (case cd_total_mem d of None \<Rightarrow> 0 | Some f \<Rightarrow> f dev) in
      [default_cnode \<lparr> cn_ref := r, cn_type := NT_ACCELERATOR,
         cn_name := (if name = [] then ''CUDA device '' @ dec_digits ordinal else name),
         cn_native := default_native \<lparr> ni_name := name, ni_cuda_ordinal := Some (of_nat ordinal),
           ni_cuda_uuid := (case uuid_of d dev of Some bs \<Rightarrow> uuid_text bs | None \<Rightarrow> []),
           ni_pci_domain := Some (of_int (get_attr d dev 50)), ni_pci_bus := Some (of_int (get_attr d dev 33)),
           ni_pci_device := Some (of_int (get_attr d dev 34)), ni_pci_function := Some 0 \<rparr>,
         cn_provenance := cuda_provenance, cn_capabilities := cuda_capabilities d n ordinal dev,
         cn_properties := cuda_properties d ordinal dev (fst cc) (snd cc) mem \<rparr>,
       default_cnode \<lparr> cn_ref := r @ '':mem'', cn_type := NT_ACCELERATOR_MEMORY_DOMAIN, cn_name := name @ '' VRAM'',
         cn_native := default_native \<lparr> ni_cuda_ordinal := Some (of_nat ordinal) \<rparr>,
         cn_provenance := provenance_inferred ''cuda'' ''cuDeviceGetAttribute'' CF_MEDIUM ''accelerator memory domain'',
         cn_capabilities := cap_union [DEVICE_ADDRESSABLE],
         cn_properties := emplaced [(''cuda.total_memory'', PV_Uint mem)] \<rparr>])"

text \<open>The loop over the ordinals: an ordinal without a device is skipped. Its value holds the nodes, the edges and
  \<open>devRefs\<close>.\<close>

fun cuda_devices :: "cuda_driver \<Rightarrow> nat \<Rightarrow> nat list \<Rightarrow> (contributed_node list \<times> contributed_edge list \<times> string list) option" where
  "cuda_devices d n [] = Some ([], [], [])"
| "cuda_devices d n (ordinal # ordinals) =
     (case cd_get d of
        None \<Rightarrow> None
      | Some get \<Rightarrow>
          (case get ordinal of
             None \<Rightarrow> cuda_devices d n ordinals
           | Some dev \<Rightarrow>
               (case (cd_name d, cd_compute_capability d, cuda_devices d n ordinals) of
                  (Some nm, Some cc, Some (nodes, edges, refs)) \<Rightarrow>
                    Some (cuda_nodes d n ordinal dev (nm dev) (cc dev) @ nodes,
                          cuda_contains (cuda_ref d ordinal dev) # edges, cuda_ref d ordinal dev # refs)
                | _ \<Rightarrow> None)))"

definition peer_edge :: "string \<Rightarrow> string \<Rightarrow> contributed_edge" where
  "peer_edge fr tr = default_cedge \<lparr> ce_from_ref := fr, ce_to_ref := tr, ce_type := ET_PEER_TO, ce_direction := ED_UNDIRECTED,
     ce_provenance := provenance_discovered ''cuda'' ''cuDeviceCanAccessPeer'' CF_AUTHORITATIVE ''driver'' [],
     ce_confidence := CF_AUTHORITATIVE, ce_peer_capability := Some 1 \<rparr>"

definition peer_pairs :: "cuda_driver \<Rightarrow> nat \<Rightarrow> (nat \<times> nat) list" where
  "peer_pairs d n = concat (map (\<lambda>i. map (Pair i) (filter (peer d i) [Suc i..<n])) [0..<n])"

definition peer_edges :: "string list \<Rightarrow> (nat \<times> nat) list \<Rightarrow> contributed_edge list option" where
  "peer_edges refs ps = those (map (\<lambda>(i, j). if i < length refs \<and> j < length refs then Some (peer_edge (refs ! i) (refs ! j)) else None) ps)"

definition cuda_discover :: "cuda_driver \<Rightarrow> contribution option" where
  "cuda_discover d =
     (if \<not> driver_ok d then Some (gave_up ''cuda'' ''CUDA driver API (nvcuda.dll) not available; CUDA discovery skipped'')
      else (case cd_count d of
        Some (Some n) \<Rightarrow>
          if n \<le> 0 then Some ((gave_up ''cuda'' ''no CUDA devices reported'') \<lparr> ct_success := True \<rparr>)
          else (case cuda_devices d (nat n) [0..<nat n] of
                  None \<Rightarrow> None
                | Some (nodes, edges, refs) \<Rightarrow>
                    map_option (\<lambda>peers. (empty_contribution ''cuda'') \<lparr> ct_nodes := nodes, ct_edges := edges @ peers,
                        ct_partial := False, ct_success := True \<rparr>)
                      (peer_edges refs (peer_pairs d (nat n))))
      | _ \<Rightarrow> Some ((gave_up ''cuda'' ''no CUDA devices reported'') \<lparr> ct_success := True \<rparr>)))"

section \<open>The devices found\<close>

text \<open>The ordinals of the devices the driver hands out, and the driver with the functions the code calls unchecked.\<close>

definition working :: "cuda_driver \<Rightarrow> nat list \<Rightarrow> nat list" where
  "working d ordinals = filter (\<lambda>i. device_of d i \<noteq> None) ordinals"

definition complete_driver :: "cuda_driver \<Rightarrow> bool" where
  "complete_driver d \<longleftrightarrow> driver_ok d \<and> cd_get d \<noteq> None \<and> cd_name d \<noteq> None \<and> cd_compute_capability d \<noteq> None"

definition ref_at :: "cuda_driver \<Rightarrow> nat \<Rightarrow> string" where
  "ref_at d i = cuda_ref d i (the (device_of d i))"

lemma cuda_devices_complete:
  assumes "complete_driver d"
  shows "\<exists>nodes. cuda_devices d n ordinals
      = Some (nodes, map (\<lambda>i. cuda_contains (ref_at d i)) (working d ordinals), map (ref_at d) (working d ordinals))
    \<and> map cn_ref nodes = concat (map (\<lambda>i. [ref_at d i, ref_at d i @ '':mem'']) (working d ordinals))"
  using assms
proof (induction ordinals)
  case (Cons i ordinals)
  then obtain get nm cc where "cd_get d = Some get" "cd_name d = Some nm" "cd_compute_capability d = Some cc"
    by (auto simp: complete_driver_def)
  then show ?case using Cons.IH [OF Cons.prems]
    by (cases "get i") (auto simp: working_def device_of_def ref_at_def cuda_nodes_def Let_def)
qed (simp add: working_def)

lemma those_None_iff: "those xs = None \<longleftrightarrow> None \<in> set xs"
  by (induction xs) (auto split: option.splits)

lemma those_Some_map: "(\<And>x. x \<in> set xs \<Longrightarrow> f x = Some (g x)) \<Longrightarrow> those (map f xs) = Some (map g xs)"
  by (induction xs) auto

lemma peer_edges_None: "peer_edges refs ps = None \<longleftrightarrow> (\<exists>i j. (i, j) \<in> set ps \<and> \<not> (i < length refs \<and> j < length refs))"
proof -
  have "peer_edges refs ps = None \<longleftrightarrow> (\<exists>p \<in> set ps. \<not> (fst p < length refs \<and> snd p < length refs))"
    unfolding peer_edges_def those_None_iff by (induction ps) auto
  then show ?thesis by force
qed

lemma peer_pairs_mem: "(i, j) \<in> set (peer_pairs d n) \<longleftrightarrow> i < j \<and> j < n \<and> peer d i j"
  by (auto simp: peer_pairs_def intro!: bexI [of _ i])

lemma cuda_discover_count:
  "complete_driver d \<Longrightarrow> cd_count d = Some (Some (int n)) \<Longrightarrow> 0 < n \<Longrightarrow>
   \<exists>nodes. map cn_ref nodes = concat (map (\<lambda>i. [ref_at d i, ref_at d i @ '':mem'']) (working d [0..<n]))
     \<and> cuda_discover d = map_option (\<lambda>peers. (empty_contribution ''cuda'') \<lparr> ct_nodes := nodes,
          ct_edges := map (\<lambda>i. cuda_contains (ref_at d i)) (working d [0..<n]) @ peers, ct_partial := False, ct_success := True \<rparr>)
        (peer_edges (map (ref_at d) (working d [0..<n])) (peer_pairs d n))"
  using cuda_devices_complete [of d n "[0..<n]"] by (auto simp: cuda_discover_def complete_driver_def)

section \<open>Properties\<close>

text \<open>Where the driver hands out every ordinal it counts, the provider contributes for each device the
  accelerator and its memory, the edge between them, and one peer edge for each pair that can access each other.\<close>

theorem cuda_complete:
  assumes "complete_driver d" and "cd_count d = Some (Some (int n))" and "0 < n" and "\<forall>i < n. device_of d i \<noteq> None"
  shows "\<exists>c. cuda_discover d = Some c
    \<and> map cn_ref (ct_nodes c) = concat (map (\<lambda>i. [ref_at d i, ref_at d i @ '':mem'']) [0..<n])
    \<and> ct_edges c = map (\<lambda>i. cuda_contains (ref_at d i)) [0..<n] @ map (\<lambda>(i, j). peer_edge (ref_at d i) (ref_at d j)) (peer_pairs d n)"
proof -
  have w: "working d [0..<n] = [0..<n]" using assms(4) by (simp add: working_def filter_id_conv)
  have "peer_edges (map (ref_at d) [0..<n]) (peer_pairs d n)
      = Some (map (\<lambda>(i, j). peer_edge (ref_at d i) (ref_at d j)) (peer_pairs d n))"
    unfolding peer_edges_def by (rule those_Some_map) (auto simp: peer_pairs_mem)
  then show ?thesis using cuda_discover_count [OF assms(1-3)] by (auto simp: w empty_contribution_def)
qed

text \<open>C39: the peer edges index \<open>devRefs\<close> by ordinal, but the list only holds the devices handed out: the code reads behind
  its end exactly when some accessible pair has an ordinal not below the number of those devices.\<close>

theorem cuda_peer_out_of_bounds:
  assumes "complete_driver d" and "cd_count d = Some (Some (int n))" and "0 < n"
  shows "cuda_discover d = None \<longleftrightarrow> (\<exists>i j. i < j \<and> j < n \<and> peer d i j \<and> length (working d [0..<n]) \<le> j)"
proof -
  let ?w = "length (working d [0..<n])"
  have "cuda_discover d = None \<longleftrightarrow> peer_edges (map (ref_at d) (working d [0..<n])) (peer_pairs d n) = None"
    using cuda_discover_count [OF assms] by auto
  also have "\<dots> \<longleftrightarrow> (\<exists>i j. (i < j \<and> j < n \<and> peer d i j) \<and> \<not> (i < ?w \<and> j < ?w))"
    by (simp add: peer_edges_None peer_pairs_mem)
  also have "\<dots> \<longleftrightarrow> (\<exists>i j. i < j \<and> j < n \<and> peer d i j \<and> ?w \<le> j)"
    by (metis less_trans not_less)
  finally show ?thesis .
qed

definition example_driver :: "bool \<Rightarrow> cuda_driver" where
  "example_driver first = \<lparr> cd_loaded = True, cd_init = Some True, cd_count = Some (Some 3),
     cd_get = Some (\<lambda>i. if i = 0 \<and> \<not> first then None else Some (int i)), cd_name = Some (\<lambda>_. ''GPU''), cd_attribute = None,
     cd_total_mem = None, cd_compute_capability = Some (\<lambda>_. (8, 0)), cd_can_access_peer = Some (\<lambda>_ _. Some 1), cd_uuid = None \<rparr>"

lemma example_driver_facts:
  "complete_driver (example_driver first)" "cd_count (example_driver first) = Some (Some (int 3))"
  "device_of (example_driver first) i = (if i = 0 \<and> \<not> first then None else Some (int i))"
  by (simp_all add: example_driver_def complete_driver_def driver_ok_def device_of_def)

theorem cuda_complete_witness:
  "\<exists>c. cuda_discover (example_driver True) = Some c
    \<and> map cn_ref (ct_nodes c) = concat (map (\<lambda>i. [ref_at (example_driver True) i, ref_at (example_driver True) i @ '':mem'']) [0..<3])
    \<and> ct_edges c = map (\<lambda>i. cuda_contains (ref_at (example_driver True) i)) [0..<3]
        @ map (\<lambda>(i, j). peer_edge (ref_at (example_driver True) i) (ref_at (example_driver True) j)) (peer_pairs (example_driver True) 3)"
  by (rule cuda_complete) (simp_all add: example_driver_facts)

theorem cuda_peer_out_of_bounds_witness: "cuda_discover (example_driver False) = None"
proof -
  have p: "peer (example_driver False) 1 2"
    unfolding peer_def example_driver_facts by (simp add: example_driver_def)
  have "working (example_driver False) [0..<3] = [1, 2]" by (simp add: working_def example_driver_facts upt_rec)
  then have "\<exists>i j. i < j \<and> j < (3::nat) \<and> peer (example_driver False) i j \<and> length (working (example_driver False) [0..<3]) \<le> j"
    using p by (intro exI [of _ 1] exI [of _ 2]) simp
  moreover have "(0::nat) < 3" by simp
  ultimately show ?thesis
    using cuda_peer_out_of_bounds [OF example_driver_facts(1) example_driver_facts(2), of False] by blast
qed

end
