(* ===== verification/TF_Builtin.thy ===== *)
theory TF_Builtin
  imports TF_Cuda TF_Runs
begin

text \<open>
  The built-in providers together: what each of them answers on Windows and elsewhere, and what a
  discovery with all of them comes to.
\<close>

section \<open>The providers\<close>

datatype builtin = B_Host | B_Cpu_numa | B_Pci | B_Cuda | B_Storage | B_Network

fun builtin_name :: "builtin \<Rightarrow> string" where
  "builtin_name B_Host = ''host''"
| "builtin_name B_Cpu_numa = ''cpu_numa''"
| "builtin_name B_Pci = ''pci''"
| "builtin_name B_Cuda = ''cuda''"
| "builtin_name B_Storage = ''storage''"
| "builtin_name B_Network = ''network''"

fun elsewhere_discover :: "builtin \<Rightarrow> contribution" where
  "elsewhere_discover B_Host = host_elsewhere"
| "elsewhere_discover B_Cpu_numa = cpu_numa_elsewhere"
| "elsewhere_discover B_Pci = pci_elsewhere"
| "elsewhere_discover B_Cuda = cuda_elsewhere"
| "elsewhere_discover B_Storage = storage_elsewhere"
| "elsewhere_discover B_Network = network_elsewhere"

record windows_answers =
  wa_host :: host_answers
  wa_cpu :: cpu_answers
  wa_pci :: pci_answers
  wa_cuda :: cuda_driver
  wa_drives :: "32 word"
  wa_volumes :: "char \<Rightarrow> volume option"
  wa_network :: network_answers

text \<open>\<open>None\<close> where the provider's behaviour is undefined.\<close>

fun windows_discover :: "windows_answers \<Rightarrow> builtin \<Rightarrow> contribution option" where
  "windows_discover w B_Host = Some (host_discover (wa_host w))"
| "windows_discover w B_Cpu_numa = Some (cpu_numa_discover (wa_cpu w))"
| "windows_discover w B_Pci = Some (pci_discover (wa_pci w))"
| "windows_discover w B_Cuda = cuda_discover (wa_cuda w)"
| "windows_discover w B_Storage = Some (storage_discover (wa_drives w) (wa_volumes w))"
| "windows_discover w B_Network = network_discover (wa_network w)"

definition builtin_runtime :: "bool \<Rightarrow> bounds \<Rightarrow> builtin runtime" where
  "builtin_runtime cuda bnd = register_builtin_providers builtin_name B_Host B_Cpu_numa B_Pci
     (if cuda then Some B_Cuda else None) B_Storage B_Network (new_runtime bnd)"

lemma builtin_all:
  "registry_all (rt_registry (builtin_runtime cuda bnd))
   = [B_Host, B_Cpu_numa, B_Pci] @ (if cuda then [B_Cuda] else []) @ [B_Storage, B_Network]"
proof -
  have "registry_all (fold (\<lambda>p r. fst (register_provider builtin_name (Some p) r))
      ([B_Host, B_Cpu_numa, B_Pci] @ (if c then [B_Cuda] else []) @ [B_Storage, B_Network]) empty_registry)
    = [B_Host, B_Cpu_numa, B_Pci] @ (if c then [B_Cuda] else []) @ [B_Storage, B_Network]" for c
    by (cases c; simp only: if_True if_False; code_simp)
  from this [of cuda] show ?thesis
    by (cases cuda) (simp_all add: builtin_runtime_def register_builtin_providers_def new_runtime_def)
qed

lemma builtin_runtime_simps [simp]:
  "rt_bounds (builtin_runtime cuda bnd) = bnd" "rt_current (builtin_runtime cuda bnd) = None"
  by (simp_all add: builtin_runtime_def register_builtin_providers_def new_runtime_def)

section \<open>The machine\<close>

lemma part_not_machine:
  "machine_ref x \<notin> part_refs (numa_part m n)" "machine_ref x \<notin> part_refs (package_part m i)"
  "machine_ref x \<notin> part_refs (core_part s m k affs)" "machine_ref x \<notin> part_refs (thread_part s k c gb)"
  by (simp_all add: part_refs_def numa_part_def package_part_def core_part_def thread_part_def Let_def
      machine_ref_def numa_ref_def memory_ref_def package_ref_def core_ref_def thread_ref_def)

lemma cpu_not_machine: "machine_ref x \<notin> part_refs (cpu_parts s m)"
proof
  assume "machine_ref x \<in> part_refs (cpu_parts s m)"
  then obtain p where "machine_ref x \<in> part_refs p" and "(\<exists>n. p = numa_part m n) \<or> (\<exists>i. p = package_part m i)
      \<or> p \<in> set (core_parts s m 0 0 (cs_cores s))"
    unfolding cpu_parts_def join_refs by fastforce
  moreover have "(\<exists>k affs. p = core_part s m k affs) \<or> (\<exists>k c gb. p = thread_part s k c gb)"
    if "p \<in> set (core_parts s m 0 0 (cs_cores s))" for p using core_parts_mem [OF that] by blast
  ultimately show False using part_not_machine by metis
qed

definition graph_refs :: "contribution list \<Rightarrow> string set" where
  "graph_refs cs = (\<Union>c \<in> set cs. cn_ref ` set (ct_nodes c))"

definition graph_edges :: "contribution list \<Rightarrow> contributed_edge list" where
  "graph_edges cs = concat (map ct_edges cs)"

definition one_machine_name :: "windows_answers \<Rightarrow> bool" where
  "one_machine_name w \<longleftrightarrow> ca_dns_hostname (wa_cpu w) = ha_dns_hostname (wa_host w)
     \<and> pa_dns_hostname (wa_pci w) = ha_dns_hostname (wa_host w)"

lemma edges_known_mono: "edges_known R es \<Longrightarrow> R \<subseteq> S \<Longrightarrow> edges_known S es"
  by (auto simp: edges_known_def)

lemma cpu_nodes_not_machine: "machine_ref x \<notin> cn_ref ` set (ct_nodes (cpu_numa_discover a))"
  using cpu_not_machine unfolding cpu_numa_discover_def part_refs_def
  by (auto simp: empty_contribution_def Let_def split: sum.splits)

lemma pci_nodes_not_machine: "machine_ref x \<notin> cn_ref ` set (ct_nodes (pci_discover a))"
  by (cases "pa_ids a") (auto simp: pci_nothing pci_parts pci_node_def pci_ref_def machine_ref_def)

lemma host_node_refs: "cn_ref ` set (ct_nodes (host_discover a)) = {machine_ref (host_machine a)}"
  "ct_edges (host_discover a) = []"
  by (simp_all add: host_discover_def empty_contribution_def Let_def)

section \<open>Properties\<close>

lemma ingest_nothing:
  "(\<And>c. c \<in> set cs \<Longrightarrow> ct_nodes c = []) \<Longrightarrow> ingest_all mx k cs ([], []) = ([], [])"
  by (induction cs arbitrary: k) (simp_all add: )

lemma resolve_nothing:
  "(\<And>c. c \<in> set cs \<Longrightarrow> ct_edges c = []) \<Longrightarrow> fold (\<lambda>c. resolve_edges mx refs (ct_edges c)) cs r = r"
  by (induction cs arbitrary: r) simp_all

lemma merge_nothing:
  assumes "rearranges walk1" and "\<And>c. c \<in> set cs \<Longrightarrow> ct_nodes c = [] \<and> ct_edges c = []"
  shows "mg_nodes (merge_contributions walk1 walk2 cs b) = []" and "mg_edges (merge_contributions walk1 walk2 cs b) = []"
proof -
  have g: "ingest_all (b_max_nodes b) 0 cs ([], []) = ([], [])" using assms(2) by (intro ingest_nothing) blast
  have w: "walk1 [] = []" using assms(1) unfolding rearranges_def by (metis mset_zero_iff_right)
  have "sort_by (\<lambda>a b. fst a < fst b) ([] :: (string \<times> member list) list) = []" by simp
  then have st: "merge_state walk1 cs b = (\<lparr> mg_nodes = [], mg_edges = [], mg_warnings = [], mg_conflicts = [],
      mg_merged_count = sum_list (map (\<lambda>c. length (ct_nodes c)) cs) \<rparr>, [])"
    by (simp add: merge_state_def the_groups_def g w)
  have "merge_edges walk1 walk2 cs b = ([], [])"
    using resolve_nothing [of cs] assms(2) by (simp add: merge_edges_def st)
  then show "mg_nodes (merge_contributions walk1 walk2 cs b) = []" "mg_edges (merge_contributions walk1 walk2 cs b) = []"
    by (simp_all add: merge_contributions_eq st)
qed

lemma elsewhere_nothing:
  "ct_nodes (elsewhere_discover p) = []" "ct_edges (elsewhere_discover p) = []" "ct_partial (elsewhere_discover p)"
  "ct_provider (elsewhere_discover p) = builtin_name p" "ct_version (elsewhere_discover p) = ''1.0.0''"
  by (cases p; simp add: gave_up_def empty_contribution_def host_elsewhere_def cpu_numa_elsewhere_def pci_elsewhere_def
      cuda_elsewhere_def storage_elsewhere_def network_elsewhere_def)+

definition machine_graph :: "windows_answers \<Rightarrow> contribution list" where
  "machine_graph w = [host_discover (wa_host w), cpu_numa_discover (wa_cpu w), pci_discover (wa_pci w)]"

text \<open>C40: where the providers see one DNS host name, every edge of the processor and PCI providers joins references that the
  host, processor and PCI providers contribute, or the machine named by that host name; that machine is contributed exactly
  when the host provider did not take another name for it.\<close>

theorem machine_edges_known:
  assumes "one_machine_name w"
    and "\<And>rs. ca_records (wa_cpu w) = Inr rs \<Longrightarrow> length (cs_packages (parse_records rs no_sets)) < 2 ^ 32"
  shows "edges_known (insert (machine_ref (value_or (ha_dns_hostname (wa_host w)) [])) (graph_refs (machine_graph w)))
      (graph_edges (machine_graph w))
    \<and> (machine_ref (value_or (ha_dns_hostname (wa_host w)) []) \<in> graph_refs (machine_graph w)
        \<longleftrightarrow> host_machine (wa_host w) = value_or (ha_dns_hostname (wa_host w)) [])"
proof -
  let ?m = "machine_ref (value_or (ha_dns_hostname (wa_host w)) [])"
  let ?S = "insert ?m (graph_refs (machine_graph w))"
  note names = assms(1) [unfolded one_machine_name_def]
  have R: "graph_refs (machine_graph w) = insert (machine_ref (host_machine (wa_host w)))
      (cn_ref ` set (ct_nodes (cpu_numa_discover (wa_cpu w))) \<union> cn_ref ` set (ct_nodes (pci_discover (wa_pci w))))"
    by (simp add: graph_refs_def machine_graph_def host_node_refs)
  have E: "graph_edges (machine_graph w) = ct_edges (cpu_numa_discover (wa_cpu w)) @ ct_edges (pci_discover (wa_pci w))"
    by (simp add: graph_edges_def machine_graph_def host_node_refs)
  have "edges_known (insert (machine_ref (value_or (ca_dns_hostname (wa_cpu w)) [])) (cn_ref ` set (ct_nodes (cpu_numa_discover (wa_cpu w)))))
      (ct_edges (cpu_numa_discover (wa_cpu w)))"
    by (rule cpu_closed_edges) (rule assms(2))
  then have "edges_known ?S (ct_edges (cpu_numa_discover (wa_cpu w)))"
    using names by (elim edges_known_mono) (auto simp: R)
  moreover have "edges_known ?S (ct_edges (pci_discover (wa_pci w)))"
    using pci_closed_parts [of "wa_pci w"] names by (elim conjE edges_known_mono) (auto simp: R)
  ultimately have "edges_known ?S (graph_edges (machine_graph w))" unfolding E edges_known_def by auto
  moreover have "?m \<in> graph_refs (machine_graph w) \<longleftrightarrow> host_machine (wa_host w) = value_or (ha_dns_hostname (wa_host w)) []"
    using cpu_nodes_not_machine pci_nodes_not_machine by (auto simp: R machine_ref_def)
  ultimately show ?thesis by blast
qed

text \<open>On other systems than Windows, the first discovery with the built-in providers publishes, whatever the bounds are, the
  empty snapshot: generation 1, marked partial, without a machine, and naming the version of every provider.\<close>

theorem discovery_elsewhere:
  assumes "walks_ok os" and "\<And>p ctx. os_discover os p ctx = Inr (elsewhere_discover p)"
  shows "\<exists>rt s. discover os (builtin_runtime cuda bnd) = Inr (rt, s) \<and> s_nodes s = [] \<and> s_edges s = []
    \<and> m_generation (s_metadata s) = 1 \<and> m_partial_discovery (s_metadata s) \<and> m_machine_identity (s_metadata s) = ''unknown-machine''
    \<and> m_provider_versions (s_metadata s) = ''host=1.0.0;cpu_numa=1.0.0;pci=1.0.0'' @ (if cuda then '';cuda=1.0.0'' else [])
        @ '';storage=1.0.0;network=1.0.0''"
proof -
  let ?rt = "builtin_runtime cuda bnd"
  obtain rt s where d: "discover os ?rt = Inr (rt, s)" using discover_shape [OF assms(1)] by blast
  note parts = discover_parts [OF assms(1) d]
  have a: "answers os ?rt = map elsewhere_discover ([B_Host, B_Cpu_numa, B_Pci] @ (if cuda then [B_Cuda] else []) @ [B_Storage, B_Network])"
    by (simp add: answers_def builtin_all ask_provider_def assms(2))
  have no_parts: "ct_nodes c = [] \<and> ct_edges c = []" if c: "c \<in> set (answers os ?rt)" for c
  proof -
    obtain p where "c = elsewhere_discover p" using c unfolding a set_map by blast
    then show ?thesis by (simp add: elsewhere_nothing)
  qed
  have w: "rearranges (os_walk_groups os)" using assms(1) by (simp add: walks_ok_def)
  have m1: "mg_nodes (merged_of os ?rt) = []" unfolding merged_of_def by (rule merge_nothing(1) [OF w]) (use no_parts in blast)
  have m2: "mg_edges (merged_of os ?rt) = []" unfolding merged_of_def by (rule merge_nothing(2) [OF w]) (use no_parts in blast)
  note m = m1 m2
  have n: "nodes_of os ?rt = []" using assms(1) unfolding nodes_of_def m walks_ok_def rearranges_def by (metis mset_zero_iff_right)
  have e: "edges_of os ?rt = []" by (simp add: edges_of_def n m attach_resources_def machine_id_def Let_def)
  have v: "provider_versions_of (answers os ?rt) = ''host=1.0.0;cpu_numa=1.0.0;pci=1.0.0''
      @ (if cuda then '';cuda=1.0.0'' else []) @ '';storage=1.0.0;network=1.0.0''"
    by (simp add: a provider_versions_of_def elsewhere_nothing del: elsewhere_discover.simps)
  have p: "list_ex ct_partial (answers os ?rt)" by (simp add: a elsewhere_nothing del: elsewhere_discover.simps)
  have u: "machine_identity_of [] = ''unknown-machine''" by (simp add: machine_identity_of_def)
  have md: "s_metadata s = built_metadata os (input_of os ?rt) 1 False (rt_counter rt)"
    using parts(9) by (simp add: generation_after_def)
  have "s_nodes s = []" "s_edges s = []" using parts(7,8) by (simp_all add: n e)
  moreover have "m_generation (s_metadata s) = 1" "m_partial_discovery (s_metadata s)"
    "m_machine_identity (s_metadata s) = ''unknown-machine''"
    "m_provider_versions (s_metadata s) = provider_versions_of (answers os ?rt)"
    using p by (simp_all add: md built_metadata_def input_of_def n u)
  ultimately show ?thesis using d unfolding v by blast
qed

definition elsewhere_outside :: "builtin outside" where
  "elsewhere_outside = \<lparr> os_name = builtin_name, os_discover = \<lambda>p ctx. Inr (elsewhere_discover p),
     os_provider_ms = \<lambda>p. F_Fin 0, os_started_ms = 0, os_created_ms = \<lambda>k. 0, os_random = \<lambda>k. (0, 0, 0, 0),
     os_discovery_ms = F_Fin 0, os_walk_groups = \<lambda>xs. xs, os_walk_ids = \<lambda>xs. xs, os_walk_nodes = \<lambda>xs. xs \<rparr>"

theorem discovery_elsewhere_witness:
  "\<exists>rt s. discover elsewhere_outside (builtin_runtime False default_bounds) = Inr (rt, s) \<and> s_nodes s = []
    \<and> m_provider_versions (s_metadata s) = ''host=1.0.0;cpu_numa=1.0.0;pci=1.0.0;storage=1.0.0;network=1.0.0''"
proof -
  have "walks_ok elsewhere_outside" and "\<And>p ctx. os_discover elsewhere_outside p ctx = Inr (elsewhere_discover p)"
    by (simp_all add: elsewhere_outside_def walks_ok_def rearranges_def)
  from discovery_elsewhere [OF this, of False default_bounds] show ?thesis by auto
qed

definition small_windows :: windows_answers where
  "small_windows = \<lparr> wa_host = \<lparr> ha_dns_hostname = Some ''box'', ha_computer_name = None, ha_version = None, ha_groups = 1,
       ha_logical = 2, ha_memory = None \<rparr>,
     wa_cpu = small_cpu, wa_pci = small_pci \<lparr> pa_dns_hostname := Some ''box'' \<rparr>, wa_cuda = example_driver True,
     wa_drives = 0, wa_volumes = \<lambda>c. None, wa_network = \<lparr> na_sized = False, na_adapters = None \<rparr> \<rparr>"

theorem machine_edges_known_witness:
  "edges_known (insert (machine_ref ''box'') (graph_refs (machine_graph small_windows))) (graph_edges (machine_graph small_windows))
   \<and> machine_ref ''box'' \<in> graph_refs (machine_graph small_windows)"
proof -
  have "one_machine_name small_windows" by (simp add: one_machine_name_def small_windows_def small_cpu_def)
  moreover have "length (cs_packages (parse_records rs no_sets)) < 2 ^ 32" if "ca_records (wa_cpu small_windows) = Inr rs" for rs
    using that by (auto simp: small_windows_def small_cpu_def no_sets_def Let_def)
  moreover have "value_or (ha_dns_hostname (wa_host small_windows)) [] = ''box''" "host_machine (wa_host small_windows) = ''box''"
    by (simp_all add: small_windows_def host_machine_def value_or_def)
  ultimately show ?thesis using machine_edges_known [of small_windows] by simp
qed

end
