(* ===== verification/TF_Cli.thy ===== *)
theory TF_Cli
  imports TF_Builtin TF_Example
begin

text \<open>
  The command line tool (\<open>main.cpp\<close>): the search for a node by its name, the JSON forms of results, and
  every command as a function of the snapshot, yielding what is printed and the exit code.

  The record \<open>console\<close> holds what the tool takes from its surroundings: the name it was called by, the
  form in which a stream prints a double, the text of \<open>std::bad_variant_access\<close>, and the times that
  \<open>measure\<close> and \<open>benchmark\<close> take.
\<close>

section \<open>Printing\<close>

record console =
  co_argv0 :: string
  co_number :: "f64 \<Rightarrow> string"
  co_bad_variant :: string
  co_memcpy_secs :: f64
  co_benchmark_ms :: f64

record outcome =
  oc_out :: string
  oc_err :: string
  oc_exit :: int

definition printed :: "string \<Rightarrow> outcome" where
  "printed t = \<lparr> oc_out = t, oc_err = [], oc_exit = 0 \<rparr>"

definition refused :: "string \<Rightarrow> int \<Rightarrow> outcome" where
  "refused t n = \<lparr> oc_out = [], oc_err = t, oc_exit = n \<rparr>"

definition line :: "string \<Rightarrow> string" where
  "line t = t @ [CHR 0x0A]"

definition yes_no :: "bool \<Rightarrow> string" where
  "yes_no b = (if b then ''yes'' else ''no'')"

definition pretty :: "json \<Rightarrow> outcome" where
  "pretty v = printed (line (dump v WM_Pretty))"

section \<open>Arguments\<close>

definition has_opt :: "string list \<Rightarrow> string \<Rightarrow> bool" where
  "has_opt a opt \<longleftrightarrow> opt \<in> set a"

fun opt_val :: "string list \<Rightarrow> string \<Rightarrow> string \<Rightarrow> string" where
  "opt_val (x # y # a) opt def = (if x = opt then y else opt_val (y # a) opt def)"
| "opt_val _ opt def = def"

fun resolve_loop :: "string \<Rightarrow> node_id \<Rightarrow> (node_id \<times> topology_node) list \<Rightarrow> node_id" where
  "resolve_loop token first [] = first"
| "resolve_loop token first ((nid, n) # ps) =
     (if n_name n = token \<or> n_display_name n = token then nid
      else resolve_loop token (if find_str token (n_name n) \<noteq> None \<and> first = kNullNodeId then nid else first) ps)"

definition resolve_id :: "topology_snapshot \<Rightarrow> string \<Rightarrow> node_id" where
  "resolve_id s token = (case try_from_hex token of Some i \<Rightarrow> i | None \<Rightarrow> resolve_loop token kNullNodeId (s_nodes s))"

text \<open>\<open>strtoull\<close>: leading blanks, a sign, digits; values that do not fit become the greatest.\<close>

definition strtoull :: "string \<Rightarrow> 64 word" where
  "strtoull s =
     (let t = dropWhile (\<lambda>c. c \<in> {CHR '' '', CHR 0x09, CHR 0x0A, CHR 0x0B, CHR 0x0C, CHR 0x0D}) s;
          neg = starts_with {CHR ''-''} t; u = (if starts_with {CHR ''-'', CHR ''+''} t then tl t else t);
          v = dec_value (takeWhile is_digit u)
      in if 2 ^ 64 \<le> v then - 1 else if neg then - of_nat v else of_nat v)"

section \<open>Results as JSON\<close>

definition path_to_json :: "topology_path \<Rightarrow> json" where
  "path_to_json p = obj
     [(''found'', J_Bool (p_found p)), (''source'', J_String (to_hex (p_source p))),
      (''destination'', J_String (to_hex (p_destination p))), (''hop_count'', J_Int (scast (p_hop_count p))),
      (''path_class'', J_String (path_class_to_string (p_path_class p))),
      (''locality'', J_String (locality_class_to_string (p_locality p))), (''total_cost'', J_Double (p_total_cost p)),
      (''estimated_bandwidth_bps'', J_Double (p_estimated_bandwidth_bps p)),
      (''estimated_latency_ns'', J_Double (p_estimated_latency_ns p)),
      (''segments'', J_Array (map (\<lambda>g. obj
         [(''from'', J_String (to_hex (g_from g))), (''to'', J_String (to_hex (g_to g))),
          (''type'', J_String (edge_type_to_string (g_edge_type g))), (''cost'', J_Double (g_edge_cost g))]) (p_segments p)))]"

definition rank_to_json :: "rank_result \<Rightarrow> topology_snapshot \<Rightarrow> json" where
  "rank_to_json rr s = obj
     [(''source'', J_String (to_hex (rr_source rr))),
      (''ranked'', J_Array (map (\<lambda>e. obj
         [(''id'', J_String (to_hex (k_id e))),
          (''name'', J_String (case find_node s (k_id e) of Some n \<Rightarrow> n_name n | None \<Rightarrow> [])), (''cost'', J_Double (k_cost e)),
          (''path_class'', J_String (path_class_to_string (k_path_class e))),
          (''locality'', J_String (locality_class_to_string (k_locality e))),
          (''reasons'', J_Array (map J_String (k_reasons e)))]) (rr_ranked rr)))]"

section \<open>Listings\<close>

definition is_device :: "topology_node \<Rightarrow> bool" where
  "is_device n \<longleftrightarrow> has_pci (n_native n) \<or> n_type n = NT_ACCELERATOR \<or> n_type n = NT_STORAGE_DEVICE
     \<or> n_type n = NT_NETWORK_INTERFACE"

definition node_row :: "node_id \<times> topology_node \<Rightarrow> (string \<times> json) list" where
  "node_row p = [(''id'', J_String (to_hex (fst p))), (''type'', J_String (node_type_to_string (n_type (snd p)))),
     (''name'', J_String (n_name (snd p)))]"

definition bdf_field :: "topology_node \<Rightarrow> string \<times> json" where
  "bdf_field n = (''bdf'', J_String (pci_bdf_string (n_native n)))"

definition listing_type :: "string \<Rightarrow> node_type" where
  "listing_type cmd =
     (if cmd = ''cpus'' then NT_CPU_THREAD else if cmd = ''numa'' then NT_NUMA_NODE else if cmd = ''pci'' then NT_PCI_DEVICE
      else if cmd = ''accelerators'' then NT_ACCELERATOR else if cmd = ''storage'' then NT_STORAGE_DEVICE
      else if cmd = ''network'' then NT_NETWORK_INTERFACE else NT_UNKNOWN)"

definition listed :: "string \<Rightarrow> topology_node \<Rightarrow> bool" where
  "listed cmd n \<longleftrightarrow>
     (if cmd = ''devices'' then is_device n
      else if cmd = ''pci'' then n_type n = NT_PCI_ROOT \<or> n_type n = NT_PCI_BRIDGE \<or> n_type n = NT_PCI_DEVICE
      else n_type n = listing_type cmd)"

definition node_rows :: "string \<Rightarrow> topology_snapshot \<Rightarrow> json list" where
  "node_rows cmd s = map (\<lambda>p. obj (node_row p
       @ (if cmd = ''devices'' \<or> has_pci (n_native (snd p)) then [bdf_field (snd p)] else [])))
     (filter (\<lambda>p. listed cmd (snd p)) (s_nodes s))"

definition text_of :: "string \<Rightarrow> json \<Rightarrow> string" where
  "text_of k v = (case j_find v k of Some (J_String t) \<Rightarrow> t | _ \<Rightarrow> [])"

definition row_text :: "json \<Rightarrow> string" where
  "row_text v = line (text_of ''id'' v @ ''  '' @ text_of ''type'' v @ ''  '' @ text_of ''name'' v
     @ (if j_find v ''bdf'' \<noteq> None then ''  ['' @ text_of ''bdf'' v @ '']'' else []))"

definition cmd_nodes :: "bool \<Rightarrow> string \<Rightarrow> topology_snapshot \<Rightarrow> outcome" where
  "cmd_nodes js cmd s = (let arr = node_rows cmd s in
     if js then pretty (J_Array arr) else printed (concat (map row_text arr)))"

definition cmd_edges :: "bool \<Rightarrow> topology_snapshot \<Rightarrow> outcome" where
  "cmd_edges js s =
     (if js then pretty (J_Array (map (\<lambda>e. obj
        [(''source'', J_String (to_hex (e_source e))), (''target'', J_String (to_hex (e_target e))),
         (''type'', J_String (edge_type_to_string (e_type e))),
         (''direction'', J_String (edge_direction_to_string (e_direction e)))]) (s_edges s)))
      else printed (concat (map (\<lambda>e. line (to_hex (e_source e) @ '' --'' @ edge_type_to_string (e_type e) @ ''--> ''
        @ to_hex (e_target e))) (s_edges s))))"

section \<open>Commands\<close>

definition cmd_info :: "bool \<Rightarrow> string \<Rightarrow> topology_snapshot \<Rightarrow> outcome tresult" where
  "cmd_info js cmd s =
     (if js then tbind (serialize_snapshot_json s True) (\<lambda>t. Inr (printed (line t)))
      else Inr (printed ((if cmd = ''discover'' then line ''Discovery run:'' else [])
        @ line (''  product:      Topology Fabric 1.0.0'')
        @ line (''  snapshot:     '' @ m_snapshot_id (s_metadata s))
        @ line (''  generation:   '' @ dec_digits (unat (m_generation (s_metadata s))))
        @ line (''  machine:      '' @ m_machine_identity (s_metadata s))
        @ line (''  nodes:        '' @ dec_digits (length (s_nodes s)))
        @ line (''  edges:        '' @ dec_digits (length (s_edges s)))
        @ line (''  partial:      '' @ yes_no (m_partial_discovery (s_metadata s)))
        @ line (''  valid:        '' @ yes_no (v_ok (s_validation s)))
        @ line (''  providers:    '' @ m_provider_versions (s_metadata s)))))"

definition path_text :: "console \<Rightarrow> node_id \<Rightarrow> node_id \<Rightarrow> topology_path \<Rightarrow> string" where
  "path_text co f t p =
     (if \<not> p_found p then line ''no topology path''
      else line (''source: '' @ to_hex f) @ line (''destination: '' @ to_hex t)
        @ line (''class: '' @ path_class_to_string (p_path_class p))
        @ line (''locality: '' @ locality_class_to_string (p_locality p))
        @ line (''hops: '' @ int_to_string (sint (p_hop_count p)))
        @ line (''cost: '' @ co_number co (p_total_cost p))
        @ line (''bandwidth: '' @ co_number co (p_estimated_bandwidth_bps p) @ '' B/s'')
        @ line (''latency: '' @ co_number co (p_estimated_latency_ns p) @ '' ns'')
        @ concat (map (\<lambda>g. line (''  '' @ to_hex (g_from g) @ '' --'' @ edge_type_to_string (g_edge_type g) @ ''--> ''
            @ to_hex (g_to g))) (p_segments p)))"

definition cmd_path :: "console \<Rightarrow> bool \<Rightarrow> string list \<Rightarrow> topology_snapshot \<Rightarrow> outcome tresult option" where
  "cmd_path co js args s =
     (let f = resolve_id s (opt_val args ''--from'' []); t = resolve_id s (opt_val args ''--to'' []) in
      if f = kNullNodeId \<or> t = kNullNodeId then Some (Inr (refused (line ''path requires resolvable --from and --to'') 2))
      else obind (lowest_cost_path s f t default_weights) (\<lambda>p.
        Some (Inr (if js then pretty (path_to_json p) else printed (path_text co f t p)))))"

definition cmd_distance :: "console \<Rightarrow> string list \<Rightarrow> topology_snapshot \<Rightarrow> outcome tresult option" where
  "cmd_distance co args s =
     (let f = resolve_id s (opt_val args ''--from'' []); t = resolve_id s (opt_val args ''--to'' []) in
      obind (distance_between s f t default_weights) (\<lambda>d.
        Some (Inr (printed (line (''hops='' @ int_to_string (db_graph_hops d) @ '' pci_depth='' @ int_to_string (db_pci_depth d)
          @ '' root_crossings='' @ int_to_string (db_root_crossings d)
          @ '' transitions='' @ int_to_string (db_device_class_transitions d)
          @ '' normalized='' @ co_number co (db_normalized_score d)))))))"

definition cmd_rank :: "console \<Rightarrow> bool \<Rightarrow> string list \<Rightarrow> topology_snapshot \<Rightarrow> outcome tresult option" where
  "cmd_rank co js args s =
     (let src = resolve_id s (opt_val args ''--source'' []) in
      if src = kNullNodeId then Some (Inr (refused (line ''rank requires resolvable --source'') 2))
      else (let t = node_type_from_string (opt_val args ''--type'' ''accelerator''); m = opt_val args ''--max'' [];
                mx = (if m = [] then 0 else unat (strtoull m))
            in obind (rank_candidates s src t mx default_weights) (\<lambda>rr.
                 Some (Inr (if js then pretty (rank_to_json rr s)
                   else printed (concat (map (\<lambda>e. line (to_hex (k_id e) @ ''  cost='' @ co_number co (k_cost e) @ ''  ''
                     @ locality_class_to_string (k_locality e))) (rr_ranked rr))))))))"

definition cmd_explain :: "string list \<Rightarrow> topology_snapshot \<Rightarrow> outcome tresult option" where
  "cmd_explain args s =
     (let f = resolve_id s (opt_val args ''--from'' []); t = resolve_id s (opt_val args ''--to'' []) in
      obind (explain s f t default_weights) (\<lambda>ex.
        Some (Inr (printed (line (''summary: '' @ x_summary ex)
          @ concat (map (\<lambda>x. line (''  '' @ xf_name x @ '': '' @ xf_value x @ ''  ('' @ xf_note x @ '')'')) (x_factors ex)))))))"

definition cmd_snapshot :: "bool \<Rightarrow> topology_snapshot \<Rightarrow> outcome tresult" where
  "cmd_snapshot js s =
     (if js then tbind (serialize_snapshot_json s True) (\<lambda>t. Inr (printed (line t)))
      else Inr (printed (line (''id='' @ m_snapshot_id (s_metadata s) @ '' generation=''
        @ dec_digits (unat (m_generation (s_metadata s))) @ '' nodes='' @ dec_digits (length (s_nodes s))
        @ '' edges='' @ dec_digits (length (s_edges s))))))"

definition diff_to_json :: "topology_diff \<Rightarrow> json" where
  "diff_to_json d = obj
     [(''generation_before'', J_Uint (td_generation_before d)), (''generation_after'', J_Uint (td_generation_after d)),
      (''material'', J_Bool (td_material_change d)),
      (''events'', J_Array (map (\<lambda>e. obj
         [(''kind'', J_String (diff_event_kind_to_string (ev_kind e))), (''node'', J_String (to_hex (ev_node e))),
          (''key'', J_String (ev_key e))]) (td_events d)))]"

text \<open>\<open>diff\<close> discovers again, and compares with the snapshot that was current before.\<close>

definition cmd_diff :: "bool \<Rightarrow> 'p outside \<Rightarrow> 'p runtime \<Rightarrow> topology_snapshot \<Rightarrow> outcome tresult" where
  "cmd_diff js os rt s =
     tbind (discover os rt) (\<lambda>(rt, second).
       let d = compare_snapshots s second in
       Inr (if js then pretty (diff_to_json d)
            else printed (line (''generation '' @ dec_digits (unat (td_generation_before d)) @ '' -> ''
                @ dec_digits (unat (td_generation_after d)) @ '' material='' @ yes_no (td_material_change d)
                @ '' events='' @ dec_digits (length (td_events d)))
              @ concat (map (\<lambda>e. line (''  '' @ diff_event_kind_to_string (ev_kind e) @ '' '' @ to_hex (ev_node e))) (td_events d)))))"

definition cmd_validate :: "bool \<Rightarrow> topology_snapshot \<Rightarrow> outcome" where
  "cmd_validate js s =
     (let v = s_validation s;
          t = (if js then line (dump (obj [(''ok'', J_Bool (v_ok v)), (''errors'', J_Array (map J_String (v_errors v))),
                 (''warnings'', J_Array (map J_String (v_warnings v)))]) WM_Pretty)
               else line (''valid: '' @ yes_no (v_ok v)) @ concat (map (\<lambda>e. line (''  error: '' @ e)) (v_errors v))
                 @ concat (map (\<lambda>w. line (''  warning: '' @ w)) (v_warnings v)))
      in \<lparr> oc_out = t, oc_err = [], oc_exit = (if v_ok v then 0 else 3) \<rparr>)"

text \<open>After \<open>measure\<close> has printed, it counts the run in the telemetry of a runtime that is then destroyed; the counter is
  left out here (\<open>TF_Telemetry\<close> has the operation).\<close>

definition cmd_measure :: "console \<Rightarrow> outcome" where
  "cmd_measure co = printed (line (''host_memcpy: 32 MiB x40 (r+w) -> ''
     @ co_number co (f64_div (f64_div (f64_mul (f64_mul (f64_of_int 33554432) (F_Fin 40)) (F_Fin 2)) (co_memcpy_secs co)) (F_Fin 1000000000))
     @ '' GiB/s''))"

definition stats_to_json :: "telemetry \<Rightarrow> json" where
  "stats_to_json ts = obj
     [(''discovery_runs'', J_Uint (tm_discovery_runs ts)), (''nodes_total'', J_Uint (tm_nodes_total ts)),
      (''edges_total'', J_Uint (tm_edges_total ts)), (''provider_successes'', J_Uint (tm_provider_successes ts)),
      (''provider_failures'', J_Uint (tm_provider_failures ts)), (''partial_discoveries'', J_Uint (tm_partial_discoveries ts)),
      (''merge_conflicts'', J_Uint (tm_merge_conflicts ts)), (''snapshots_created'', J_Uint (tm_snapshots_created ts)),
      (''generation_changes'', J_Uint (tm_generation_changes ts)), (''discovery_total_ms'', J_Double (tm_discovery_total_ms ts))]"

definition cmd_stats :: "bool \<Rightarrow> telemetry \<Rightarrow> outcome" where
  "cmd_stats js ts = (let d = (\<lambda>w :: 64 word. dec_digits (unat w)) in
     if js then pretty (stats_to_json ts)
     else printed (line (''discovery_runs='' @ d (tm_discovery_runs ts) @ '' nodes='' @ d (tm_nodes_total ts)
           @ '' edges='' @ d (tm_edges_total ts))
       @ line (''providers: success='' @ d (tm_provider_successes ts) @ '' fail='' @ d (tm_provider_failures ts)
           @ '' partial='' @ d (tm_partial_discoveries ts))
       @ line (''merge_conflicts='' @ d (tm_merge_conflicts ts) @ '' snapshots='' @ d (tm_snapshots_created ts)
           @ '' gen_changes='' @ d (tm_generation_changes ts))))"

section \<open>Self test and benchmark\<close>

text \<open>The ids of the two nodes are derived from texts that differ in one byte.\<close>

definition self_node :: "node_type \<Rightarrow> string \<Rightarrow> string \<Rightarrow> topology_node" where
  "self_node t name key = default_node \<lparr> n_type := t, n_name := name, n_id := derive_node_id ''tf'' ''node'' key \<rparr>"

definition self_builder :: "topology_node \<Rightarrow> topology_node \<Rightarrow> snapshot_builder" where
  "self_builder n1 n2 =
     (let e = default_edge \<lparr> e_source := n_id n1, e_target := n_id n2, e_type := ET_CONNECTED_TO, e_direction := ED_UNDIRECTED \<rparr>
      in fst (add_edge e (fst (add_node n2 (fst (add_node n1 (new_builder default_bounds)))))))"

definition exception_what :: "console \<Rightarrow> exception \<Rightarrow> string" where
  "exception_what co x = (case x of E_Topology e \<Rightarrow> te_message e | E_BadVariant \<Rightarrow> co_bad_variant co)"

text \<open>What is thrown in the test is caught there and makes the exit code 1.\<close>

definition self_failed :: "console \<Rightarrow> string \<Rightarrow> exception \<Rightarrow> outcome" where
  "self_failed co err x = refused (err @ line (''selftest failed: '' @ exception_what co x)) 1"

definition self_round_trip :: "console \<Rightarrow> (f64 \<Rightarrow> 64 word) \<Rightarrow> topology_snapshot \<Rightarrow> bool \<Rightarrow> outcome option" where
  "self_round_trip co ub mini found =
     (let err = (if found then [] else line ''selftest: path not found'') in
      case serialize_snapshot_json mini False of
        Inl e \<Rightarrow> Some (self_failed co err (E_Topology e))
      | Inr js \<Rightarrow>
          (case deserialize_snapshot_json ub js default_bounds of
             None \<Rightarrow> None
           | Some (Inl x) \<Rightarrow> Some (self_failed co err x)
           | Some (Inr s') \<Rightarrow>
               Some (if length (s_nodes s') \<noteq> 2 then refused (err @ line ''selftest: roundtrip mismatch'') 1
                     else if found then printed (line ''selftest: OK'') else refused err 1)))"

definition cmd_selftest :: "console \<Rightarrow> (f64 \<Rightarrow> 64 word) \<Rightarrow> outcome option" where
  "cmd_selftest co ub =
     (let n1 = self_node NT_CPU_THREAD ''t0'' ''x0''; n2 = self_node NT_ACCELERATOR ''g0'' ''x1'' in
      case take_snapshot (self_builder n1 n2) of
        Inl e \<Rightarrow> Some (self_failed co [] (E_Topology e))
      | Inr (_, mini) \<Rightarrow>
          (case shortest_path mini (n_id n1) (n_id n2) False of
             None \<Rightarrow> None
           | Some (Inl e) \<Rightarrow> Some (self_failed co [] (E_Topology e))
           | Some (Inr p) \<Rightarrow> self_round_trip co ub mini (p_found p)))"

text \<open>The queries of the benchmark go round the nodes; their results are dropped.\<close>

fun benchmark_loop :: "topology_snapshot \<Rightarrow> node_id list \<Rightarrow> nat list \<Rightarrow> unit tresult option" where
  "benchmark_loop s ids [] = Some (Inr ())"
| "benchmark_loop s ids (i # is) =
     obind (lowest_cost_path s (ids ! (i mod length ids)) (ids ! ((i mod length ids + 1) mod length ids)) default_weights)
       (\<lambda>_. benchmark_loop s ids is)"

definition cmd_benchmark :: "console \<Rightarrow> topology_snapshot \<Rightarrow> outcome tresult option" where
  "cmd_benchmark co s =
     (let ids = um_keys (s_nodes s); queries = (if 2 \<le> length ids then 2000 else 0 :: nat) in
      obind (benchmark_loop s ids [0..<queries]) (\<lambda>_.
        Some (Inr (printed (line (''path_queries='' @ dec_digits queries @ '' total_ms='' @ co_number co (co_benchmark_ms co)
          @ '' avg_us='' @ co_number co (f64_div (f64_mul (co_benchmark_ms co) (F_Fin 1000)) (f64_of_int (int queries)))))))))"

section \<open>The program\<close>

definition usage :: "string \<Rightarrow> outcome" where
  "usage argv0 = printed
     (line ''Topology Fabric 1.0.0''
      @ line ''A vendor-neutral runtime for hardware/interconnect topology discovery, modeling,''
      @ line ''measuring, validating, scoring, and exposure.'' @ line []
      @ line (''Usage: '' @ argv0 @ '' <command> [options] [--json]'') @ line [] @ line ''Commands:''
      @ line ''  info | discover | nodes | edges | devices | cpus | numa | pci | accelerators''
      @ line ''  storage | network | path | distance | rank | explain | snapshot | diff''
      @ line ''  validate | measure | stats | selftest | benchmark'' @ line [] @ line ''Options:''
      @ line ''  --from <id|name>  --to <id|name>  --source <id|name>''
      @ line ''  --type <nodetype>  --max <n>  --json'')"

definition node_commands :: "string list" where
  "node_commands = [''nodes'', ''devices'', ''cpus'', ''numa'', ''pci'', ''accelerators'', ''storage'', ''network'']"

text \<open>The chain of comparisons in \<open>main\<close>. \<open>os2\<close> is what the second discovery of \<open>diff\<close> meets.\<close>

definition run_command ::
  "console \<Rightarrow> (f64 \<Rightarrow> 64 word) \<Rightarrow> 'p outside \<Rightarrow> string \<Rightarrow> string list \<Rightarrow> 'p runtime \<Rightarrow> topology_snapshot
     \<Rightarrow> outcome tresult option" where
  "run_command co ub os2 cmd args rt s =
     (let js = has_opt args ''--json'' in
      if cmd = ''info'' \<or> cmd = ''discover'' then Some (cmd_info js cmd s)
      else if cmd \<in> set node_commands then Some (Inr (cmd_nodes js cmd s))
      else if cmd = ''edges'' then Some (Inr (cmd_edges js s))
      else if cmd = ''path'' then cmd_path co js args s
      else if cmd = ''distance'' then cmd_distance co args s
      else if cmd = ''rank'' then cmd_rank co js args s
      else if cmd = ''explain'' then cmd_explain args s
      else if cmd = ''snapshot'' then Some (cmd_snapshot js s)
      else if cmd = ''diff'' then Some (cmd_diff js os2 rt s)
      else if cmd = ''validate'' then Some (Inr (cmd_validate js s))
      else if cmd = ''measure'' then Some (Inr (cmd_measure co))
      else if cmd = ''stats'' then Some (Inr (cmd_stats js (rt_telemetry rt)))
      else if cmd = ''selftest'' then map_option Inr (cmd_selftest co ub)
      else if cmd = ''benchmark'' then cmd_benchmark co s
      else Some (Inr (usage (co_argv0 co))))"

text \<open>What a command throws is printed, with exit code 1; the first discovery is outside the \<open>try\<close>, so what it throws
  leaves \<open>main\<close>: the \<open>Inl\<close> of the result.\<close>

definition cli_main ::
  "console \<Rightarrow> (f64 \<Rightarrow> 64 word) \<Rightarrow> 'p outside \<Rightarrow> 'p outside \<Rightarrow> 'p runtime \<Rightarrow> string list \<Rightarrow> outcome tresult option" where
  "cli_main co ub os os2 rt argv =
     (case argv of
        [] \<Rightarrow> Some (Inr (usage (co_argv0 co)))
      | cmd # args \<Rightarrow>
          (case discover os rt of
             Inl e \<Rightarrow> Some (Inl e)
           | Inr (rt', s) \<Rightarrow>
               (case run_command co ub os2 cmd args rt' s of
                  None \<Rightarrow> None
                | Some (Inl e) \<Rightarrow> Some (Inr (refused (line (''error: '' @ te_message e)) 1))
                | Some (Inr oc) \<Rightarrow> Some (Inr oc))))"

section \<open>The search for a node\<close>

definition named :: "string \<Rightarrow> node_id \<times> topology_node \<Rightarrow> bool" where
  "named token p \<longleftrightarrow> n_name (snd p) = token \<or> n_display_name (snd p) = token"

definition name_has :: "string \<Rightarrow> node_id \<times> topology_node \<Rightarrow> bool" where
  "name_has token p \<longleftrightarrow> find_str token (n_name (snd p)) \<noteq> None \<and> fst p \<noteq> kNullNodeId"

definition id_or_null :: "(node_id \<times> topology_node) option \<Rightarrow> node_id" where
  "id_or_null m = (case m of Some p \<Rightarrow> fst p | None \<Rightarrow> kNullNodeId)"

lemma resolve_loop_eq:
  "resolve_loop token first ps = (case find (named token) ps of
     Some p \<Rightarrow> fst p
   | None \<Rightarrow> if first \<noteq> kNullNodeId then first else id_or_null (find (name_has token) ps))"
proof -
  have "named t (i, n) \<longleftrightarrow> n_name n = t \<or> n_display_name n = t"
    "name_has t (i, n) \<longleftrightarrow> find_str t (n_name n) \<noteq> None \<and> i \<noteq> kNullNodeId" for t i n
    by (simp_all add: named_def name_has_def)
  then show ?thesis
    by (induction token first ps rule: resolve_loop.induct) (auto simp: id_or_null_def split: option.splits)
qed

lemma find_str_empty: "find_str [] s = Some 0"
  by (simp add: find_str_def upt_rec)

lemma find_none: "find P xs = None \<longleftrightarrow> (\<forall>x \<in> set xs. \<not> P x)"
  by (auto simp: find_None_iff)

lemma resolve_empty:
  assumes "kNullNodeId \<notin> set (um_keys (s_nodes s))"
  shows "resolve_id s [] = kNullNodeId \<longleftrightarrow> s_nodes s = []"
proof -
  have null: "fst p \<noteq> kNullNodeId" if "p \<in> set (s_nodes s)" for p using assms that by (force simp: um_keys_def)
  have found: "id_or_null (find P (s_nodes s)) = kNullNodeId \<longleftrightarrow> find P (s_nodes s) = None" for P
  proof (cases "find P (s_nodes s)")
    case (Some p)
    then have "p \<in> set (s_nodes s)" by (auto simp: find_Some_iff)
    then show ?thesis using null Some by (simp add: id_or_null_def)
  qed (simp add: id_or_null_def)
  have "resolve_id s [] = (case find (named []) (s_nodes s) of Some p \<Rightarrow> fst p | None \<Rightarrow> id_or_null (find (name_has []) (s_nodes s)))"
    by (simp add: resolve_id_def try_from_hex_def resolve_loop_eq)
  moreover have "find (name_has []) (s_nodes s) = None \<longleftrightarrow> s_nodes s = []"
    using null by (cases "s_nodes s") (auto simp: find_none name_has_def find_str_empty)
  ultimately show ?thesis using found [of "named []"] found [of "name_has []"]
    by (cases "find (named []) (s_nodes s)") (auto simp: id_or_null_def)
qed

section \<open>Commands that do not search\<close>

definition search_commands :: "string list" where
  "search_commands = [''path'', ''distance'', ''rank'', ''explain'', ''selftest'', ''benchmark'']"

lemma written: "made_snapshot s \<Longrightarrow> \<exists>t. serialize_snapshot_json s p = Inr t"
  using snapshot_document [OF made_wf] by (auto simp: serialize_snapshot_json_def)

lemma quiet_command:
  assumes "walks_ok os2" and "made_snapshot s" and "cmd \<notin> set search_commands"
  shows "\<exists>oc. run_command co ub os2 cmd args rt s = Some (Inr oc) \<and> oc_err oc = []
    \<and> oc_exit oc = (if cmd = ''validate'' \<and> \<not> v_ok (s_validation s) then 3 else 0)"
proof -
  let ?js = "has_opt args ''--json''"
  have out: "\<exists>oc. (Inr (printed t) :: outcome tresult) = Inr oc \<and> oc_err oc = [] \<and> oc_exit oc = 0" for t
    by (simp add: printed_def)
  have info: "\<exists>oc. cmd_info ?js cmd s = Inr oc \<and> oc_err oc = [] \<and> oc_exit oc = 0"
    using written [OF assms(2), of True] by (auto simp: cmd_info_def printed_def)
  have snap: "\<exists>oc. cmd_snapshot ?js s = Inr oc \<and> oc_err oc = [] \<and> oc_exit oc = 0"
    using written [OF assms(2), of True] by (auto simp: cmd_snapshot_def printed_def)
  have diff: "\<exists>oc. cmd_diff ?js os2 rt s = Inr oc \<and> oc_err oc = [] \<and> oc_exit oc = 0"
    using discover_shape [OF assms(1), of rt] by (auto simp: cmd_diff_def printed_def pretty_def Let_def)
  have rest: "oc_err (cmd_nodes ?js cmd s) = []" "oc_exit (cmd_nodes ?js cmd s) = 0" "oc_err (cmd_edges ?js s) = []"
    "oc_exit (cmd_edges ?js s) = 0" "oc_err (cmd_measure co) = []" "oc_exit (cmd_measure co) = 0"
    "oc_err (cmd_stats ?js (rt_telemetry rt)) = []" "oc_exit (cmd_stats ?js (rt_telemetry rt)) = 0"
    "oc_err (usage (co_argv0 co)) = []" "oc_exit (usage (co_argv0 co)) = 0"
    by (simp_all add: cmd_nodes_def cmd_edges_def cmd_measure_def cmd_stats_def usage_def printed_def pretty_def Let_def)
  have val: "oc_err (cmd_validate ?js s) = []" "oc_exit (cmd_validate ?js s) = (if v_ok (s_validation s) then 0 else 3)"
    by (simp_all add: cmd_validate_def Let_def)
  consider "cmd = ''info'' \<or> cmd = ''discover''" | "cmd \<in> set node_commands" | "cmd = ''edges''" | "cmd = ''snapshot''"
    | "cmd = ''diff''" | "cmd = ''validate''" | "cmd = ''measure''" | "cmd = ''stats''"
    | "cmd \<notin> set (node_commands @ [''info'', ''discover'', ''edges'', ''snapshot'', ''diff'', ''validate'', ''measure'', ''stats''])"
    by (auto simp: node_commands_def)
  then show ?thesis
  proof cases
    case 1
    then show ?thesis using info by (auto simp: run_command_def Let_def)
  next
    case 2
    then have "cmd \<noteq> ''info''" "cmd \<noteq> ''discover''" "cmd \<noteq> ''validate''" by (auto simp: node_commands_def)
    then show ?thesis using 2 rest by (simp add: run_command_def Let_def)
  next
    case 9
    then show ?thesis using assms(3) rest by (auto simp: run_command_def Let_def search_commands_def)
  qed (use rest snap diff val in \<open>auto simp: run_command_def Let_def node_commands_def\<close>)
qed

section \<open>What the built-in providers never contribute\<close>

definition typed :: "contributed_node list \<Rightarrow> bool" where
  "typed ns \<longleftrightarrow> list_all (\<lambda>n. cn_type n \<noteq> NT_UNKNOWN) ns"

lemma typed_join: "(\<And>p. p \<in> set ps \<Longrightarrow> typed (fst p)) \<Longrightarrow> typed (fst (join_parts ps))"
  by (induction ps) (auto simp: typed_def join_parts_def)

lemma typed_cpu: "typed (ct_nodes (cpu_numa_discover a))"
proof -
  have part: "typed (fst (numa_part m n))" "typed (fst (package_part m i))" "typed (fst (core_part s m k affs))"
    "typed (fst (thread_part s k c gb))" for m n i s k affs c gb
    by (simp_all add: typed_def numa_part_def package_part_def core_part_def thread_part_def Let_def)
  have "typed (fst (cpu_parts s m))" for s m
    unfolding cpu_parts_def by (rule typed_join) (auto simp: part dest!: core_parts_mem)
  then show ?thesis
    by (cases "ca_records a") (simp_all add: cpu_numa_discover_def empty_contribution_def Let_def, simp add: typed_def)
qed

lemma typed_pci: "typed (ct_nodes (pci_discover a))"
  by (cases "pa_ids a") (auto simp: pci_nothing pci_parts typed_def list_all_iff pci_node_def pci_type_def Let_def)

lemma typed_devices: "cuda_devices d n ordinals = Some (nodes, edges, refs) \<Longrightarrow> typed nodes"
proof (induction ordinals arbitrary: nodes edges refs)
  case (Cons i ordinals)
  then show ?case
    by (auto simp: typed_def cuda_nodes_def Let_def split: option.splits)
qed (simp add: typed_def)

lemma typed_cuda: "cuda_discover d = Some c \<Longrightarrow> typed (ct_nodes c)"
  using typed_devices
  by (fastforce simp: cuda_discover_def gave_up_def empty_contribution_def typed_def split: if_splits option.splits)

lemma typed_storage: "typed (ct_nodes (storage_discover drives volumes))"
  by (auto simp: storage_discover_def typed_def list_all_iff empty_contribution_def map_filter_def volume_node_def Let_def)

lemma those_members: "those xs = Some ys \<Longrightarrow> y \<in> set ys \<Longrightarrow> Some y \<in> set xs"
  by (induction xs arbitrary: ys) (auto split: option.splits)

lemma typed_network: "network_discover a = Some c \<Longrightarrow> typed (ct_nodes c)"
proof -
  have adapter: "cn_type n = NT_NETWORK_INTERFACE" if "adapter_node ad = Some n" for ad n
    using that by (auto simp: adapter_node_def Let_def)
  have "typed nodes" if "those (map adapter_node ads) = Some nodes" for ads nodes
    using those_members [OF that] adapter by (fastforce simp: typed_def list_all_iff)
  then show "network_discover a = Some c \<Longrightarrow> ?thesis"
    by (auto simp: network_discover_def gave_up_def empty_contribution_def split: if_splits option.splits) (simp_all add: typed_def)
qed

lemma typed_builtin: "windows_discover w p = Some c \<Longrightarrow> typed (ct_nodes c)"
proof (cases p)
  case B_Host
  then show "windows_discover w p = Some c \<Longrightarrow> ?thesis" by (auto simp: host_discover_def empty_contribution_def typed_def Let_def)
qed (auto simp: typed_cpu typed_pci typed_cuda typed_storage typed_network)

lemma merged_typed:
  assumes "rearranges walk1" and "\<And>c. c \<in> set cs \<Longrightarrow> typed (ct_nodes c)"
    and "(i, n) \<in> set (mg_nodes (merge_contributions walk1 walk2 cs b))"
  shows "n_type n \<noteq> NT_UNKNOWN"
proof -
  let ?gs = "the_groups (b_max_nodes b) cs"
  have "(i, n) \<in> set (mg_nodes (fst (merge_state walk1 cs b)))" using assms(3) by (simp add: merge_contributions_eq)
  then obtain key ms where g: "(key, ms) \<in> set ?gs" and n: "n = merged_node key (best_first ms)"
    using merge_state_inv [OF assms(1), of b cs] unfolding nodes_inv_def by fast
  note ok = the_groups_ok [of cs "b_max_nodes b", unfolded groups_ok_def]
  have "um_find ?gs key = Some ms" using g ok by (simp add: um_find_def um_ok_def um_keys_def)
  then have ms: "ms \<noteq> []" "set ms \<subseteq> set (tagged_all 0 cs)" using ok by blast+
  have same: "set (best_first ms) = set ms" by (simp add: best_first_def)
  then have "best_first ms \<noteq> []" using ms(1) by (metis set_empty)
  then have "n_type n \<in> (cn_type \<circ> mb_node) ` set ms"
    using best_type(1) [of "best_first ms"] by (simp add: n merged_node_def Let_def same)
  then obtain m where m: "m \<in> set (tagged_all 0 cs)" "n_type n = cn_type (mb_node m)" using ms(2) by auto
  have "mb_node ` set (tagged_all 0 cs) = set (concat (map ct_nodes cs))" using tagged_all_nodes [of 0 cs] by (metis set_map)
  then have "mb_node m \<in> set (concat (map ct_nodes cs))" using m(1) by (metis imageI)
  then obtain c where "c \<in> set cs" "mb_node m \<in> set (ct_nodes c)" by auto
  then show ?thesis using assms(2) m(2) by (auto simp: typed_def list_all_iff)
qed

definition windows_outside :: "windows_answers \<Rightarrow> builtin outside \<Rightarrow> bool" where
  "windows_outside w os \<longleftrightarrow> walks_ok os \<and> os_discover os = (\<lambda>p ctx. Inr (the (windows_discover w p)))
     \<and> cuda_discover (wa_cuda w) \<noteq> None \<and> network_discover (wa_network w) \<noteq> None"

section \<open>Properties\<close>

text \<open>C23: a name is resolved to the first node with that name or display name, otherwise to the first node, the null id
  apart, whose name contains it, otherwise to the null id; and a missing option, which is the empty text, is resolved to
  a node unless there is none, so the complaints about unresolvable options are not made for missing ones.\<close>

theorem resolve_id_finds:
  "resolve_id s token = (case try_from_hex token of
      Some i \<Rightarrow> i
    | None \<Rightarrow> (case find (named token) (s_nodes s) of
         Some p \<Rightarrow> fst p | None \<Rightarrow> id_or_null (find (name_has token) (s_nodes s))))
   \<and> (kNullNodeId \<notin> set (um_keys (s_nodes s)) \<longrightarrow> (resolve_id s [] = kNullNodeId \<longleftrightarrow> s_nodes s = []))"
  using resolve_empty [of s] by (simp add: resolve_id_def resolve_loop_eq split: option.splits)

theorem resolve_id_finds_witness: "resolve_id ex_snapshot [] \<noteq> kNullNodeId"
proof -
  have "um_keys (s_nodes ex_snapshot) = map (NodeId 0) [1, 2, 3, 4, 5]"
    by (simp add: ex_snapshot_def take_snapshot_def ex_frame Let_def ex_nodes um_keys_def ex_node_def)
  then have "kNullNodeId \<notin> set (um_keys (s_nodes ex_snapshot))" "s_nodes ex_snapshot \<noteq> []"
    by (auto simp: kNullNodeId_def um_keys_def)
  then show ?thesis using resolve_id_finds [of ex_snapshot "[]"] by blast
qed

text \<open>C22: a command that does not search, and an unknown command, always ends without a message and with the exit code
  0, except that \<open>validate\<close> ends with 3 when the discovered snapshot is not valid.\<close>

theorem cli_exit_codes:
  assumes "walks_ok os" and "walks_ok os2" and "cmd \<notin> set search_commands"
  shows "\<exists>rt' s oc. discover os rt = Inr (rt', s) \<and> cli_main co ub os os2 rt (cmd # args) = Some (Inr oc) \<and> oc_err oc = []
    \<and> oc_exit oc = (if cmd = ''validate'' \<and> \<not> v_ok (s_validation s) then 3 else 0)"
proof -
  obtain rt' s where d: "discover os rt = Inr (rt', s)" using discover_shape [OF assms(1)] by blast
  note made = discover_parts(5) [OF assms(1) d]
  from quiet_command [OF assms(2) made assms(3), of co ub args rt'] show ?thesis by (auto simp: cli_main_def d)
qed

theorem cli_exit_codes_witness:
  "\<exists>oc. cli_main \<lparr> co_argv0 = ''tf'', co_number = \<lambda>d. [], co_bad_variant = [], co_memcpy_secs = F_Fin 1, co_benchmark_ms = F_Fin 1 \<rparr>
     (\<lambda>d. 0) ex_outside ex_outside ex_runtime [''stats'', ''--json''] = Some (Inr oc) \<and> oc_exit oc = 0"
proof -
  have "''stats'' \<notin> set search_commands" by (simp add: search_commands_def)
  from cli_exit_codes [OF ex_walks ex_walks this, of ex_runtime
      "\<lparr> co_argv0 = ''tf'', co_number = \<lambda>d. [], co_bad_variant = [], co_memcpy_secs = F_Fin 1, co_benchmark_ms = F_Fin 1 \<rparr>"
      "\<lambda>d. 0" "[''--json'']"]
  show ?thesis by auto
qed


definition bare_windows :: windows_answers where
  "bare_windows = small_windows \<lparr> wa_cuda := (example_driver True) \<lparr> cd_loaded := False \<rparr> \<rparr>"


end
