(* ===== verification/TF_Demos.thy ===== *)
theory TF_Demos
  imports TF_Cli
begin

text \<open>
  The example programs (\<open>examples\<close>) and the two benchmarks (\<open>benchmarks\<close>): clients that use the library as its
  users do. An example that discovers is a function of the discovered snapshot; \<open>demo_run\<close> puts the discovery
  before it. What an example does not catch leaves its \<open>main\<close>: \<open>Inl\<close>, without what was printed until then. The times that the benchmarks print are
  parameters.
\<close>

section \<open>Examples that list nodes\<close>

definition demo_find_node :: "topology_snapshot \<Rightarrow> string \<Rightarrow> node_id" where
  "demo_find_node s name =
     (case find (\<lambda>(i, n). n_name n = name \<or> n_display_name n = name) (s_nodes s) of
        Some (i, n) \<Rightarrow> i | None \<Rightarrow> kNullNodeId)"

definition demo_print_path :: "console \<Rightarrow> topology_path \<Rightarrow> string" where
  "demo_print_path co p =
     (if \<not> p_found p then line ''no path''
      else line (''class='' @ path_class_to_string (p_path_class p) @ '' locality='' @ locality_class_to_string (p_locality p)
        @ '' hops='' @ int_to_string (sint (p_hop_count p)) @ '' cost='' @ co_number co (p_total_cost p)))"

definition number_or_mark :: "'a::len word option \<Rightarrow> string" where
  "number_or_mark v = (case v of Some w \<Rightarrow> dec_digits (unat w) | None \<Rightarrow> ''?'')"

definition demo_cpus :: "topology_snapshot \<Rightarrow> string" where
  "demo_cpus s = concat (map (\<lambda>(i, n).
     if n_type n = NT_CPU_PACKAGE \<or> n_type n = NT_CPU_CORE \<or> n_type n = NT_CPU_THREAD
     then line (node_type_to_string (n_type n) @ '' '' @ n_name n @ '' pkg='' @ number_or_mark (ni_cpu_package (n_native n))
       @ '' core='' @ number_or_mark (ni_core_id (n_native n)) @ '' numa='' @ number_or_mark (ni_numa_node (n_native n)))
     else []) (s_nodes s))"

definition demo_numa :: "topology_snapshot \<Rightarrow> string" where
  "demo_numa s = concat (map (\<lambda>(i, n).
     if n_type n = NT_NUMA_NODE \<or> n_type n = NT_HOST_MEMORY_DOMAIN
     then line (node_type_to_string (n_type n) @ '' '' @ n_name n @ '' numa='' @ number_or_mark (ni_numa_node (n_native n)))
     else []) (s_nodes s))"

definition demo_pci :: "topology_snapshot \<Rightarrow> string" where
  "demo_pci s = concat (map (\<lambda>(i, n).
     if n_type n = NT_PCI_ROOT \<or> n_type n = NT_PCI_BRIDGE \<or> n_type n = NT_PCI_DEVICE
     then line (node_type_to_string (n_type n) @ '' '' @ n_name n @ '' bdf='' @ pci_bdf_string (n_native n))
     else []) (s_nodes s))"

text \<open>The memory size is read as an unsigned number, whatever it is.\<close>

fun demo_cuda :: "(node_id \<times> topology_node) list \<Rightarrow> string eresult" where
  "demo_cuda [] = Inr []"
| "demo_cuda ((i, n) # ps) =
     (if n_type n \<noteq> NT_ACCELERATOR then demo_cuda ps
      else let head = line (''accelerator: '' @ n_name n @ '' bdf='' @ pci_bdf_string (n_native n) @ '' ordinal=''
                  @ number_or_mark (ni_cuda_ordinal (n_native n)) @ '' uuid='' @ ni_cuda_uuid (n_native n)) in
        case om_find (n_properties n) ''cuda.total_memory'' of
          None \<Rightarrow> ebind (demo_cuda ps) (\<lambda>t. Inr (head @ t))
        | Some v \<Rightarrow> (case pv_as_uint v of
            None \<Rightarrow> Inl E_BadVariant
          | Some u \<Rightarrow> ebind (demo_cuda ps) (\<lambda>t. Inr (head @ line (''  total_memory='' @ dec_digits (unat u) @ '' bytes'') @ t))))"

section \<open>Examples that query\<close>

text \<open>The loops over the nodes remember the first of each type; a null id counts as not yet found.\<close>

definition pick_both :: "(node_id \<times> topology_node) list \<Rightarrow> node_id \<times> node_id" where
  "pick_both ps = fold (\<lambda>(i, n) (gpu, cpu).
     (if is_null gpu \<and> n_type n = NT_ACCELERATOR then i else gpu,
      if is_null cpu \<and> n_type n = NT_CPU_THREAD then i else cpu)) ps (kNullNodeId, kNullNodeId)"

definition pick_ends :: "(node_id \<times> topology_node) list \<Rightarrow> node_id \<times> node_id" where
  "pick_ends ps = fold (\<lambda>(i, n) (a, b).
     if is_null a \<and> n_type n = NT_CPU_THREAD then (i, b)
     else if is_null b \<and> n_type n = NT_ACCELERATOR then (a, i) else (a, b)) ps (kNullNodeId, kNullNodeId)"

definition demo_accel_locality :: "topology_snapshot \<Rightarrow> string tresult" where
  "demo_accel_locality s =
     (let (gpu, cpu) = pick_both (s_nodes s) in
      if is_null gpu \<or> is_null cpu then Inr (line ''no accelerator/cpu'')
      else tbind (locality_between s cpu gpu) (\<lambda>loc. tbind (classify_path s cpu gpu) (\<lambda>cls.
        Inr (line (''accelerator<->cpu locality='' @ locality_class_to_string loc @ '' path_class='' @ path_class_to_string cls)))))"

definition demo_path :: "console \<Rightarrow> topology_snapshot \<Rightarrow> string tresult option" where
  "demo_path co s =
     (let (a, b) = pick_ends (s_nodes s) in
      if is_null a \<or> is_null b then Some (Inr (line ''insufficient topology''))
      else obind (lowest_cost_path s a b default_weights) (\<lambda>p. Some (Inr (demo_print_path co p))))"

definition demo_explain :: "topology_snapshot \<Rightarrow> string tresult option" where
  "demo_explain s =
     (let (a, b) = pick_ends (s_nodes s) in
      if is_null a \<or> is_null b then Some (Inr (line ''insufficient topology''))
      else obind (explain s a b default_weights) (\<lambda>x.
        Some (Inr (line (''summary: '' @ x_summary x)
          @ concat (map (\<lambda>f. line (''  '' @ xf_name f @ ''='' @ xf_value f @ '' ('' @ xf_note f @ '')'')) (x_factors x))))))"

definition name_of :: "topology_snapshot \<Rightarrow> node_id \<Rightarrow> string" where
  "name_of s i = (case find_node s i of Some n \<Rightarrow> n_name n | None \<Rightarrow> ''?'')"

definition demo_rank :: "console \<Rightarrow> topology_snapshot \<Rightarrow> string tresult option" where
  "demo_rank co s =
     (let src = (case find (\<lambda>(i, n). n_type n = NT_CPU_THREAD) (s_nodes s) of Some (i, n) \<Rightarrow> i | None \<Rightarrow> kNullNodeId) in
      if is_null src then Some (Inr (line ''no cpu''))
      else obind (rank_candidates s src NT_ACCELERATOR 0 default_weights) (\<lambda>rr.
        Some (Inr (concat (map (\<lambda>e. line (name_of s (k_id e) @ '' cost='' @ co_number co (k_cost e) @ '' ''
          @ locality_class_to_string (k_locality e))) (rr_ranked rr))))))"

definition demo_discover :: "topology_snapshot \<Rightarrow> string" where
  "demo_discover s =
     line (''Topology Fabric snapshot: nodes='' @ dec_digits (length (s_nodes s)) @ '' edges='' @ dec_digits (length (s_edges s))
       @ '' generation='' @ dec_digits (unat (m_generation (s_metadata s))))
     @ line (''valid='' @ yes_no (v_ok (s_validation s))) @ line (''providers='' @ m_provider_versions (s_metadata s))"

definition demo_snapshot :: "(f64 \<Rightarrow> 64 word) \<Rightarrow> topology_snapshot \<Rightarrow> string eresult option" where
  "demo_snapshot ub s =
     (case serialize_snapshot_json s True of
        Inl e \<Rightarrow> Some (Inl (E_Topology e))
      | Inr js \<Rightarrow> map_option (\<lambda>r. ebind r (\<lambda>s'.
          Inr (line (''snapshot_id='' @ m_snapshot_id (s_metadata s)) @ line (''serialized_bytes='' @ dec_digits (length js))
            @ line (''roundtrip nodes='' @ dec_digits (length (s_nodes s')) @ '' edges='' @ dec_digits (length (s_edges s'))))))
          (deserialize_snapshot_json ub js default_bounds))"

definition demo_run :: "'p outside \<Rightarrow> 'p runtime \<Rightarrow> ('p runtime \<Rightarrow> topology_snapshot \<Rightarrow> 'a) \<Rightarrow> 'a tresult" where
  "demo_run os rt f = tbind (discover os rt) (\<lambda>(rt', s). Inr (f rt' s))"

definition demo_diff :: "'p outside \<Rightarrow> 'p runtime \<Rightarrow> topology_snapshot \<Rightarrow> string tresult" where
  "demo_diff os2 rt s1 = demo_run os2 rt (\<lambda>_ s2. let d = compare_snapshots s1 s2 in
     line (''generation '' @ dec_digits (unat (td_generation_before d)) @ '' -> '' @ dec_digits (unat (td_generation_after d)))
     @ concat (map (\<lambda>e. line (''  '' @ diff_event_kind_to_string (ev_kind e) @ '' '' @ to_hex (ev_node e))) (td_events d)))"

section \<open>Examples that build a graph\<close>

definition gpu_address :: native_identity where
  "gpu_address = default_native \<lparr> ni_pci_bus := Some 1, ni_pci_device := Some 0, ni_pci_function := Some 0, ni_pci_domain := Some 0 \<rparr>"

definition merge_inputs :: "contribution list" where
  "merge_inputs =
     [default_contribution \<lparr> ct_provider := ''cuda'', ct_success := True, ct_nodes := [default_cnode \<lparr> cn_ref := ''cuda:uuid:x'',
        cn_type := NT_ACCELERATOR, cn_name := ''GPU'', cn_native := gpu_address,
        cn_provenance := provenance_discovered ''cuda'' ''cuDeviceGetAttribute'' CF_AUTHORITATIVE [] [] \<rparr>] \<rparr>,
      default_contribution \<lparr> ct_provider := ''pci'', ct_success := True, ct_nodes := [default_cnode \<lparr> cn_ref := ''pci:0000:01:00.0'',
        cn_type := NT_PCI_DEVICE, cn_name := ''PCI GPU'', cn_native := gpu_address \<lparr> ni_vendor_id := Some 0x10DE \<rparr>,
        cn_provenance := provenance_discovered ''pci'' ''CM_Get_Device_ID'' CF_HIGH [] [] \<rparr>] \<rparr>]"

definition merged_text :: "merged_graph \<Rightarrow> string" where
  "merged_text mg =
     line (''merged nodes='' @ dec_digits (length (mg_nodes mg)) @ '' (input='' @ dec_digits (mg_merged_count mg)
       @ '') conflicts='' @ dec_digits (length (mg_conflicts mg)))
     @ concat (map (\<lambda>(i, n). line (''  node '' @ n_name n @ '' type='' @ node_type_to_string (n_type n)
         @ '' vendor='' @ number_or_mark (ni_vendor_id (n_native n)))) (mg_nodes mg))"

definition demo_merge ::
  "((string \<times> member list) list \<Rightarrow> (string \<times> member list) list) \<Rightarrow> ((string \<times> node_id) list \<Rightarrow> (string \<times> node_id) list)
     \<Rightarrow> string" where
  "demo_merge walk1 walk2 = merged_text (merge_contributions walk1 walk2 merge_inputs default_bounds)"

definition gpu_node :: "string \<Rightarrow> node_type \<Rightarrow> string \<Rightarrow> 32 word option \<Rightarrow> topology_node" where
  "gpu_node key t name numa = default_node \<lparr> n_id := derive_node_id ''ex'' ''node'' key, n_type := t, n_name := name,
     n_native := default_native \<lparr> ni_numa_node := numa \<rparr>, n_provenance := provenance_user_supplied CF_HIGH ''synthetic'' \<rparr>"

definition gpu_edge :: "topology_node \<Rightarrow> topology_node \<Rightarrow> edge_type \<Rightarrow> topology_edge" where
  "gpu_edge a c t = default_edge \<lparr> e_source := n_id a, e_target := n_id c, e_type := t, e_direction := ED_DIRECTED,
     e_provenance := provenance_user_supplied CF_HIGH ''synthetic'' \<rparr>"

definition gpu_machine :: topology_node where "gpu_machine = gpu_node ''m'' NT_MACHINE ''machine'' None"
definition gpu_root :: topology_node where "gpu_root = gpu_node ''r0'' NT_PCI_ROOT ''root0'' None"
definition gpu0 :: topology_node where "gpu0 = gpu_node ''g0'' NT_ACCELERATOR ''gpu0'' (Some 0)"
definition gpu1 :: topology_node where "gpu1 = gpu_node ''g1'' NT_ACCELERATOR ''gpu1'' (Some 0)"
definition gpu2 :: topology_node where "gpu2 = gpu_node ''g2'' NT_ACCELERATOR ''gpu2'' (Some 1)"
definition gpu3 :: topology_node where "gpu3 = gpu_node ''g3'' NT_ACCELERATOR ''gpu3'' (Some 1)"

definition multigpu_builder :: snapshot_builder where
  "multigpu_builder =
     fold (\<lambda>e bd. fst (add_edge e bd))
       [gpu_edge gpu_machine gpu_root ET_CONTAINS, gpu_edge gpu_root gpu0 ET_CONTAINS, gpu_edge gpu_root gpu1 ET_CONTAINS,
        gpu_edge gpu_machine gpu2 ET_CONTAINS, gpu_edge gpu_machine gpu3 ET_CONTAINS, gpu_edge gpu0 gpu1 ET_PEER_TO]
       (fold (\<lambda>n bd. fst (add_node n bd)) [gpu_machine, gpu_root, gpu0, gpu1, gpu2, gpu3]
         (set_metadata (default_metadata \<lparr> m_synthetic := True, m_machine_identity := ''synthetic-4gpu'' \<rparr>)
           (new_builder default_bounds)))"

definition demo_multigpu :: "console \<Rightarrow> string tresult option" where
  "demo_multigpu co =
     obind (Some (take_snapshot multigpu_builder)) (\<lambda>(_, s).
       obind (rank_candidates s (n_id gpu0) NT_ACCELERATOR 0 default_weights) (\<lambda>rr.
         Some (Inr (line (''synthetic multi-GPU snapshot: nodes='' @ dec_digits (length (s_nodes s)))
           @ concat (map (\<lambda>e. line (''  '' @ name_of s (k_id e) @ '' cost='' @ co_number co (k_cost e))) (rr_ranked rr))))))"

definition dangling_machine :: topology_node where
  "dangling_machine = default_node \<lparr> n_id := derive_node_id ''ex'' ''n'' ''m'', n_type := NT_MACHINE, n_name := ''machine'' \<rparr>"

definition dangling_edge :: topology_edge where
  "dangling_edge = default_edge \<lparr> e_source := n_id dangling_machine, e_target := derive_node_id ''ex'' ''n'' ''ghost'',
     e_type := ET_CONNECTED_TO \<rparr>"

definition demo_validate :: "string tresult" where
  "demo_validate =
     tbind (take_snapshot (fst (add_edge dangling_edge (fst (add_node dangling_machine (new_builder default_bounds))))))
       (\<lambda>(_, s). Inr (line (''validation ok='' @ yes_no (v_ok (s_validation s)))
         @ concat (map (\<lambda>e. line (''  error: '' @ e)) (v_errors (s_validation s)))
         @ concat (map (\<lambda>w. line (''  warning: '' @ w)) (v_warnings (s_validation s)))))"

section \<open>Benchmarks\<close>

definition bench_node :: "string \<Rightarrow> node_type \<Rightarrow> string \<Rightarrow> topology_node" where
  "bench_node key t name = default_node \<lparr> n_id := derive_node_id ''bench'' ''n'' key, n_type := t, n_name := name,
     n_provenance := provenance_user_supplied CF_HIGH ''bench'', n_synthetic := True \<rparr>"

definition bench_machine :: topology_node where
  "bench_machine = bench_node ''m'' NT_MACHINE ''machine''"

text \<open>The enumerator with the number \<open>1 + i % 6\<close>.\<close>

definition bench_type :: "nat \<Rightarrow> node_type" where
  "bench_type i = [NT_CPU_PACKAGE, NT_CPU_CORE, NT_CPU_THREAD, NT_NUMA_NODE, NT_HOST_MEMORY_DOMAIN, NT_ACCELERATOR] ! (i mod 6)"

definition bench_resource :: "nat \<Rightarrow> topology_node" where
  "bench_resource i = bench_node (CHR ''r'' # dec_digits i) (bench_type i) (CHR ''r'' # dec_digits i)"

definition bench_edge :: "topology_node \<Rightarrow> topology_edge" where
  "bench_edge r = default_edge \<lparr> e_source := n_id bench_machine, e_target := n_id r, e_type := ET_CONTAINS,
     e_provenance := provenance_user_supplied CF_HIGH ''bench'' \<rparr>"

definition bench_bounds :: bounds where
  "bench_bounds = default_bounds \<lparr> b_max_nodes := 100000, b_max_edges := 500000 \<rparr>"

definition bench_builder :: "nat \<Rightarrow> snapshot_builder" where
  "bench_builder n =
     fold (\<lambda>i bd. fst (add_edge (bench_edge (bench_resource i)) (fst (add_node (bench_resource i) bd)))) [0..<n]
       (fst (add_node bench_machine
         (set_metadata (default_metadata \<lparr> m_synthetic := True, m_generation := 1 \<rparr>) (new_builder bench_bounds))))"

definition make_graph :: "nat \<Rightarrow> topology_snapshot tresult" where
  "make_graph n = tbind (take_snapshot (bench_builder n)) (\<lambda>(_, s). Inr s)"

text \<open>The path queries start at the first node and go round the nodes; \<open>cnt\<close> counts the paths found.\<close>

fun bench_paths :: "topology_snapshot \<Rightarrow> node_id list \<Rightarrow> nat \<Rightarrow> nat list \<Rightarrow> nat tresult option" where
  "bench_paths s ids cnt [] = Some (Inr cnt)"
| "bench_paths s ids cnt (k # ks) =
     obind (lowest_cost_path s (ids ! 0) (ids ! (k mod length ids)) default_weights) (\<lambda>p.
       bench_paths s ids (if p_found p then cnt + 1 else cnt) ks)"

definition bench_text ::
  "(string \<Rightarrow> nat \<Rightarrow> string) \<Rightarrow> nat \<Rightarrow> nat \<Rightarrow> nat \<Rightarrow> nat \<Rightarrow> nat \<Rightarrow> bool \<Rightarrow> string" where
  "bench_text ms n cnt cand bytes events valid =
     line (''=== graph size '' @ dec_digits n @ '' nodes ==='')
     @ line (''  node_lookup  '' @ ms ''node_lookup'' n @ '' ms  (10000 lookups)'')
     @ line (''  path_query   '' @ ms ''path_query'' n @ '' ms  ('' @ dec_digits cnt @ '' paths)'')
     @ line (''  rank_20      '' @ ms ''rank_20'' n @ '' ms  ('' @ dec_digits cand @ '' candidates)'')
     @ line (''  serialize    '' @ ms ''serialize'' n @ '' ms   deserialize '' @ ms ''deserialize'' n
         @ '' ms  ('' @ dec_digits bytes @ '' bytes)'')
     @ line (''  diff         '' @ ms ''diff'' n @ '' ms  ('' @ dec_digits events @ '' events)'')
     @ line (''  validate     '' @ ms ''validate'' n @ '' ms  ('' @ (if valid then ''ok'' else ''fail'') @ '')'')"

text \<open>\<open>ms\<close> is the printed time of a measurement, by its name and the size of the graph; \<open>visit_order\<close> the order in which the
  hash map of nodes is enumerated.\<close>

definition bench_round ::
  "(string \<Rightarrow> nat \<Rightarrow> string) \<Rightarrow> (node_id list \<Rightarrow> node_id list) \<Rightarrow> (f64 \<Rightarrow> 64 word) \<Rightarrow> nat \<Rightarrow> string eresult option" where
  "bench_round ms visit_order ub n =
     (case make_graph n of
        Inl e \<Rightarrow> Some (Inl (E_Topology e))
      | Inr s \<Rightarrow>
         (let ids = visit_order (um_keys (s_nodes s)) in
          case obind (bench_paths s ids 0 [0..<2000]) (\<lambda>cnt.
                 obind (rank_candidates s (ids ! 0) NT_ACCELERATOR 20 default_weights) (\<lambda>rr.
                   obind (Some (serialize_snapshot_json s False)) (\<lambda>js. Some (Inr (cnt, rr, js))))) of
            None \<Rightarrow> None
          | Some (Inl e) \<Rightarrow> Some (Inl (E_Topology e))
          | Some (Inr (cnt, rr, js)) \<Rightarrow>
             (case deserialize_snapshot_json ub js default_bounds of
                None \<Rightarrow> None
              | Some (Inl x) \<Rightarrow> Some (Inl x)
              | Some (Inr s') \<Rightarrow>
                 (case make_graph n of
                    Inl e \<Rightarrow> Some (Inl (E_Topology e))
                  | Inr b \<Rightarrow> Some (Inr (bench_text ms n cnt (length (rr_ranked rr)) (length js)
                      (length (td_events (compare_snapshots s b))) (v_ok (s_validation b))))))))"

text \<open>A round that throws ends the program; the output of the rounds before it is dropped here.\<close>

fun bench_rounds ::
  "(string \<Rightarrow> nat \<Rightarrow> string) \<Rightarrow> (node_id list \<Rightarrow> node_id list) \<Rightarrow> (f64 \<Rightarrow> 64 word) \<Rightarrow> nat list \<Rightarrow> string eresult option" where
  "bench_rounds ms visit_order ub [] = Some (Inr [])"
| "bench_rounds ms visit_order ub (n # ns) =
     (case bench_round ms visit_order ub n of
        None \<Rightarrow> None
      | Some (Inl x) \<Rightarrow> Some (Inl x)
      | Some (Inr t) \<Rightarrow> map_option (\<lambda>r. ebind r (\<lambda>u. Inr (t @ u))) (bench_rounds ms visit_order ub ns))"

definition bench_graph_main ::
  "(string \<Rightarrow> nat \<Rightarrow> string) \<Rightarrow> (node_id list \<Rightarrow> node_id list) \<Rightarrow> (f64 \<Rightarrow> 64 word) \<Rightarrow> string eresult option" where
  "bench_graph_main ms visit_order ub = bench_rounds ms visit_order ub [100, 1000, 10000]"

definition bench_discovery_main ::
  "string \<Rightarrow> string \<Rightarrow> 'p outside \<Rightarrow> 'p outside \<Rightarrow> 'p runtime \<Rightarrow> string tresult" where
  "bench_discovery_main ms1 ms2 os os2 rt =
     tbind (discover os rt) (\<lambda>(rt, s). tbind (discover os2 rt) (\<lambda>(rt, s2).
       let ts = rt_telemetry rt; size = (\<lambda>s. dec_digits (length (s_nodes s)) @ '' nodes, '' @ dec_digits (length (s_edges s)) @ '' edges, '')
       in Inr (line (''local discovery: '' @ size s @ ms1 @ '' ms'')
         @ line (''re-discovery:   '' @ size s2 @ ms2 @ '' ms (generation '' @ dec_digits (unat (m_generation (s_metadata s2))) @ '')'')
         @ line (''telemetry: discovery_runs='' @ dec_digits (unat (tm_discovery_runs ts)) @ '' provider_success=''
             @ dec_digits (unat (tm_provider_successes ts)) @ '' provider_fail='' @ dec_digits (unat (tm_provider_failures ts))))))"

end
