(* ===== verification/TF_Selftest.thy ===== *)
theory TF_Selftest
  imports TF_Cli
begin

text \<open>
  The self test of the command line tool ends with the exit code 0. The lemmas bound the length of a
  written document, so that the graph of the test is seen to stay within the bounds of the reader.
\<close>

section \<open>The length of a document\<close>

text \<open>An upper bound for the compact form: an escaped character takes at most six.\<close>

fun written_size :: "json \<Rightarrow> nat" where
  "written_size (J_String s) = 2 + 6 * length s"
| "written_size (J_Array a) = 2 + sum_list (map (\<lambda>v. 1 + written_size v) a)"
| "written_size (J_Object m) = 2 + sum_list (map (\<lambda>(k, v). 4 + 6 * length k + written_size v) m)"
| "written_size v = 1 + length (write_value WM_Compact 0 v)"

lemma write_char_size: "length (write_char c) \<le> 6"
  by (simp add: write_char_def)

lemma write_string_size: "length (write_string s) \<le> 2 + 6 * length s"
proof -
  have "length (concat (map write_char s)) \<le> 6 * length s"
  proof (induction s)
    case (Cons c s)
    then show ?case using write_char_size [of c] by simp
  qed simp
  then show ?thesis by (simp add: write_string_def)
qed

lemma commas_size: "length (commas ts) \<le> sum_list (map (\<lambda>t. 1 + length t) ts)"
  by (induction ts rule: commas.induct) auto

lemma written_bound: "length (write_value WM_Compact d v) \<le> written_size v"
proof (induction v arbitrary: d)
  case (J_String s)
  then show ?case using write_string_size by simp
next
  case (J_Array a)
  have "sum_list (map (\<lambda>v. 1 + length (write_value WM_Compact (Suc d) v)) a) \<le> sum_list (map (\<lambda>v. 1 + written_size v) a)"
    by (rule sum_list_mono) (simp add: J_Array)
  then show ?case
    using commas_size [of "map (write_value WM_Compact (Suc d)) a"] by (simp add: indent_def o_def)
next
  case (J_Object m)
  let ?f = "\<lambda>(k, v). write_string k @ '':'' @ write_value WM_Compact (Suc d) v"
  have "1 + length (?f p) \<le> (case p of (k, v) \<Rightarrow> 4 + 6 * length k + written_size v)" if "p \<in> set m" for p
  proof -
    obtain k v where p: "p = (k, v)" by (cases p)
    have "length (write_value WM_Compact (Suc d) v) \<le> written_size v"
      using J_Object [of "(k, v)" v "Suc d"] that by (simp add: p)
    then show ?thesis using write_string_size [of k] by (simp add: p)
  qed
  then have "sum_list (map (\<lambda>p. 1 + length (?f p)) m) \<le> sum_list (map (\<lambda>(k, v). 4 + 6 * length k + written_size v) m)"
    by (intro sum_list_mono) auto
  moreover have "map (\<lambda>(k, v). indent WM_Compact (Suc d) @ write_string k @ '':''
      @ (if WM_Compact = WM_Pretty then '' '' else []) @ write_value WM_Compact (Suc d) v) m = map ?f m"
    by (simp add: indent_def)
  ultimately show ?case using commas_size [of "map ?f m"] by (simp add: indent_def o_def)
qed simp_all

lemma nodes_written: "json_nodes v \<le> written_size v"
proof (induction v)
  case (J_Array a)
  have "sum_list (map json_nodes a) \<le> sum_list (map (\<lambda>v. 1 + written_size v) a)"
    by (rule sum_list_mono) (use J_Array in \<open>simp add: le_SucI\<close>)
  then show ?case by simp
next
  case (J_Object m)
  have "sum_list (map (\<lambda>(k, v). json_nodes v) m) \<le> sum_list (map (\<lambda>(k, v). 4 + 6 * length k + written_size v) m)"
  proof (rule sum_list_mono)
    fix p assume p: "p \<in> set m"
    obtain k v where kv: "p = (k, v)" by (cases p)
    show "(case p of (k, v) \<Rightarrow> json_nodes v) \<le> (case p of (k, v) \<Rightarrow> 4 + 6 * length k + written_size v)"
      using J_Object [of "(k, v)" v] p by (simp add: kv)
  qed
  then show ?case by simp
qed simp_all

definition members_size :: "json omap \<Rightarrow> nat" where
  "members_size m = (\<Sum>(k, v) \<leftarrow> m. 4 + 6 * length k + written_size v)"

lemma members_size_simps [simp]:
  "members_size [] = 0" "members_size ((k, v) # m) = 4 + 6 * length k + written_size v + members_size m"
  "members_size (xs @ ys) = members_size xs + members_size ys"
  by (simp_all add: members_size_def)

lemma members_size_put: "members_size (om_put k v m) \<le> 4 + 6 * length k + written_size v + members_size m"
  by (induction k v m rule: om_put.induct) auto

lemma written_obj: "written_size (obj kvs) \<le> 2 + members_size kvs"
proof -
  have "members_size (fold (\<lambda>(k, v). om_put k v) kvs m) \<le> members_size kvs + members_size m" for m
  proof (induction kvs arbitrary: m)
    case (Cons kv kvs)
    obtain k v where kv: "kv = (k, v)" by (cases kv)
    show ?case using members_size_put [of k v m] Cons.IH [of "om_put k v m"] unfolding kv by simp
  qed simp
  from this [of "[]"] show ?thesis by (simp add: obj_object members_size_def)
qed

lemma dec_digits_zero: "length (dec_digits 0) = 1"
  by (simp add: dec_digits.simps)

lemma node_written: "written_size (node_to_json i (self_node t n k)) \<le> 8000 + 6 * length n + 6 * length (node_type_to_string t)"
proof -
  have "written_size (native_to_json default_native) \<le> 3000"
    unfolding native_to_json_def by (rule order_trans [OF written_obj]) (simp add: optional_uint_def default_native_def)
  moreover have "written_size (provenance_to_json provenance_unknown) \<le> 2000"
    unfolding provenance_to_json_def
    by (rule order_trans [OF written_obj]) (simp add: provenance_unknown_def int_to_string_def dec_digits_zero)
  moreover have "written_size (properties_to_json []) \<le> 2"
    unfolding properties_to_json_def by (rule order_trans [OF written_obj]) simp
  ultimately show ?thesis
    unfolding node_to_json_def
    by (intro order_trans [OF written_obj])
      (simp add: self_node_def default_node_def length_to_hex CAP_NONE_def dec_digits_zero)
qed

lemma edge_written:
  "written_size (edge_to_json (default_edge \<lparr> e_source := i, e_target := j, e_type := t, e_direction := d \<rparr>))
   \<le> 8000 + 6 * length (edge_type_to_string t) + 6 * length (edge_direction_to_string d)"
proof -
  have "written_size (provenance_to_json provenance_unknown) \<le> 2000"
    unfolding provenance_to_json_def
    by (rule order_trans [OF written_obj]) (simp add: provenance_unknown_def int_to_string_def dec_digits_zero)
  moreover have "written_size (properties_to_json []) \<le> 2"
    unfolding properties_to_json_def by (rule order_trans [OF written_obj]) simp
  ultimately show ?thesis
    unfolding edge_to_json_def
    by (intro order_trans [OF written_obj])
      (simp add: default_edge_def length_to_hex optional_field_def int_to_string_def dec_digits_zero)
qed

section \<open>The graph of the self test\<close>

definition self_first :: topology_node where
  "self_first = self_node NT_CPU_THREAD ''t0'' ''x0''"

definition self_second :: topology_node where
  "self_second = self_node NT_ACCELERATOR ''g0'' ''x1''"

definition self_edge :: topology_edge where
  "self_edge = default_edge \<lparr> e_source := n_id self_first, e_target := n_id self_second, e_type := ET_CONNECTED_TO,
     e_direction := ED_UNDIRECTED \<rparr>"

lemma self_ids: "n_id self_first \<noteq> n_id self_second"
  using stable_hash128_byte [of "''tf|node|x''" "CHR ''0''" "[]"]
  by (simp add: self_first_def self_second_def self_node_def derive_node_id_def)

lemma self_builder_eq:
  "self_builder self_first self_second = (new_builder default_bounds)
     \<lparr> bd_nodes := [(n_id self_first, self_first), (n_id self_second, self_second)], bd_edges := [self_edge] \<rparr>"
  using self_ids
  by (simp add: self_builder_def new_builder_def default_bounds_def add_node_def add_edge_def um_emplace_def um_count_def
      um_find_def self_edge_def Let_def)

definition self_snapshot :: topology_snapshot where
  "self_snapshot = snd (projr (take_snapshot (self_builder self_first self_second)))"

lemma self_taken: "\<exists>bd. take_snapshot (self_builder self_first self_second) = Inr (bd, self_snapshot)"
  by (simp add: self_snapshot_def take_snapshot_def self_builder_eq new_builder_def Let_def)

lemma self_reach: "builder_reach (self_builder self_first self_second)"
proof -
  have "self_builder self_first self_second
      = fold run_op [Op_add_node self_first, Op_add_node self_second, Op_add_edge self_edge] (new_builder default_bounds)"
    by (simp add: self_builder_def self_edge_def Let_def)
  then show ?thesis using builder_reach_ops [OF builder_reach.fresh] by metis
qed

lemma self_parts:
  "s_nodes self_snapshot = [(n_id self_first, self_first), (n_id self_second, self_second)]"
  "s_edges self_snapshot = [self_edge]" "s_metadata self_snapshot = default_metadata" "s_bounds self_snapshot = default_bounds"
  "s_validation self_snapshot = validate [(n_id self_first, self_first), (n_id self_second, self_second)] [self_edge]"
  by (simp_all add: self_snapshot_def take_snapshot_def self_builder_eq new_builder_def Let_def default_validation_def)

lemma self_types: "n_type self_first = NT_CPU_THREAD" "n_type self_second = NT_ACCELERATOR"
  "n_native self_first = default_native" "n_native self_second = default_native" "e_type self_edge = ET_CONNECTED_TO"
  "e_source self_edge = n_id self_first" "e_target self_edge = n_id self_second"
  by (simp_all add: self_first_def self_second_def self_node_def default_node_def self_edge_def)

lemma self_key: "canonical_key default_native = []" "\<not> has_pci default_native"
  by (simp_all add: canonical_key_def default_native_def has_pci_def)

lemma self_no_cycle: "\<not> has_cycle (children_map [self_edge])"
proof -
  have "children_map [self_edge] = []" by (simp add: children_map_def self_types)
  then show ?thesis by (simp add: has_cycle_def in_degrees_def)
qed

lemma self_validation: "s_validation self_snapshot = default_validation"
proof -
  let ?ns = "[(n_id self_first, self_first), (n_id self_second, self_second)]"
  have ends: "check_ends ?ns self_edge v = v" for v using self_ids by (simp add: check_ends_def um_find_def self_types)
  have ident: "check_identity (i, self_first) vs = vs" "check_identity (i, self_second) vs = vs" for i vs
    by (simp_all add: check_identity_def self_types self_key Let_def)
  have acc: "check_accelerator sk (i, self_first) v = v" "check_accelerator sk (i, self_second) v = v" for sk i v
    by (simp_all add: check_accelerator_def self_types self_key)
  have rest: "check_self self_edge v = v" "check_peer pk self_edge v = v" for v pk
    by (simp_all add: check_self_def check_peer_def self_types)
  show ?thesis unfolding self_parts validate_def Let_def by (simp add: ends ident acc rest self_no_cycle)
qed

lemma self_valid: "valid_snapshot self_snapshot"
proof -
  obtain bd where "take_snapshot (self_builder self_first self_second) = Inr (bd, self_snapshot)" using self_taken by blast
  then show ?thesis using self_reach by (auto simp: valid_snapshot_def made_snapshot_def self_validation default_validation_def)
qed

lemma self_path: "\<exists>p. shortest_path self_snapshot (n_id self_first) (n_id self_second) False = Some (Inr p) \<and> p_found p"
proof -
  have "find_node self_snapshot (n_id self_first) \<noteq> None" "find_node self_snapshot (n_id self_second) \<noteq> None"
    using self_ids by (simp_all add: find_node_def self_parts um_find_def)
  moreover have "route self_snapshot False (n_id self_first) [(n_id self_first, 0, n_id self_second)] (n_id self_second)"
    by (simp add: link_def self_parts self_types collocation_edge_def)
  ultimately show ?thesis
    using shortest_path_total [OF valid_wf [OF self_valid] valid_closed [OF self_valid]] by blast
qed

section \<open>Its document\<close>

lemma self_texts: "text_ok []" "text_ok ''1.0''" "text_ok ''t0''" "text_ok ''g0''"
  by (rule short_ok, simp add: short_def less_char_def)+

lemma self_ok: "snapshot_ok self_snapshot"
proof -
  have p: "provenance_ok provenance_unknown" by (simp add: provenance_ok_def provenance_unknown_def self_texts)
  have "node_ok self_first" "node_ok self_second"
    by (simp_all add: self_first_def self_second_def self_node_def node_ok_def default_node_def native_ok_def default_native_def
        self_texts p properties_ok_def CAP_NONE_def)
  moreover have "edge_ok self_edge" by (simp add: edge_ok_def self_edge_def default_edge_def p properties_ok_def)
  ultimately show ?thesis
    by (simp add: snapshot_ok_def self_parts(1-3) self_validation default_validation_def metadata_ok_def messages_ok_def
        default_metadata_def self_texts)
qed

lemma self_document: "written_size (document self_snapshot) \<le> 30000"
proof -
  have order: "nodes_by_id self_snapshot = [self_first, self_second] \<or> nodes_by_id self_snapshot = [self_second, self_first]"
    using self_ids by (simp add: nodes_by_id_def id_order_def self_parts um_keys_def um_find_def)
  have node: "written_size (node_to_json i self_first) \<le> 8200" "written_size (node_to_json i self_second) \<le> 8200" for i
    unfolding self_first_def self_second_def by (rule order_trans [OF node_written], simp)+
  have edge: "written_size (edge_to_json self_edge) \<le> 8200"
    unfolding self_edge_def by (rule order_trans [OF edge_written]) simp
  have ns: "written_size (J_Array (map (\<lambda>n. node_to_json (n_id n) n) (nodes_by_id self_snapshot))) \<le> 16500"
    using order node [of "n_id self_first"] node [of "n_id self_second"] by auto
  have es: "written_size (J_Array (map edge_to_json (sort_by edge_before (s_edges self_snapshot)))) \<le> 8300"
    using edge by (simp add: self_parts)
  have v: "written_size (validation_to_json (s_validation self_snapshot)) \<le> 200"
    unfolding validation_to_json_def self_validation by (rule order_trans [OF written_obj]) (simp add: default_validation_def)
  show ?thesis
    unfolding document_def
    by (rule order_trans [OF written_obj])
      (use ns es v in \<open>simp add: self_parts(3) default_metadata_def kSnapshotSchemaVersion_def format_name_def int_to_string_def
        dec_digits_zero\<close>)
qed

lemma self_round:
  "self_round_trip co ub self_snapshot True = Some (printed (line ''selftest: OK''))"
proof -
  note wf = valid_wf [OF self_valid]
  have n: "json_nodes (document self_snapshot) \<le> po_max_nodes default_options"
    using order_trans [OF nodes_written self_document] by (simp add: default_options_def)
  have "length (dump (document self_snapshot) WM_Compact) \<le> 30000"
    using order_trans [OF written_bound self_document] by (simp add: dump_def)
  then have l: "length (dump (document self_snapshot) WM_Compact) \<le> b_max_snapshot_bytes default_bounds"
    by (simp add: default_bounds_def)
  have b: "length (s_nodes self_snapshot) \<le> b_max_nodes default_bounds" "length (s_edges self_snapshot) \<le> b_max_edges default_bounds"
    by (simp_all add: self_parts default_bounds_def)
  obtain s' where s': "deserialize_snapshot_json ub (dump (document self_snapshot) WM_Compact) default_bounds = Some (Inr s')"
    and same: "\<forall>i. um_find (s_nodes s') i = um_find (s_nodes self_snapshot) i"
    using deserialize_written [OF wf self_ok b n l] by blast
  have "made_snapshot s'"
    using deserialize_result [of ub "dump (document self_snapshot) WM_Compact" default_bounds] s' by simp
  then have "distinct (um_keys (s_nodes s'))" using wf_ok [OF made_wf] by (simp add: um_ok_def)
  moreover have "k \<in> set (um_keys (s_nodes s')) \<longleftrightarrow> k \<in> set (um_keys (s_nodes self_snapshot))" for k
    using same um_find_None_iff [of "s_nodes s'" k] um_find_None_iff [of "s_nodes self_snapshot" k] by auto
  then have "set (um_keys (s_nodes s')) = {n_id self_first, n_id self_second}" by (auto simp: self_parts um_keys_def)
  ultimately have "length (um_keys (s_nodes s')) = 2" using distinct_card [of "um_keys (s_nodes s')"] self_ids by simp
  then have "length (s_nodes s') = 2" by (simp add: um_keys_def)
  then show ?thesis
    by (simp add: self_round_trip_def serialize_snapshot_json_def snapshot_document [OF wf] s')
qed

section \<open>Properties\<close>

text \<open>C20: the self test always ends: it prints its success, and nothing else, with the exit code 0.\<close>

theorem selftest_passes: "cmd_selftest co ub = Some (printed (line ''selftest: OK''))"
proof -
  obtain bd where t: "take_snapshot (self_builder self_first self_second) = Inr (bd, self_snapshot)" using self_taken by blast
  obtain p where "shortest_path self_snapshot (n_id self_first) (n_id self_second) False = Some (Inr p)" "p_found p"
    using self_path by blast
  then show ?thesis
    unfolding cmd_selftest_def self_first_def [symmetric] self_second_def [symmetric] Let_def
    by (simp add: t self_round)
qed

end
