(* ===== verification/TF_Bench.thy ===== *)
theory TF_Bench
  imports TF_Demos TF_Selftest
begin

text \<open>
  The benchmark graph is a star of any size. When the derived ids do not collide, a round of the benchmark runs
  through: the graph is valid, every path query finds a path, the document is written and read back, and comparing
  the graph with itself gives no event.
\<close>

section \<open>The graph\<close>

definition bench_ids :: "nat \<Rightarrow> node_id list" where
  "bench_ids n = n_id bench_machine # map (\<lambda>i. n_id (bench_resource i)) [0..<n]"

definition bench_nodes :: "nat \<Rightarrow> topology_node list" where
  "bench_nodes n = bench_machine # map bench_resource [0..<n]"

definition bench_edges :: "nat \<Rightarrow> topology_edge list" where
  "bench_edges n = map (\<lambda>i. bench_edge (bench_resource i)) [0..<n]"

lemma bench_ids_nodes: "bench_ids n = map n_id (bench_nodes n)"
  by (simp add: bench_ids_def bench_nodes_def)

lemma bench_builder_Suc:
  "bench_builder (Suc n) = fst (add_edge (bench_edge (bench_resource n)) (fst (add_node (bench_resource n) (bench_builder n))))"
  by (simp add: bench_builder_def)

lemma bench_frame: "bd_taken (bench_builder n) = False" "bd_bounds (bench_builder n) = bench_bounds"
  "bd_metadata (bench_builder n) = default_metadata \<lparr> m_synthetic := True, m_generation := 1 \<rparr>"
  by (induction n) (simp_all add: bench_builder_Suc, simp_all add: bench_builder_def set_metadata_def new_builder_def)

lemma bench_all_parts:
  assumes "distinct (bench_ids n)" and "n < 100000"
  shows "bd_nodes (bench_builder n) = map (\<lambda>m. (n_id m, m)) (bench_nodes n) \<and> bd_edges (bench_builder n) = bench_edges n
    \<and> bd_validation (bench_builder n) = default_validation"
  using assms
proof (induction n)
  case 0
  show ?case
    by (simp add: bench_builder_def bench_nodes_def bench_edges_def add_node_def set_metadata_def new_builder_def
        um_emplace_def um_count_def bench_bounds_def)
next
  case (Suc n)
  have less: "length (bench_nodes n) = Suc n" "length (bench_edges n) = n" by (simp_all add: bench_nodes_def bench_edges_def)
  have ids: "distinct (bench_ids n)" "n_id (bench_resource n) \<notin> set (bench_ids n)"
    using Suc.prems(1) by (auto simp: bench_ids_def)
  from Suc.IH [OF ids(1) Suc_lessD [OF Suc.prems(2)]]
  have IH: "bd_nodes (bench_builder n) = map (\<lambda>m. (n_id m, m)) (bench_nodes n)" "bd_edges (bench_builder n) = bench_edges n"
    "bd_validation (bench_builder n) = default_validation" by auto
  have new: "\<not> um_count (map (\<lambda>m. (n_id m, m)) (bench_nodes n)) (n_id (bench_resource n))"
    using ids(2) by (simp add: um_count_iff um_keys_def bench_ids_nodes comp_def)
  have room: "b_max_nodes bench_bounds = 100000" "b_max_edges bench_bounds = 500000" by (simp_all add: bench_bounds_def)
  have add: "add_node (bench_resource n) (bench_builder n)
    = (bench_builder n \<lparr> bd_nodes := bd_nodes (bench_builder n) @ [(n_id (bench_resource n), bench_resource n)] \<rparr>, True)"
    using Suc.prems(2) new by (simp add: add_node_def bench_frame IH(1) room less um_emplace_def)
  show ?case
    using Suc.prems(2) by (simp add: bench_builder_Suc add add_edge_def bench_frame IH room less)
      (simp add: bench_nodes_def bench_edges_def)
qed

lemmas bench_parts = bench_all_parts [THEN conjunct1] bench_all_parts [THEN conjunct2, THEN conjunct1]
  bench_all_parts [THEN conjunct2, THEN conjunct2]

lemma bench_reach: "builder_reach (bench_builder n)"
proof (induction n)
  case 0
  have "bench_builder 0 = fold run_op [Op_set_metadata (default_metadata \<lparr> m_synthetic := True, m_generation := 1 \<rparr>),
    Op_add_node bench_machine] (new_builder bench_bounds)" by (simp add: bench_builder_def)
  then show ?case using builder_reach_ops [OF builder_reach.fresh] by metis
next
  case (Suc n)
  have "bench_builder (Suc n) = fold run_op [Op_add_node (bench_resource n), Op_add_edge (bench_edge (bench_resource n))]
    (bench_builder n)" by (simp add: bench_builder_Suc)
  then show ?case using builder_reach_ops [OF Suc] by metis
qed

definition bench_snapshot :: "nat \<Rightarrow> topology_snapshot" where
  "bench_snapshot n = projr (make_graph n)"

lemma bench_taken: "\<exists>bd. take_snapshot (bench_builder n) = Inr (bd, bench_snapshot n)"
  by (auto simp: bench_snapshot_def make_graph_def take_snapshot_def bench_frame Let_def)

lemma make_graph_eq: "make_graph n = Inr (bench_snapshot n)"
  using bench_taken [of n] by (auto simp: make_graph_def)

lemma bench_ends: "e_source (bench_edge r) = n_id bench_machine" "e_target (bench_edge r) = n_id r"
  "e_type (bench_edge r) = ET_CONTAINS" "metrics_ok (bench_edge r)"
  by (simp_all add: bench_edge_def default_edge_def metrics_ok_def)

lemma bench_native: "x \<in> set (bench_nodes n) \<Longrightarrow> n_native x = default_native"
  by (auto simp: bench_nodes_def bench_machine_def bench_resource_def bench_node_def default_node_def)

lemma bench_snapshot_parts:
  assumes "distinct (bench_ids n)" and "n < 100000"
  shows "s_nodes (bench_snapshot n) = map (\<lambda>m. (n_id m, m)) (bench_nodes n)" "s_edges (bench_snapshot n) = bench_edges n"
    and "valid_snapshot (bench_snapshot n)"
proof -
  obtain bd where t: "take_snapshot (bench_builder n) = Inr (bd, bench_snapshot n)" using bench_taken by blast
  note wf = builder_reach_wf [OF bench_reach] and parts = bench_parts [OF assms]
  show ns: "s_nodes (bench_snapshot n) = map (\<lambda>m. (n_id m, m)) (bench_nodes n)" "s_edges (bench_snapshot n) = bench_edges n"
    using take_snapshot_ok(2,3) [OF wf t] parts by simp_all
  have "\<forall>e \<in> set (bench_edges n). known_ends (map (\<lambda>m. (n_id m, m)) (bench_nodes n)) e"
    by (auto simp: bench_edges_def known_ends_def bench_ends um_find_None_iff um_keys_def bench_nodes_def)
  moreover have "keys_apart (map (\<lambda>m. (n_id m, m)) (bench_nodes n))"
    by (auto simp: keys_apart_def native_key_def self_key bench_native)
  moreover have "acyclic (contains_rel (bench_edges n))"
  proof -
    have "contains_rel (bench_edges n) = {} \<union> {n_id bench_machine} \<times> set (map (\<lambda>i. n_id (bench_resource i)) [0..<n])"
      unfolding contains_rel_def bench_edges_def by (force simp: bench_ends)
    moreover have "n_id bench_machine \<notin> set (map (\<lambda>i. n_id (bench_resource i)) [0..<n])"
      using assms(1) by (simp add: bench_ids_def)
    ultimately show ?thesis using acyclic_star [of "{}" "n_id bench_machine"] by (simp add: acyclic_def)
  qed
  ultimately have "v_ok (s_validation (bench_snapshot n))"
    using take_snapshot_ok(4) [OF wf t] parts by (simp add: graph_ok_def default_validation_def)
  then show "valid_snapshot (bench_snapshot n)"
    using t bench_reach by (auto simp: valid_snapshot_def made_snapshot_def)
qed

section \<open>The queries\<close>

lemma star_link: "i < n \<Longrightarrow> distinct (bench_ids n) \<Longrightarrow> n < 100000 \<Longrightarrow>
    link (bench_snapshot n) False (n_id bench_machine) i (n_id (bench_resource i))
    \<and> link (bench_snapshot n) False (n_id (bench_resource i)) i (n_id bench_machine)"
  by (simp add: link_def bench_snapshot_parts(2) bench_edges_def bench_ends collocation_edge_def)

lemma star_route:
  assumes "distinct (bench_ids n)" and "n < 100000" and "a \<in> set (bench_ids n)" and "b \<in> set (bench_ids n)"
  shows "\<exists>ts. route (bench_snapshot n) False a ts b"
proof -
  have out: "\<exists>ts. route (bench_snapshot n) False (n_id bench_machine) ts b"
  proof (cases "b = n_id bench_machine")
    case True
    then have "route (bench_snapshot n) False (n_id bench_machine) [] b" by simp
    then show ?thesis by blast
  next
    case False
    then obtain i where "i < n" "b = n_id (bench_resource i)" using assms(4) by (auto simp: bench_ids_def)
    then have "route (bench_snapshot n) False (n_id bench_machine) [(n_id bench_machine, i, b)] b"
      using star_link [OF _ assms(1,2)] by simp
    then show ?thesis by blast
  qed
  show ?thesis
  proof (cases "a = n_id bench_machine")
    case False
    then obtain i where i: "i < n" "a = n_id (bench_resource i)" using assms(3) by (auto simp: bench_ids_def)
    obtain ts where "route (bench_snapshot n) False (n_id bench_machine) ts b" using out by blast
    then have "route (bench_snapshot n) False a ((a, i, n_id bench_machine) # ts) b"
      using star_link [OF i(1) assms(1,2)] i(2) by simp
    then show ?thesis by blast
  qed (use out in simp)
qed

lemma bench_known:
  assumes "distinct (bench_ids n)" and "n < 100000" and "a \<in> set (bench_ids n)"
  shows "find_node (bench_snapshot n) a \<noteq> None"
  using assms(3)
  by (simp add: find_node_def um_find_None_iff um_keys_def bench_snapshot_parts(1) [OF assms(1,2)] bench_ids_nodes comp_def)

lemma bench_policy:
  assumes "distinct (bench_ids n)" and "n < 100000"
  shows "policy_ok (bench_snapshot n) default_weights"
  by (auto simp: policy_ok_def default_weights_nonneg bench_snapshot_parts(2) [OF assms] bench_edges_def bench_ends)

lemma bench_paths_all:
  assumes "distinct (bench_ids n)" and "n < 100000" and "set ids \<subseteq> set (bench_ids n)" and "ids \<noteq> []"
  shows "bench_paths (bench_snapshot n) ids cnt ks = Some (Inr (cnt + length ks))"
proof (induction ks arbitrary: cnt)
  case (Cons k ks)
  note valid = bench_snapshot_parts(3) [OF assms(1,2)]
  have ids: "ids ! 0 \<in> set (bench_ids n)" "ids ! (k mod length ids) \<in> set (bench_ids n)"
    using assms(3,4) nth_mem [of _ ids] by auto
  obtain na nb where n: "find_node (bench_snapshot n) (ids ! 0) = Some na"
    "find_node (bench_snapshot n) (ids ! (k mod length ids)) = Some nb"
    using bench_known [OF assms(1,2)] ids by blast
  obtain p where "lowest_cost_path (bench_snapshot n) (ids ! 0) (ids ! (k mod length ids)) default_weights = Some (Inr p)" "p_found p"
    using lowest_cost_path_total [OF valid_wf [OF valid] valid_closed [OF valid] bench_policy [OF assms(1,2)] n]
      star_route [OF assms(1,2) ids] by blast
  then show ?case using Cons.IH [of "cnt + 1"] by simp
qed simp

section \<open>Validation and sizes\<close>

lemma fold_unchanged: "(\<And>x v. x \<in> set xs \<Longrightarrow> f x v = v) \<Longrightarrow> fold f xs v = v"
  by (induction xs) auto

lemma bench_types: "x \<in> set (bench_nodes n) \<Longrightarrow> n_type x \<noteq> NT_UNKNOWN"
proof -
  have "bench_type i \<in> set [NT_CPU_PACKAGE, NT_CPU_CORE, NT_CPU_THREAD, NT_NUMA_NODE, NT_HOST_MEMORY_DOMAIN, NT_ACCELERATOR]" for i
    unfolding bench_type_def by (rule nth_mem) simp
  then have "bench_type i \<noteq> NT_UNKNOWN" for i by (metis (no_types, lifting) empty_iff empty_set insert_iff list.simps(15) node_type.distinct)
  then show "x \<in> set (bench_nodes n) \<Longrightarrow> n_type x \<noteq> NT_UNKNOWN"
    by (auto simp: bench_nodes_def bench_machine_def bench_resource_def bench_node_def)
qed

lemma bench_validation:
  assumes "distinct (bench_ids n)" and "n < 100000"
  shows "s_validation (bench_snapshot n) = default_validation"
proof -
  let ?ns = "map (\<lambda>m. (n_id m, m)) (bench_nodes n)"
  obtain bd where t: "take_snapshot (bench_builder n) = Inr (bd, bench_snapshot n)" using bench_taken by blast
  have "graph_ok ?ns (bench_edges n)"
    using bench_snapshot_parts [OF assms] take_snapshot_ok(4) [OF builder_reach_wf [OF bench_reach] t] bench_parts [OF assms]
    by (simp add: valid_snapshot_def)
  then have graph: "\<forall>e \<in> set (bench_edges n). known_ends ?ns e" "acyclic (contains_rel (bench_edges n))"
    by (simp_all add: graph_ok_def)
  have e: "e_type e = ET_CONTAINS" "e_source e \<noteq> e_target e" if "e \<in> set (bench_edges n)" for e
    using that acyclic_no_self [OF graph(2) that] by (auto simp: bench_edges_def bench_ends)
  have "fold (check_ends ?ns) (bench_edges n) v = v" for v
    by (rule fold_unchanged) (use graph(1) in \<open>auto simp: check_ends_def known_ends_def Let_def\<close>)
  moreover have "fold check_identity ?ns vs = vs" for vs
    by (rule fold_unchanged) (auto simp: check_identity_def bench_native bench_types self_key Let_def)
  moreover have "fold check_self (bench_edges n) v = v" for v
    by (rule fold_unchanged) (simp add: check_self_def e)
  moreover have "fold (check_peer pk) (bench_edges n) v = v" for pk v
    by (rule fold_unchanged) (simp add: check_peer_def e)
  moreover have "fold (check_accelerator sk) ?ns v = v" for sk v
    by (rule fold_unchanged) (auto simp: check_accelerator_def bench_native self_key)
  moreover have "\<not> has_cycle (children_map (bench_edges n))" using graph(2) by (simp add: contains_cycle_iff)
  ultimately have "validate ?ns (bench_edges n) = default_validation" by (simp add: validate_def Let_def)
  then show ?thesis
    using bench_parts [OF assms]
    by (simp add: bench_snapshot_def make_graph_def take_snapshot_def bench_frame Let_def default_validation_def)
qed

lemma bench_metadata: "s_metadata (bench_snapshot n) = default_metadata \<lparr> m_synthetic := True, m_generation := 1 \<rparr>"
  by (simp add: bench_snapshot_def make_graph_def take_snapshot_def bench_frame Let_def)

lemma bench_texts: "text_ok []" "text_ok ''1.0''" "text_ok ''bench''" "text_ok ''machine''"
  by (rule short_ok, simp add: short_def less_char_def)+

lemma bench_name: "n < 100000 \<Longrightarrow> short (CHR ''r'' # dec_digits n)"
  using dec_digits_length [of n 5] dec_digits_digits [of n]
  by (fastforce simp: short_def list_all_iff is_digit_iff less_char_def)

lemma bench_node_cases:
  assumes "x \<in> set (bench_nodes n)" and "n < 100000"
  obtains key t name where "x = bench_node key t name" and "text_ok name" and "length name \<le> 40"
proof (cases "x = bench_machine")
  case True
  then show ?thesis using that [of "''m''" NT_MACHINE "''machine''"] by (simp add: bench_machine_def bench_texts)
next
  case False
  then obtain i where "i < n" "x = bench_resource i" using assms(1) by (auto simp: bench_nodes_def)
  then show ?thesis
    using that [of "CHR ''r'' # dec_digits i" "bench_type i" "CHR ''r'' # dec_digits i"] bench_name [of i] assms(2) short_ok
    by (simp add: bench_resource_def short_def)
qed

definition bench_provenance :: provenance where
  "bench_provenance = provenance_user_supplied CF_HIGH ''bench''"

lemma bench_provenance_size: "json_nodes (provenance_to_json bench_provenance) \<le> 9"
  "written_size (provenance_to_json bench_provenance) \<le> 3000" "provenance_ok bench_provenance"
proof -
  note simps = bench_provenance_def provenance_user_supplied_def provenance_unknown_def
  show "json_nodes (provenance_to_json bench_provenance) \<le> 9"
    unfolding provenance_to_json_def by (rule order_trans [OF json_nodes_obj]) simp
  show "written_size (provenance_to_json bench_provenance) \<le> 3000"
    unfolding provenance_to_json_def
    by (rule order_trans [OF written_obj]) (simp add: simps int_to_string_def dec_digits_zero)
  show "provenance_ok bench_provenance" by (simp add: provenance_ok_def simps bench_texts)
qed

lemma empty_properties_size: "json_nodes (properties_to_json []) \<le> 1" "written_size (properties_to_json []) \<le> 2"
  unfolding properties_to_json_def by (rule order_trans [OF json_nodes_obj], simp) (rule order_trans [OF written_obj], simp)

lemma bench_node_size:
  assumes "length name \<le> 40"
  shows "json_nodes (node_to_json i (bench_node key t name)) \<le> 60" "written_size (node_to_json i (bench_node key t name)) \<le> 9000"
proof -
  note simps = bench_node_def default_node_def bench_provenance_def [symmetric]
  have "json_nodes (native_to_json default_native) \<le> 23"
    unfolding native_to_json_def by (rule order_trans [OF json_nodes_obj]) (simp add: optional_uint_def default_native_def)
  then show "json_nodes (node_to_json i (bench_node key t name)) \<le> 60"
    unfolding node_to_json_def using bench_provenance_size empty_properties_size
    by (intro order_trans [OF json_nodes_obj]) (simp add: simps)
  have "written_size (native_to_json default_native) \<le> 3000"
    unfolding native_to_json_def by (rule order_trans [OF written_obj]) (simp add: optional_uint_def default_native_def)
  moreover have "length (node_type_to_string t) \<le> 40" using short_names(3) by (simp add: short_def)
  ultimately show "written_size (node_to_json i (bench_node key t name)) \<le> 9000"
    unfolding node_to_json_def using bench_provenance_size empty_properties_size assms
    by (intro order_trans [OF written_obj]) (simp add: simps length_to_hex CAP_NONE_def dec_digits_zero)
qed

lemma bench_edge_size: "json_nodes (edge_to_json (bench_edge r)) \<le> 60" "written_size (edge_to_json (bench_edge r)) \<le> 9000"
proof -
  note simps = bench_edge_def default_edge_def optional_field_def bench_provenance_def [symmetric]
  show "json_nodes (edge_to_json (bench_edge r)) \<le> 60"
    unfolding edge_to_json_def using bench_provenance_size empty_properties_size
    by (intro order_trans [OF json_nodes_obj]) (simp add: simps)
  show "written_size (edge_to_json (bench_edge r)) \<le> 9000"
    unfolding edge_to_json_def using bench_provenance_size empty_properties_size
    by (intro order_trans [OF written_obj]) (simp add: simps length_to_hex int_to_string_def dec_digits_zero)
qed

section \<open>A whole round\<close>

lemma sum_list_bound: "(\<And>x. x \<in> set xs \<Longrightarrow> f x \<le> (k::nat)) \<Longrightarrow> sum_list (map f xs) \<le> length xs * k"
  by (induction xs) (auto intro: add_mono)

lemma by_id_member: "snapshot_wf s \<Longrightarrow> x \<in> set (nodes_by_id s) \<Longrightarrow> (n_id x, x) \<in> set (s_nodes s)"
  using id_order_node [of s] by (fastforce simp: nodes_by_id_def)

lemma bench_document:
  assumes "distinct (bench_ids n)" and "n \<le> 25000"
  shows "json_nodes (document (bench_snapshot n)) \<le> 120 * n + 200"
    "written_size (document (bench_snapshot n)) \<le> 18100 * n + 30000"
proof -
  let ?s = "bench_snapshot n"
  let ?ns = "map (\<lambda>n. node_to_json (n_id n) n) (nodes_by_id ?s)" and ?es = "map edge_to_json (sort_by edge_before (s_edges ?s))"
  have n: "n < 100000" using assms(2) by simp
  note parts = bench_snapshot_parts [OF assms(1) n]
  have node: "json_nodes v \<le> 60 \<and> 1 + written_size v \<le> 9001" if v: "v \<in> set ?ns" for v
  proof -
    obtain x where x: "v = node_to_json (n_id x) x" "x \<in> set (nodes_by_id ?s)" using v by auto
    then have "x \<in> set (bench_nodes n)" using by_id_member [OF valid_wf [OF parts(3)] x(2)] parts(1) by auto
    then obtain key t name where "x = bench_node key t name" "length name \<le> 40" using bench_node_cases [OF _ n] by metis
    then show ?thesis using bench_node_size [of name "n_id x" key t] x(1) by simp
  qed
  have edge: "json_nodes v \<le> 60 \<and> 1 + written_size v \<le> 9001" if "v \<in> set ?es" for v
    using that bench_edge_size by (auto simp: parts(2) bench_edges_def simp del: sort_by.simps)
  have len: "length ?ns = Suc n" "length ?es = n"
    by (simp_all add: nodes_by_id_def id_order_def um_keys_def parts bench_nodes_def bench_edges_def del: sort_by.simps)
  have ns: "sum_list (map json_nodes ?ns) \<le> Suc n * 60" "sum_list (map (\<lambda>v. 1 + written_size v) ?ns) \<le> Suc n * 9001"
    using sum_list_bound [of ?ns json_nodes 60] sum_list_bound [of ?ns "\<lambda>v. 1 + written_size v" 9001] node len by auto
  have es: "sum_list (map json_nodes ?es) \<le> n * 60" "sum_list (map (\<lambda>v. 1 + written_size v) ?es) \<le> n * 9001"
    using sum_list_bound [of ?es json_nodes 60] sum_list_bound [of ?es "\<lambda>v. 1 + written_size v" 9001] edge len by auto
  have v: "json_nodes (validation_to_json (s_validation ?s)) \<le> 4" "written_size (validation_to_json (s_validation ?s)) \<le> 200"
    unfolding validation_to_json_def bench_validation [OF assms(1) n]
    by (rule order_trans [OF json_nodes_obj], simp add: default_validation_def)
      (rule order_trans [OF written_obj], simp add: default_validation_def)
  show "json_nodes (document ?s) \<le> 120 * n + 200"
    unfolding document_def
    by (rule order_trans [OF json_nodes_obj]) (use ns es v in \<open>simp add: bench_metadata default_metadata_def\<close>)
  have "length (dec_digits 1) = 1" by (simp add: dec_digits.simps)
  then show "written_size (document ?s) \<le> 18100 * n + 30000"
    unfolding document_def
    by (intro order_trans [OF written_obj])
      (use ns es v in \<open>simp add: bench_metadata default_metadata_def kSnapshotSchemaVersion_def format_name_def int_to_string_def
        dec_digits_zero\<close>)
qed

lemma bench_ok:
  assumes "distinct (bench_ids n)" and "n \<le> 25000"
  shows "snapshot_ok (bench_snapshot n)"
proof -
  have n: "n < 100000" using assms(2) by simp
  note parts = bench_snapshot_parts [OF assms(1) n] and prov = bench_provenance_size(3) [unfolded bench_provenance_def]
  have "node_ok x" if "x \<in> set (bench_nodes n)" for x
    using that n
  proof (rule bench_node_cases)
    fix key t name assume "x = bench_node key t name" "text_ok name"
    then show "node_ok x"
      by (simp add: bench_node_def node_ok_def default_node_def native_ok_def default_native_def bench_texts prov
          properties_ok_def CAP_NONE_def)
  qed
  moreover have "edge_ok e" if "e \<in> set (bench_edges n)" for e
    using that prov by (auto simp: bench_edges_def bench_edge_def edge_ok_def default_edge_def properties_ok_def)
  ultimately show ?thesis
    by (auto simp: snapshot_ok_def parts(1,2) list_all_iff bench_validation [OF assms(1) n] default_validation_def bench_metadata
        metadata_ok_def messages_ok_def default_metadata_def bench_texts)
qed

lemma bench_comparable:
  assumes "distinct (bench_ids n)" and "n < 100000"
  shows "comparable (bench_snapshot n)"
proof -
  note parts = bench_snapshot_parts [OF assms]
  have "distinct (map edge_key (bench_edges n))"
  proof -
    have same: "edge_key (bench_edge r) = edge_key (bench_edge r') \<Longrightarrow> n_id r = n_id r'" for r r'
      using edge_key_ends [of "bench_edge r"] edge_key_ends [of "bench_edge r'"] by (auto simp: bench_ends doubleton_eq_iff)
    have "inj_on (\<lambda>i. n_id (bench_resource i)) {0..<n}" using assms(1) by (simp add: bench_ids_def distinct_map)
    then have "inj_on (\<lambda>i. edge_key (bench_edge (bench_resource i))) {0..<n}" using same by (meson inj_on_def)
    then show ?thesis by (simp add: bench_edges_def distinct_map comp_def)
  qed
  moreover have "x \<in> set (bench_nodes n) \<Longrightarrow> n_properties x = []" for x
    by (auto simp: bench_nodes_def bench_machine_def bench_resource_def bench_node_def default_node_def)
  moreover have "edge_numbers (bench_edge r)" for r by (simp add: edge_numbers_def bench_edge_def default_edge_def)
  ultimately show ?thesis
    using wf_ok [OF valid_wf [OF parts(3)]] by (auto simp: comparable_def parts(1,2) bench_edges_def om_ok_def)
qed

lemma bench_round_ends:
  assumes ids: "distinct (bench_ids n)" and n: "n \<le> 25000" and order: "\<And>xs. mset (visit_order xs) = mset xs"
  shows "\<exists>cand bytes. cand \<le> 20 \<and> bench_round ms visit_order ub n = Some (Inr (bench_text ms n 2000 cand bytes 0 True))"
proof -
  let ?s = "bench_snapshot n"
  have small: "n < 100000" using n by simp
  note parts = bench_snapshot_parts [OF ids small]
  note wf = valid_wf [OF parts(3)] and closed = valid_closed [OF parts(3)] and policy = bench_policy [OF ids small]
  let ?ids = "visit_order (um_keys (s_nodes ?s))"
  have keys: "um_keys (s_nodes ?s) = bench_ids n" by (simp add: um_keys_def parts(1) bench_ids_nodes comp_def)
  have set: "set ?ids = set (bench_ids n)" using order by (metis keys set_mset_mset)
  moreover have ne: "?ids \<noteq> []" using set by (auto simp: bench_ids_def)
  ultimately have paths: "bench_paths ?s ?ids 0 [0..<2000] = Some (Inr 2000)"
    using bench_paths_all [OF ids small, of ?ids 0 "[0..<2000]"] by simp
  have "?ids ! 0 \<in> set ?ids" using ne by simp
  then have "find_node ?s (?ids ! 0) \<noteq> None" using bench_known [OF ids small] set by blast
  from rank_candidates_total [OF wf closed policy this, of NT_ACCELERATOR 20]
  obtain rr where rr: "rank_candidates ?s (?ids ! 0) NT_ACCELERATOR 20 default_weights = Some (Inr rr)" "length (rr_ranked rr) \<le> 20"
    by auto
  have js: "serialize_snapshot_json ?s False = Inr (dump (document ?s) WM_Compact)"
    by (simp add: serialize_snapshot_json_def snapshot_document [OF wf])
  have "json_nodes (document ?s) \<le> po_max_nodes default_options"
    using order_trans [OF bench_document(1) [OF ids n]] n by (simp add: default_options_def)
  moreover have "length (dump (document ?s) WM_Compact) \<le> b_max_snapshot_bytes default_bounds"
    using order_trans [OF written_bound bench_document(2) [OF ids n], of 0] n by (simp add: dump_def default_bounds_def)
  moreover have "length (s_nodes ?s) \<le> b_max_nodes default_bounds" "length (s_edges ?s) \<le> b_max_edges default_bounds"
    using n by (simp_all add: parts bench_nodes_def bench_edges_def default_bounds_def)
  ultimately obtain s' where s': "deserialize_snapshot_json ub (dump (document ?s) WM_Compact) default_bounds = Some (Inr s')"
    using deserialize_written [OF wf bench_ok [OF ids n]] by blast
  have "td_events (compare_snapshots ?s ?s) = []"
    using compare_self [OF bench_comparable [OF ids small]] by (simp add: compare_snapshots_def)
  then have "bench_round ms visit_order ub n
      = Some (Inr (bench_text ms n 2000 (length (rr_ranked rr)) (length (dump (document ?s) WM_Compact)) 0 True))"
    using parts(3) by (simp add: bench_round_def make_graph_eq Let_def paths rr(1) js s' valid_snapshot_def)
  then show ?thesis using rr(2) by blast
qed

section \<open>Properties\<close>

text \<open>C12: when the derived ids of a benchmark graph do not collide, a round of the graph benchmark with up to 25,000
  resources ends without an exception, in whatever order the nodes are enumerated: all 2000 path queries find a path,
  at most 20 candidates are ranked, the document is written and read back, the comparison with the graph built again
  has no event, and the graph is valid.\<close>

theorem bench_round_passes:
  assumes "distinct (bench_ids n)" and "n \<le> 25000" and "\<And>xs. mset (visit_order xs) = mset xs"
  shows "\<exists>cand bytes. cand \<le> 20 \<and> bench_round ms visit_order ub n = Some (Inr (bench_text ms n 2000 cand bytes 0 True))"
  using bench_round_ends [OF assms] .

lemma bench_keys_differ: "derive_node_id ''bench'' ''n'' ''m'' \<noteq> derive_node_id ''bench'' ''n'' ''r0''"
  by code_simp

lemma bench_ids_small: "distinct (bench_ids 1)"
  using bench_keys_differ by (simp add: bench_ids_def bench_machine_def bench_resource_def bench_node_def dec_digits.simps)

theorem bench_round_passes_witness:
  "\<exists>cand bytes. bench_round (\<lambda>_ _. ''0.000'') rev (\<lambda>_. 0) 1 = Some (Inr (bench_text (\<lambda>_ _. ''0.000'') 1 2000 cand bytes 0 True))"
  using bench_round_passes [OF bench_ids_small, of rev "\<lambda>_ _. ''0.000''" "\<lambda>_. 0"] by auto

end
