(* ===== verification/TF_Examples.thy ===== *)
theory TF_Examples
  imports TF_Demos TF_Selftest
begin

text \<open>What the example programs that build their own graph print.\<close>

section \<open>The merge of two contributions\<close>

definition cuda_gpu :: member where
  "cuda_gpu = \<lparr> mb_node = hd (ct_nodes (merge_inputs ! 0)), mb_ci = 0, mb_idx = 0 \<rparr>"

definition pci_gpu :: member where
  "pci_gpu = \<lparr> mb_node = hd (ct_nodes (merge_inputs ! 1)), mb_ci = 1, mb_idx = 0 \<rparr>"

definition gpu_key :: string where
  "gpu_key = ''pci:0000:01:00.0''"

lemma gpu_keys: "group_key (mb_node cuda_gpu) = gpu_key" "group_key (mb_node pci_gpu) = gpu_key"
  by code_simp+

lemma merge_inputs_parts: "map ct_nodes merge_inputs = [[mb_node cuda_gpu], [mb_node pci_gpu]]" "map ct_edges merge_inputs = [[], []]"
  by (simp_all add: merge_inputs_def cuda_gpu_def pci_gpu_def default_contribution_def)

lemma gpu_merged:
  "n_name (merged_node gpu_key [cuda_gpu, pci_gpu]) = ''GPU''" "n_type (merged_node gpu_key [cuda_gpu, pci_gpu]) = NT_ACCELERATOR"
  "ni_vendor_id (n_native (merged_node gpu_key [cuda_gpu, pci_gpu])) = Some 4318"
  "snd (add_properties gpu_key [cuda_gpu, pci_gpu] ([], [])) = []"
  "\<not> member_less pci_gpu cuda_gpu"
  by (simp_all add: merged_node_def Let_def best_name_def best_type_def better_type_def cuda_gpu_def pci_gpu_def merge_inputs_def
      default_contribution_def merge_native_def merge_identity_def first_set_def default_native_def gpu_address_def default_cnode_def
      add_properties_def member_less_def provenance_discovered_def)

lemma demo_merge_prints:
  assumes "\<And>xs. mset (visit1 xs) = mset xs"
  shows "demo_merge visit1 visit2 = line ''merged nodes=1 (input=2) conflicts=0'' @ line ''  node GPU type=accelerator vendor=4318''"
proof -
  obtain c1 c2 where cs: "merge_inputs = [c1, c2]" by (simp add: merge_inputs_def)
  have c: "ct_nodes c1 = [mb_node cuda_gpu]" "ct_nodes c2 = [mb_node pci_gpu]" "ct_edges c1 = []" "ct_edges c2 = []"
    using merge_inputs_parts by (simp_all add: cs)
  have m: "\<lparr> mb_node = mb_node cuda_gpu, mb_ci = 0, mb_idx = 0 \<rparr> = cuda_gpu" "\<lparr> mb_node = mb_node pci_gpu, mb_ci = 1, mb_idx = 0 \<rparr> = pci_gpu"
    by (simp_all add: cuda_gpu_def pci_gpu_def)
  have room: "b_max_nodes default_bounds = 1000000" by (simp add: default_bounds_def)
  have groups: "ingest_all 1000000 0 [c1, c2] ([], []) = ([(gpu_key, [cuda_gpu, pci_gpu])], [])"
    by (simp add: c gpu_keys um_push_def um_put_def um_get_def um_find_def m m(2) [simplified])
  have walk1: "visit1 [(gpu_key, [cuda_gpu, pci_gpu])] = [(gpu_key, [cuda_gpu, pci_gpu])]"
    using assms [of "[(gpu_key, [cuda_gpu, pci_gpu])]"] by simp
  have "dec_digits 1 = ''1''" "dec_digits (Suc (Suc 0)) = ''2''" "dec_digits 0 = ''0''" "dec_digits 4318 = ''4318''" by (simp_all add: dec_digits.simps)
  then show ?thesis
    unfolding demo_merge_def merge_contributions_def room cs Let_def groups
    by (simp add: walk1 merge_group_def gpu_merged Let_def room um_emplace_def um_count_def
        um_find_def cs c merged_text_def number_or_mark_def line_def)
qed

section \<open>The dangling edge\<close>

lemma ghost_differs: "derive_node_id ''ex'' ''n'' ''m'' \<noteq> derive_node_id ''ex'' ''n'' ''ghost''"
  by code_simp

lemma demo_validate_prints:
  "demo_validate = Inr (line ''validation ok=no''
     @ line (''  error: edge references unknown target node '' @ to_hex (derive_node_id ''ex'' ''n'' ''ghost'')))"
proof -
  have k: "canonical_key default_native = []" by (simp add: self_key)
  have "\<not> has_cycle (children_map [dangling_edge])"
    by (simp add: contains_cycle_iff contains_rel_def dangling_edge_def acyclic_def)
  then show ?thesis
    using ghost_differs
    by (simp add: demo_validate_def take_snapshot_def add_node_def add_edge_def new_builder_def default_bounds_def um_emplace_def
        um_count_def um_find_def Let_def validate_def check_ends_def check_identity_def check_self_def check_peer_def check_accelerator_def
        dangling_edge_def dangling_machine_def default_node_def default_edge_def k self_key default_validation_def
        add_error_def add_warning_def yes_no_def)
qed

end
