(* ===== verification/TF_Store.thy ===== *)
theory TF_Store
  imports TF_Serialization
begin

text \<open>
  The class \<open>Value\<close> of \<open>json.hpp\<close> as it stands in memory. Arrays and objects are shared pointers: copying a
  value copies the pointer, \<open>set\<close> writes through it, and \<open>operator==\<close> compares the pointers. The rest of the
  development takes documents as trees (\<open>TF_Json\<close>). Here a store of cells is explicit, \<open>denotes\<close> relates a
  value in a store to the tree that it stands for, and the lemmas say when an operation on the store is the
  operation on trees: always when the written object is not part of the value that is put into it.
  Cells that are no longer used stay in the store; the program cannot observe when they are freed.
\<close>

section \<open>Values and cells\<close>

datatype jval =
    V_Null
  | V_Bool bool
  | V_Int "64 word"
  | V_Uint "64 word"
  | V_Double f64
  | V_String string
  | V_Array nat
  | V_Object nat

datatype jcell = Array_Cell "jval list" | Object_Cell "jval omap"

type_synonym jheap = "jcell list"

definition cell :: "jheap \<Rightarrow> nat \<Rightarrow> jcell option" where
  "cell h a = (if a < length h then Some (h ! a) else None)"

datatype kind = K_Null | K_Bool | K_Int | K_Uint | K_Double | K_String | K_Array | K_Object

fun v_kind :: "jval \<Rightarrow> kind" where
  "v_kind V_Null = K_Null"
| "v_kind (V_Bool _) = K_Bool"
| "v_kind (V_Int _) = K_Int"
| "v_kind (V_Uint _) = K_Uint"
| "v_kind (V_Double _) = K_Double"
| "v_kind (V_String _) = K_String"
| "v_kind (V_Array _) = K_Array"
| "v_kind (V_Object _) = K_Object"

text \<open>The tests compare the index of the variant.\<close>

definition v_is_null :: "jval \<Rightarrow> bool" where
  "v_is_null v \<longleftrightarrow> v_kind v = K_Null"

definition v_is_bool :: "jval \<Rightarrow> bool" where
  "v_is_bool v \<longleftrightarrow> v_kind v = K_Bool"

definition v_is_int :: "jval \<Rightarrow> bool" where
  "v_is_int v \<longleftrightarrow> v_kind v = K_Int"

definition v_is_uint :: "jval \<Rightarrow> bool" where
  "v_is_uint v \<longleftrightarrow> v_kind v = K_Uint"

definition v_is_double :: "jval \<Rightarrow> bool" where
  "v_is_double v \<longleftrightarrow> v_kind v = K_Double"

definition v_is_string :: "jval \<Rightarrow> bool" where
  "v_is_string v \<longleftrightarrow> v_kind v = K_String"

definition v_is_array :: "jval \<Rightarrow> bool" where
  "v_is_array v \<longleftrightarrow> v_kind v = K_Array"

definition v_is_object :: "jval \<Rightarrow> bool" where
  "v_is_object v \<longleftrightarrow> v_kind v = K_Object"

definition v_is_number :: "jval \<Rightarrow> bool" where
  "v_is_number v \<longleftrightarrow> v_is_int v \<or> v_is_uint v \<or> v_is_double v"

text \<open>The constructors from an array and from an object.\<close>

definition make_array :: "jval list \<Rightarrow> jheap \<Rightarrow> jval \<times> jheap" where
  "make_array vs h = (V_Array (length h), h @ [Array_Cell vs])"

definition make_object :: "jval omap \<Rightarrow> jheap \<Rightarrow> jval \<times> jheap" where
  "make_object m h = (V_Object (length h), h @ [Object_Cell m])"

text \<open>The accessors; \<open>None\<close> is \<open>std::bad_variant_access\<close>.\<close>

fun v_as_bool :: "jval \<Rightarrow> bool option" where
  "v_as_bool (V_Bool x) = Some x"
| "v_as_bool _ = None"

fun v_as_int :: "jval \<Rightarrow> 64 word option" where
  "v_as_int (V_Int x) = Some x"
| "v_as_int _ = None"

fun v_as_uint :: "jval \<Rightarrow> 64 word option" where
  "v_as_uint (V_Uint x) = Some x"
| "v_as_uint _ = None"

fun v_as_double :: "jval \<Rightarrow> f64 option" where
  "v_as_double (V_Double x) = Some x"
| "v_as_double _ = None"

fun v_as_string :: "jval \<Rightarrow> string option" where
  "v_as_string (V_String x) = Some x"
| "v_as_string _ = None"

definition v_as_array :: "jheap \<Rightarrow> jval \<Rightarrow> jval list option" where
  "v_as_array h v = (case v of V_Array a \<Rightarrow> (case cell h a of Some (Array_Cell vs) \<Rightarrow> Some vs | _ \<Rightarrow> None) | _ \<Rightarrow> None)"

definition v_as_object :: "jheap \<Rightarrow> jval \<Rightarrow> jval omap option" where
  "v_as_object h v = (case v of V_Object a \<Rightarrow> (case cell h a of Some (Object_Cell m) \<Rightarrow> Some m | _ \<Rightarrow> None) | _ \<Rightarrow> None)"

definition v_find :: "jheap \<Rightarrow> jval \<Rightarrow> string \<Rightarrow> jval option" where
  "v_find h v k = (case v_as_object h v of None \<Rightarrow> None | Some m \<Rightarrow> om_find m k)"

text \<open>\<open>as_array_mut\<close> and \<open>as_object_mut\<close> hand out the cell for writing.\<close>

definition write_array :: "jheap \<Rightarrow> jval \<Rightarrow> (jval list \<Rightarrow> jval list) \<Rightarrow> jheap option" where
  "write_array h v f = (case v of V_Array a \<Rightarrow> map_option (\<lambda>vs. h[a := Array_Cell (f vs)]) (v_as_array h v) | _ \<Rightarrow> None)"

definition write_object :: "jheap \<Rightarrow> jval \<Rightarrow> (jval omap \<Rightarrow> jval omap) \<Rightarrow> jheap option" where
  "write_object h v f = (case v of V_Object a \<Rightarrow> map_option (\<lambda>m. h[a := Object_Cell (f m)]) (v_as_object h v) | _ \<Rightarrow> None)"

definition v_set :: "string \<Rightarrow> jval \<Rightarrow> jheap \<Rightarrow> jval \<Rightarrow> jheap option" where
  "v_set k w h v = write_object h v (om_put k w)"

text \<open>\<open>operator[]\<close> inserts a null when the key is new.\<close>

definition v_at :: "string \<Rightarrow> jheap \<Rightarrow> jval \<Rightarrow> jheap option" where
  "v_at k h v = write_object h v (\<lambda>m. fst (om_emplace k V_Null m))"

text \<open>\<open>operator==\<close> compares the variants: pointers by address.\<close>

fun v_eq :: "jval \<Rightarrow> jval \<Rightarrow> bool" where
  "v_eq (V_Double a) (V_Double b) = f64_eq a b"
| "v_eq v w = (v = w)"

section \<open>The tree that a value stands for\<close>

fun denotes :: "jheap \<Rightarrow> json \<Rightarrow> jval \<Rightarrow> bool" where
  "denotes h J_Null v = (v = V_Null)"
| "denotes h (J_Bool b) v = (v = V_Bool b)"
| "denotes h (J_Int i) v = (v = V_Int i)"
| "denotes h (J_Uint i) v = (v = V_Uint i)"
| "denotes h (J_Double d) v = (v = V_Double d)"
| "denotes h (J_String s) v = (v = V_String s)"
| "denotes h (J_Array js) v = (case v_as_array h v of None \<Rightarrow> False | Some vs \<Rightarrow> list_all2 (denotes h) js vs)"
| "denotes h (J_Object ms) v = (case v_as_object h v of None \<Rightarrow> False
     | Some m \<Rightarrow> list_all2 (\<lambda>(k, j) (k', u). k = k' \<and> denotes h j u) ms m)"

inductive reaches :: "jheap \<Rightarrow> jval \<Rightarrow> nat \<Rightarrow> bool" for h where
  here_array: "reaches h (V_Array a) a"
| here_object: "reaches h (V_Object a) a"
| element: "v_as_array h v = Some vs \<Longrightarrow> u \<in> set vs \<Longrightarrow> reaches h u b \<Longrightarrow> reaches h v b"
| member: "v_as_object h v = Some m \<Longrightarrow> (k, u) \<in> set m \<Longrightarrow> reaches h u b \<Longrightarrow> reaches h v b"

lemma as_array_Some: "v_as_array h v = Some vs \<longleftrightarrow> (\<exists>a. v = V_Array a \<and> cell h a = Some (Array_Cell vs))"
  by (auto simp: v_as_array_def split: jval.splits option.splits jcell.splits)

lemma as_object_Some: "v_as_object h v = Some m \<longleftrightarrow> (\<exists>a. v = V_Object a \<and> cell h a = Some (Object_Cell m))"
  by (auto simp: v_as_object_def split: jval.splits option.splits jcell.splits)

text \<open>In a store where the value stands for a tree, an accessor yields exactly on the kind it is for; so a value that
  was tested before it is read never throws.\<close>

lemma atom_accessors:
  "v_as_bool v \<noteq> None \<longleftrightarrow> v_is_bool v" "v_as_int v \<noteq> None \<longleftrightarrow> v_is_int v" "v_as_uint v \<noteq> None \<longleftrightarrow> v_is_uint v"
  "v_as_double v \<noteq> None \<longleftrightarrow> v_is_double v" "v_as_string v \<noteq> None \<longleftrightarrow> v_is_string v"
  by (cases v; simp add: v_is_bool_def v_is_int_def v_is_uint_def v_is_double_def v_is_string_def)+

lemma denotes_array: "denotes h (J_Array js) v \<Longrightarrow> v_is_array v \<and> v_as_array h v \<noteq> None"
  by (auto simp: as_array_Some v_is_array_def split: option.splits)

lemma denotes_object: "denotes h (J_Object ms) v \<Longrightarrow> v_is_object v \<and> v_as_object h v \<noteq> None"
  by (auto simp: as_object_Some v_is_object_def split: option.splits)

lemma accessors_tested:
  assumes "denotes h j v"
  shows "v_as_array h v \<noteq> None \<longleftrightarrow> v_is_array v" and "v_as_object h v \<noteq> None \<longleftrightarrow> v_is_object v"
    and "v_is_null v \<longleftrightarrow> j_is_null j" and "v_is_number v \<longleftrightarrow> j_is_number j"
proof -
  note tests = v_is_array_def v_is_object_def v_is_null_def v_is_number_def v_is_int_def v_is_uint_def v_is_double_def
  have "(v_as_array h v \<noteq> None \<longleftrightarrow> v_is_array v) \<and> (v_as_object h v \<noteq> None \<longleftrightarrow> v_is_object v)
    \<and> (v_is_null v \<longleftrightarrow> j_is_null j) \<and> (v_is_number v \<longleftrightarrow> j_is_number j)"
  proof (cases j)
    case (J_Array js)
    then show ?thesis using assms denotes_array [of h js v] by (cases v) (auto simp: tests v_as_object_def)
  next
    case (J_Object ms)
    then show ?thesis using assms denotes_object [of h ms v] by (cases v) (auto simp: tests v_as_array_def)
  qed (use assms in \<open>simp_all add: tests v_as_array_def v_as_object_def\<close>)
  then show "v_as_array h v \<noteq> None \<longleftrightarrow> v_is_array v" "v_as_object h v \<noteq> None \<longleftrightarrow> v_is_object v"
    "v_is_null v \<longleftrightarrow> j_is_null j" "v_is_number v \<longleftrightarrow> j_is_number j" by blast+
qed

lemma cell_new: "cell (h @ [c]) a = (if a = length h then Some c else cell h a)"
  by (auto simp: cell_def nth_append)

lemma cell_end: "cell h (length h) = None"
  by (simp add: cell_def)

lemma cell_write: "cell (h[a := c]) b = (if b = a \<and> a < length h then Some c else cell h b)"
  by (auto simp: cell_def)

lemma list_all2_mp_in:
  assumes "list_all2 P xs ys" and "\<And>x y. x \<in> set xs \<Longrightarrow> y \<in> set ys \<Longrightarrow> P x y \<Longrightarrow> Q x y"
  shows "list_all2 Q xs ys"
  using assms by (auto simp: list_all2_conv_all_nth)

lemma list_all2_right:
  assumes "list_all2 P xs ys" and "y \<in> set ys"
  obtains x where "x \<in> set xs" and "P x y"
proof -
  obtain i where "i < length ys" "y = ys ! i" using assms(2) by (auto simp: in_set_conv_nth)
  then show ?thesis using assms(1) that [of "xs ! i"] by (auto simp: list_all2_conv_all_nth)
qed

lemma reaches_allocated:
  assumes "reaches h v b" and "denotes h j v"
  shows "cell h b \<noteq> None"
  using assms
proof (induction arbitrary: j)
  case (here_array a)
  then show ?case by (cases j) (auto simp: as_array_Some as_object_Some split: option.splits)
next
  case (here_object a)
  then show ?case by (cases j) (auto simp: as_array_Some as_object_Some split: option.splits)
next
  case (element v vs u b)
  then show ?case
    by (cases j) (auto simp: as_array_Some as_object_Some list_all2_conv_all_nth in_set_conv_nth split: option.splits)
next
  case (member v m k u b)
  then show ?case
    by (cases j) (fastforce simp: as_array_Some as_object_Some list_all2_conv_all_nth in_set_conv_nth split: option.splits)+
qed

lemma denotes_agree:
  assumes "denotes h j v" and "\<And>b. reaches h v b \<Longrightarrow> cell h' b = cell h b"
  shows "denotes h' j v"
  using assms
proof (induction j arbitrary: v)
  case (J_Array js)
  then obtain a vs where v: "v = V_Array a" "cell h a = Some (Array_Cell vs)" and all: "list_all2 (denotes h) js vs"
    by (auto simp: as_array_Some split: option.splits)
  have get: "v_as_array h v = Some vs" and get': "v_as_array h' v = Some vs"
    using v J_Array.prems(2) [of a] by (auto simp: as_array_Some reaches.here_array)
  have "list_all2 (denotes h') js vs"
    using all by (rule list_all2_mp_in) (use J_Array.IH J_Array.prems(2) reaches.element [OF get] in blast)
  then show ?case by (simp add: get')
next
  case (J_Object ms)
  then obtain a m where v: "v = V_Object a" "cell h a = Some (Object_Cell m)"
    and all: "list_all2 (\<lambda>(k, j) (k', u). k = k' \<and> denotes h j u) ms m"
    by (auto simp: as_object_Some split: option.splits)
  have get: "v_as_object h v = Some m" and get': "v_as_object h' v = Some m"
    using v J_Object.prems(2) [of a] by (auto simp: as_object_Some reaches.here_object)
  have "list_all2 (\<lambda>(k, j) (k', u). k = k' \<and> denotes h' j u) ms m"
    using all by (rule list_all2_mp_in)
      (use J_Object.IH J_Object.prems(2) reaches.member [OF get] in \<open>fastforce simp: snds.simps\<close>)
  then show ?case by (simp add: get')
qed auto

lemma denotes_new: "denotes h j v \<Longrightarrow> denotes (h @ [c]) j v"
proof (rule denotes_agree)
  fix b assume "denotes h j v" and "reaches h v b"
  then have "cell h b \<noteq> None" by (rule reaches_allocated [rotated])
  then show "cell (h @ [c]) b = cell h b" by (auto simp: cell_new cell_end)
qed

lemma denotes_write: "denotes h j v \<Longrightarrow> \<not> reaches h v a \<Longrightarrow> denotes (h[a := c]) j v"
  by (erule denotes_agree) (auto simp: cell_write)

text \<open>A value stands for at most one tree, and what it reaches stands for a part of that tree: no value that stands
  for a tree reaches itself through its own elements.\<close>

lemma denotes_fun: "denotes h j v \<Longrightarrow> denotes h j' v \<Longrightarrow> j = j'"
proof (induction j arbitrary: v j')
  case (J_Array js)
  then obtain vs where get: "v_as_array h v = Some vs" and all: "list_all2 (denotes h) js vs" by (auto split: option.splits)
  with J_Array.prems(2) obtain js' where j': "j' = J_Array js'" and all': "list_all2 (denotes h) js' vs"
    by (cases j') (auto simp: as_array_Some as_object_Some split: option.splits)
  have "js = js'"
    using all all' J_Array.IH by (auto simp: list_all2_conv_all_nth intro!: nth_equalityI)
  then show ?case by (simp add: j')
next
  case (J_Object ms)
  then obtain m where get: "v_as_object h v = Some m"
    and all: "list_all2 (\<lambda>(k, j) (k', u). k = k' \<and> denotes h j u) ms m" by (auto split: option.splits)
  with J_Object.prems(2) obtain ms' where j': "j' = J_Object ms'"
    and all': "list_all2 (\<lambda>(k, j) (k', u). k = k' \<and> denotes h j u) ms' m"
    by (cases j') (auto simp: as_array_Some as_object_Some split: option.splits)
  have "ms ! i = ms' ! i" if "i < length m" for i
    using all all' that J_Object.IH [of "ms ! i" "snd (ms ! i)" "snd (m ! i)" "snd (ms' ! i)"]
    by (auto simp: list_all2_conv_all_nth case_prod_beta prod_eq_iff snds.simps)
  then have "ms = ms'" using all all' by (auto simp: list_all2_conv_all_nth intro!: nth_equalityI)
  then show ?case by (simp add: j')
qed ((case_tac j'; auto simp: v_as_array_def v_as_object_def)+)

lemma reaches_part:
  assumes "reaches h v b" and "denotes h j v"
  shows "\<exists>j' w. (w = V_Array b \<or> w = V_Object b) \<and> denotes h j' w \<and> (w = v \<or> size j' < size j)"
  using assms
proof (induction arbitrary: j)
  case (element v vs u b)
  then obtain js where j: "j = J_Array js" and all: "list_all2 (denotes h) js vs"
    by (cases j) (auto simp: as_array_Some as_object_Some split: option.splits)
  obtain j0 where "j0 \<in> set js" "denotes h j0 u"
    using all element.hyps(2) by (rule list_all2_right)
  moreover from this have "size j0 < size j" by (auto simp: j size_list_estimation' less_Suc_eq_le)
  ultimately show ?case using element.IH [of j0] by fastforce
next
  case (member v m k u b)
  then obtain ms where j: "j = J_Object ms" and all: "list_all2 (\<lambda>(k, j) (k', u). k = k' \<and> denotes h j u) ms m"
    by (cases j) (auto simp: as_array_Some as_object_Some split: option.splits)
  obtain k0 j0 where "(k0, j0) \<in> set ms" "denotes h j0 u"
    using all member.hyps(2) by (rule list_all2_right) auto
  moreover from this have "size j0 < size j"
    by (auto simp: j less_Suc_eq_le intro!: size_list_estimation' [of "(k0, j0)"])
  ultimately show ?case using member.IH [of j0] by fastforce
qed auto

lemma members_do_not_reach:
  assumes "denotes h j (V_Object a)" and "v_as_object h (V_Object a) = Some m" and "(k, u) \<in> set m"
  shows "\<not> reaches h u a"
proof
  assume "reaches h u a"
  obtain ms where j: "j = J_Object ms" and all: "list_all2 (\<lambda>(k, j) (k', u). k = k' \<and> denotes h j u) ms m"
    using assms(1,2) by (cases j) (auto simp: as_array_Some as_object_Some split: option.splits)
  obtain k0 j0 where j0: "(k0, j0) \<in> set ms" "denotes h j0 u"
    using all assms(3) by (rule list_all2_right) auto
  then have less: "size j0 < size j" by (auto simp: j less_Suc_eq_le intro!: size_list_estimation' [of "(k0, j0)"])
  obtain j' w where w: "w = V_Array a \<or> w = V_Object a" "denotes h j' w" "w = u \<or> size j' < size j0"
    using reaches_part [OF \<open>reaches h u a\<close> j0(2)] by blast
  have "w = V_Object a"
    using w(1,2) assms(2) by (cases j') (auto simp: as_array_Some as_object_Some split: option.splits)
  then have "j' = j" using denotes_fun [OF w(2)] assms(1) by blast
  then show False using w(3) less denotes_fun [OF j0(2)] w(2) by auto
qed

section \<open>Operations on the store are operations on trees\<close>

lemma find_denotes: "denotes h j v \<Longrightarrow> rel_option (denotes h) (j_find j k) (v_find h v k)"
proof (cases j)
  case (J_Object ms)
  assume "denotes h j v"
  then obtain m where get: "v_as_object h v = Some m"
    and all: "list_all2 (\<lambda>(k, j) (k', u). k = k' \<and> denotes h j u) ms m"
    by (auto simp: J_Object split: option.splits)
  have "rel_option (denotes h) (om_find ms k) (om_find m k)"
    using all by (induction ms m rule: list_all2_induct) (auto simp: om_find_def)
  then show ?thesis by (simp add: J_Object j_find_def v_find_def get)
qed (auto simp: j_find_def v_find_def v_as_object_def v_as_array_def split: option.splits jval.splits jcell.splits)

lemma put_all2:
  "list_all2 (\<lambda>(k, j) (k', u). k = k' \<and> P j u) ms m \<Longrightarrow> P j w
    \<Longrightarrow> list_all2 (\<lambda>(k, j) (k', u). k = k' \<and> P j u) (om_put k j ms) (om_put k w m)"
  by (induction ms m rule: list_all2_induct) auto

lemma new_array_denotes:
  assumes "list_all2 (denotes h) js vs" and "make_array vs h = (v, h')"
  shows "denotes h' (J_Array js) v"
proof -
  have "list_all2 (denotes h') js vs"
    using assms by (auto simp: make_array_def intro: list_all2_mono denotes_new)
  then show ?thesis using assms(2) by (auto simp: make_array_def v_as_array_def cell_new)
qed

lemma set_denotes:
  assumes o: "denotes h (J_Object ms) (V_Object a)" and w: "denotes h j w" and apart: "\<not> reaches h w a"
  shows "\<exists>h'. v_set k w h (V_Object a) = Some h' \<and> denotes h' (J_Object (om_put k j ms)) (V_Object a)
    \<and> (\<forall>j' u. denotes h j' u \<longrightarrow> \<not> reaches h u a \<longrightarrow> denotes h' j' u) \<and> length h' = length h
    \<and> (\<exists>m. v_as_object h (V_Object a) = Some m \<and> h' = h[a := Object_Cell (om_put k w m)])"
proof -
  obtain m where get: "v_as_object h (V_Object a) = Some m"
    and all: "list_all2 (\<lambda>(k, j) (k', u). k = k' \<and> denotes h j u) ms m"
    using o by (auto split: option.splits)
  let ?h = "h[a := Object_Cell (om_put k w m)]"
  have "a < length h" using get by (auto simp: as_object_Some cell_def split: if_splits)
  then have get': "v_as_object ?h (V_Object a) = Some (om_put k w m)" by (simp add: as_object_Some cell_write)
  have "list_all2 (\<lambda>(k, j) (k', u). k = k' \<and> denotes ?h j u) ms m"
    using all by (rule list_all2_mp_in) (auto intro!: denotes_write dest: members_do_not_reach [OF o get])
  then have "denotes ?h (J_Object (om_put k j ms)) (V_Object a)"
    using put_all2 denotes_write [OF w apart] by (fastforce simp: get')
  then show ?thesis
    using get by (auto simp: v_set_def write_object_def intro: denotes_write)
qed

text \<open>An object that is made a member of itself stands for no tree: writing it out would not end.\<close>

lemma om_put_mem: "(k, w) \<in> set (om_put k w m)"
  by (induction k w m rule: om_put.induct) auto

lemma self_member_no_tree:
  assumes "v_set k (V_Object a) h (V_Object a) = Some h'"
  shows "\<not> denotes h' j (V_Object a)"
proof
  assume d: "denotes h' j (V_Object a)"
  obtain m where m: "v_as_object h (V_Object a) = Some m" "h' = h[a := Object_Cell (om_put k (V_Object a) m)]"
    using assms by (auto simp: v_set_def write_object_def)
  then have "v_as_object h' (V_Object a) = Some (om_put k (V_Object a) m)"
    by (auto simp: as_object_Some cell_def split: if_splits)
  from members_do_not_reach [OF d this om_put_mem] show False using reaches.here_object by blast
qed

section \<open>Building a tree in the store\<close>

text \<open>A reference builder, not a function of the program: it builds any given tree with the operations above, an array
  after its elements, an object by one \<open>set\<close> after the other. What the serializer does is in \<open>TF_Document\<close>.\<close>

fun construct :: "json \<Rightarrow> jheap \<Rightarrow> (jval \<times> jheap) option"
  and construct_elements :: "json list \<Rightarrow> jheap \<Rightarrow> (jval list \<times> jheap) option"
  and construct_members :: "jval \<Rightarrow> (string \<times> json) list \<Rightarrow> jheap \<Rightarrow> jheap option" where
  "construct J_Null h = Some (V_Null, h)"
| "construct (J_Bool b) h = Some (V_Bool b, h)"
| "construct (J_Int i) h = Some (V_Int i, h)"
| "construct (J_Uint i) h = Some (V_Uint i, h)"
| "construct (J_Double d) h = Some (V_Double d, h)"
| "construct (J_String s) h = Some (V_String s, h)"
| "construct (J_Array js) h = (case construct_elements js h of None \<Rightarrow> None | Some (vs, h') \<Rightarrow> Some (make_array vs h'))"
| "construct (J_Object kvs) h = (case make_object [] h of (v, h') \<Rightarrow> map_option (Pair v) (construct_members v kvs h'))"
| "construct_elements [] h = Some ([], h)"
| "construct_elements (j # js) h = (case construct j h of None \<Rightarrow> None
     | Some (v, h') \<Rightarrow> map_option (\<lambda>(vs, h''). (v # vs, h'')) (construct_elements js h'))"
| "construct_members v [] h = Some h"
| "construct_members v ((k, j) # kvs) h = (case construct j h of None \<Rightarrow> None
     | Some (w, h') \<Rightarrow> (case v_set k w h' v of None \<Rightarrow> None | Some h'' \<Rightarrow> construct_members v kvs h''))"

fun canon :: "json \<Rightarrow> json" where
  "canon (J_Array js) = J_Array (map canon js)"
| "canon (J_Object kvs) = obj (map (\<lambda>(k, j). (k, canon j)) kvs)"
| "canon j = j"

fun above :: "nat \<Rightarrow> jval \<Rightarrow> bool" where
  "above n (V_Array a) = (n \<le> a)"
| "above n (V_Object a) = (n \<le> a)"
| "above n _ = True"

fun cell_values :: "jcell \<Rightarrow> jval set" where
  "cell_values (Array_Cell vs) = set vs"
| "cell_values (Object_Cell m) = snd ` set m"

text \<open>From \<open>n\<close> on the cells hold only values at or above \<open>n\<close>.\<close>

definition closed_from :: "nat \<Rightarrow> jheap \<Rightarrow> bool" where
  "closed_from n h \<longleftrightarrow> (\<forall>b c u. n \<le> b \<longrightarrow> cell h b = Some c \<longrightarrow> u \<in> cell_values c \<longrightarrow> above n u)"

definition extends :: "nat set \<Rightarrow> jheap \<Rightarrow> jheap \<Rightarrow> bool" where
  "extends X h h' \<longleftrightarrow> length h \<le> length h' \<and> (\<forall>b < length h. b \<notin> X \<longrightarrow> h' ! b = h ! b)"

lemma above_reaches: "reaches h v b \<Longrightarrow> closed_from n h \<Longrightarrow> above n v \<Longrightarrow> n \<le> b"
proof (induction rule: reaches.induct)
  case (element v vs u b)
  then obtain a where "v = V_Array a" "cell h a = Some (Array_Cell vs)" by (auto simp: as_array_Some)
  then have "above n u" using element by (auto simp: closed_from_def)
  then show ?case using element by blast
next
  case (member v m k u b)
  then obtain a where "v = V_Object a" "cell h a = Some (Object_Cell m)" by (auto simp: as_object_Some)
  then have "above n u" using member by (fastforce simp: closed_from_def)
  then show ?case using member by blast
qed auto

lemma extends_refl [simp]: "extends X h h"
  by (simp add: extends_def)

lemma extends_trans: "extends X h h' \<Longrightarrow> extends Y h' h'' \<Longrightarrow> extends (X \<union> Y) h h''"
  by (auto simp: extends_def)

lemma extends_cell: "extends {} h h' \<Longrightarrow> cell h b \<noteq> None \<Longrightarrow> cell h' b = cell h b"
  by (auto simp: extends_def cell_def split: if_splits)

lemma extends_denotes: "extends {} h h' \<Longrightarrow> denotes h j v \<Longrightarrow> denotes h' j v"
  using denotes_agree [of h j v h'] extends_cell [of h h'] reaches_allocated [of h v _ j] by blast

lemma closed_extend:
  assumes "extends {} h h'" and "closed_from n h" and "closed_from (length h) h'" and "n \<le> length h"
  shows "closed_from n h'"
  unfolding closed_from_def
proof (intro allI impI)
  fix b c u assume b: "n \<le> b" "cell h' b = Some c" "u \<in> cell_values c"
  show "above n u"
  proof (cases "b < length h")
    case True
    then have "cell h b = Some c" using assms(1) b(2) by (auto simp: extends_def cell_def split: if_splits)
    then show ?thesis using assms(2) b by (auto simp: closed_from_def)
  next
    case False
    then have "above (length h) u" using assms(3) b(2,3) False unfolding closed_from_def by (meson leI)
    then show ?thesis using assms(4) by (cases u) auto
  qed
qed

lemma above_mono: "n \<le> n' \<Longrightarrow> above n' v \<Longrightarrow> above n v"
  by (cases v) auto

lemma closed_new: "closed_from n h \<Longrightarrow> \<forall>u \<in> cell_values c. above n u \<Longrightarrow> closed_from n (h @ [c])"
  by (auto simp: closed_from_def cell_new)

lemma closed_write: "closed_from n h \<Longrightarrow> \<forall>u \<in> cell_values c. above n u \<Longrightarrow> closed_from n (h[a := c])"
  by (auto simp: closed_from_def cell_write split: if_splits)

definition built :: "jheap \<Rightarrow> jheap \<Rightarrow> bool" where
  "built h h' \<longleftrightarrow> extends {} h h' \<and> closed_from (length h) h'"

lemma built_refl: "built h h"
  by (auto simp: built_def closed_from_def cell_def split: if_splits)

lemma built_trans: "built h h' \<Longrightarrow> built h' h'' \<Longrightarrow> built h h''"
  unfolding built_def
  by (auto intro: closed_extend dest: extends_trans simp: extends_def)

text \<open>A member whose value was built after the object: \<open>set\<close> succeeds, and the object stays closed.\<close>

lemma set_new_member:
  assumes o: "denotes h (J_Object ms) (V_Object a)" and c: "closed_from a h"
    and new: "built h h1" "denotes h1 j w" "above (length h) w"
  shows "\<exists>h2. v_set k w h1 (V_Object a) = Some h2 \<and> denotes h2 (J_Object (om_put k j ms)) (V_Object a)
    \<and> closed_from a h2 \<and> extends {a} h h2 \<and> a < length h2"
proof -
  have o1: "denotes h1 (J_Object ms) (V_Object a)" using o new(1) extends_denotes [of h h1] unfolding built_def by blast
  have less: "a < length h" using o by (auto simp: as_object_Some cell_def split: option.splits if_splits)
  have "\<not> reaches h1 w a" using above_reaches new(1,3) less by (fastforce simp: built_def)
  then obtain h2 m where h2: "v_set k w h1 (V_Object a) = Some h2" "denotes h2 (J_Object (om_put k j ms)) (V_Object a)"
    "v_as_object h1 (V_Object a) = Some m" "h2 = h1[a := Object_Cell (om_put k w m)]"
    using set_denotes [OF o1 new(2)] by blast
  have c1: "closed_from a h1" using closed_extend new(1) c less by (auto simp: built_def)
  have "\<forall>u \<in> cell_values (Object_Cell (om_put k w m)). above a u"
  proof
    fix u assume "u \<in> cell_values (Object_Cell (om_put k w m))"
    then have "u = w \<or> u \<in> snd ` set m" using om_put_set by fastforce
    then show "above a u" using c1 h2(3) new(3) less above_mono [of a "length h"]
      by (fastforce simp: closed_from_def as_object_Some)
  qed
  then have "closed_from a h2" unfolding h2(4) by (intro closed_write c1)
  moreover have "extends {a} h h2" "a < length h2" using h2(4) new(1) less by (auto simp: built_def extends_def)
  ultimately show ?thesis using h2(1,2) by blast
qed

lemma new_object_denotes:
  "make_object [] h = (V_Object (length h), h @ [Object_Cell []])"
  "denotes (h @ [Object_Cell []]) (J_Object []) (V_Object (length h))"
  "closed_from (length h) (h @ [Object_Cell []])"
  by (auto simp: make_object_def v_as_object_def cell_new intro!: closed_new) (use built_refl in \<open>auto simp: built_def\<close>)

lemma new_array_built:
  assumes "built h h'" and "list_all2 (denotes h') js vs" and "\<forall>v \<in> set vs. above (length h) v"
  shows "\<exists>v h''. make_array vs h' = (v, h'') \<and> built h h'' \<and> denotes h'' (J_Array js) v \<and> above (length h) v"
proof -
  obtain v h'' where mk: "make_array vs h' = (v, h'')" by fastforce
  moreover have "built h h''" using mk assms(1,3)
    by (auto simp: make_array_def built_def extends_def nth_append intro!: closed_new)
  moreover have "above (length h) v" using mk assms(1) by (auto simp: make_array_def built_def extends_def)
  ultimately show ?thesis using new_array_denotes [OF assms(2) mk] by blast
qed

lemma object_built: "extends {length h} (h @ [Object_Cell []]) h' \<Longrightarrow> closed_from (length h) h' \<Longrightarrow> built h h'"
  by (auto simp: built_def extends_def nth_append)

lemma construct_built:
  "\<exists>v h'. construct j h = Some (v, h') \<and> built h h' \<and> denotes h' (canon j) v \<and> above (length h) v"
  "\<exists>vs h'. construct_elements js h = Some (vs, h') \<and> built h h' \<and> list_all2 (denotes h') (map canon js) vs
     \<and> (\<forall>v \<in> set vs. above (length h) v)"
  "v = V_Object a \<Longrightarrow> denotes h (J_Object ms) v \<Longrightarrow> closed_from a h
    \<Longrightarrow> \<exists>h'. construct_members v kvs h = Some h' \<and> extends {a} h h' \<and> closed_from a h'
      \<and> denotes h' (J_Object (fold (\<lambda>(k, j). om_put k j) (map (\<lambda>(k, j). (k, canon j)) kvs) ms)) v"
proof (induction j h and js h and v kvs h arbitrary: and and a ms rule: construct_construct_elements_construct_members.induct)
  case (7 js h)
  then obtain vs h' where el: "construct_elements js h = Some (vs, h')" "built h h'"
    "list_all2 (denotes h') (map canon js) vs" "\<forall>v \<in> set vs. above (length h) v" by blast
  then show ?case using new_array_built [OF el(2-4)] by auto
next
  case (8 kvs h)
  obtain h' where h': "construct_members (V_Object (length h)) kvs (h @ [Object_Cell []]) = Some h'"
    "extends {length h} (h @ [Object_Cell []]) h'" "closed_from (length h) h'"
    "denotes h' (J_Object (fold (\<lambda>(k, j). om_put k j) (map (\<lambda>(k, j). (k, canon j)) kvs) [])) (V_Object (length h))"
    using 8 [OF new_object_denotes(1) [symmetric] refl new_object_denotes(2,3)] by blast
  then show ?case using object_built [OF h'(2,3)] by (simp add: new_object_denotes(1) obj_object)
next
  case (10 j js h)
  then obtain v h' where j: "construct j h = Some (v, h')" "built h h'" "denotes h' (canon j) v" "above (length h) v" by blast
  then obtain vs h'' where js: "construct_elements js h' = Some (vs, h'')" "built h' h''"
    "list_all2 (denotes h'') (map canon js) vs" "\<forall>v \<in> set vs. above (length h') v" using 10 by blast
  have "denotes h'' (canon j) v" using extends_denotes js(2) j(3) by (auto simp: built_def)
  moreover have "\<forall>v \<in> set vs. above (length h) v"
    using js(4) j(2) above_mono by (auto simp: built_def extends_def)
  ultimately show ?case using j js built_trans by auto
next
  case (12 v k j kvs h)
  then obtain w h1 where j: "construct j h = Some (w, h1)" "built h h1" "denotes h1 (canon j) w" "above (length h) w" by blast
  obtain h2 where h2: "v_set k w h1 v = Some h2" "denotes h2 (J_Object (om_put k (canon j) ms)) v"
    "closed_from a h2" "extends {a} h h2"
    using set_new_member [OF _ 12(5) j(2-4)] 12(3,4) by blast
  obtain h' where h': "construct_members v kvs h2 = Some h'" "extends {a} h2 h'" "closed_from a h'"
    "denotes h' (J_Object (fold (\<lambda>(k, j). om_put k j) (map (\<lambda>(k, j). (k, canon j)) kvs) (om_put k (canon j) ms))) v"
    using 12(2) [OF j(1) refl h2(1) 12(3) h2(2,3)] by blast
  have "extends {a} h h'" using extends_trans [OF h2(4) h'(2)] by simp
  then show ?case using j(1) h2(1) h' by simp
qed (auto simp: built_refl)

section \<open>Properties\<close>

definition small_heap :: jheap where
  "small_heap = [Object_Cell [], Array_Cell [V_Object 0, V_Object 0]]"

lemma small_heap_outer: "\<not> reaches small_heap (V_Bool b) a"
  by (auto elim: reaches.cases simp: v_as_array_def v_as_object_def)

text \<open>C14: \<open>set\<close> through any copy of an object is the update of the tree, provided the value that is put in does
  not contain the object; it is seen through every other copy, and values without this object do not change.\<close>

theorem set_through_copies:
  assumes "denotes h (J_Object ms) (V_Object a)" and "denotes h j w" and "\<not> reaches h w a"
  shows "\<exists>h'. v_set k w h (V_Object a) = Some h' \<and> denotes h' (J_Object (om_put k j ms)) (V_Object a)
    \<and> (\<forall>j' u. denotes h j' u \<longrightarrow> \<not> reaches h u a \<longrightarrow> denotes h' j' u)"
  using set_denotes [OF assms] by blast

theorem set_through_copies_witness:
  "\<exists>h'. v_set ''k'' (V_Bool True) small_heap (V_Object 0) = Some h' \<and> denotes h' (J_Object (om_put ''k'' (J_Bool True) [])) (V_Object 0)"
proof -
  have o: "denotes small_heap (J_Object []) (V_Object 0)" by (simp add: small_heap_def v_as_object_def cell_def)
  have "denotes small_heap (J_Bool True) (V_Bool True)" by simp
  from set_through_copies [OF o this small_heap_outer] show ?thesis by blast
qed

text \<open>C15: \<open>operator==\<close> decides identity, not equality: the same array or object built twice gives two values
  that stand for the same tree and are not equal, while every copy of a value equals it.\<close>

theorem equality_is_identity:
  assumes "j = J_Array js \<or> j = J_Object kvs" and "construct j h = Some (v, h1)" and "construct j h1 = Some (w, h2)"
  shows "denotes h2 (canon j) v \<and> denotes h2 (canon j) w \<and> \<not> v_eq v w \<and> v_eq v v"
proof -
  have v: "built h h1" "denotes h1 (canon j) v" and w: "built h1 h2" "denotes h2 (canon j) w" "above (length h1) w"
    using construct_built(1) [of j h] construct_built(1) [of j h1] assms(2,3) by auto
  have old: "denotes h2 (canon j) v" using extends_denotes v(2) w(1) by (auto simp: built_def)
  have "\<exists>a. (v = V_Array a \<or> v = V_Object a) \<and> a < length h1"
    using assms(1) v(2) by (auto simp: obj_object as_array_Some as_object_Some cell_def split: option.splits if_splits)
  then show ?thesis using old w by (cases w) auto
qed

theorem equality_is_identity_witness:
  "\<not> v_eq (V_Object 0) (V_Object 1)"
  using equality_is_identity [of "J_Object []" "[]" "[]" "[]" "V_Object 0" _ "V_Object 1"] by (simp add: make_object_def)

end
