(* ===== verification/TF_Document.thy ===== *)
theory TF_Document
  imports TF_Store TF_SnapshotText TF_Example
begin

text \<open>
  How \<open>serialization.cpp\<close> builds the document of a snapshot in memory: \<open>snapshot_to_json\<close> and the functions that it
  calls, over the store of \<open>TF_Store\<close>, with every \<open>Value::object()\<close> an allocation where the code has it and every
  \<open>set\<close> a write through the pointer, in the order of the code. A builder takes the store and yields the value and
  the store after it, or the exception. \<open>TF_Serialization\<close> has the trees of these documents; \<open>document_built\<close> shows
  that the builders make them.
\<close>

section \<open>Builders\<close>

type_synonym builder = "jheap \<Rightarrow> (jval \<times> jheap) eresult"

text \<open>A value without cells.\<close>

definition plain :: "jval \<Rightarrow> builder" where
  "plain v h = Inr (v, h)"

text \<open>\<open>o.set(k, ...)\<close> for one member after the other: the argument is built, then written into the object.\<close>

fun set_members :: "(string \<times> builder) list \<Rightarrow> jval \<Rightarrow> jheap \<Rightarrow> jheap eresult" where
  "set_members [] ob h = Inr h"
| "set_members ((k, mk) # ms) ob h =
     ebind (mk h) (\<lambda>(w, h1). case v_set k w h1 ob of None \<Rightarrow> Inl E_BadVariant | Some h2 \<Rightarrow> set_members ms ob h2)"

text \<open>\<open>Value o = Value::object(); o.set(...); ...; return o;\<close>\<close>

definition new_object :: "(string \<times> builder) list \<Rightarrow> builder" where
  "new_object ms h =
     (case make_object [] h of (ob, h1) \<Rightarrow> ebind (set_members ms ob h1) (\<lambda>h2. Inr (ob, h2)))"

text \<open>\<open>for (x : xs) { ...; a.push_back(v); }\<close>. The local array becomes a cell when it is put into a value.\<close>

fun push_each :: "('a \<Rightarrow> builder) \<Rightarrow> 'a list \<Rightarrow> jheap \<Rightarrow> (jval list \<times> jheap) eresult" where
  "push_each f [] h = Inr ([], h)"
| "push_each f (x # xs) h = ebind (f x h) (\<lambda>(v, h1). ebind (push_each f xs h1) (\<lambda>(vs, h2). Inr (v # vs, h2)))"

definition array_value :: "jval list \<Rightarrow> builder" where
  "array_value vs h = Inr (make_array vs h)"

section \<open>The functions of the serializer\<close>

fun property_to_value :: "property_value \<Rightarrow> builder" where
  "property_to_value PV_Null = plain V_Null"
| "property_to_value (PV_Bool b) = plain (V_Bool b)"
| "property_to_value (PV_Int i) = plain (V_Int i)"
| "property_to_value (PV_Uint u) = plain (V_Uint u)"
| "property_to_value (PV_Double d) = plain (V_Double d)"
| "property_to_value (PV_String s) = plain (V_String s)"
| "property_to_value (PV_StringArray a) = array_value (map V_String a)"
| "property_to_value (PV_IntArray a) = array_value (map V_Int a)"

text \<open>\<open>put\<close> in \<open>native_to_json\<close>, and the conditional expressions after it.\<close>

definition optional_value :: "'a::len word option \<Rightarrow> builder" where
  "optional_value v = plain (case v of Some w \<Rightarrow> V_Uint (ucast w) | None \<Rightarrow> V_Null)"

definition native_to_value :: "native_identity \<Rightarrow> builder" where
  "native_to_value n = new_object
     [(''pci_domain'', optional_value (ni_pci_domain n)), (''pci_bus'', optional_value (ni_pci_bus n)),
      (''pci_device'', optional_value (ni_pci_device n)), (''pci_function'', optional_value (ni_pci_function n)),
      (''vendor_id'', optional_value (ni_vendor_id n)), (''device_id'', optional_value (ni_device_id n)),
      (''subsystem_id'', optional_value (ni_subsystem_id n)),
      (''subsystem_vendor_id'', optional_value (ni_subsystem_vendor_id n)),
      (''numa_node'', optional_value (ni_numa_node n)), (''cpu_package'', optional_value (ni_cpu_package n)),
      (''core_id'', optional_value (ni_core_id n)), (''processor_group'', optional_value (ni_processor_group n)),
      (''logical_processor_index'', optional_value (ni_logical_processor_index n)),
      (''cuda_ordinal'', optional_value (ni_cuda_ordinal n)), (''cuda_uuid'', plain (V_String (ni_cuda_uuid n))),
      (''name'', plain (V_String (ni_name n))),
      (''network_interface_name'', plain (V_String (ni_network_interface_name n))),
      (''network_hardware_id'', plain (V_String (ni_network_hardware_id n))),
      (''storage_id'', plain (V_String (ni_storage_id n))),
      (''storage_device_path'', plain (V_String (ni_storage_device_path n))),
      (''machine_name'', plain (V_String (ni_machine_name n))), (''os_version'', plain (V_String (ni_os_version n)))]"

definition provenance_to_value :: "provenance \<Rightarrow> builder" where
  "provenance_to_value p = new_object
     [(''kind'', plain (V_String (provenance_kind_to_string (pr_kind p)))),
      (''confidence'', plain (V_String (confidence_to_string (pr_confidence p)))),
      (''provider'', plain (V_String (pr_provider p))), (''api'', plain (V_String (pr_api p))),
      (''detail'', plain (V_String (pr_detail p))), (''timestamp_ms'', plain (V_Int (pr_timestamp_ms p))),
      (''schema_version'', plain (V_String (pr_schema_version p))),
      (''provider_version'', plain (V_String (pr_provider_version p)))]"

text \<open>\<open>props\<close> of a node and of an edge.\<close>

definition properties_to_value :: "property_map \<Rightarrow> builder" where
  "properties_to_value ps = new_object (map (\<lambda>(k, v). (k, property_to_value v)) ps)"

definition node_members :: "node_id \<Rightarrow> topology_node \<Rightarrow> (string \<times> builder) list" where
  "node_members i n =
     [(''id'', plain (V_String (to_hex i))), (''type'', plain (V_String (node_type_to_string (n_type n)))),
      (''category'', plain (V_String (n_category n))), (''name'', plain (V_String (n_name n))),
      (''display_name'', plain (V_String (n_display_name n))), (''native'', native_to_value (n_native n)),
      (''capabilities'', plain (V_Uint (n_capabilities n))),
      (''confidence'', plain (V_String (confidence_to_string (n_confidence n)))),
      (''provenance'', provenance_to_value (n_provenance n)), (''synthetic'', plain (V_Bool (n_synthetic n))),
      (''properties'', properties_to_value (n_properties n))]"

text \<open>The loop over the sorted ids: each round allocates the object of its node.\<close>

definition nodes_to_value :: "topology_snapshot \<Rightarrow> builder" where
  "nodes_to_value s h =
     ebind (push_each (\<lambda>i h. case snap_node s i of
              Inl e \<Rightarrow> Inl (E_Topology e)
            | Inr n \<Rightarrow> (case make_object [] h of (ob, h1) \<Rightarrow>
                ebind (set_members (node_members i n) ob h1) (\<lambda>h2. Inr (ob, h2))))
          (sort_by (<) (um_keys (s_nodes s))) h)
       (\<lambda>(vs, h'). array_value vs h')"

definition if_some :: "string \<Rightarrow> ('a \<Rightarrow> jval) \<Rightarrow> 'a option \<Rightarrow> (string \<times> builder) list" where
  "if_some k f v = (case v of Some x \<Rightarrow> [(k, plain (f x))] | None \<Rightarrow> [])"

definition edge_members :: "topology_edge \<Rightarrow> (string \<times> builder) list" where
  "edge_members e =
     [(''source'', plain (V_String (to_hex (e_source e)))), (''target'', plain (V_String (to_hex (e_target e)))),
      (''type'', plain (V_String (edge_type_to_string (e_type e)))),
      (''direction'', plain (V_String (edge_direction_to_string (e_direction e)))),
      (''confidence'', plain (V_String (confidence_to_string (e_confidence e)))),
      (''provenance'', provenance_to_value (e_provenance e))]
     @ if_some ''width'' (\<lambda>w. V_Uint (scast w)) (e_width e)
     @ if_some ''pcie_generation'' (\<lambda>w. V_Uint (scast w)) (e_pcie_generation e)
     @ if_some ''bandwidth_bps'' V_Double (e_bandwidth_bytes_per_sec e)
     @ if_some ''latency_ns'' V_Double (e_latency_ns e)
     @ [(''hop_count'', plain (V_Int (scast (e_hop_count e))))]
     @ if_some ''locality_score'' V_Double (e_locality_score e)
     @ [(''accessible'', plain (V_Bool (e_accessible e)))]
     @ if_some ''peer_capability'' V_Uint (e_peer_capability e)
     @ [(''policy_version'', plain (V_Uint (ucast (e_policy_version e)))),
        (''properties'', properties_to_value (e_properties e))]"

definition edges_to_value :: "topology_snapshot \<Rightarrow> builder" where
  "edges_to_value s h =
     ebind (push_each (\<lambda>e h. case make_object [] h of (ob, h1) \<Rightarrow>
              ebind (set_members (edge_members e) ob h1) (\<lambda>h2. Inr (ob, h2)))
          (sort_by edge_before (s_edges s)) h)
       (\<lambda>(vs, h'). array_value vs h')"

definition strings_to_value :: "string list \<Rightarrow> builder" where
  "strings_to_value ss = array_value (map V_String ss)"

definition validation_to_value :: "validation_result \<Rightarrow> builder" where
  "validation_to_value v = new_object
     [(''ok'', plain (V_Bool (v_ok v))), (''errors'', strings_to_value (v_errors v)),
      (''warnings'', strings_to_value (v_warnings v))]"

definition snapshot_to_value :: "topology_snapshot \<Rightarrow> builder" where
  "snapshot_to_value s = (let m = s_metadata s in new_object
     ([(''schema'', plain (V_String kSnapshotSchemaVersion)), (''snapshot_id'', plain (V_String (m_snapshot_id m))),
       (''generation'', plain (V_Uint (m_generation m))), (''created_ms'', plain (V_Int (m_created_ms m))),
       (''machine_identity'', plain (V_String (m_machine_identity m))),
       (''provider_versions'', plain (V_String (m_provider_versions m))), (''format'', plain (V_String format_name))]
      @ (''nodes'', nodes_to_value s)
      # [(''edges'', edges_to_value s), (''warnings'', strings_to_value (m_warnings m)),
         (''partial_discovery'', plain (V_Bool (m_partial_discovery m))),
         (''synthetic'', plain (V_Bool (m_synthetic m))), (''validation'', validation_to_value (s_validation s))]))"

section \<open>Cells with one owner\<close>

text \<open>The pointers in the cells from \<open>n\<close> on. No two slots may hold one pointer: then no two elements and no two members
  are the same array or object.\<close>

fun addresses :: "jval \<Rightarrow> nat list" where
  "addresses (V_Array a) = [a]"
| "addresses (V_Object a) = [a]"
| "addresses _ = []"

fun stored :: "jcell \<Rightarrow> jval list" where
  "stored (Array_Cell vs) = vs"
| "stored (Object_Cell m) = map snd m"

definition pointers :: "jval list \<Rightarrow> nat list" where
  "pointers vs = concat (map addresses vs)"

definition slots :: "nat \<Rightarrow> jheap \<Rightarrow> nat list" where
  "slots n h = concat (map (\<lambda>c. pointers (stored c)) (drop n h))"

definition owned :: "nat \<Rightarrow> jheap \<Rightarrow> jval list \<Rightarrow> bool" where
  "owned n h vs \<longleftrightarrow> distinct (pointers vs @ slots n h) \<and> (\<forall>a \<in> set (pointers vs @ slots n h). n \<le> a \<and> a < length h)"

lemma pointers_simps [simp]:
  "pointers [] = []" "pointers (v # vs) = addresses v @ pointers vs" "pointers (vs @ ws) = pointers vs @ pointers ws"
  by (simp_all add: pointers_def)

lemma slots_append: "n \<le> length h \<Longrightarrow> slots n (h @ h') = slots n h @ slots (length h) (h @ h')"
  by (simp add: slots_def)

lemma slots_end: "slots (length h) h = []"
  by (simp add: slots_def)

lemma extends_append: "extends {} h h' \<Longrightarrow> \<exists>new. h' = h @ new"
  by (rule exI [of _ "drop (length h) h'"]) (auto simp: extends_def nth_append intro!: nth_equalityI)

lemma owned_plain: "addresses v = [] \<Longrightarrow> owned (length h) h [v]"
  by (simp add: owned_def slots_end)

lemma owned_Nil: "owned (length h) h []"
  by (simp add: owned_def slots_end)

lemma owned_join:
  assumes "owned n h vs" and "owned (length h) h' ws" and "extends {} h h'" and "n \<le> length h"
  shows "owned n h' (vs @ ws)"
proof -
  obtain new where h': "h' = h @ new" using extends_append [OF assms(3)] by blast
  have old: "\<forall>a \<in> set (pointers vs @ slots n h). n \<le> a \<and> a < length h" "distinct (pointers vs @ slots n h)"
    using assms(1) by (simp_all add: owned_def)
  have late: "\<forall>a \<in> set (pointers ws @ slots (length h) h'). length h \<le> a \<and> a < length h'"
    "distinct (pointers ws @ slots (length h) h')"
    using assms(2) by (simp_all add: owned_def)
  have len: "length h \<le> length h'" by (simp add: h')
  have split: "slots n h' = slots n h @ slots (length h) h'" using slots_append [OF assms(4)] by (simp add: h')
  have "set (pointers vs @ slots n h) \<inter> set (pointers ws @ slots (length h) h') = {}" using old(1) late(1) by fastforce
  moreover have "n \<le> a \<and> a < length h'"
    if "a \<in> set (pointers vs @ slots n h) \<union> set (pointers ws @ slots (length h) h')" for a
    using that old(1) late(1) assms(4) len by (meson UnE order_trans less_le_trans)
  ultimately show ?thesis using old(2) late(2) by (auto simp: owned_def split)
qed

lemma owned_array: "owned n h vs \<Longrightarrow> n \<le> length h \<Longrightarrow> owned n (h @ [Array_Cell vs]) [V_Array (length h)]"
  by (auto simp: owned_def slots_def less_Suc_eq)

lemma owned_object: "owned (length h) (h @ [Object_Cell []]) [V_Object (length h)]"
  by (simp add: owned_def slots_def)

text \<open>Writing a member moves the pointers of the new value from the outside into the object.\<close>

lemma pointers_put: "mset (pointers (map snd (om_put k w m))) \<subseteq># mset (addresses w) + mset (pointers (map snd m))"
proof (induction k w m rule: om_put.induct)
  case (2 k w k' v m)
  then show ?case
    by (auto simp: subset_mset.add_increasing subset_mset.add_increasing2 intro: subset_mset.order_trans)
qed simp

lemma mset_slots_update:
  assumes "n \<le> a" and "a < length h"
  shows "mset (slots n (h[a := c])) + mset (pointers (stored (h ! a))) = mset (slots n h) + mset (pointers (stored c))"
proof -
  have "mset (concat (map f (xs[i := y]))) + mset (f (xs ! i)) = mset (concat (map f xs)) + mset (f y)"
    if "i < length xs" for f :: "jcell \<Rightarrow> nat list" and xs i y
    using that by (induction xs arbitrary: i) (auto simp: less_Suc_eq_0_disj)
  from this [of "a - n" "drop n h" "\<lambda>c. pointers (stored c)" c] show ?thesis
    using assms by (simp add: slots_def drop_update_swap)
qed

lemma distinct_submset: "mset xs \<subseteq># mset ys \<Longrightarrow> distinct ys \<Longrightarrow> distinct xs"
proof -
  assume sub: "mset xs \<subseteq># mset ys" and ys: "distinct ys"
  have "count (mset xs) a \<le> 1" for a
  proof -
    have "count (mset xs) a \<le> count (mset ys) a" by (rule mset_subset_eq_count [OF sub])
    also have "\<dots> = (if a \<in> set ys then 1 else 0)" using ys unfolding distinct_count_atmost_1 by blast
    also have "\<dots> \<le> (1 :: nat)" by simp
    finally show ?thesis .
  qed
  then show ?thesis by (auto simp: distinct_count_atmost_1 le_Suc_eq count_eq_zero_iff)
qed

lemma owned_write:
  assumes "owned n h [V_Object a, w]" and "v_set k w h (V_Object a) = Some h'"
  shows "owned n h' [V_Object a]"
proof -
  obtain m where m: "cell h a = Some (Object_Cell m)" "h' = h[a := Object_Cell (om_put k w m)]"
    using assms(2) by (auto simp: v_set_def write_object_def as_object_Some)
  have a: "n \<le> a" "a < length h" using assms(1) by (simp_all add: owned_def)
  have "h ! a = Object_Cell m" using m(1) a(2) by (simp add: cell_def)
  then have "mset (slots n h') + mset (pointers (map snd m)) \<subseteq># (mset (slots n h) + mset (addresses w)) + mset (pointers (map snd m))"
    using mset_slots_update [OF a, of "Object_Cell (om_put k w m)"] pointers_put [of k w m]
    by (simp add: m(2) ac_simps)
  then have "mset (slots n h') \<subseteq># mset (slots n h) + mset (addresses w)" by (rule mset_subset_eq_mono_add_right_cancel [THEN iffD1])
  then have sub: "mset (pointers [V_Object a] @ slots n h') \<subseteq># mset (pointers [V_Object a, w] @ slots n h)"
    by (simp add: ac_simps)
  then have "set (pointers [V_Object a] @ slots n h') \<subseteq> set (pointers [V_Object a, w] @ slots n h)"
    using set_mset_mono [OF sub] by (simp only: set_mset_mset)
  moreover have "length h' = length h" by (simp add: m(2))
  ultimately show ?thesis
    using assms(1) distinct_submset [OF sub] by (auto simp only: owned_def)
qed

section \<open>What a builder makes\<close>

text \<open>In every store the builder succeeds with a value that stands for the tree; it leaves all cells that were there
  as they are, nothing in the new cells points to them, and each new cell has one owner.\<close>

definition builds :: "builder \<Rightarrow> json \<Rightarrow> bool" where
  "builds mk j \<longleftrightarrow> (\<forall>h. \<exists>v h'. mk h = Inr (v, h') \<and> built h h' \<and> denotes h' j v \<and> above (length h) v \<and> owned (length h) h' [v])"

lemma buildsE:
  assumes "builds mk j"
  obtains v h' where "mk h = Inr (v, h')" and "built h h'" and "denotes h' j v" and "above (length h) v"
    and "owned (length h) h' [v]"
  using assms unfolding builds_def by blast

lemma built_extends: "built h h' \<Longrightarrow> extends {} h h'"
  by (simp add: built_def)

definition members_build :: "(string \<times> builder) list \<Rightarrow> (string \<times> json) list \<Rightarrow> bool" where
  "members_build ms kvs \<longleftrightarrow> list_all2 (\<lambda>(k, mk) (k', j). k = k' \<and> builds mk j) ms kvs"

lemma builds_plain [simp]:
  "builds (plain V_Null) J_Null" "builds (plain (V_Bool b)) (J_Bool b)" "builds (plain (V_Int i)) (J_Int i)"
  "builds (plain (V_Uint u)) (J_Uint u)" "builds (plain (V_Double d)) (J_Double d)" "builds (plain (V_String s)) (J_String s)"
  by (simp_all add: builds_def plain_def built_refl owned_plain)

lemma members_build_simps [simp]:
  "members_build [] kvs \<longleftrightarrow> kvs = []"
  "members_build ((k, mk) # ms) ((k', j) # kvs) \<longleftrightarrow> k = k' \<and> builds mk j \<and> members_build ms kvs"
  by (simp_all add: members_build_def)

lemma members_build_append: "members_build ms kvs \<Longrightarrow> members_build ms' kvs' \<Longrightarrow> members_build (ms @ ms') (kvs @ kvs')"
  by (simp add: members_build_def list_all2_appendI)

lemma set_members_build:
  "members_build ms kvs \<Longrightarrow> denotes h (J_Object m) (V_Object a) \<Longrightarrow> closed_from a h \<Longrightarrow> owned a h [V_Object a]
    \<Longrightarrow> \<exists>h'. set_members ms (V_Object a) h = Inr h' \<and> extends {a} h h' \<and> closed_from a h'
      \<and> denotes h' (J_Object (fold (\<lambda>(k, j). om_put k j) kvs m)) (V_Object a) \<and> owned a h' [V_Object a]"
proof (induction ms arbitrary: kvs h m)
  case (Cons kmk ms)
  obtain k mk where kmk: "kmk = (k, mk)" by fastforce
  with Cons.prems(1) obtain j kvs' where kvs: "kvs = (k, j) # kvs'" and mk: "builds mk j" and ms: "members_build ms kvs'"
    by (cases kvs) (auto simp: members_build_def)
  obtain w h1 where w: "mk h = Inr (w, h1)" "built h h1" "denotes h1 j w" "above (length h) w" "owned (length h) h1 [w]"
    using mk by (rule buildsE)
  obtain h2 where h2: "v_set k w h1 (V_Object a) = Some h2" "denotes h2 (J_Object (om_put k j m)) (V_Object a)"
    "closed_from a h2" "extends {a} h h2"
    using set_new_member [OF Cons.prems(2,3) w(2-4)] by blast
  have "a \<le> length h" using Cons.prems(4) by (simp add: owned_def)
  from owned_join [OF Cons.prems(4) w(5) built_extends [OF w(2)] this] have "owned a h1 [V_Object a, w]" by simp
  note own = owned_write [OF this h2(1)]
  from Cons.IH [OF ms h2(2,3) own] obtain h' where h': "set_members ms (V_Object a) h2 = Inr h'" "extends {a} h2 h'" "closed_from a h'"
    "denotes h' (J_Object (fold (\<lambda>(k, j). om_put k j) kvs' (om_put k j m))) (V_Object a)" "owned a h' [V_Object a]" by blast
  have "extends {a} h h'" using extends_trans [OF h2(4) h'(2)] by simp
  then show ?case using w(1) h2(1) h' by (simp add: kmk kvs)
qed simp

lemma builds_object: "members_build ms kvs \<Longrightarrow> builds (new_object ms) (obj kvs)"
  unfolding builds_def
proof
  fix h assume ms: "members_build ms kvs"
  obtain h' where h': "set_members ms (V_Object (length h)) (h @ [Object_Cell []]) = Inr h'"
    "extends {length h} (h @ [Object_Cell []]) h'" "closed_from (length h) h'"
    "denotes h' (obj kvs) (V_Object (length h))" "owned (length h) h' [V_Object (length h)]"
    using set_members_build [OF ms new_object_denotes(2,3) owned_object] by (auto simp only: obj_object)
  then show "\<exists>v h'. new_object ms h = Inr (v, h') \<and> built h h' \<and> denotes h' (obj kvs) v \<and> above (length h) v
      \<and> owned (length h) h' [v]"
    using object_built [OF h'(2,3)] by (simp add: new_object_def new_object_denotes(1))
qed

lemma owned_make_array:
  "owned n h vs \<Longrightarrow> n \<le> length h \<Longrightarrow> make_array vs h = (v, h') \<Longrightarrow> owned n h' [v]"
  using owned_array by (auto simp: make_array_def)

lemma builds_array_of:
  assumes "list_all2 (\<lambda>v j. addresses v = [] \<and> (\<forall>h. denotes h j v)) vs js"
  shows "builds (array_value vs) (J_Array js)"
  unfolding builds_def
proof
  fix h
  have flat: "addresses v = []" if "v \<in> set vs" for v using assms that by (auto simp: list_all2_conv_all_nth in_set_conv_nth)
  have "above n v" if "addresses v = []" for n v using that by (cases v) auto
  then have "list_all2 (denotes h) js vs" "\<forall>v \<in> set vs. above (length h) v"
    using assms flat by (auto simp: list_all2_conv_all_nth)
  moreover have "pointers vs = []" using flat by (simp add: pointers_def)
  then have "owned (length h) h vs" by (simp add: owned_def slots_end)
  ultimately show "\<exists>v h'. array_value vs h = Inr (v, h') \<and> built h h' \<and> denotes h' (J_Array js) v \<and> above (length h) v
      \<and> owned (length h) h' [v]"
    using new_array_built [OF built_refl] owned_make_array by (fastforce simp: array_value_def)
qed

lemma push_each_builds:
  "(\<And>x. x \<in> set xs \<Longrightarrow> builds (f x) (g x)) \<Longrightarrow>
    \<exists>vs h'. push_each f xs h = Inr (vs, h') \<and> built h h' \<and> list_all2 (denotes h') (map g xs) vs
      \<and> (\<forall>v \<in> set vs. above (length h) v) \<and> owned (length h) h' vs"
proof (induction xs arbitrary: h)
  case (Cons x xs)
  have "builds (f x) (g x)" using Cons.prems by simp
  then obtain v h1 where v: "f x h = Inr (v, h1)" "built h h1" "denotes h1 (g x) v" "above (length h) v" "owned (length h) h1 [v]"
    by (rule buildsE)
  obtain vs h' where vs: "push_each f xs h1 = Inr (vs, h')" "built h1 h'" "list_all2 (denotes h') (map g xs) vs"
    "\<forall>v \<in> set vs. above (length h1) v" "owned (length h1) h' vs" using Cons.IH [of h1] Cons.prems by auto
  have le: "length h \<le> length h1" using v(2) by (simp add: built_def extends_def)
  have "denotes h' (g x) v" using extends_denotes vs(2) v(3) by (auto simp: built_def)
  moreover have "\<forall>v \<in> set vs. above (length h) v" using vs(4) le above_mono by blast
  moreover have "owned (length h) h' (v # vs)" using owned_join [OF v(5) vs(5) built_extends [OF vs(2)] le] by simp
  ultimately show ?case using v vs built_trans by auto
qed (simp add: built_refl owned_Nil)

lemma builds_loop:
  assumes "\<And>x. x \<in> set xs \<Longrightarrow> builds (f x) (g x)"
  shows "builds (\<lambda>h. ebind (push_each f xs h) (\<lambda>(vs, h'). array_value vs h')) (J_Array (map g xs))"
  unfolding builds_def
proof
  fix h
  obtain vs h' where vs: "push_each f xs h = Inr (vs, h')" "built h h'" "list_all2 (denotes h') (map g xs) vs"
    "\<forall>v \<in> set vs. above (length h) v" "owned (length h) h' vs"
    using push_each_builds [where f = f and g = g and xs = xs, OF assms] by blast
  have "length h \<le> length h'" using vs(2) by (simp add: built_def extends_def)
  from new_array_built [OF vs(2-4)] owned_make_array [OF vs(5) this] vs(1)
  show "\<exists>v h'. ebind (push_each f xs h) (\<lambda>(vs, h'). array_value vs h') = Inr (v, h') \<and> built h h'
      \<and> denotes h' (J_Array (map g xs)) v \<and> above (length h) v \<and> owned (length h) h' [v]"
    by (auto simp: array_value_def)
qed

lemma builds_object_in_place:
  "(\<lambda>h. case make_object [] h of (ob, h1) \<Rightarrow> ebind (set_members ms ob h1) (\<lambda>h2. Inr (ob, h2))) = new_object ms"
  by (simp add: fun_eq_iff new_object_def)

text \<open>A builder that throws in the middle.\<close>

lemma set_members_throws:
  assumes "members_build ms kvs" and "\<And>h. mk h = Inl x" and "denotes h (J_Object m) (V_Object a)" and "closed_from a h"
  shows "set_members (ms @ (k, mk) # ms') (V_Object a) h = Inl x"
  using assms(1,3,4)
proof (induction ms arbitrary: kvs h m)
  case (Cons kmk ms)
  obtain k mk where kmk: "kmk = (k, mk)" by fastforce
  with Cons.prems(1) obtain j kvs' where mk: "builds mk j" and ms: "members_build ms kvs'"
    by (cases kvs) (auto simp: members_build_def)
  obtain w h1 where w: "mk h = Inr (w, h1)" "built h h1" "denotes h1 j w" "above (length h) w"
    using mk by (rule buildsE)
  obtain h2 where h2: "v_set k w h1 (V_Object a) = Some h2" "denotes h2 (J_Object (om_put k j m)) (V_Object a)"
    "closed_from a h2" using set_new_member [OF Cons.prems(2,3) w(2-4)] by blast
  then show ?case using Cons.IH [OF ms h2(2,3)] w(1) h2(1) by (simp add: kmk)
qed (simp add: assms(2))

lemma tbind_Inl_iff: "tbind m f = Inl e \<longleftrightarrow> m = Inl e \<or> (\<exists>x. m = Inr x \<and> f x = Inl e)"
  by (cases m) auto

lemma push_each_throws:
  "tmap (\<lambda>x. tbind (look x) (\<lambda>n. Inr (g x n))) xs = Inl e
    \<Longrightarrow> (\<And>x n. look x = Inr n \<Longrightarrow> builds (f x) (g x n))
    \<Longrightarrow> (\<And>x e h. look x = Inl e \<Longrightarrow> f x h = Inl (E_Topology e))
    \<Longrightarrow> push_each f xs h = Inl (E_Topology e)"
proof (induction xs arbitrary: h)
  case (Cons x xs)
  show ?case
  proof (cases "look x")
    case (Inr n)
    obtain v h1 where "f x h = Inr (v, h1)" using Cons.prems(2) [OF Inr] by (rule buildsE) blast
    moreover have "push_each f xs h1 = Inl (E_Topology e)"
      by (rule Cons.IH) (use Cons.prems Inr in \<open>auto simp: tbind_Inl_iff\<close>)
    ultimately show ?thesis by simp
  qed (use Cons.prems in simp)
qed simp

lemma tmap_Inr: "tmap f xs = Inr ys \<Longrightarrow> x \<in> set xs \<Longrightarrow> \<exists>y. f x = Inr y"
  by (induction xs arbitrary: ys) (auto simp: tbind_Inr_iff)

section \<open>The documents of the serializer\<close>

lemma builds_property: "builds (property_to_value p) (property_to_json p)"
  by (cases p) (auto intro!: builds_array_of simp: list_all2_conv_all_nth)

lemma builds_strings: "builds (strings_to_value ss) (J_Array (map J_String ss))"
  unfolding strings_to_value_def by (rule builds_array_of) (simp add: list_all2_conv_all_nth)

lemma builds_optional [simp]: "builds (optional_value v) (optional_uint v)"
  by (cases v) (simp_all add: optional_value_def optional_uint_def)

lemma builds_native: "builds (native_to_value n) (native_to_json n)"
  unfolding native_to_value_def native_to_json_def by (rule builds_object) simp

lemma builds_provenance: "builds (provenance_to_value p) (provenance_to_json p)"
  unfolding provenance_to_value_def provenance_to_json_def by (rule builds_object) simp

lemma builds_properties: "builds (properties_to_value ps) (properties_to_json ps)"
  unfolding properties_to_value_def properties_to_json_def
  by (rule builds_object) (auto simp: members_build_def list_all2_conv_all_nth builds_property case_prod_beta)

lemma builds_validation: "builds (validation_to_value v) (validation_to_json v)"
  unfolding validation_to_value_def validation_to_json_def by (rule builds_object) (simp add: builds_strings)

lemmas builds_parts = builds_native builds_provenance builds_properties builds_validation builds_strings

lemma builds_node: "builds (new_object (node_members i n)) (node_to_json i n)"
  unfolding node_members_def node_to_json_def by (rule builds_object) (simp add: builds_parts)

lemma members_if_some:
  "(\<And>x. builds (plain (f x)) (g x)) \<Longrightarrow> members_build (if_some k f v) (optional_field k g v)"
  by (cases v) (simp_all add: if_some_def optional_field_def)

lemma builds_edge: "builds (new_object (edge_members e)) (edge_to_json e)"
  unfolding edge_members_def edge_to_json_def
  by (intro builds_object members_build_append members_if_some) (simp_all add: builds_parts)

lemma builds_edges: "builds (edges_to_value s) (J_Array (map edge_to_json (sort_by edge_before (s_edges s))))"
  unfolding edges_to_value_def [abs_def] builds_object_in_place by (rule builds_loop) (rule builds_edge)

lemma nodes_to_value_eq:
  "nodes_to_value s = (\<lambda>h. ebind (push_each (\<lambda>i h. case snap_node s i of Inl e \<Rightarrow> Inl (E_Topology e)
       | Inr n \<Rightarrow> new_object (node_members i n) h) (sort_by (<) (um_keys (s_nodes s))) h) (\<lambda>(vs, h'). array_value vs h'))"
  unfolding nodes_to_value_def [abs_def] new_object_def [abs_def] by simp

lemma builds_nodes:
  assumes "tmap (\<lambda>i. tbind (snap_node s i) (\<lambda>n. Inr (node_to_json i n))) (sort_by (<) (um_keys (s_nodes s))) = Inr nodes"
  shows "builds (nodes_to_value s) (J_Array nodes)"
proof -
  let ?ids = "sort_by (<) (um_keys (s_nodes s))"
  have known: "\<exists>n. snap_node s i = Inr n" if "i \<in> set ?ids" for i
    using tmap_Inr [OF assms that] by (auto simp: tbind_Inr_iff)
  then have "tmap (\<lambda>i. tbind (snap_node s i) (\<lambda>n. Inr (node_to_json i n))) ?ids = Inr (map (\<lambda>i. node_to_json i (node_of s i)) ?ids)"
    by (intro tmap_all_Inr) (fastforce simp: snap_node_def node_of_def find_node_def split: option.splits)
  then have nodes: "nodes = map (\<lambda>i. node_to_json i (node_of s i)) ?ids" using assms by simp
  show ?thesis
    unfolding nodes nodes_to_value_eq
  proof (rule builds_loop)
    fix i assume "i \<in> set ?ids"
    then have "snap_node s i = Inr (node_of s i)"
      using known by (fastforce simp: snap_node_def node_of_def find_node_def split: option.splits)
    then show "builds (\<lambda>h. case snap_node s i of Inl e \<Rightarrow> Inl (E_Topology e) | Inr n \<Rightarrow> new_object (node_members i n) h)
        (node_to_json i (node_of s i))"
      using builds_node by simp
  qed
qed

lemma nodes_throw:
  assumes "tmap (\<lambda>i. tbind (snap_node s i) (\<lambda>n. Inr (node_to_json i n))) (sort_by (<) (um_keys (s_nodes s))) = Inl e"
  shows "nodes_to_value s h = Inl (E_Topology e)"
proof -
  have "push_each (\<lambda>i h. case snap_node s i of Inl e \<Rightarrow> Inl (E_Topology e) | Inr n \<Rightarrow> new_object (node_members i n) h)
      (sort_by (<) (um_keys (s_nodes s))) h = Inl (E_Topology e)"
    by (rule push_each_throws [OF assms]) (simp_all add: builds_node)
  then show ?thesis by (simp add: nodes_to_value_eq)
qed

lemma snapshot_head: "\<exists>kvs. members_build
    [(''schema'', plain (V_String kSnapshotSchemaVersion)), (''snapshot_id'', plain (V_String a)),
     (''generation'', plain (V_Uint b)), (''created_ms'', plain (V_Int c)), (''machine_identity'', plain (V_String d)),
     (''provider_versions'', plain (V_String f)), (''format'', plain (V_String format_name))] kvs"
  by (rule exI [of _ "[(''schema'', J_String kSnapshotSchemaVersion), (''snapshot_id'', J_String a),
     (''generation'', J_Uint b), (''created_ms'', J_Int c), (''machine_identity'', J_String d),
     (''provider_versions'', J_String f), (''format'', J_String format_name)]"]) simp

lemma builds_snapshot:
  assumes "snapshot_to_json s = Inr d"
  shows "builds (snapshot_to_value s) d"
proof -
  obtain nodes where nodes: "tmap (\<lambda>i. tbind (snap_node s i) (\<lambda>n. Inr (node_to_json i n))) (sort_by (<) (um_keys (s_nodes s))) = Inr nodes"
    using assms by (auto simp: snapshot_to_json_def tbind_Inr_iff)
  show ?thesis
    using assms unfolding snapshot_to_json_def snapshot_to_value_def
    by (auto simp: nodes Let_def builds_nodes [OF nodes] builds_edges builds_parts intro!: builds_object)
qed

lemma snapshot_throws: "snapshot_to_json s = Inl e \<Longrightarrow> snapshot_to_value s h = Inl (E_Topology e)"
proof -
  assume "snapshot_to_json s = Inl e"
  then have "nodes_to_value s h = Inl (E_Topology e)" for h
    by (intro nodes_throw) (auto simp: snapshot_to_json_def Let_def tbind_Inl_iff)
  note throws = set_members_throws [where mk = "nodes_to_value s", OF _ this new_object_denotes(2,3)]
  show ?thesis
    unfolding snapshot_to_value_def Let_def new_object_def new_object_denotes(1) prod.case
    by (simp only: throws [OF someI_ex [OF snapshot_head]] ebind.simps)
qed

section \<open>Properties\<close>

text \<open>C13: what \<open>snapshot_to_json\<close> builds in memory, object by object and member by member through the shared pointers.
  In every store it throws exactly when the tree of \<open>TF_Serialization\<close> does, with the same error; otherwise it returns a
  value that stands for this tree. The value shares no cell with what was there before, every other value stays as it is, and
  no pointer to a new cell is stored twice: every node, edge, property map, provenance, native identity and array
  is a cell of its own.\<close>

theorem document_built:
  "case snapshot_to_json s of
     Inl e \<Rightarrow> snapshot_to_value s h = Inl (E_Topology e)
   | Inr d \<Rightarrow> (\<exists>v h'. snapshot_to_value s h = Inr (v, h') \<and> denotes h' d v \<and> (\<forall>b. reaches h' v b \<longrightarrow> length h \<le> b)
       \<and> (\<forall>j u. denotes h j u \<longrightarrow> denotes h' j u) \<and> distinct (addresses v @ slots (length h) h'))"
proof (cases "snapshot_to_json s")
  case (Inr d)
  obtain v h' where b: "snapshot_to_value s h = Inr (v, h')" "built h h'" "denotes h' d v" "above (length h) v"
    "owned (length h) h' [v]"
    using builds_snapshot [OF Inr] by (rule buildsE)
  then have "\<forall>b. reaches h' v b \<longrightarrow> length h \<le> b" using above_reaches by (auto simp: built_def)
  then show ?thesis using b extends_denotes by (auto simp: Inr built_def owned_def)
qed (simp add: snapshot_throws)

text \<open>The snapshot of the example has five nodes and three edges.\<close>

theorem document_built_witness:
  "\<exists>d v h'. snapshot_to_json ex_snapshot = Inr d \<and> snapshot_to_value ex_snapshot small_heap = Inr (v, h') \<and> denotes h' d v
    \<and> distinct (addresses v @ slots 2 h') \<and> length (s_edges ex_snapshot) = 3"
proof -
  have "\<exists>d. snapshot_to_json ex_snapshot = Inr d" using snapshot_document [OF valid_wf [OF ex_valid]] by blast
  moreover have "length small_heap = 2" by (simp add: small_heap_def)
  ultimately show ?thesis using document_built [of ex_snapshot small_heap] by (auto simp: ex_snapshot_edges)
qed

end
