(* ===== verification/TF_Values.thy ===== *)
theory TF_Values
  imports TF_Serialization
begin

unbundle bit_operations_syntax

text \<open>
  Operations of the value types of the headers that a client uses but no part of the library depends on: the
  \<open>std::hash\<close> of node ids and edge keys (\<open>node_id.hpp\<close>, \<open>edge.hpp\<close>; whatever the values are, hash maps are
  enumerated in an arbitrary order), the template \<open>Result<T>\<close> (\<open>result.hpp\<close>) and the alternatives of a
  property value (\<open>value.hpp\<close>).
\<close>

section \<open>Hashes\<close>

definition hash_node_id :: "node_id \<Rightarrow> 64 word" where
  "hash_node_id i =
     (let h = 1469598103934665603 XOR low i;
          h = (h XOR drop_bit 32 (low i)) * 1099511628211;
          h = h XOR high i
      in (h XOR drop_bit 32 (high i)) * 1099511628211)"

definition hash_edge_key :: "edge_key \<Rightarrow> 64 word" where
  "hash_edge_key k =
     (let h = hash_node_id (k_source k);
          h = h XOR (hash_node_id (k_target k) + 0x9e3779b97f4a7c15 + push_bit 6 h + drop_bit 2 h)
      in h XOR (of_nat (edge_type_value (k_type k)) + 0x9e3779b97f4a7c15 + push_bit 6 h + drop_bit 2 h))"

section \<open>Ids that share a half never collide\<close>

lemma fnv_prime_unit: "(1099511628211 :: 64 word) * 14886173955864302971 = 1"
  by simp

lemma hash_node_id_low_inj:
  assumes "hash_node_id (NodeId h a) = hash_node_id (NodeId h b)"
  shows "a = b"
proof -
  let ?m = "\<lambda>x. (1469598103934665603 XOR x XOR drop_bit 32 x) * 1099511628211 :: 64 word"
  have "(?m a XOR h XOR drop_bit 32 h) = (?m b XOR h XOR drop_bit 32 h)"
    using assms unfolding hash_node_id_def Let_def node_id.sel xor.assoc by (rule mult_unit_inj [OF fnv_prime_unit])
  then have "?m a = ?m b" by (simp only: xor_cancel_right)
  then have "1469598103934665603 XOR (a XOR drop_bit 32 a) = 1469598103934665603 XOR (b XOR drop_bit 32 b)"
    by (rule mult_unit_inj [OF fnv_prime_unit])
  then have "a XOR drop_bit 32 a = b XOR drop_bit 32 b"
    by (simp only: xor_cancel_left)
  then show ?thesis by (rule xor_shift_inj [rotated]) simp
qed

section \<open>Results\<close>

datatype error = Error (er_code: error_code) (er_message: string)

definition error_ok :: "error \<Rightarrow> bool" where
  "error_ok e = (er_code e = EC_OK)"

definition make_error :: "error_code \<Rightarrow> string \<Rightarrow> error" where
  "make_error code msg = Error code msg"

record 'a result =
  rs_value :: 'a
  rs_error :: error
  rs_ok :: bool

definition result_of_value :: "'a \<Rightarrow> 'a result" where
  "result_of_value v = \<lparr> rs_value = v, rs_error = Error EC_OK [], rs_ok = True \<rparr>"

text \<open>\<open>dflt\<close> is the value-initialised \<open>T\<close>.\<close>

definition result_failure :: "'a \<Rightarrow> error \<Rightarrow> 'a result" where
  "result_failure dflt err = \<lparr> rs_value = dflt, rs_error = err, rs_ok = False \<rparr>"

definition result_value_or :: "'a result \<Rightarrow> 'a \<Rightarrow> 'a" where
  "result_value_or r fallback = (if rs_ok r then rs_value r else fallback)"

text \<open>A result is one of the two kinds, whatever the code of its error: a failure with the code \<open>OK\<close> is still a failure.\<close>

lemma result_cases:
  "result_value_or (result_of_value v) fb = v" "result_value_or (result_failure d err) fb = fb"
  "rs_ok (result_of_value v)" "\<not> rs_ok (result_failure d err)"
  "error_ok (rs_error (result_of_value v))" "rs_error (result_failure d (make_error c m)) = Error c m"
  by (simp_all add: result_of_value_def result_failure_def result_value_or_def error_ok_def make_error_def)

section \<open>The alternatives of a property value\<close>

fun pv_is_null :: "property_value \<Rightarrow> bool" where
  "pv_is_null PV_Null = True"
| "pv_is_null _ = False"

fun pv_is_bool :: "property_value \<Rightarrow> bool" where
  "pv_is_bool (PV_Bool _) = True"
| "pv_is_bool _ = False"

fun pv_is_int :: "property_value \<Rightarrow> bool" where
  "pv_is_int (PV_Int _) = True"
| "pv_is_int _ = False"

fun pv_is_uint :: "property_value \<Rightarrow> bool" where
  "pv_is_uint (PV_Uint _) = True"
| "pv_is_uint _ = False"

fun pv_is_double :: "property_value \<Rightarrow> bool" where
  "pv_is_double (PV_Double _) = True"
| "pv_is_double _ = False"

fun pv_is_string :: "property_value \<Rightarrow> bool" where
  "pv_is_string (PV_String _) = True"
| "pv_is_string _ = False"

fun pv_is_string_array :: "property_value \<Rightarrow> bool" where
  "pv_is_string_array (PV_StringArray _) = True"
| "pv_is_string_array _ = False"

fun pv_is_int_array :: "property_value \<Rightarrow> bool" where
  "pv_is_int_array (PV_IntArray _) = True"
| "pv_is_int_array _ = False"

text \<open>The accessors are total exactly on the alternative their predicate tests.\<close>

lemma pv_accessors:
  "pv_as_bool v \<noteq> None \<longleftrightarrow> pv_is_bool v" "pv_as_int v \<noteq> None \<longleftrightarrow> pv_is_int v" "pv_as_uint v \<noteq> None \<longleftrightarrow> pv_is_uint v"
  "pv_as_double v \<noteq> None \<longleftrightarrow> pv_is_double v" "pv_as_string v \<noteq> None \<longleftrightarrow> pv_is_string v"
  "pv_as_string_array v \<noteq> None \<longleftrightarrow> pv_is_string_array v" "pv_as_int_array v \<noteq> None \<longleftrightarrow> pv_is_int_array v"
  by (cases v; simp)+

lemma pv_one_alternative:
  "length (filter (\<lambda>p. p v) [pv_is_null, pv_is_bool, pv_is_int, pv_is_uint, pv_is_double, pv_is_string,
     pv_is_string_array, pv_is_int_array]) = 1"
  by (cases v) simp_all

end
