(* ===== verification/Spec2Isabelle.thy ===== *)
theory Spec2Isabelle
  imports TF_Negative TF_Runs TF_Bench TF_Examples TF_Document TF_Values
begin

text \<open>
  Topology Fabric: a verification development of the core of the library.

  The program models a machine as a graph of hardware resources. Providers contribute nodes and edges;
  \<open>SnapshotBuilder\<close> collects them into an immutable \<open>TopologySnapshot\<close>, which it validates; the query
  functions walk a snapshot: hierarchy, locality, shortest and cheapest paths, distances, rankings,
  explanations, comparisons of two snapshots. \<open>TopologyRuntime\<close> runs the providers, merges what they
  contribute, publishes a snapshot with its generation, and writes and reads snapshots as JSON. Six built-in
  providers read the operating system and the CUDA driver; a command line tool prints what the queries yield.

  The theories follow the program's parts.

  \<^item> \<open>TF_Prelude\<close>: errors (\<open>result.hpp\<close>), hash maps as lists with distinct keys in an arbitrary
    order, ordered maps, \<open>std::sort\<close>; the interfaces \<open>keyed_store\<close> and \<open>sort_order\<close>.
  \<^item> \<open>TF_Types\<close>: the enumerations and their names (\<open>types.hpp\<close>, \<open>types.cpp\<close>), one codec contract.
  \<^item> \<open>TF_Float64\<close>: \<open>double\<close>, as exact rationals rounded to nearest even, with infinities,
    not-a-number and the negative zero; the interface \<open>cost_order\<close> says what a search needs of costs.
  \<^item> \<open>TF_NodeId\<close>, \<open>TF_Data\<close>: ids and hashing, property values, capabilities, confidence,
    provenance, native identities, nodes and edges.
  \<^item> \<open>TF_Snapshot\<close>: builder, validation, \<open>take\<close>, adjacency (\<open>snapshot.cpp\<close>); the states a
    client can bring a builder to are the inductive predicate \<open>builder_reach\<close>.
  \<^item> \<open>TF_Graph\<close>, \<open>TF_Locality\<close>: \<open>graph.cpp\<close> and the classification in \<open>locality.cpp\<close>.
  \<^item> \<open>TF_Search\<close>: one best-first search over an arbitrary cost order, with its invariant; both
    searches of \<open>path.cpp\<close> are instances. \<open>TF_EdgeCost\<close>, \<open>TF_Path\<close>, \<open>TF_Shortest\<close>,
    \<open>TF_Dijkstra\<close>: \<open>internal.hpp\<close>, \<open>path.cpp\<close> and the two correctness proofs.
  \<^item> \<open>TF_Cost\<close>, \<open>TF_Ranking\<close>, \<open>TF_Diff\<close>: \<open>cost.cpp\<close>, \<open>distance_between\<close>, \<open>ranking.cpp\<close>,
    \<open>diff.cpp\<close>.
  \<^item> \<open>TF_Merge\<close>: \<open>merge.cpp\<close>, with the enumeration orders of its hash maps as parameters.
  \<^item> \<open>TF_Text\<close>, \<open>TF_Json\<close>, \<open>TF_JsonText\<close>: numbers as text, the values, writer and parser of
    \<open>json.hpp\<close>, and the round trip: \<open>reread\<close> says what writing and parsing make of a value.
  \<^item> \<open>TF_Serialization\<close>, \<open>TF_SnapshotText\<close>: \<open>serialization.cpp\<close>; every record is an
    interpretation of the contract \<open>json_codec\<close>, on which the round trip of snapshots rests.
  \<^item> \<open>TF_Runtime\<close>, \<open>TF_Runs\<close>: \<open>runtime.cpp\<close>. What comes from outside is the record
    \<open>outside\<close>; the inductive predicate \<open>runtime_run\<close> has the states that calls can bring about, with the
    snapshots published so far.
  \<^item> \<open>TF_Registry\<close>, \<open>TF_Telemetry\<close>: the two classes guarded by a mutex; every method locks it for
    its whole body, so a run is a sequence of calls.
  \<^item> \<open>TF_Platform\<close>, \<open>TF_Cpu\<close>, \<open>TF_Pci\<close>, \<open>TF_Cuda\<close>, \<open>TF_Builtin\<close>: the providers of \<open>src/providers\<close>, each as
    a function of the answers of the system calls it makes, and all six together in a discovery.
  \<^item> \<open>TF_Cli\<close>, \<open>TF_Selftest\<close>: \<open>main.cpp\<close>, every command as a function of its arguments and the discovered
    snapshot to the printed text and the exit code.
  \<^item> \<open>TF_Store\<close>: the JSON value as it stands in memory, with the shared pointers of arrays and objects in an
    explicit store; \<open>denotes\<close> relates it to the trees of \<open>TF_Json\<close>. \<open>TF_Document\<close>: \<open>snapshot_to_json\<close> and the
    functions it calls over this store, each allocation and each \<open>set\<close> where \<open>serialization.cpp\<close> has it; the predicate
    \<open>builds\<close> says that a builder makes a given tree in new cells, each with one owner, one lemma per function.
  \<^item> \<open>TF_Demos\<close>, \<open>TF_Bench\<close>, \<open>TF_Examples\<close>: the programs of \<open>examples\<close> and \<open>benchmarks\<close>; a round of the
    graph benchmark for any size up to 25,000, and what the examples that build their own graph print.
  \<^item> \<open>TF_Values\<close>: \<open>std::hash\<close> of ids and edge keys, \<open>Result<T>\<close> and the alternatives of a property value.
  \<^item> \<open>TF_Negative\<close>: a policy with a negative entry under which \<open>lowest_cost_path\<close> does not return.
  \<^item> \<open>TF_Example\<close>: a small snapshot made with the builder, on which the properties are instantiated.

  Conventions. A function that may throw \<open>TopologyError\<close> returns \<open>terror + 'a\<close>; reading a document may
  also throw \<open>std::bad_variant_access\<close> and returns \<open>exception + 'a\<close>. A loop that may not
  end (the walk along the parent map, the search under a policy with negative entries) is a partial
  function whose value \<open>None\<close> means that it does not return; the properties state that it returns. The
  parser recurses with fuel, which its depth limit bounds: \<open>parse_total\<close> shows that it is enough for
  every text. All other loops are total functions with termination proofs. Integers have their C++
  width; \<open>size_t\<close> counts of elements are natural numbers, and the \<open>int\<close> counters of a distance and of the topological
  sort are integers, bounded by the numbers of segments and edges (\<open>counter_bounds\<close>, \<open>in_degrees_bound\<close>). Strings are
  lists of 8-bit characters. \<open>std::invalid_argument\<close> of \<open>from_hex\<close> is an error with the code \<open>EC_INVALID_ARGUMENT\<close>.

  What depends on the order in which a hash map enumerates its entries is stated for every order.

  Not modelled: allocation failure; threads beyond the sequences of atomic operations; the standard library below the operations named above
  (\<open>std::sort\<close> is assumed to sort, as the standard requires for a strict weak order); the system calls of the
  providers and the conversion of wide text, whose results are arguments; the form in which a stream prints
  a double; the times that the benchmarks measure; the test programs.

  The properties are stated at the end of their component's theory where they concern one component,
  and here where they span several: they are about valid snapshots, that is snapshots that \<open>take\<close>
  returned and whose own validation result is positive.
\<close>

section \<open>Validated snapshots\<close>

lemmas valid_facts = valid_wf valid_closed valid_acyclic

lemma ex_route: "route ex_snapshot c (NodeId 0 3) [(NodeId 0 3, 1, NodeId 0 2), (NodeId 0 2, 2, NodeId 0 4)] (NodeId 0 4)"
  by (simp add: link_def ex_snapshot_edges ex_edge_def default_edge_def collocation_edge_def)

lemma ex_joined: "joined ex_snapshot (NodeId 0 3) (NodeId 0 4)"
  using ex_route unfolding joined_def by blast

lemma ex_no_route: "\<not> route ex_snapshot c (NodeId 0 3) ts (NodeId 0 5)"
proof
  have step: "route ex_snapshot c x ts y \<Longrightarrow> x \<noteq> NodeId 0 5 \<Longrightarrow> y \<noteq> NodeId 0 5" for x ts y
  proof (induction ts arbitrary: x)
    case (Cons t ts)
    obtain u e v where t: "t = (u, e, v)" by (metis surj_pair)
    have l: "link ex_snapshot c u e v" using Cons.prems(1) unfolding t route.simps by blast
    then have "e < 3" by (simp add: link_def ex_snapshot_edges)
    then consider "e = 0" | "e = 1" | "e = 2" by linarith
    then have "v \<noteq> NodeId 0 5"
      using l by cases (auto simp: link_def ex_snapshot_edges ex_edge_def default_edge_def)
    then show ?case using Cons t by auto
  qed simp
  assume "route ex_snapshot c (NodeId 0 3) ts (NodeId 0 5)"
  from step [OF this] show False by simp
qed

section \<open>Properties: paths\<close>

text \<open>C2: on every valid snapshot the breadth-first search between two known nodes returns; it finds a
  path exactly when the nodes are connected by edges (collocation edges only on demand), and the path
  it returns is a route with the least number of edges.\<close>

theorem shortest_path_correct:
  assumes "valid_snapshot s" and "find_node s a \<noteq> None" and "find_node s b \<noteq> None"
  shows "\<exists>p. shortest_path s a b c = Some (Inr p) \<and> p_source p = a \<and> p_destination p = b
    \<and> (p_found p \<longleftrightarrow> (\<exists>ts. route s c a ts b))
    \<and> (p_found p \<longrightarrow> route s c a (map hop (p_segments p)) b
          \<and> (\<forall>ts. route s c a ts b \<longrightarrow> length (p_segments p) \<le> length ts)
          \<and> p_hop_count p = of_nat (length (p_segments p)))"
  using assms by (intro shortest_path_total valid_facts)

theorem shortest_path_correct_witness:
  "\<exists>p. shortest_path ex_snapshot (NodeId 0 3) (NodeId 0 4) False = Some (Inr p) \<and> p_found p
     \<and> length (p_segments p) \<le> 2"
  using shortest_path_correct [OF ex_valid, of "NodeId 0 3" "NodeId 0 4" False] ex_route [of False]
  by (fastforce simp: ex_find)

text \<open>C1: on every valid snapshot, under a policy and edge metrics without negative entries, the
  lowest-cost search between two known nodes returns; it finds a path exactly when the nodes are
  connected, the path is a route of least cost with respect to the 64-bit floating-point sums in route
  order, and the total it reports is the sum of its segment costs from the destination backwards plus
  the NUMA penalty.\<close>

theorem lowest_cost_path_correct:
  assumes "valid_snapshot s" and "policy_ok s w" and "find_node s a = Some na" and "find_node s b = Some nb"
  shows "\<exists>p. lowest_cost_path s a b w = Some (Inr p)
    \<and> (p_found p \<longleftrightarrow> (\<exists>ts. route s False a ts b))
    \<and> (p_found p \<longrightarrow> route s False a (map hop (p_segments p)) b
          \<and> (\<forall>ts. route s False a ts b \<longrightarrow>
                f64_le (route_cost s w (map hop (p_segments p))) (route_cost s w ts))
          \<and> p_total_cost p = add_if (crosses_numa na nb \<and> a \<noteq> b) (w_numa_penalty w)
                (foldl f64_add (F_Fin 0) (map g_edge_cost (rev (p_segments p)))))"
  using lowest_cost_path_total [OF valid_wf valid_closed assms(2-4)] assms(1) by blast

theorem lowest_cost_path_correct_witness:
  "\<exists>p. lowest_cost_path ex_snapshot (NodeId 0 3) (NodeId 0 4) default_weights = Some (Inr p) \<and> p_found p"
  using lowest_cost_path_correct [OF ex_valid ex_policy ex_find(3,4)] ex_route [of False] by blast

text \<open>C26: on every valid snapshot the distance between two different known nodes is computed without
  an exception; the hop count is the least number of edges of a route, read as a 32-bit integer, and
  for unconnected nodes -1 with the score 1; the hop count does not depend on the direction.\<close>

theorem distance_correct:
  assumes "valid_snapshot s" and "find_node s a \<noteq> None" and "find_node s b \<noteq> None" and "a \<noteq> b"
  shows "\<exists>d d'. distance_between s a b w = Some (Inr d) \<and> distance_between s b a w = Some (Inr d')
    \<and> (if \<exists>ts. route s False a ts b
       then db_graph_hops d = sint (of_nat (hop_distance s a b) :: 32 word)
       else db_graph_hops d = -1 \<and> db_normalized_score d = F_Fin 1)
    \<and> db_graph_hops d = db_graph_hops d'"
proof -
  obtain na nb where n: "find_node s a = Some na" "find_node s b = Some nb" using assms(2,3) by auto
  note wf = valid_wf [OF assms(1)] and closed = valid_closed [OF assms(1)]
  show ?thesis
    using distance_total [OF wf closed n assms(4), of w]
      distance_total [OF wf closed n(2,1) assms(4) [symmetric], of w]
      connected_sym [of s False a b] hop_distance_sym [of s a b]
    by (auto split: if_splits)
qed

theorem distance_correct_witness:
  "\<exists>d. distance_between ex_snapshot (NodeId 0 3) (NodeId 0 5) default_weights = Some (Inr d)
     \<and> db_graph_hops d = -1"
  using distance_correct [OF ex_valid, of "NodeId 0 3" "NodeId 0 5" default_weights] ex_no_route [of False]
  by (auto simp: ex_find)

section \<open>Properties: costs\<close>

text \<open>C30: whatever the weights and the metrics are, not-a-number and infinities included, the
  traversal cost of an edge is a finite double; without negative entries it is not negative.\<close>

theorem edge_cost_guarded:
  "f64_finite (edge_traversal_cost u v e w)
   \<and> (\<not> (weights_nonneg w \<and> metrics_ok e) \<or> f64_le (F_Fin 0) (edge_traversal_cost u v e w))"
  using edge_cost_finite [of u v e w] edge_cost_ok [of w e u v] by (auto simp: is_cost_def)

theorem edge_cost_guarded_witness:
  "f64_le (F_Fin 0) (edge_traversal_cost default_node default_node default_edge default_weights)"
  using edge_cost_guarded [of default_node default_node default_edge default_weights]
    default_weights_nonneg default_edge_metrics by blast

text \<open>C29: the breakdown of a route's cost succeeds on every valid snapshot, and each of its components is the sum,
  in route order, of what the edges contribute to it: the hop penalty and the policy penalty at every edge, the latency
  and the bandwidth term of the edge, the PCI bridge penalty where the edge is walked to a bridge, the root crossing penalty
  where it is walked to a PCI root, the transition penalty where the hardware class changes, the uncertainty penalty
  where the confidence of the edge is low; the NUMA penalty once, by the two ends. The total is their sum, and under a
  policy and metrics without negative entries and without NaN it is not negative, or not a number.\<close>

theorem cost_breakdown_correct:
  assumes "valid_snapshot s" and "policy_ok s w" and "route s c (p_source p) (map hop (p_segments p)) (p_destination p)"
    and "find_node s (p_source p) = Some ns" and "find_node s (p_destination p) = Some nd"
  shows "\<exists>cb. cost_breakdown s p w = Inr cb
    \<and> cb_hop_penalty cb = foldl f64_add (F_Fin 0) (replicate (length (p_segments p)) (w_hop_penalty w))
    \<and> cb_latency_term cb = foldl f64_add (F_Fin 0) (map (latency_share w) (steps s (p_segments p)))
    \<and> cb_inverse_bandwidth_term cb = foldl f64_add (F_Fin 0) (map (bandwidth_share w) (steps s (p_segments p)))
    \<and> cb_pci_bridge_penalty cb = sum_over (\<lambda>(u, v, e). n_type v = NT_PCI_BRIDGE) (\<lambda>_. w_pci_bridge_penalty w)
        (steps s (p_segments p)) (F_Fin 0)
    \<and> cb_root_crossing_penalty cb = sum_over (\<lambda>(u, v, e). n_type v = NT_PCI_ROOT) (\<lambda>_. w_root_crossing_penalty w)
        (steps s (p_segments p)) (F_Fin 0)
    \<and> cb_node_transition_penalty cb = sum_over (\<lambda>(u, v, e). hardware_class (n_type u) \<noteq> hardware_class (n_type v))
        (\<lambda>_. w_node_transition_penalty w) (steps s (p_segments p)) (F_Fin 0)
    \<and> cb_uncertainty_penalty cb = sum_over (\<lambda>(u, v, e). low_confidence e) (\<lambda>_. w_uncertainty_penalty w)
        (steps s (p_segments p)) (F_Fin 0)
    \<and> cb_policy_penalty cb = foldl f64_add (F_Fin 0) (replicate (length (p_segments p)) (w_policy_penalty w))
    \<and> cb_numa_penalty cb = (if crosses_numa ns nd then f64_add (F_Fin 0) (w_numa_penalty w) else F_Fin 0)
    \<and> cb_policy_version cb = w_version w
    \<and> cb_total cb = breakdown_total cb \<and> (cb_total cb = F_NaN \<or> f64_le (F_Fin 0) (cb_total cb))"
proof -
  note closed = valid_closed [OF assms(1)] and on = route_on_route [OF assms(3)]
  note parts = cost_breakdown_route [OF closed on assms(4,5), of w]
  then obtain cb where cb: "cost_breakdown s p w = Inr cb" by blast
  have "cb_total cb = F_NaN \<or> f64_le (F_Fin 0) (cb_total cb)"
    using breakdown_nonneg(1) [OF assms(2) on closed cb] by (auto simp: is_cost_or_nan_def is_cost_def)
  with parts cb show ?thesis by simp
qed

text \<open>The route from one accelerator of the example to the other, over the PCI root.\<close>

definition ex_path :: topology_path where
  "ex_path = default_path \<lparr> p_source := NodeId 0 3, p_destination := NodeId 0 4,
     p_segments := [\<lparr> g_from = NodeId 0 3, g_to = NodeId 0 2, g_edge_index = 1, g_edge_type = ET_CONTAINS, g_edge_cost = F_Fin 0 \<rparr>,
                    \<lparr> g_from = NodeId 0 2, g_to = NodeId 0 4, g_edge_index = 2, g_edge_type = ET_CONTAINS, g_edge_cost = F_Fin 0 \<rparr>] \<rparr>"

theorem cost_breakdown_correct_witness:
  "\<exists>cb. cost_breakdown ex_snapshot ex_path default_weights = Inr cb \<and> cb_pci_bridge_penalty cb = F_Fin 0
    \<and> cb_hop_penalty cb = foldl f64_add (F_Fin 0) [w_hop_penalty default_weights, w_hop_penalty default_weights]
    \<and> cb_root_crossing_penalty cb = f64_add (F_Fin 0) (w_root_crossing_penalty default_weights)"
proof -
  have ends: "p_source ex_path = NodeId 0 3" "p_destination ex_path = NodeId 0 4"
    "map hop (p_segments ex_path) = [(NodeId 0 3, 1, NodeId 0 2), (NodeId 0 2, 2, NodeId 0 4)]"
    by (simp_all add: ex_path_def hop_def)
  have route: "route ex_snapshot False (p_source ex_path) (map hop (p_segments ex_path)) (p_destination ex_path)"
    unfolding ends by (rule ex_route)
  have known: "find_node ex_snapshot (p_source ex_path) = Some (ex_node 3 NT_ACCELERATOR)"
    "find_node ex_snapshot (p_destination ex_path) = Some (ex_node 4 NT_ACCELERATOR)" by (simp_all add: ends ex_find)
  obtain cb where cb: "cost_breakdown ex_snapshot ex_path default_weights = Inr cb"
    "cb_hop_penalty cb = foldl f64_add (F_Fin 0) (replicate (length (p_segments ex_path)) (w_hop_penalty default_weights))"
    "cb_pci_bridge_penalty cb = sum_over (\<lambda>(u, v, e). n_type v = NT_PCI_BRIDGE) (\<lambda>_. w_pci_bridge_penalty default_weights)
        (steps ex_snapshot (p_segments ex_path)) (F_Fin 0)"
    "cb_root_crossing_penalty cb = sum_over (\<lambda>(u, v, e). n_type v = NT_PCI_ROOT) (\<lambda>_. w_root_crossing_penalty default_weights)
        (steps ex_snapshot (p_segments ex_path)) (F_Fin 0)"
    using cost_breakdown_correct [OF ex_valid ex_policy route known] by blast
  have "steps ex_snapshot (p_segments ex_path) =
      [(ex_node 3 NT_ACCELERATOR, ex_node 2 NT_PCI_ROOT, ex_edge 2 3), (ex_node 2 NT_PCI_ROOT, ex_node 4 NT_ACCELERATOR, ex_edge 2 4)]"
    using ex_find by (simp add: steps_def ex_path_def ex_snapshot_edges node_of_def)
  moreover have "n_type (ex_node i t) = t" for i t by (simp add: ex_node_def)
  moreover have "replicate (length (p_segments ex_path)) x = [x, x]" for x :: f64 by (simp add: ex_path_def)
  ultimately show ?thesis using cb by (auto simp: add_if_def)
qed

text \<open>The normalised score of a finite total that is not negative lies between 0 and 1, both ends
  included.\<close>

theorem score_in_unit_interval:
  assumes "is_cost t" and "f64_finite t"
  shows "f64_le (F_Fin 0) (normalized_score t) \<and> f64_le (normalized_score t) (F_Fin 1)"
  using normalized_score_range [OF assms] by blast

theorem score_in_unit_interval_witness:
  "f64_le (F_Fin 0) (normalized_score (F_Fin 3)) \<and> f64_le (normalized_score (F_Fin 3)) (F_Fin 1)"
  using score_in_unit_interval [of "F_Fin 3"] is_cost_numeral [of "num.Bit1 num.One"]
  by (simp add: f64_finite_def f64_isinf_def)

section \<open>Properties: hierarchy and locality\<close>

text \<open>C28: on any snapshot, cyclic ones included, both closures terminate and list, without duplicates,
  exactly the nodes that can be reached over at least one edge of the type; one is the converse of the
  other.\<close>

theorem closures_are_reachability:
  "distinct (ancestors s i t) \<and> set (ancestors s i t) = {a. (a, i) \<in> (edge_rel s t)\<^sup>+}
   \<and> distinct (descendants s i t) \<and> set (descendants s i t) = {d. (i, d) \<in> (edge_rel s t)\<^sup>+}
   \<and> (a \<in> set (ancestors s i t) \<longleftrightarrow> i \<in> set (descendants s a t))"
  by (intro conjI ancestors descendants ancestors_descendants)

text \<open>In a valid snapshot no node is among its own containment ancestors or descendants.\<close>

theorem containment_is_strict:
  assumes "valid_snapshot s"
  shows "i \<notin> set (ancestors s i ET_CONTAINS) \<and> i \<notin> set (descendants s i ET_CONTAINS)"
  using not_own_ancestor [OF valid_acyclic [OF assms]] by (simp add: ancestors_descendants [symmetric])

theorem containment_is_strict_witness:
  "NodeId 0 2 \<notin> set (ancestors ex_snapshot (NodeId 0 2) ET_CONTAINS)
   \<and> NodeId 0 2 \<in> set (ancestors ex_snapshot (NodeId 0 3) ET_CONTAINS)"
proof -
  have "(NodeId 0 2, NodeId 0 3) \<in> edge_rel ex_snapshot ET_CONTAINS"
    unfolding edge_rel_def ex_snapshot_edges by (force simp: ex_edge_def)
  then have "NodeId 0 2 \<in> set (ancestors ex_snapshot (NodeId 0 3) ET_CONTAINS)" by (auto simp: ancestors)
  then show ?thesis using containment_is_strict [OF ex_valid, of "NodeId 0 2"] by blast
qed

text \<open>The siblings of a node are, without duplicates, the other nodes with a parent in common, and
  being a sibling is symmetric.\<close>

theorem siblings_share_a_parent:
  "distinct (siblings s i t)
   \<and> set (siblings s i t) = {c. c \<noteq> i \<and> (\<exists>p. (p, i) \<in> edge_rel s t \<and> (p, c) \<in> edge_rel s t)}
   \<and> (c \<in> set (siblings s i t) \<longleftrightarrow> i \<in> set (siblings s c t))"
  by (intro conjI siblings siblings_sym)

text \<open>C27: \<open>root_ancestor\<close> terminates on any snapshot and returns the nearest node of the type on the
  chain of first containment parents, the node itself included; it returns the null id exactly when the
  chain ends, repeats or leaves the known nodes before such a node.\<close>

theorem root_ancestor_nearest:
  "(root_ancestor s i t = r \<and> r \<noteq> kNullNodeId \<longleftrightarrow> (\<exists>m. parent_chain s i m = Some r \<and> has_type s t r
      \<and> (\<forall>k < m. \<exists>c. parent_chain s i k = Some c \<and> passes s c \<and> \<not> has_type s t c)))
   \<and> (root_ancestor s i t = kNullNodeId \<or> (root_ancestor s i t, i) \<in> (edge_rel s ET_CONTAINS)\<^sup>*)"
  using root_ancestor_iff [of s i t r] root_ancestor_contains(1) [of s i t] unfolding nearest_def by blast

theorem root_ancestor_nearest_witness:
  "root_ancestor ex_snapshot (NodeId 0 2) NT_PCI_ROOT = NodeId 0 2"
proof -
  have "parent_chain ex_snapshot (NodeId 0 2) 0 = Some (NodeId 0 2) \<and> has_type ex_snapshot NT_PCI_ROOT (NodeId 0 2)
    \<and> (\<forall>k < (0::nat). \<exists>c. parent_chain ex_snapshot (NodeId 0 2) k = Some c \<and> passes ex_snapshot c
        \<and> \<not> has_type ex_snapshot NT_PCI_ROOT c)"
    by (simp add: has_type_def ex_find kNullNodeId_def ex_node_def)
  then show ?thesis
    using root_ancestor_nearest [of ex_snapshot "NodeId 0 2" NT_PCI_ROOT "NodeId 0 2"] by blast
qed

text \<open>C34: on a valid snapshot the locality and the path class of two known nodes are defined and do
  not depend on their order; the locality is \<open>EXACT\<close> for equal nodes only, and for different nodes the
  classes \<open>SAME_OBJECT\<close>, \<open>SAME_PCI_DEVICE\<close> and \<open>EXTERNAL\<close> are never assigned.\<close>

theorem classification_symmetric:
  assumes "valid_snapshot s" and "find_node s a \<noteq> None" and "find_node s b \<noteq> None"
  shows "\<exists>l c. locality_between s a b = Inr l \<and> locality_between s b a = Inr l
    \<and> classify_path s a b = Inr c \<and> classify_path s b a = Inr c
    \<and> (l = LC_EXACT \<longleftrightarrow> a = b) \<and> (a = b \<or> c \<notin> {PC_SAME_OBJECT, PC_SAME_PCI_DEVICE, PC_EXTERNAL})"
  using locality_total [OF assms(2,3)] locality_sym [OF assms(2,3)] locality_exact_iff [of s a b]
    classify_total [OF valid_closed [OF assms(1)] assms(2,3)]
    classify_sym [OF valid_closed [OF assms(1)] assms(2,3)] classify_range [of s a b]
  by fastforce

theorem classification_symmetric_witness:
  "\<exists>c. classify_path ex_snapshot (NodeId 0 3) (NodeId 0 4) = Inr c
     \<and> classify_path ex_snapshot (NodeId 0 4) (NodeId 0 3) = Inr c \<and> c \<noteq> PC_SAME_PCI_DEVICE"
  using classification_symmetric [OF ex_valid, of "NodeId 0 3" "NodeId 0 4"] by (auto simp: ex_find)

section \<open>Properties: ranking\<close>

text \<open>C8: on a valid snapshot, under a policy and metrics without negative entries and a policy without not-a-number,
  with a known source, ranking a list of candidates returns every known candidate connected to the source, other than the source itself, once per
  occurrence, at the total cost of its lowest-cost path, in ascending order of cost and then id.\<close>

theorem ranking_correct:
  assumes "valid_snapshot s" and "policy_ok s w" and "find_node s src \<noteq> None"
  shows "\<exists>rr. rank_candidate_list s src is w = Some (Inr rr) \<and> rr_source rr = src
    \<and> (rr_found rr \<longleftrightarrow> rr_ranked rr \<noteq> [])
    \<and> mset (map k_id (rr_ranked rr)) = mset (filter (\<lambda>i. i \<noteq> src \<and> find_node s i \<noteq> None \<and> joined s src i) is)
    \<and> sorted_wrt (\<lambda>a b. (f64_key (k_cost a), k_id a) \<le> (f64_key (k_cost b), k_id b)) (rr_ranked rr)
    \<and> (\<forall>e \<in> set (rr_ranked rr). \<exists>p. lowest_cost_path s src (k_id e) w = Some (Inr p) \<and> k_cost e = p_total_cost p)"
proof -
  have "filter (joined s src) (filter (rankable s src) is) =
      filter (\<lambda>i. i \<noteq> src \<and> find_node s i \<noteq> None \<and> joined s src i) is"
    by (simp add: rankable_def conj_ac)
  then show ?thesis
    using rank_candidate_list_total [OF valid_wf valid_closed assms(2,3), of "is"] assms(1)
    by (auto simp: ranking_of_def)
qed

theorem ranking_correct_witness:
  "\<exists>rr. rank_candidate_list ex_snapshot (NodeId 0 3) [NodeId 0 4, NodeId 0 3] default_weights = Some (Inr rr)
     \<and> map k_id (rr_ranked rr) = [NodeId 0 4]"
proof -
  have "filter (\<lambda>i. i \<noteq> NodeId 0 3 \<and> find_node ex_snapshot i \<noteq> None \<and> joined ex_snapshot (NodeId 0 3) i)
      [NodeId 0 4, NodeId 0 3] = [NodeId 0 4]"
    by (simp add: ex_joined ex_find)
  then show ?thesis
    using ranking_correct [OF ex_valid ex_policy, of "NodeId 0 3" "[NodeId 0 4, NodeId 0 3]"] ex_find
    by (metis mset.simps mset_single_iff option.distinct(1))
qed

text \<open>C11: on a valid snapshot, under a policy and metrics without negative entries and a policy without not-a-number, the
  ranking does not depend on the order in which the candidates are given: the same candidates in another
  order give the same result. (With a not-a-number the comparison of the code is no strict weak order.)\<close>

theorem ranking_deterministic:
  assumes "valid_snapshot s" and "policy_ok s w" and "mset is = mset js"
  shows "rank_candidate_list s src is w = rank_candidate_list s src js w"
  using assms by (intro rank_candidate_list_order valid_facts)

theorem ranking_deterministic_witness:
  "rank_candidate_list ex_snapshot (NodeId 0 2) [NodeId 0 4, NodeId 0 3] default_weights
   = rank_candidate_list ex_snapshot (NodeId 0 2) [NodeId 0 3, NodeId 0 4] default_weights"
  by (rule ranking_deterministic [OF ex_valid ex_policy]) (simp add: add_mset_commute)

text \<open>A positive limit cuts the full ranking of the nodes of a type to its first entries; the limit
  0 is none.\<close>

theorem ranking_limit:
  assumes "valid_snapshot s" and "policy_ok s w" and "find_node s src \<noteq> None"
  shows "\<exists>rr rr'. rank_candidates s src t 0 w = Some (Inr rr) \<and> rank_candidates s src t k w = Some (Inr rr')
    \<and> rr_ranked rr' = (if k = 0 then rr_ranked rr else take k (rr_ranked rr))
    \<and> (\<forall>e \<in> set (rr_ranked rr). \<exists>n. find_node s (k_id e) = Some n \<and> n_type n = t \<and> k_id e \<noteq> src)"
proof -
  note total = rank_candidates_total [OF valid_wf [OF assms(1)] valid_closed [OF assms(1)] assms(2,3)]
  obtain es where es: "ranking_of s src w (candidates_of_type s src t) es"
    "rank_candidates s src t 0 w = Some (Inr \<lparr> rr_found = (es \<noteq> []), rr_source = src, rr_ranked = es,
       rr_cost_policy_version = w_version w \<rparr>)" using total [of t 0] by auto
  obtain es' where es': "rank_candidates s src t k w = Some (Inr \<lparr> rr_found = (es' \<noteq> []), rr_source = src,
       rr_ranked = (if 0 < k then take k es' else es'), rr_cost_policy_version = w_version w \<rparr>)"
    and same: "es' = es"
    using es(2) rank_candidates_limit [OF valid_wf [OF assms(1)] valid_closed [OF assms(1)] assms(2,3), of t k]
    by auto
  have "\<exists>n. find_node s (k_id e) = Some n \<and> n_type n = t \<and> k_id e \<noteq> src" if "e \<in> set es" for e
  proof -
    have "set (map k_id es) = set (filter (joined s src) (candidates_of_type s src t))"
      using es(1) unfolding ranking_of_def by (metis mset_eq_setD)
    then have "k_id e \<in> set (candidates_of_type s src t)" using that by auto
    from candidates_rankable [OF wf_ok [OF valid_wf [OF assms(1)]] this] show ?thesis
      by (auto simp: rankable_def)
  qed
  with es es' same show ?thesis by auto
qed

theorem ranking_limit_witness:
  "\<exists>rr. rank_candidates ex_snapshot (NodeId 0 2) NT_ACCELERATOR 1 default_weights = Some (Inr rr)
     \<and> length (rr_ranked rr) \<le> 1"
  using ranking_limit [OF ex_valid ex_policy, of "NodeId 0 2" NT_ACCELERATOR 1] ex_find by fastforce

text \<open>On a valid snapshot an explanation of two different known nodes succeeds and reports the
  class, the locality and the cost breakdown of their lowest-cost path.\<close>

theorem explanation_correct:
  assumes "valid_snapshot s" and "policy_ok s w" and "find_node s a \<noteq> None" and "find_node s b \<noteq> None" and "a \<noteq> b"
  shows "\<exists>x p cb. explain s a b w = Some (Inr x) \<and> lowest_cost_path s a b w = Some (Inr p)
    \<and> cost_breakdown s p w = Inr cb \<and> x_cost x = cb \<and> x_path_class x = p_path_class p
    \<and> x_locality x = p_locality p \<and> x_factors x = explain_factors p cb"
  using explain_total [OF valid_wf valid_closed assms(2), of a _ b] assms by fast

theorem explanation_correct_witness:
  "\<exists>x. explain ex_snapshot (NodeId 0 3) (NodeId 0 4) default_weights = Some (Inr x)"
  using explanation_correct [OF ex_valid ex_policy, of "NodeId 0 3" "NodeId 0 4"] by (auto simp: ex_find)

section \<open>Properties: differences\<close>

text \<open>C9: the events of a comparison are sorted, and they do not depend on the order in which the hash
  maps and edge vectors of the two snapshots enumerate their elements, given unique edge keys in the
  first snapshot and no edge to the null id in the second.\<close>

theorem diff_deterministic:
  assumes "valid_snapshot s" and "valid_snapshot t" and "distinct (map edge_key (s_edges s))"
    and "ends_real (s_edges t)" and "reordered s s'" and "reordered t t'"
  shows "td_events (compare_snapshots s t) = td_events (compare_snapshots s' t')
    \<and> sorted_wrt (\<lambda>a b. event_key a \<le> event_key b) (td_events (compare_snapshots s t))"
  using compare_order [OF wf_ok [OF valid_wf] wf_ok [OF valid_wf] assms(3-6)] assms(1,2) events_sorted by blast

lemma ex_keys: "distinct (map edge_key (s_edges ex_snapshot))"
  by (simp add: ex_snapshot_edges edge_key_def ex_edge_def default_edge_def)

lemma ex_ends: "ends_real (s_edges ex_snapshot)"
  by (simp add: ends_real_def ex_snapshot_edges ex_edge_def kNullNodeId_def)

theorem diff_deterministic_witness:
  "td_events (compare_snapshots ex_snapshot ex_snapshot)
   = td_events (compare_snapshots (ex_snapshot \<lparr> s_nodes := rev (s_nodes ex_snapshot) \<rparr>) ex_snapshot)"
  using diff_deterministic [OF ex_valid ex_valid ex_keys ex_ends,
      of "ex_snapshot \<lparr> s_nodes := rev (s_nodes ex_snapshot) \<rparr>" ex_snapshot]
  by (simp add: reordered_def)

text \<open>C10: the material flag stays unset exactly when the two snapshots have the same node ids, common
  nodes have the same capabilities, provider, NUMA node, package and core, the same edge keys occur,
  and no edge's link facts differ from those of its first namesake.\<close>

theorem material_change_decides:
  assumes "valid_snapshot t"
  shows "\<not> is_material_change (compare_snapshots s t) \<longleftrightarrow>
    set (um_keys (s_nodes s)) = set (um_keys (s_nodes t))
    \<and> (\<forall>i na nb. find_node s i = Some na \<longrightarrow> find_node t i = Some nb \<longrightarrow>
          n_capabilities na = n_capabilities nb \<and> \<not> locality_changed na nb
          \<and> pr_provider (n_provenance na) = pr_provider (n_provenance nb))
    \<and> edge_key ` set (s_edges s) = edge_key ` set (s_edges t)
    \<and> (\<forall>e \<in> set (s_edges t). \<forall>ea. find (\<lambda>ae. edge_key ae = edge_key e) (s_edges s) = Some ea \<longrightarrow> \<not> link_changed ea e)"
  using not_material_iff [OF wf_ok [OF valid_wf [OF assms]], of s]
  by (simp add: is_material_change_def same_topology_def same_facts_def same_links_def find_node_def)

theorem material_change_decides_witness:
  "is_material_change (compare_snapshots (ex_snapshot \<lparr> s_edges := [] \<rparr>) ex_snapshot)"
  using material_change_decides [OF ex_valid, of "ex_snapshot \<lparr> s_edges := [] \<rparr>"]
  by (simp add: ex_snapshot_edges)

text \<open>Comparing a snapshot with itself gives no event, provided no compared number is a
  not-a-number, property keys are unique and edge keys are unique.\<close>

theorem diff_self_empty:
  assumes "comparable s"
  shows "td_events (compare_snapshots s s) = [] \<and> \<not> is_material_change (compare_snapshots s s)"
  using compare_self [OF assms] by (simp add: compare_snapshots_def is_material_change_def)

theorem diff_self_empty_witness:
  "comparable ex_snapshot \<and> td_events (compare_snapshots ex_snapshot ex_snapshot) = []"
proof -
  have "um_ok (s_nodes ex_snapshot)" by (rule wf_ok [OF valid_wf [OF ex_valid]])
  then have c: "comparable ex_snapshot"
    using ex_keys
    by (simp add: comparable_def edge_numbers_def ex_snapshot_edges ex_edge_def default_edge_def)
      (simp add: ex_snapshot_def take_snapshot_def ex_frame Let_def ex_nodes ex_node_def default_node_def om_ok_def)
  from diff_self_empty [OF c] c show ?thesis by blast
qed

text \<open>Additions and removals are dual: comparing two snapshots reports a node as added exactly when
  the second one alone knows it, which is when the opposite comparison reports it as removed.\<close>

theorem diff_dual:
  assumes "valid_snapshot t"
  shows "((\<exists>e \<in> set (td_events (compare_snapshots s t)). ev_kind e = DE_NODE_ADDED \<and> ev_node e = i)
      \<longleftrightarrow> find_node t i \<noteq> None \<and> find_node s i = None)
    \<and> ((\<exists>e \<in> set (td_events (compare_snapshots s t)). ev_kind e = DE_NODE_ADDED \<and> ev_node e = i)
      \<longleftrightarrow> (\<exists>e \<in> set (td_events (compare_snapshots t s)). ev_kind e = DE_NODE_REMOVED \<and> ev_node e = i))"
  unfolding events_raw node_added_iff [OF wf_ok [OF valid_wf [OF assms]]]
    node_removed_iff [OF wf_ok [OF valid_wf [OF assms]]] by blast

theorem diff_dual_witness:
  "\<exists>e \<in> set (td_events (compare_snapshots (ex_snapshot \<lparr> s_nodes := [] \<rparr>) ex_snapshot)).
     ev_kind e = DE_NODE_ADDED \<and> ev_node e = NodeId 0 1"
  using diff_dual [OF ex_valid, of "ex_snapshot \<lparr> s_nodes := [] \<rparr>" "NodeId 0 1"]
  using ex_find(1) by (simp add: find_node_def)

section \<open>Properties: documents\<close>

lemma ex_texts: "text_ok []" "text_ok ''1.0''"
  by (rule short_ok, simp add: short_def less_char_def)+

lemma ex_unknown_ok: "provenance_ok provenance_unknown"
  by (simp add: provenance_ok_def provenance_unknown_def ex_texts)

lemma ex_properties_ok: "properties_ok []"
  by (simp add: properties_ok_def)

lemma ex_node_ok: "node_ok (ex_node i t)"
  by (simp add: node_ok_def ex_node_def default_node_def native_ok_def default_native_def ex_texts ex_unknown_ok
      ex_properties_ok CAP_NONE_def)

lemma ex_edge_ok: "edge_ok (ex_edge i j)"
  by (simp add: edge_ok_def ex_edge_def default_edge_def ex_unknown_ok ex_properties_ok)

lemma ex_parts: "s_nodes ex_snapshot = bd_nodes ex_builder" "s_metadata ex_snapshot = default_metadata"
  "s_validation ex_snapshot = validate (bd_nodes ex_builder) (bd_edges ex_builder)"
proof -
  have "bd_metadata ex_builder = default_metadata" by (simp add: ex_builder_eq new_builder_def)
  then show "s_nodes ex_snapshot = bd_nodes ex_builder" "s_metadata ex_snapshot = default_metadata"
    "s_validation ex_snapshot = validate (bd_nodes ex_builder) (bd_edges ex_builder)"
    by (simp_all add: ex_snapshot_def take_snapshot_def ex_frame Let_def default_validation_def)
qed

lemma ex_messages: "v_errors (s_validation ex_snapshot) = []" "v_warnings (s_validation ex_snapshot) = []"
  unfolding ex_parts ex_nodes ex_edges by code_simp+

lemma ex_ok: "snapshot_ok ex_snapshot"
proof -
  have "\<forall>p \<in> set (s_nodes ex_snapshot). node_ok (snd p)" by (simp add: ex_parts ex_nodes ex_node_ok)
  then show ?thesis
    by (simp add: snapshot_ok_def ex_snapshot_edges ex_edge_ok ex_parts(2) ex_messages metadata_ok_def messages_ok_def
        default_metadata_def ex_texts)
qed

lemma node_size: "json_nodes (node_to_json i (ex_node j t)) \<le> 60"
proof -
  have "json_nodes (native_to_json default_native) \<le> 23"
    unfolding native_to_json_def by (rule order_trans [OF json_nodes_obj]) (simp add: optional_uint_def default_native_def)
  moreover have "json_nodes (provenance_to_json provenance_unknown) \<le> 9"
    unfolding provenance_to_json_def by (rule order_trans [OF json_nodes_obj]) simp
  moreover have "json_nodes (properties_to_json []) \<le> 1"
    unfolding properties_to_json_def by (rule order_trans [OF json_nodes_obj]) simp
  ultimately show ?thesis
    unfolding node_to_json_def by (intro order_trans [OF json_nodes_obj]) (simp add: ex_node_def default_node_def)
qed

lemma edge_size: "json_nodes (edge_to_json (ex_edge i j)) \<le> 60"
proof -
  have "json_nodes (provenance_to_json provenance_unknown) \<le> 9"
    unfolding provenance_to_json_def by (rule order_trans [OF json_nodes_obj]) simp
  moreover have "json_nodes (properties_to_json []) \<le> 1"
    unfolding properties_to_json_def by (rule order_trans [OF json_nodes_obj]) simp
  ultimately show ?thesis
    unfolding edge_to_json_def by (intro order_trans [OF json_nodes_obj]) (simp add: ex_edge_def default_edge_def optional_field_def)
qed

lemma ex_size: "json_nodes (document ex_snapshot) \<le> 1000"
proof -
  let ?ns = "map (\<lambda>n. node_to_json (n_id n) n) (nodes_by_id ex_snapshot)"
  let ?es = "map edge_to_json (sort_by edge_before (s_edges ex_snapshot))"
  have "v \<in> set ?ns \<Longrightarrow> json_nodes v \<le> 60" for v
    using id_order_node [OF valid_wf [OF ex_valid]] node_size
    by (fastforce simp: nodes_by_id_def ex_parts(1) ex_nodes)
  then have "sum_list (map json_nodes ?ns) \<le> length ?ns * 60" by (rule sum_list_bound)
  moreover have "length ?ns = 5" by (simp add: nodes_by_id_def id_order_def um_keys_def ex_parts(1) ex_nodes)
  ultimately have n: "sum_list (map json_nodes ?ns) \<le> 300" by linarith
  have "v \<in> set ?es \<Longrightarrow> json_nodes v \<le> 60" for v
    using edge_size by (auto simp: ex_snapshot_edges simp del: sort_by.simps)
  then have "sum_list (map json_nodes ?es) \<le> length ?es * 60" by (rule sum_list_bound)
  moreover have "length ?es = 3" by (simp add: ex_snapshot_edges)
  ultimately have e: "sum_list (map json_nodes ?es) \<le> 180" by linarith
  have v: "json_nodes (validation_to_json (s_validation ex_snapshot)) \<le> 4"
    unfolding validation_to_json_def by (rule order_trans [OF json_nodes_obj]) (simp add: ex_messages)
  show ?thesis
    unfolding document_def
    by (rule order_trans [OF json_nodes_obj]) (use n e v in \<open>simp add: ex_parts(2) default_metadata_def\<close>)
qed

text \<open>C3: a valid snapshot whose texts, numbers and properties the format can carry (\<open>snapshot_ok\<close>), whose
  document stays within the parser's limit on values and within the bounds of the reader, is read back from
  its written text: with the same nodes, the edges in the order of the document, and the metadata except
  for the schema version, which becomes that of the format; the result is a valid snapshot again.\<close>

theorem snapshot_round_trip:
  assumes "valid_snapshot s" and "snapshot_ok s" and "snapshot_to_json s = Inr v" and "json_nodes v \<le> po_max_nodes default_options"
    and "serialize_snapshot_json s indented = Inr jt" and "length jt \<le> b_max_snapshot_bytes bnd"
    and "length (s_nodes s) \<le> b_max_nodes bnd" and "length (s_edges s) \<le> b_max_edges bnd"
  shows "\<exists>s'. deserialize_snapshot_json ub jt bnd = Some (Inr s') \<and> valid_snapshot s'
    \<and> (\<forall>i. find_node s' i = find_node s i) \<and> s_edges s' = sort_by edge_before (s_edges s)
    \<and> s_metadata s' = (s_metadata s) \<lparr> m_schema_version := kSnapshotSchemaVersion \<rparr>"
proof -
  note wf = valid_wf [OF assms(1)]
  have v: "v = document s" and jt: "jt = dump (document s) (if indented then WM_Pretty else WM_Compact)"
    using assms(3,5) snapshot_document [OF wf] by (auto simp: serialize_snapshot_json_def)
  obtain bd bd' where bd: "builder_wf bd" "take_snapshot bd = Inr (bd', s)" and "v_ok (s_validation s)"
    using assms(1) builder_reach_wf by (auto simp: valid_snapshot_def made_snapshot_def)
  then have "graph_ok (s_nodes s) (s_edges s)" using take_snapshot_ok(2-4) [OF bd] by simp
  then show ?thesis
    using deserialize_written [OF wf assms(2,7,8), of "if indented then WM_Pretty else WM_Compact" ub]
      assms(4,6) deserialize_result [of ub jt bnd]
    unfolding v jt by (auto simp: find_node_def valid_snapshot_def)
qed

theorem snapshot_round_trip_witness:
  "\<exists>jt s'. serialize_snapshot_json ex_snapshot True = Inr jt
     \<and> deserialize_snapshot_json (\<lambda>d. 0) jt (default_bounds \<lparr> b_max_snapshot_bytes := length jt \<rparr>) = Some (Inr s')
     \<and> valid_snapshot s' \<and> find_node s' (NodeId 0 3) = Some (ex_node 3 NT_ACCELERATOR)"
proof -
  note doc = snapshot_document [OF valid_wf [OF ex_valid]]
  obtain jt where jt: "serialize_snapshot_json ex_snapshot True = Inr jt" by (simp add: serialize_snapshot_json_def doc)
  have "json_nodes (document ex_snapshot) \<le> po_max_nodes default_options"
    using ex_size by (simp add: default_options_def)
  from snapshot_round_trip [OF ex_valid ex_ok doc this jt, of "default_bounds \<lparr> b_max_snapshot_bytes := length jt \<rparr>" "\<lambda>d. 0"]
  show ?thesis using jt by (auto simp: ex_find ex_parts(1) ex_nodes ex_snapshot_edges default_bounds_def)
qed

end
